(* ===== verification/Kernel_Prelude.thy ===== *)
theory Kernel_Prelude
  imports Main "HOL-Library.Word"
begin

text \<open>
  Shared vocabulary of the development: the fixed-width integer types of
  \<^verbatim>\<open>src/include/stdint.h\<close>, the ways a kernel operation can fail to return, the
  development's theorem collections, and the facts on words, lists and finite sets that the
  component theories rely on.
\<close>

unbundle bit_operations_syntax

section \<open>Types\<close>

type_synonym u8 = "8 word"
type_synonym u16 = "16 word"
type_synonym u32 = "32 word"
type_synonym u64 = "64 word"

text \<open>
  A call that does not come back to its caller. \<open>Panic\<close> is the \<^verbatim>\<open>panic\<close> macro of
  \<^verbatim>\<open>src/kernel/include/sys.h\<close> (it ends in \<^verbatim>\<open>crash\<close>, which halts);
  \<open>Halt\<close> is the macro \<^verbatim>\<open>CPU_HALT\<close> of \<^verbatim>\<open>src/kernel/include/types.h\<close>.
\<close>

datatype stop = Panic | Halt

section \<open>Theorem collections\<close>

text \<open>
  \<open>frame_simps\<close> collects what an operation leaves unchanged, \<open>inv_intros\<close> the
  invariant-preservation rules.
\<close>

named_theorems frame_simps
named_theorems inv_intros

section \<open>Words\<close>

lemma word_gt_0_iff_bit: "(0 < (x :: 'a::len word)) \<longleftrightarrow> (\<exists>n < LENGTH('a). bit x n)"
proof -
  have "x = 0 \<longleftrightarrow> (\<forall>n < LENGTH('a). \<not> bit x n)"
    by (auto simp: bit_eq_iff)
  then show ?thesis
    by (auto simp: word_gt_0)
qed

lemma unat_mod_8_less [simp]: "unat ((i :: u64) mod 8) < 8"
  by (simp add: unat_mod)

lemma unat_ucast_mod_8 [simp]: "unat (ucast ((i :: u64) mod 8) :: u8) = unat (i mod 8)"
proof -
  have "unat (i mod 8) < 256"
    using unat_mod_8_less [of i] by linarith
  then show ?thesis
    by (simp add: unsigned_ucast_eq take_bit_eq_mod unat_mod)
qed

lemma u64_div_mod_8_eq: "((i :: u64) div 8 = j div 8 \<and> i mod 8 = j mod 8) \<longleftrightarrow> i = j"
  by (metis word_mod_div_equality)

text \<open>Page numbers and page addresses: a page number below \<open>2 ^ 52\<close> survives the trip.\<close>

lemma page_of_address: "(p :: u64) < 2 ^ 52 \<Longrightarrow> p * 4096 div 4096 = p"
proof -
  assume "p < 2 ^ 52"
  then have p: "unat p < 2 ^ 52"
    by (simp add: word_less_nat_alt)
  then have "unat (p * 4096) = unat p * 4096"
    by (simp add: unat_word_ariths)
  then show ?thesis
    by (simp add: word_unat_eq_iff unat_div)
qed

lemma u64_less_Suc: "(i :: u64) < j \<Longrightarrow> unat (i + 1) = Suc (unat i)"
  by unat_arith

lemma u64_less_diff: "(i :: u64) < j \<Longrightarrow> unat (j - (i + 1)) < unat (j - i)"
  by unat_arith

lemma of_nat_unat_less:
  assumes "t < unat (n :: u64)"
  shows "unat (of_nat t :: u64) = t"
proof -
  have "unat n < 2 ^ LENGTH(64)"
    by (rule unsigned_less)
  then have "t < 2 ^ 64"
    using assms by simp
  then show ?thesis
    by (simp add: unat_of_nat)
qed

text \<open>
  Sequencing of steps that may stop the machine: the rest runs only when the step returns.
\<close>

definition and_then :: "stop + 'a \<Rightarrow> ('a \<Rightarrow> stop + 'b) \<Rightarrow> stop + 'b" where
  "and_then r k = (case r of Inl e \<Rightarrow> Inl e | Inr x \<Rightarrow> k x)"

lemma and_then_simps [simp]:
  "and_then (Inl e) k = Inl e"
  "and_then (Inr x) k = k x"
  by (simp_all add: and_then_def)

lemma and_then_eq_Inr:
  "and_then r k = Inr y \<longleftrightarrow> (\<exists>x. r = Inr x \<and> k x = Inr y)"
  by (cases r) simp_all

lemma quotient_unique:
  fixes a b d e n :: nat
  assumes "a * n + d = b * n + e" "d < n" "e < n"
  shows "a = b \<and> d = e"
proof -
  have "(a * n + d) div n = a" "(b * n + e) div n = b"
    using assms(2,3) by simp_all
  then show ?thesis
    using assms(1) by simp
qed

text \<open>A word below \<open>2 ^ 63\<close> has the same value signed and unsigned.\<close>

lemma signed_small:
  assumes "unat (x :: u64) < 2 ^ 63"
  shows "sint x = int (unat x)"
proof -
  have "int (unat x) < int (2 ^ 63)"
    using assms by (simp only: of_nat_less_iff)
  then have "uint x < 2 ^ 63"
    by simp
  moreover have "- (2 ^ 63) \<le> uint x"
    by (rule order_trans [of _ 0]) simp_all
  ultimately have "signed_take_bit 63 (uint x) = uint x"
    by (intro signed_take_bit_int_eq_self)
  then show ?thesis
    by (simp add: sint_uint)
qed

lemma sless_small:
  fixes x y :: u64
  assumes "unat x < 2 ^ 63" "unat y < 2 ^ 63"
  shows "x <s y \<longleftrightarrow> unat x < unat y"
  unfolding word_sless_alt signed_small [OF assms(1)] signed_small [OF assms(2)]
  by (simp only: of_nat_less_iff)

section \<open>Searching lists\<close>

lemma find_append [simp]: "find P (xs @ ys) = (case find P xs of None \<Rightarrow> find P ys | Some x \<Rightarrow> Some x)"
  by (induction xs) simp_all

lemma find_upt_first:
  assumes "d < n" "P d" "\<And>e. e < d \<Longrightarrow> \<not> P e"
  shows "find P [0..<n] = Some d"
proof -
  have "[0..<n] = [0..<d] @ d # [Suc d..<n]"
    using assms(1) by (metis less_imp_le_nat plus_nat.add_0 upt_add_eq_append upt_conv_Cons zero_le le_add_diff_inverse)
  moreover have "find P [0..<d] = None"
    using assms(3) by (auto simp: find_None_iff)
  ultimately show ?thesis
    using assms(2) by simp
qed

lemma find_upt_cong:
  assumes "\<And>d. d < n \<Longrightarrow> P d = Q d"
  shows "find P [0..<n] = find Q [0..<n]"
  using assms by (intro find_cong) auto

end
