(* ===== verification/Kernel_Bitmap.thy ===== *)
theory Kernel_Bitmap
  imports Kernel_Prelude
begin

text \<open>
  The bitmap of \<^verbatim>\<open>src/kernel/libs/Bitmap.cpp\<close> and
  \<^verbatim>\<open>src/kernel/include/bitmap.hpp\<close>, which the page frame allocator keeps its
  page states in, with the contract the allocator relies on.
\<close>

section \<open>The class Bitmap\<close>

text \<open>
  \<open>Buffer\<close> is memory as seen from the pointer \<^verbatim>\<open>Buffer\<close>: the byte at every offset,
  those past \<open>Size\<close> included, because \<^verbatim>\<open>Get\<close> and \<^verbatim>\<open>Set\<close> check the index
  with \<open>>\<close> and so reach one bit past the last one.
\<close>

record Bitmap =
  Size :: u64
  Buffer :: "u64 \<Rightarrow> u8"

definition bitIndexer :: "u64 \<Rightarrow> u8" where
  "bitIndexer index =
     (let bitIndex = (ucast (index mod 8) :: u8) in drop_bit (unat bitIndex) 0b10000000)"

definition Bitmap_Get :: "Bitmap \<Rightarrow> u64 \<Rightarrow> bool" where
  "Bitmap_Get b index =
     (if index > Size b * 8 then False
      else let byteIndex = index div 8
           in (if (Buffer b byteIndex AND bitIndexer index) > 0 then True else False))"

definition Bitmap_Set :: "Bitmap \<Rightarrow> u64 \<Rightarrow> bool \<Rightarrow> bool \<times> Bitmap" where
  "Bitmap_Set b index v =
     (if index > Size b * 8 then (False, b)
      else let byteIndex = index div 8;
               buf = (Buffer b)(byteIndex := Buffer b byteIndex AND NOT (bitIndexer index));
               buf' = (if v then buf(byteIndex := buf byteIndex OR bitIndexer index) else buf)
           in (True, b\<lparr>Buffer := buf'\<rparr>))"

section \<open>The interface: an array of bits\<close>

text \<open>
  What a client of a bitmap relies on: \<open>bget\<close> after \<open>bset\<close>, on the indices
  \<open>ok\<close> admits. The set of raised bits is the abstract value of the bitmap.
\<close>

locale bit_array =
  fixes bget :: "'b \<Rightarrow> 'i::finite \<Rightarrow> bool"
    and bset :: "'b \<Rightarrow> 'i \<Rightarrow> bool \<Rightarrow> 'b"
    and ok :: "'b \<Rightarrow> 'i \<Rightarrow> bool"
  assumes bget_bset_same: "ok b i \<Longrightarrow> bget (bset b i v) i = v"
    and bget_bset_other: "j \<noteq> i \<Longrightarrow> bget (bset b i v) j = bget b j"
    and bset_not_ok: "\<not> ok b i \<Longrightarrow> bset b i v = b"
    and bget_not_ok: "\<not> ok b i \<Longrightarrow> \<not> bget b i"
    and ok_bset: "ok (bset b i v) j = ok b j"
begin

lemma raised_bset_True: "ok b i \<Longrightarrow> {j. bget (bset b i True) j} = insert i {j. bget b j}"
proof (rule set_eqI)
  fix j
  assume "ok b i"
  then show "j \<in> {j. bget (bset b i True) j} \<longleftrightarrow> j \<in> insert i {j. bget b j}"
    by (cases "j = i") (simp_all add: bget_bset_same bget_bset_other)
qed

lemma raised_bset_False: "{j. bget (bset b i False) j} = {j. bget b j} - {i}"
proof (cases "ok b i")
  case True
  show ?thesis
  proof (rule set_eqI)
    fix j
    show "j \<in> {j. bget (bset b i False) j} \<longleftrightarrow> j \<in> {j. bget b j} - {i}"
      using True by (cases "j = i") (simp_all add: bget_bset_same bget_bset_other)
  qed
next
  case False
  then show ?thesis
    by (auto simp: bset_not_ok bget_not_ok)
qed

lemma card_raised_bset_True:
  assumes "ok b i" and "\<not> bget b i"
  shows "card {j. bget (bset b i True) j} = Suc (card {j. bget b j})"
  using assms by (simp add: raised_bset_True)

lemma card_raised_bset_False:
  assumes "bget b i"
  shows "card {j. bget b j} = Suc (card {j. bget (bset b i False) j})"
proof -
  have "{j. bget b j} = insert i {j. bget (bset b i False) j}"
    using assms by (auto simp: raised_bset_False)
  moreover have "i \<notin> {j. bget (bset b i False) j}"
    by (simp add: raised_bset_False)
  ultimately show ?thesis
    by simp
qed

end

section \<open>The class implements it\<close>

lemma bitIndexer_eq: "bitIndexer i = push_bit (7 - unat (i mod 8)) 1"
proof -
  consider "unat (i mod 8) = 0" | "unat (i mod 8) = 1" | "unat (i mod 8) = 2"
    | "unat (i mod 8) = 3" | "unat (i mod 8) = 4" | "unat (i mod 8) = 5"
    | "unat (i mod 8) = 6" | "unat (i mod 8) = 7"
    using unat_mod_8_less [of i] by linarith
  then show ?thesis
    by cases (simp_all add: bitIndexer_def Let_def)
qed

lemma bit_bitIndexer: "bit (bitIndexer i) k \<longleftrightarrow> k = 7 - unat (i mod 8)"
  by (auto simp: bitIndexer_eq bit_exp_iff)

lemma Bitmap_Get_bit:
  "Bitmap_Get b i \<longleftrightarrow> i \<le> Size b * 8 \<and> bit (Buffer b (i div 8)) (7 - unat (i mod 8))"
  by (auto simp: Bitmap_Get_def Let_def word_gt_0_iff_bit bit_and_iff bit_bitIndexer)

lemma bitpos_inj: "(i :: u64) div 8 = j div 8 \<Longrightarrow> (7 - unat (i mod 8) = 7 - unat (j mod 8)) \<longleftrightarrow> i = j"
proof
  assume d: "i div 8 = j div 8" and "7 - unat (i mod 8) = 7 - unat (j mod 8)"
  then have "unat (i mod 8) = unat (j mod 8)"
    using unat_mod_8_less [of i] unat_mod_8_less [of j] by linarith
  then have "i mod 8 = j mod 8"
    by (simp add: word_unat_eq_iff)
  with d show "i = j"
    by (metis u64_div_mod_8_eq)
qed simp

lemma Bitmap_Set_fst: "fst (Bitmap_Set b i v) \<longleftrightarrow> i \<le> Size b * 8"
  by (auto simp: Bitmap_Set_def Let_def)

lemma Bitmap_Set_Size [simp]: "Size (snd (Bitmap_Set b i v)) = Size b"
  by (simp add: Bitmap_Set_def Let_def)

lemma Bitmap_Set_out: "\<not> i \<le> Size b * 8 \<Longrightarrow> snd (Bitmap_Set b i v) = b"
  by (simp add: Bitmap_Set_def)

lemma Bitmap_Set_byte:
  assumes "i \<le> Size b * 8"
  shows "bit (Buffer (snd (Bitmap_Set b i v)) a) k \<longleftrightarrow>
    (if a = i div 8 \<and> k = 7 - unat (i mod 8) then v else bit (Buffer b a) k)"
  using assms
  by (auto simp: Bitmap_Set_def Let_def bit_and_iff bit_or_iff bit_not_iff bit_bitIndexer
        dest: bit_imp_le_length)

lemma Bitmap_Get_Set:
  assumes "i \<le> Size b * 8"
  shows "Bitmap_Get (snd (Bitmap_Set b i v)) j = (if j = i then v else Bitmap_Get b j)"
  using assms bitpos_inj [of j i]
  by (auto simp: Bitmap_Get_bit Bitmap_Set_byte split: if_splits)

interpretation bm: bit_array Bitmap_Get "\<lambda>b i v. snd (Bitmap_Set b i v)" "\<lambda>b i. i \<le> Size b * 8"
proof (unfold_locales, goal_cases)
  case (1 b i v)
  then show ?case by (simp add: Bitmap_Get_Set)
next
  case (2 j i b v)
  then show ?case
    by (cases "i \<le> Size b * 8") (auto simp: Bitmap_Get_Set Bitmap_Set_out)
next
  case (3 b i v)
  then show ?case by (rule Bitmap_Set_out)
next
  case (4 b i)
  then show ?case by (simp add: Bitmap_Get_bit)
next
  case (5 b i v j)
  then show ?case by simp
qed

end
