(* ===== verification/Page_Frame_Allocator.thy ===== *)
theory Page_Frame_Allocator
  imports Kernel_Bitmap
begin

text \<open>
  The physical page allocator of \<^verbatim>\<open>src/kernel/mem/helpers/PageFrameAllocator.cpp\<close>:
  a bitmap with one bit per 4096-byte page, four memory counters and a cursor
  \<^verbatim>\<open>PageBitmapIndex\<close> below which no free page is looked for. Each operation is one
  atomic step: the code runs it under \<^verbatim>\<open>pfa_lock\<close>.
\<close>

section \<open>State\<close>

datatype MemType = GBP_Error | GBP_Free | GBP_Reserved | GBP_Unusable | GBP_ACPIReclaimable
  | GBP_ACPIMemoryNVS | GBP_Framebuffer | GBP_Kernel | GBP_Unknown

record GBPMemoryMapEntry =
  PhysicalAddress :: u64
  VirtualAddress :: u64
  Pages :: u64
  EntryType :: MemType
  EntrySize :: u64
  EntryLength :: u64

text \<open>\<open>Entry\<close> holds the first \<^verbatim>\<open>Entries\<close> elements of the array.\<close>

record GBPMemory =
  MemSize :: u64
  KernelBaseVirtual :: u64
  KernelBasePhysical :: u64
  Entry :: "GBPMemoryMapEntry list"

text \<open>
  The member \<^verbatim>\<open>Initalized\<close> and the file's globals. \<open>BufferAddress\<close> is the value of
  the pointer \<^verbatim>\<open>PageBitmap.Buffer\<close>, whose memory is the bitmap's \<open>Buffer\<close>.
\<close>

record PageFrameAllocator =
  PageBitmap :: Bitmap
  BufferAddress :: u64
  Initalized :: bool
  TotalMemory :: u64
  FreeMemory :: u64
  ReservedMemory :: u64
  UsedMemory :: u64
  Initialized :: bool
  PageBitmapIndex :: u64

section \<open>Operations on one page\<close>

definition FreePage :: "u64 \<Rightarrow> PageFrameAllocator \<Rightarrow> PageFrameAllocator" where
  "FreePage Address s =
     (let Index = Address div 4096
      in if \<not> Bitmap_Get (PageBitmap s) Index then s
         else case Bitmap_Set (PageBitmap s) Index False of (done, bm) \<Rightarrow>
           (let s = s\<lparr>PageBitmap := bm\<rparr>
            in if done
               then s\<lparr>FreeMemory := FreeMemory s + 4096, UsedMemory := UsedMemory s - 4096,
                      PageBitmapIndex :=
                        (if PageBitmapIndex s > Index then Index else PageBitmapIndex s)\<rparr>
               else s))"

definition LockPage :: "u64 \<Rightarrow> PageFrameAllocator \<Rightarrow> PageFrameAllocator" where
  "LockPage Address s =
     (let Index = Address div 4096
      in if Bitmap_Get (PageBitmap s) Index then s
         else case Bitmap_Set (PageBitmap s) Index True of (done, bm) \<Rightarrow>
           (let s = s\<lparr>PageBitmap := bm\<rparr>
            in if done
               then s\<lparr>FreeMemory := FreeMemory s - 4096, UsedMemory := UsedMemory s + 4096\<rparr>
               else s))"

definition UnreservePage :: "u64 \<Rightarrow> PageFrameAllocator \<Rightarrow> PageFrameAllocator" where
  "UnreservePage Address s =
     (let Index = Address div 4096
      in case Bitmap_Set (PageBitmap s) Index False of (done, bm) \<Rightarrow>
           (let s = s\<lparr>PageBitmap := bm\<rparr>
            in if done
               then s\<lparr>FreeMemory := FreeMemory s + 4096,
                      ReservedMemory := ReservedMemory s - 4096,
                      PageBitmapIndex :=
                        (if PageBitmapIndex s > Index then Index else PageBitmapIndex s)\<rparr>
               else s))"

definition ReservePage :: "u64 \<Rightarrow> PageFrameAllocator \<Rightarrow> PageFrameAllocator" where
  "ReservePage Address s =
     (let Index = Address div 4096
      in if Bitmap_Get (PageBitmap s) Index then s
         else case Bitmap_Set (PageBitmap s) Index True of (done, bm) \<Rightarrow>
           (let s = s\<lparr>PageBitmap := bm\<rparr>
            in if done
               then s\<lparr>FreeMemory := FreeMemory s - 4096,
                      ReservedMemory := ReservedMemory s + 4096\<rparr>
               else s))"

section \<open>Operations on a range of pages\<close>

text \<open>\<^verbatim>\<open>for (uint64_t t = 0; t < PageCount; t++) op(Address + t * 4096)\<close>\<close>

definition for_pages ::
    "(u64 \<Rightarrow> 's \<Rightarrow> 's) \<Rightarrow> u64 \<Rightarrow> u64 \<Rightarrow> 's \<Rightarrow> 's" where
  "for_pages f Address PageCount s =
     fold (\<lambda>t. f (Address + of_nat t * 4096)) [0..<unat PageCount] s"

definition FreePages :: "u64 \<Rightarrow> u64 \<Rightarrow> PageFrameAllocator \<Rightarrow> PageFrameAllocator" where
  "FreePages Address PageCount s = for_pages FreePage Address PageCount s"

definition LockPages :: "u64 \<Rightarrow> u64 \<Rightarrow> PageFrameAllocator \<Rightarrow> PageFrameAllocator" where
  "LockPages Address PageCount s = for_pages LockPage Address PageCount s"

definition UnreservePages :: "u64 \<Rightarrow> u64 \<Rightarrow> PageFrameAllocator \<Rightarrow> PageFrameAllocator" where
  "UnreservePages Address PageCount s = for_pages UnreservePage Address PageCount s"

definition ReservePages :: "u64 \<Rightarrow> u64 \<Rightarrow> PageFrameAllocator \<Rightarrow> PageFrameAllocator" where
  "ReservePages Address PageCount s = for_pages ReservePage Address PageCount s"

section \<open>Requests\<close>

text \<open>
  The loop of \<^verbatim>\<open>RequestPage\<close>: the cursor moves up while the page it names is taken.
\<close>

function RequestPage_cursor :: "Bitmap \<Rightarrow> u64 \<Rightarrow> u64" where
  "RequestPage_cursor b index =
     (if index < Size b * 8
      then if Bitmap_Get b index then RequestPage_cursor b (index + 1) else index
      else index)"
  by pat_completeness auto
termination
proof (relation "measure (\<lambda>(b, index). unat (Size b * 8 - index))", goal_cases)
  case (2 b index)
  then have "Size b * 8 - (index + 1) < Size b * 8 - index"
    by unat_arith
  then show ?case
    by (simp add: word_less_nat_alt)
qed simp

declare RequestPage_cursor.simps [simp del]

definition RequestPage :: "PageFrameAllocator \<Rightarrow> stop + (u64 \<times> PageFrameAllocator)" where
  "RequestPage s =
     (let index = RequestPage_cursor (PageBitmap s) (PageBitmapIndex s);
          s = s\<lparr>PageBitmapIndex := index\<rparr>
      in if index < Size (PageBitmap s) * 8
         then Inr (index * 4096, LockPage (index * 4096) s)
         else Inl Panic)"

text \<open>
  \<^verbatim>\<open>RequestPages\<close> has three nested loops. \<open>run_is_free\<close> is the innermost; the middle
  one steps by one over a taken page and by \<^verbatim>\<open>PageCount + 1\<close> over a run that is not free;
  the outer one moves the cursor. The middle step can wrap around, so the loops are partial:
  \<open>None\<close> is a call that does not return.
\<close>

definition run_is_free :: "Bitmap \<Rightarrow> u64 \<Rightarrow> u64 \<Rightarrow> bool" where
  "run_is_free b Index PageCount =
     list_all (\<lambda>i. \<not> Bitmap_Get b (Index + of_nat i)) [0..<unat PageCount]"

partial_function (option) RequestPages_index ::
    "Bitmap \<Rightarrow> u64 \<Rightarrow> u64 \<Rightarrow> u64 option option" where
  "RequestPages_index b PageCount Index =
     (if Index < Size b * 8
      then if Bitmap_Get b Index then RequestPages_index b PageCount (Index + 1)
           else if run_is_free b Index PageCount then Some (Some Index)
           else RequestPages_index b PageCount (Index + PageCount + 1)
      else Some None)"

partial_function (option) RequestPages_cursor ::
    "Bitmap \<Rightarrow> u64 \<Rightarrow> u64 \<Rightarrow> (u64 option \<times> u64) option" where
  "RequestPages_cursor b PageCount cursor =
     (if cursor < Size b * 8
      then if Bitmap_Get b cursor then RequestPages_cursor b PageCount (cursor + 1)
           else Option.bind (RequestPages_index b PageCount cursor)
             (\<lambda>found. case found of
                Some Index \<Rightarrow> Some (Some Index, cursor)
              | None \<Rightarrow> RequestPages_cursor b PageCount (cursor + 1))
      else Some (None, cursor))"

definition RequestPages :: "u64 \<Rightarrow> PageFrameAllocator \<Rightarrow> (u64 \<times> PageFrameAllocator) option" where
  "RequestPages PageCount s =
     map_option
       (\<lambda>(found, cursor).
          let s = s\<lparr>PageBitmapIndex := cursor\<rparr>
          in case found of
               Some Index \<Rightarrow> (Index * 4096, LockPages (Index * 4096) PageCount s)
             | None \<Rightarrow> (0, s))
       (RequestPages_cursor (PageBitmap s) PageCount (PageBitmapIndex s))"

section \<open>Initialisation\<close>

definition ALIGN_UP :: "u64 \<Rightarrow> u64 \<Rightarrow> u64" where
  "ALIGN_UP x align = (x + (align - 1)) AND NOT (align - 1)"

text \<open>\<open>ram\<close> is the memory the buffer is placed in; the loop clears its first bytes.\<close>

definition InitBitmap ::
    "(u64 \<Rightarrow> u8) \<Rightarrow> u64 \<Rightarrow> u64 \<Rightarrow> PageFrameAllocator \<Rightarrow> PageFrameAllocator" where
  "InitBitmap ram BitmapSize BufferAddr s =
     s\<lparr>PageBitmap :=
         \<lparr>Size = BitmapSize,
          Buffer = (\<lambda>i. if i < BitmapSize then 0 else ram (BufferAddr + i))\<rparr>,
       BufferAddress := BufferAddr\<rparr>"

definition LargestFreeMemorySegment :: "GBPMemoryMapEntry list \<Rightarrow> u64 \<times> u64" where
  "LargestFreeMemorySegment es =
     fold (\<lambda>e (addr, size).
         if EntryType e = GBP_Free then
           if EntrySize e > size then (PhysicalAddress e, EntrySize e) else (addr, size)
         else (addr, size)) es (0, 0)"

definition ReadMemoryMap ::
    "(u64 \<Rightarrow> u8) \<Rightarrow> GBPMemory \<Rightarrow> PageFrameAllocator \<Rightarrow> stop + PageFrameAllocator" where
  "ReadMemoryMap ram mem s =
     (if Initialized s then Inl Panic
      else
        let s = s\<lparr>Initialized := True\<rparr>;
            segment = fst (LargestFreeMemorySegment (Entry mem));
            MemorySize = MemSize mem;
            s = s\<lparr>TotalMemory := MemorySize, FreeMemory := MemorySize\<rparr>;
            s = InitBitmap ram (ALIGN_UP ((MemorySize div 0x1000) div 8) 0x1000) segment s;
            s = ReservePages 0 (MemorySize div 4096 + 1) s;
            s = fold (\<lambda>e s. if EntryType e = GBP_Free
                            then UnreservePages (PhysicalAddress e) (Pages e) s else s)
                  (Entry mem) s;
            s = ReservePages 0 0x100 s;
            s = LockPages (BufferAddress s) (Size (PageBitmap s) div 4096 + 1) s
        in Inr (s\<lparr>Initalized := True\<rparr>))"

text \<open>The globals and the member before \<^verbatim>\<open>ReadMemoryMap\<close>.\<close>

definition KernelAllocator0 :: PageFrameAllocator where
  "KernelAllocator0 =
     \<lparr>PageBitmap = \<lparr>Size = 0, Buffer = (\<lambda>_. 0)\<rparr>, BufferAddress = 0, Initalized = False,
      TotalMemory = 0, FreeMemory = 0, ReservedMemory = 0, UsedMemory = 0,
      Initialized = False, PageBitmapIndex = 0\<rparr>"

section \<open>One page: which bits change\<close>

abbreviation used :: "PageFrameAllocator \<Rightarrow> u64 \<Rightarrow> bool" where
  "used s i \<equiv> Bitmap_Get (PageBitmap s) i"

abbreviation in_map :: "PageFrameAllocator \<Rightarrow> u64 \<Rightarrow> bool" where
  "in_map s i \<equiv> i \<le> Size (PageBitmap s) * 8"

lemma used_in_map: "used s i \<Longrightarrow> in_map s i"
  by (simp add: Bitmap_Get_bit)

text \<open>
  The contract the range loops are verified against: a page operation puts the bit of the page
  its address lies in to \<open>v\<close> and touches no other.
\<close>

locale page_op =
  fixes f :: "u64 \<Rightarrow> 's \<Rightarrow> 's"
    and taken :: "'s \<Rightarrow> u64 \<Rightarrow> bool"
    and inmap :: "'s \<Rightarrow> u64 \<Rightarrow> bool"
    and v :: bool
  assumes op_taken: "taken (f a s) j = (if inmap s j \<and> j = a div 4096 then v else taken s j)"
    and op_inmap: "inmap (f a s) j = inmap s j"
begin

lemma fold_inmap: "inmap (fold (\<lambda>t. f (g t)) ts s) j = inmap s j"
  by (induction ts arbitrary: s) (simp_all add: op_inmap)

lemma fold_taken:
  "taken (fold (\<lambda>t. f (g t)) ts s) j =
     (if inmap s j \<and> (\<exists>t \<in> set ts. j = g t div 4096) then v else taken s j)"
  by (induction ts arbitrary: s) (auto simp: op_taken op_inmap)

lemma range_inmap: "inmap (for_pages f a n s) j = inmap s j"
  by (simp add: for_pages_def fold_inmap)

lemma range_taken:
  "taken (for_pages f a n s) j =
     (if inmap s j \<and> (\<exists>t < unat n. j = (a + of_nat t * 4096) div 4096) then v else taken s j)"
  by (auto simp: for_pages_def fold_taken)

end

lemmas page_op_defs = FreePage_def LockPage_def UnreservePage_def ReservePage_def

lemma FreePage_used:
  "used (FreePage a s) j = (if in_map s j \<and> j = a div 4096 then False else used s j)"
  by (auto simp: FreePage_def Let_def case_prod_unfold Bitmap_Get_Set bm.bget_bset_other
        dest: used_in_map)

lemma LockPage_used:
  "used (LockPage a s) j = (if in_map s j \<and> j = a div 4096 then True else used s j)"
  by (auto simp: LockPage_def Let_def case_prod_unfold Bitmap_Get_Set Bitmap_Set_fst
        Bitmap_Set_out)

lemma UnreservePage_used:
  "used (UnreservePage a s) j = (if in_map s j \<and> j = a div 4096 then False else used s j)"
  by (auto simp: UnreservePage_def Let_def case_prod_unfold Bitmap_Get_Set Bitmap_Set_fst
        Bitmap_Set_out)

lemma ReservePage_used:
  "used (ReservePage a s) j = (if in_map s j \<and> j = a div 4096 then True else used s j)"
  by (auto simp: ReservePage_def Let_def case_prod_unfold Bitmap_Get_Set Bitmap_Set_fst
        Bitmap_Set_out)

lemma page_op_Size [simp, frame_simps]:
  "Size (PageBitmap (FreePage a s)) = Size (PageBitmap s)"
  "Size (PageBitmap (LockPage a s)) = Size (PageBitmap s)"
  "Size (PageBitmap (UnreservePage a s)) = Size (PageBitmap s)"
  "Size (PageBitmap (ReservePage a s)) = Size (PageBitmap s)"
  by (simp_all add: page_op_defs Let_def case_prod_unfold)

lemma page_op_TotalMemory [simp, frame_simps]:
  "TotalMemory (FreePage a s) = TotalMemory s"
  "TotalMemory (LockPage a s) = TotalMemory s"
  "TotalMemory (UnreservePage a s) = TotalMemory s"
  "TotalMemory (ReservePage a s) = TotalMemory s"
  by (simp_all add: page_op_defs Let_def case_prod_unfold)

lemma page_op_BufferAddress [simp, frame_simps]:
  "BufferAddress (FreePage a s) = BufferAddress s"
  "BufferAddress (LockPage a s) = BufferAddress s"
  "BufferAddress (UnreservePage a s) = BufferAddress s"
  "BufferAddress (ReservePage a s) = BufferAddress s"
  by (simp_all add: page_op_defs Let_def case_prod_unfold)

interpretation free: page_op FreePage used in_map False
  by unfold_locales (simp_all add: FreePage_used)

interpretation lock: page_op LockPage used in_map True
  by unfold_locales (simp_all add: LockPage_used)

interpretation unres: page_op UnreservePage used in_map False
  by unfold_locales (simp_all add: UnreservePage_used)

interpretation res: page_op ReservePage used in_map True
  by unfold_locales (simp_all add: ReservePage_used)

text \<open>Whatever one page operation keeps, the range loop over it keeps.\<close>

lemma for_pages_inv:
  assumes "\<And>a s. P s \<Longrightarrow> P (f a s)" and "P s"
  shows "P (for_pages f a n s)"
proof -
  have "P (fold (\<lambda>t. f (a + of_nat t * 4096)) ts s)" for ts
    using assms(2) by (induction ts arbitrary: s) (simp_all add: assms(1))
  then show ?thesis
    by (simp add: for_pages_def)
qed

lemma for_pages_keeps:
  assumes "\<And>a s. q (f a s) = q s"
  shows "q (for_pages f a n s) = q s"
  using for_pages_inv [of "\<lambda>t. q t = q s" f s a n] assms by simp

section \<open>The counters\<close>

text \<open>The counters always add up, modulo \<open>2 ^ 64\<close> as the code adds them.\<close>

definition balanced :: "PageFrameAllocator \<Rightarrow> bool" where
  "balanced s \<longleftrightarrow> FreeMemory s + UsedMemory s + ReservedMemory s = TotalMemory s"

lemma page_op_balanced [inv_intros]:
  "balanced s \<Longrightarrow> balanced (FreePage a s)"
  "balanced s \<Longrightarrow> balanced (LockPage a s)"
  "balanced s \<Longrightarrow> balanced (UnreservePage a s)"
  "balanced s \<Longrightarrow> balanced (ReservePage a s)"
  by (auto simp: balanced_def page_op_defs Let_def case_prod_unfold algebra_simps)

lemma range_balanced [inv_intros]:
  "balanced s \<Longrightarrow> balanced (FreePages a n s)"
  "balanced s \<Longrightarrow> balanced (LockPages a n s)"
  "balanced s \<Longrightarrow> balanced (UnreservePages a n s)"
  "balanced s \<Longrightarrow> balanced (ReservePages a n s)"
  by (simp_all add: FreePages_def LockPages_def UnreservePages_def ReservePages_def
      for_pages_inv inv_intros)

text \<open>
  \<open>accounted\<close> is the amount of memory the bitmap and \<^verbatim>\<open>FreeMemory\<close> agree on: the free
  memory plus a page for every raised bit.
\<close>

definition accounted :: "PageFrameAllocator \<Rightarrow> u64" where
  "accounted s = FreeMemory s + 4096 * of_nat (card {i. used s i})"

lemma LockPage_accounted: "accounted (LockPage a s) = accounted s"
proof (cases "used s (a div 4096) \<or> \<not> in_map s (a div 4096)")
  case True
  then show ?thesis
    by (auto simp: accounted_def LockPage_def Let_def case_prod_unfold Bitmap_Set_fst
          Bitmap_Set_out)
next
  case False
  then show ?thesis
    using bm.card_raised_bset_True [of "a div 4096" "PageBitmap s"]
    by (simp add: accounted_def LockPage_def Let_def case_prod_unfold Bitmap_Set_fst
        algebra_simps)
qed

lemma ReservePage_accounted: "accounted (ReservePage a s) = accounted s"
proof (cases "used s (a div 4096) \<or> \<not> in_map s (a div 4096)")
  case True
  then show ?thesis
    by (auto simp: accounted_def ReservePage_def Let_def case_prod_unfold Bitmap_Set_fst
          Bitmap_Set_out)
next
  case False
  then show ?thesis
    using bm.card_raised_bset_True [of "a div 4096" "PageBitmap s"]
    by (simp add: accounted_def ReservePage_def Let_def case_prod_unfold Bitmap_Set_fst
        algebra_simps)
qed

lemma FreePage_accounted: "accounted (FreePage a s) = accounted s"
proof (cases "used s (a div 4096)")
  case True
  then show ?thesis
    using bm.card_raised_bset_False [of "PageBitmap s" "a div 4096"] used_in_map [of s]
    by (simp add: accounted_def FreePage_def Let_def case_prod_unfold Bitmap_Set_fst
        algebra_simps)
qed (simp add: accounted_def FreePage_def)

lemma UnreservePage_accounted:
  "accounted (UnreservePage a s) =
     accounted s + (if in_map s (a div 4096) \<and> \<not> used s (a div 4096) then 4096 else 0)"
proof (cases "used s (a div 4096)")
  case True
  then show ?thesis
    using bm.card_raised_bset_False [of "PageBitmap s" "a div 4096"] used_in_map [of s]
    by (simp add: accounted_def UnreservePage_def Let_def case_prod_unfold Bitmap_Set_fst
        algebra_simps)
next
  case False
  then have "{j. used s j} - {a div 4096} = {j. used s j}"
    by auto
  then show ?thesis
    using False
    by (auto simp: accounted_def UnreservePage_def Let_def case_prod_unfold Bitmap_Set_fst
        Bitmap_Set_out bm.raised_bset_False)
qed

lemma range_accounted:
  "accounted (FreePages a n s) = accounted s"
  "accounted (LockPages a n s) = accounted s"
  "accounted (ReservePages a n s) = accounted s"
  by (simp_all add: FreePages_def LockPages_def ReservePages_def for_pages_keeps
      FreePage_accounted LockPage_accounted ReservePage_accounted)

section \<open>Requests\<close>

text \<open>The bitmap covers less than \<open>2 ^ 52\<close> pages, so a page number times 4096 is an address.\<close>

definition pages_ok :: "PageFrameAllocator \<Rightarrow> bool" where
  "pages_ok s \<longleftrightarrow> Size (PageBitmap s) < 2 ^ 49"

lemma pages_okD: "pages_ok s \<Longrightarrow> i < Size (PageBitmap s) * 8 \<Longrightarrow> i * 4096 div 4096 = i"
  by (rule page_of_address) (simp add: pages_ok_def word_less_nat_alt unat_word_ariths)

lemma RequestPage_cursor_spec:
  "i \<le> RequestPage_cursor b i \<and>
   (\<forall>k. i \<le> k \<longrightarrow> k < RequestPage_cursor b i \<longrightarrow> Bitmap_Get b k) \<and>
   (RequestPage_cursor b i < Size b * 8 \<longrightarrow> \<not> Bitmap_Get b (RequestPage_cursor b i))"
proof (induction b i rule: RequestPage_cursor.induct)
  case (1 b i)
  show ?case
  proof (cases "i < Size b * 8 \<and> Bitmap_Get b i")
    case True
    then have eq: "RequestPage_cursor b i = RequestPage_cursor b (i + 1)"
      by (subst RequestPage_cursor.simps) simp
    have up: "i \<le> i + 1" "\<And>k. i \<le> k \<Longrightarrow> k \<noteq> i \<Longrightarrow> i + 1 \<le> k"
      using True by unat_arith+
    have IH: "i + 1 \<le> RequestPage_cursor b (i + 1)"
      "\<And>k. i + 1 \<le> k \<Longrightarrow> k < RequestPage_cursor b (i + 1) \<Longrightarrow> Bitmap_Get b k"
      "RequestPage_cursor b (i + 1) < Size b * 8 \<Longrightarrow>
       \<not> Bitmap_Get b (RequestPage_cursor b (i + 1))"
      using 1 True by auto
    have "Bitmap_Get b k" if "i \<le> k" "k < RequestPage_cursor b (i + 1)" for k
      using IH(2) [of k] up(2) [of k] that True by (cases "k = i") simp_all
    then show ?thesis
      using IH(3) order.trans [OF up(1) IH(1)] unfolding eq by blast
  next
    case False
    then have "RequestPage_cursor b i = i"
      by (subst RequestPage_cursor.simps) auto
    then show ?thesis
      using False by auto
  qed
qed

lemma RequestPage_cursor_end: "Size b * 8 \<le> i \<Longrightarrow> RequestPage_cursor b i = i"
  by (subst RequestPage_cursor.simps) auto

lemma RequestPage_cursor_free:
  assumes "RequestPage_cursor b i < Size b * 8"
  shows "\<not> Bitmap_Get b (RequestPage_cursor b i)"
  using assms RequestPage_cursor_spec by blast

lemma LockPage_page:
  assumes "pages_ok s" "i < Size (PageBitmap s) * 8"
  shows "used (LockPage (i * 4096) s) j = (j = i \<or> used s j)"
  using assms by (auto simp: LockPage_used pages_okD)

text \<open>No free page is below the cursor.\<close>

definition cursor_ok :: "PageFrameAllocator \<Rightarrow> bool" where
  "cursor_ok s \<longleftrightarrow> (\<forall>i < PageBitmapIndex s. used s i)"

lemma LockPage_cursor [simp]: "PageBitmapIndex (LockPage a s) = PageBitmapIndex s"
  by (simp add: LockPage_def Let_def case_prod_unfold)

lemma FreePage_cursor:
  "PageBitmapIndex (FreePage a s) =
     (if used s (a div 4096) then min (PageBitmapIndex s) (a div 4096) else PageBitmapIndex s)"
  using used_in_map [of s]
  by (auto simp: FreePage_def Let_def case_prod_unfold Bitmap_Set_fst min_def)

lemma FreePage_cursor_ok [inv_intros]: "cursor_ok s \<Longrightarrow> cursor_ok (FreePage a s)"
  by (auto simp: cursor_ok_def FreePage_used FreePage_cursor split: if_splits)

lemma LockPage_cursor_ok [inv_intros]: "cursor_ok s \<Longrightarrow> cursor_ok (LockPage a s)"
  by (auto simp: cursor_ok_def LockPage_used)

lemma range_cursor_ok [inv_intros]:
  "cursor_ok s \<Longrightarrow> cursor_ok (FreePages a n s)"
  "cursor_ok s \<Longrightarrow> cursor_ok (LockPages a n s)"
  by (simp_all add: FreePages_def LockPages_def for_pages_inv inv_intros)

lemma RequestPage_cases:
  assumes "RequestPage s = r"
  obtains (page) i where "i = RequestPage_cursor (PageBitmap s) (PageBitmapIndex s)"
      "i < Size (PageBitmap s) * 8" "\<not> used s i"
      "r = Inr (i * 4096, LockPage (i * 4096) (s\<lparr>PageBitmapIndex := i\<rparr>))"
    | (panic) "Size (PageBitmap s) * 8 \<le> RequestPage_cursor (PageBitmap s) (PageBitmapIndex s)"
      "r = Inl Panic"
  using assms RequestPage_cursor_free [of "PageBitmap s" "PageBitmapIndex s"]
  by (auto simp: RequestPage_def Let_def split: if_splits)

lemma RequestPage_cursor_moves:
  assumes "cursor_ok s" "k < RequestPage_cursor (PageBitmap s) (PageBitmapIndex s)"
  shows "used s k"
  using assms RequestPage_cursor_spec [of "PageBitmapIndex s" "PageBitmap s"]
  by (cases "k < PageBitmapIndex s") (auto simp: cursor_ok_def)

lemma RequestPage_cursor_ok [inv_intros]:
  assumes "cursor_ok s" "RequestPage s = Inr (p, s')"
  shows "cursor_ok s'"
  using assms(2)
proof (cases rule: RequestPage_cases)
  case (page i)
  then have "cursor_ok (s\<lparr>PageBitmapIndex := i\<rparr>)"
    using RequestPage_cursor_moves [OF assms(1)] by (simp add: cursor_ok_def)
  then show ?thesis
    using page(4) by (simp add: LockPage_cursor_ok)
qed simp

lemma update_cursor_simps [simp]:
  "balanced (s\<lparr>PageBitmapIndex := i\<rparr>) = balanced s"
  "accounted (s\<lparr>PageBitmapIndex := i\<rparr>) = accounted s"
  "pages_ok (s\<lparr>PageBitmapIndex := i\<rparr>) = pages_ok s"
  by (simp_all add: balanced_def accounted_def pages_ok_def)

lemma RequestPage_balanced [inv_intros]:
  "RequestPage s = Inr (p, s') \<Longrightarrow> balanced s \<Longrightarrow> balanced s'"
  by (erule RequestPage_cases) (auto intro: inv_intros)

lemma RequestPage_accounted:
  "RequestPage s = Inr (p, s') \<Longrightarrow> accounted s' = accounted s"
  by (erule RequestPage_cases) (auto simp: LockPage_accounted)

subsection \<open>Runs of pages\<close>

text \<open>The loops of \<^verbatim>\<open>RequestPages\<close> cannot wrap around.\<close>

definition run_fits :: "Bitmap \<Rightarrow> u64 \<Rightarrow> bool" where
  "run_fits b n \<longleftrightarrow> Size b < 2 ^ 49 \<and> unat (Size b * 8) + unat n < 2 ^ 52"

lemma run_fits_step:
  assumes "run_fits b n" "i < Size b * 8"
  shows "unat (i + 1) = unat i + 1" "unat (i + n + 1) = unat i + unat n + 1"
  using assms by (simp_all add: run_fits_def unat_word_ariths word_less_nat_alt)

definition free_run :: "Bitmap \<Rightarrow> u64 \<Rightarrow> u64 \<Rightarrow> bool" where
  "free_run b n i \<longleftrightarrow> i < Size b * 8 \<and> \<not> Bitmap_Get b i \<and> run_is_free b i n"

lemma RequestPages_index_returns:
  assumes "run_fits b n"
  shows "\<exists>r. RequestPages_index b n i = Some r \<and> (\<forall>j. r = Some j \<longrightarrow> i \<le> j \<and> free_run b n j)"
proof (induction "unat (Size b * 8) - unat i" arbitrary: i rule: less_induct)
  case less
  show ?case
  proof (cases "i < Size b * 8")
    case True
    then have "unat (Size b * 8) - unat (i + 1) < unat (Size b * 8) - unat i"
      "unat (Size b * 8) - unat (i + n + 1) < unat (Size b * 8) - unat i"
      "i + 1 \<le> j \<Longrightarrow> i \<le> j" "i + n + 1 \<le> j \<Longrightarrow> i \<le> j" for j
      using run_fits_step [OF assms True] by (simp_all add: word_less_nat_alt word_le_nat_alt)
    from less [OF this(1)] less [OF this(2)] this(3,4) True show ?thesis
      by (subst RequestPages_index.simps) (auto simp: free_run_def)
  qed (subst RequestPages_index.simps, simp)
qed

lemma RequestPages_index_here:
  "free_run b n i \<Longrightarrow> RequestPages_index b n i = Some (Some i)"
  by (subst RequestPages_index.simps) (simp add: free_run_def)

text \<open>What the outer loop promises of its result from the cursor \<open>i\<close>.\<close>

definition cursor_result :: "Bitmap \<Rightarrow> u64 \<Rightarrow> u64 \<Rightarrow> u64 option \<Rightarrow> u64 \<Rightarrow> bool" where
  "cursor_result b n i r c \<longleftrightarrow> i \<le> c \<and>
     (case r of
        Some j \<Rightarrow> i \<le> j \<and> free_run b n j
      | None \<Rightarrow> Size b * 8 \<le> c \<and> (\<forall>k. i \<le> k \<longrightarrow> \<not> free_run b n k))"

lemma RequestPages_cursor_returns:
  assumes "run_fits b n"
  shows "\<exists>r c. RequestPages_cursor b n i = Some (r, c) \<and> cursor_result b n i r c"
proof (induction "unat (Size b * 8) - unat i" arbitrary: i rule: less_induct)
  case less
  show ?case
  proof (cases "i < Size b * 8")
    case True
    have "unat (Size b * 8) - unat (i + 1) < unat (Size b * 8) - unat i"
      using run_fits_step [OF assms True] True by (simp add: word_less_nat_alt)
    from less [OF this] obtain r c where IH: "RequestPages_cursor b n (i + 1) = Some (r, c)"
      "cursor_result b n (i + 1) r c"
      by blast
    have up: "i + 1 \<le> k \<Longrightarrow> i \<le> k" "i \<le> k \<Longrightarrow> k \<noteq> i \<Longrightarrow> i + 1 \<le> k" for k
      using True by unat_arith+
    obtain q where q: "RequestPages_index b n i = Some q"
      "\<And>j. q = Some j \<Longrightarrow> i \<le> j \<and> free_run b n j"
      using RequestPages_index_returns [OF assms] by blast
    show ?thesis
    proof (cases "\<not> Bitmap_Get b i \<and> q \<noteq> None")
      case True
      then obtain j where "q = Some j" "i \<le> j" "free_run b n j"
        using q(2) by blast
      with True q(1) \<open>i < Size b * 8\<close> show ?thesis
        by (subst RequestPages_cursor.simps) (auto simp: cursor_result_def)
    next
      case False
      then have not_here: "\<not> free_run b n i"
        using q(1) RequestPages_index_here [of b n i] by (auto simp: free_run_def)
      have here: "free_run b n k \<Longrightarrow> i \<le> k \<Longrightarrow> i + 1 \<le> k" for k
        using up(2) [of k] not_here by (cases "k = i") simp_all
      have "RequestPages_cursor b n i = Some (r, c)"
        using False q(1) IH(1) True by (subst RequestPages_cursor.simps) auto
      moreover have "cursor_result b n i r c"
        using IH(2) here up(1) by (auto simp: cursor_result_def split: option.splits)
      ultimately show ?thesis
        by blast
    qed
  qed (subst RequestPages_cursor.simps, auto simp: free_run_def cursor_result_def)
qed

lemma run_inside:
  assumes "run_fits b n" "i < Size b * 8" "t < unat n"
  shows "unat (i + of_nat t) = unat i + t"
  using assms by (simp add: run_fits_def unat_word_ariths word_less_nat_alt of_nat_unat_less)

lemma run_page:
  assumes "run_fits b n" "i < Size b * 8" "t < unat n"
  shows "(i * 4096 + of_nat t * 4096) div 4096 = i + of_nat t"
proof -
  have "unat (i + of_nat t) = unat i + t"
    by (rule run_inside [OF assms])
  then have "i + of_nat t < 2 ^ 52"
    using assms by (simp add: run_fits_def word_less_nat_alt)
  then show ?thesis
    using page_of_address [of "i + of_nat t"] by (simp add: algebra_simps)
qed

lemma LockPages_run:
  assumes "run_fits (PageBitmap s) n" "i < Size (PageBitmap s) * 8"
  shows "used (LockPages (i * 4096) n s) j =
    (used s j \<or> in_map s j \<and> (\<exists>t < unat n. j = i + of_nat t))"
  using run_page [OF assms] by (auto simp: LockPages_def lock.range_taken)

subsection \<open>Sequences of calls\<close>

text \<open>
  A call of the allocator and the state after it. A \<^verbatim>\<open>RequestPage\<close> that panics has no
  successor.
\<close>

inductive pfa_step :: "PageFrameAllocator \<Rightarrow> PageFrameAllocator \<Rightarrow> bool" where
  step_FreePage: "pfa_step s (FreePage a s)"
| step_FreePages: "pfa_step s (FreePages a n s)"
| step_LockPage: "pfa_step s (LockPage a s)"
| step_LockPages: "pfa_step s (LockPages a n s)"
| step_RequestPage: "RequestPage s = Inr (p, s') \<Longrightarrow> pfa_step s s'"

text \<open>The calls that also move the cursor past free pages or change reservations.\<close>

inductive pfa_step_any :: "PageFrameAllocator \<Rightarrow> PageFrameAllocator \<Rightarrow> bool" where
  any_step: "pfa_step s s' \<Longrightarrow> pfa_step_any s s'"
| any_RequestPages: "RequestPages n s = Some (p, s') \<Longrightarrow> pfa_step_any s s'"
| any_ReservePage: "pfa_step_any s (ReservePage a s)"
| any_ReservePages: "pfa_step_any s (ReservePages a n s)"
| any_UnreservePage: "pfa_step_any s (UnreservePage a s)"
| any_UnreservePages: "pfa_step_any s (UnreservePages a n s)"

lemma RequestPages_balanced [inv_intros]:
  "RequestPages n s = Some (p, s') \<Longrightarrow> balanced s \<Longrightarrow> balanced s'"
  by (auto simp: RequestPages_def Let_def range_balanced split: option.splits)

lemma pfa_step_balanced: "pfa_step s s' \<Longrightarrow> balanced s \<Longrightarrow> balanced s'"
  by (induction rule: pfa_step.induct) (auto intro: inv_intros)

lemma pfa_step_any_balanced: "pfa_step_any s s' \<Longrightarrow> balanced s \<Longrightarrow> balanced s'"
  by (induction rule: pfa_step_any.induct) (auto intro: inv_intros pfa_step_balanced)

lemma pfa_step_cursor_ok: "pfa_step s s' \<Longrightarrow> cursor_ok s \<Longrightarrow> cursor_ok s'"
  by (induction rule: pfa_step.induct) (auto intro: inv_intros)

lemma pfa_step_accounted: "pfa_step s s' \<Longrightarrow> accounted s' = accounted s"
  by (induction rule: pfa_step.induct)
    (auto simp: FreePage_accounted LockPage_accounted range_accounted dest: RequestPage_accounted)

section \<open>Initialisation\<close>

lemma for_pages_Size [simp]:
  "Size (PageBitmap (ReservePages a n s)) = Size (PageBitmap s)"
  "Size (PageBitmap (UnreservePages a n s)) = Size (PageBitmap s)"
  "Size (PageBitmap (LockPages a n s)) = Size (PageBitmap s)"
  "Size (PageBitmap (FreePages a n s)) = Size (PageBitmap s)"
  unfolding ReservePages_def UnreservePages_def LockPages_def FreePages_def
  by (rule for_pages_keeps [where q = "\<lambda>s. Size (PageBitmap s)"]; simp)+

lemma for_pages_BufferAddress [simp]:
  "BufferAddress (ReservePages a n s) = BufferAddress s"
  "BufferAddress (UnreservePages a n s) = BufferAddress s"
  "BufferAddress (LockPages a n s) = BufferAddress s"
  unfolding ReservePages_def UnreservePages_def LockPages_def
  by (rule for_pages_keeps [where q = BufferAddress]; simp)+

lemma Unreserve_cursor_0:
  "PageBitmapIndex s = 0 \<Longrightarrow> PageBitmapIndex (UnreservePages a n s) = 0"
  unfolding UnreservePages_def
  by (rule for_pages_inv [where P = "\<lambda>s. PageBitmapIndex s = 0"])
    (simp_all add: UnreservePage_def Let_def case_prod_unfold)

lemma Reserve_cursor [simp]:
  "PageBitmapIndex (ReservePages a n s) = PageBitmapIndex s"
  unfolding ReservePages_def
  by (rule for_pages_keeps [where q = PageBitmapIndex])
    (simp add: ReservePage_def Let_def case_prod_unfold)

lemma Locks_cursor [simp]: "PageBitmapIndex (LockPages a n s) = PageBitmapIndex s"
  unfolding LockPages_def by (rule for_pages_keeps [where q = PageBitmapIndex]) simp

text \<open>The pages of a memory map entry and the loop that releases the free ones.\<close>

definition entry_page :: "GBPMemoryMapEntry \<Rightarrow> u64 \<Rightarrow> bool" where
  "entry_page e i \<longleftrightarrow> (\<exists>t < unat (Pages e). i = (PhysicalAddress e + of_nat t * 4096) div 4096)"

definition release_entries :: "GBPMemoryMapEntry list \<Rightarrow> PageFrameAllocator \<Rightarrow> PageFrameAllocator"
where
  "release_entries es s =
     fold (\<lambda>e s. if EntryType e = GBP_Free
                  then UnreservePages (PhysicalAddress e) (Pages e) s else s) es s"

lemma release_Size [simp]: "Size (PageBitmap (release_entries es s)) = Size (PageBitmap s)"
  by (induction es arbitrary: s) (simp_all add: release_entries_def)

lemma release_BufferAddress [simp]: "BufferAddress (release_entries es s) = BufferAddress s"
  by (induction es arbitrary: s) (simp_all add: release_entries_def)

lemma release_cursor_0:
  "PageBitmapIndex s = 0 \<Longrightarrow> PageBitmapIndex (release_entries es s) = 0"
  by (induction es arbitrary: s) (simp_all add: release_entries_def Unreserve_cursor_0)

lemma release_balanced: "balanced s \<Longrightarrow> balanced (release_entries es s)"
  by (induction es arbitrary: s) (simp_all add: release_entries_def inv_intros)

lemma unreserve_entry_used:
  "used (UnreservePages (PhysicalAddress e) (Pages e) s) i =
     (used s i \<and> \<not> (in_map s i \<and> entry_page e i))"
  by (auto simp: UnreservePages_def unres.range_taken entry_page_def)

lemma release_used:
  "used (release_entries es s) i =
     (used s i \<and> \<not> (in_map s i \<and> (\<exists>e \<in> set es. EntryType e = GBP_Free \<and> entry_page e i)))"
proof (induction es arbitrary: s)
  case (Cons e es)
  have "release_entries (e # es) s =
      release_entries es (if EntryType e = GBP_Free
        then UnreservePages (PhysicalAddress e) (Pages e) s else s)"
    by (simp add: release_entries_def)
  then show ?case
    by (auto simp: Cons unreserve_entry_used)
qed (simp add: release_entries_def)

lemma reserve_low:
  assumes "unat n \<le> 2 ^ 52"
  shows "used (ReservePages 0 n s) i = (used s i \<or> in_map s i \<and> i < n)"
proof -
  have "of_nat t * 4096 div 4096 = (of_nat t :: u64)" if "t < unat n" for t
    using assms that of_nat_unat_less [OF that]
    by (intro page_of_address) (simp add: word_less_nat_alt)
  then show ?thesis
    by (auto simp: ReservePages_def res.range_taken word_less_nat_alt of_nat_unat_less
        intro: exI [of _ "unat i"])
qed

lemma InitBitmap_clear:
  assumes "i < n * 8" "n < 2 ^ 61"
  shows "\<not> used (InitBitmap ram n a s) i"
proof -
  have "i div 8 < n"
    using assms by (simp add: word_less_nat_alt unat_div unat_word_ariths)
  then show ?thesis
    by (simp add: InitBitmap_def Bitmap_Get_bit)
qed

lemma page_count_bound: "unat ((m :: u64) div 4096 + 1) = unat m div 4096 + 1"
  "unat (m :: u64) div 4096 + 1 \<le> 2 ^ 52"
proof -
  have "unat m < 2 ^ LENGTH(64)"
    by (rule unsigned_less)
  then show "unat m div 4096 + 1 \<le> 2 ^ 52"
    by simp
  then show "unat (m div 4096 + 1) = unat m div 4096 + 1"
    by (simp add: unat_word_ariths unat_div)
qed

lemma ALIGN_UP_bound:
  assumes "x < 2 ^ 60"
  shows "ALIGN_UP x 4096 < 2 ^ 61"
proof -
  have "ALIGN_UP x 4096 \<le> x + 4095"
    by (simp add: ALIGN_UP_def word_and_le2)
  also have "x + 4095 < 2 ^ 61"
    using assms by (simp add: word_less_nat_alt unat_word_ariths)
  finally show ?thesis .
qed

text \<open>The state \<^verbatim>\<open>ReadMemoryMap\<close> leaves behind, one line per line of the code.\<close>

lemma ReadMemoryMap_eq:
  assumes "ReadMemoryMap ram mem KernelAllocator0 = Inr s"
  obtains s1 s2 s3 where
    "s1 = InitBitmap ram (ALIGN_UP (MemSize mem div 0x1000 div 8) 0x1000)
            (fst (LargestFreeMemorySegment (Entry mem)))
            (KernelAllocator0\<lparr>Initialized := True, TotalMemory := MemSize mem,
               FreeMemory := MemSize mem\<rparr>)"
    "s2 = ReservePages 0 (MemSize mem div 4096 + 1) s1"
    "s3 = ReservePages 0 0x100 (release_entries (Entry mem) s2)"
    "s = (LockPages (BufferAddress s3) (Size (PageBitmap s3) div 4096 + 1) s3)
           \<lparr>Initalized := True\<rparr>"
  using assms by (simp add: ReadMemoryMap_def KernelAllocator0_def Let_def release_entries_def)

lemma Initalized_update [simp]:
  "balanced (s\<lparr>Initalized := v\<rparr>) = balanced s"
  "cursor_ok (s\<lparr>Initalized := v\<rparr>) = cursor_ok s"
  "pages_ok (s\<lparr>Initalized := v\<rparr>) = pages_ok s"
  by (simp_all add: balanced_def cursor_ok_def pages_ok_def)

lemma InitBitmap_balanced [inv_intros]:
  "balanced s \<Longrightarrow> balanced (InitBitmap ram n a s)"
  by (simp add: balanced_def InitBitmap_def)

lemma ReadMemoryMap_balanced:
  assumes "ReadMemoryMap ram mem KernelAllocator0 = Inr s"
  shows "balanced s"
  using assms
proof (rule ReadMemoryMap_eq)
  fix s1 s2 s3
  assume "s1 = InitBitmap ram (ALIGN_UP (MemSize mem div 0x1000 div 8) 0x1000)
            (fst (LargestFreeMemorySegment (Entry mem)))
            (KernelAllocator0\<lparr>Initialized := True, TotalMemory := MemSize mem,
               FreeMemory := MemSize mem\<rparr>)"
    and eqs: "s2 = ReservePages 0 (MemSize mem div 4096 + 1) s1"
    "s3 = ReservePages 0 0x100 (release_entries (Entry mem) s2)"
    "s = (LockPages (BufferAddress s3) (Size (PageBitmap s3) div 4096 + 1) s3)
           \<lparr>Initalized := True\<rparr>"
  then have "balanced s1"
    by (simp add: balanced_def InitBitmap_def KernelAllocator0_def)
  then show "balanced s"
    by (simp add: eqs inv_intros release_balanced)
qed

lemma for_pages_TotalMemory [simp]:
  "TotalMemory (ReservePages a n s) = TotalMemory s"
  "TotalMemory (UnreservePages a n s) = TotalMemory s"
  "TotalMemory (LockPages a n s) = TotalMemory s"
  "TotalMemory (FreePages a n s) = TotalMemory s"
  unfolding ReservePages_def UnreservePages_def LockPages_def FreePages_def
  by (rule for_pages_keeps [where q = TotalMemory]; simp)+

lemma release_TotalMemory [simp]: "TotalMemory (release_entries es s) = TotalMemory s"
  by (induction es arbitrary: s) (simp_all add: release_entries_def)

lemma ReadMemoryMap_frame:
  assumes "ReadMemoryMap ram mem KernelAllocator0 = Inr s"
  shows "TotalMemory s = MemSize mem" "PageBitmapIndex s = 0"
    "Size (PageBitmap s) = ALIGN_UP (MemSize mem div 4096 div 8) 4096"
    "BufferAddress s = fst (LargestFreeMemorySegment (Entry mem))"
  using assms
  by (rule ReadMemoryMap_eq; simp add: InitBitmap_def KernelAllocator0_def release_cursor_0)+

lemma pfa_step_TotalMemory: "pfa_step s s' \<Longrightarrow> TotalMemory s' = TotalMemory s"
  by (induction rule: pfa_step.induct) (auto elim: RequestPage_cases)

lemma RequestPages_TotalMemory:
  "RequestPages n s = Some (p, s') \<Longrightarrow> TotalMemory s' = TotalMemory s"
  by (auto simp: RequestPages_def Let_def split: option.splits)

lemma pfa_step_any_TotalMemory: "pfa_step_any s s' \<Longrightarrow> TotalMemory s' = TotalMemory s"
  by (induction rule: pfa_step_any.induct)
    (auto dest: pfa_step_TotalMemory RequestPages_TotalMemory)

lemma reach_any_inv:
  "pfa_step_any\<^sup>*\<^sup>* s s' \<Longrightarrow> balanced s \<Longrightarrow> balanced s' \<and> TotalMemory s' = TotalMemory s"
  by (induction rule: rtranclp_induct)
    (auto dest: pfa_step_any_balanced pfa_step_any_TotalMemory)

lemma reach_cursor_ok: "pfa_step\<^sup>*\<^sup>* s s' \<Longrightarrow> cursor_ok s \<Longrightarrow> cursor_ok s'"
  by (induction rule: rtranclp_induct) (auto dest: pfa_step_cursor_ok)

lemma ReadMemoryMap_cursor_ok:
  "ReadMemoryMap ram mem KernelAllocator0 = Inr s \<Longrightarrow> cursor_ok s"
  by (simp add: cursor_ok_def ReadMemoryMap_frame)

section \<open>Properties\<close>

text \<open>Eight pages, of which pages 0 and 2 are taken: the input of the examples below.\<close>

definition pfa_example :: PageFrameAllocator where
  "pfa_example = KernelAllocator0
     \<lparr>PageBitmap := \<lparr>Size = 1, Buffer = (\<lambda>_. 0xA0)\<rparr>, Initalized := True, Initialized := True,
      TotalMemory := 0x8000, FreeMemory := 0x6000, UsedMemory := 0x2000\<rparr>"

lemmas pfa_eval = pfa_example_def KernelAllocator0_def Bitmap_Get_def Bitmap_Set_def
  bitIndexer_def Let_def LockPage_def FreePage_def

lemma pfa_example_used: "used pfa_example i \<longleftrightarrow> i = 0 \<or> i = 2 \<or> i = 8"
proof -
  have "used pfa_example i = (i \<in> {0, 2, 8})" if "i \<le> 8"
  proof -
    have "i \<in> {0, 1, 2, 3, 4, 5, 6, 7, 8}"
      using that by (simp, unat_arith)
    then show ?thesis
      by (elim insertE) (simp_all add: pfa_eval)
  qed
  moreover have "\<not> used pfa_example i" if "\<not> i \<le> 8"
    using that by (simp add: pfa_eval)
  ultimately show ?thesis
    by (cases "i \<le> 8") auto
qed

text \<open>
  C25. From the memory map on, whatever calls of the allocator follow one another, the free, used
  and reserved counters add up to the size of the memory (modulo \<open>2 ^ 64\<close>).
\<close>

theorem pfa_counters_add_up:
  assumes "ReadMemoryMap ram mem KernelAllocator0 = Inr s" and "pfa_step_any\<^sup>*\<^sup>* s s'"
  shows "FreeMemory s' + UsedMemory s' + ReservedMemory s' = MemSize mem"
  using reach_any_inv [OF assms(2) ReadMemoryMap_balanced [OF assms(1)]]
    ReadMemoryMap_frame(1) [OF assms(1)]
  by (simp add: balanced_def)

theorem pfa_counters_add_up_witness:
  "\<exists>s. ReadMemoryMap (\<lambda>_. 0) \<lparr>MemSize = 0x200000, KernelBaseVirtual = 0,
      KernelBasePhysical = 0,
      Entry = [\<lparr>PhysicalAddress = 0x100000, VirtualAddress = 0, Pages = 256,
                EntryType = GBP_Free, EntrySize = 0x100000, EntryLength = 0x100000\<rparr>]\<rparr> KernelAllocator0 = Inr s \<and>
     FreeMemory (FreePage 0x3000 s) + UsedMemory (FreePage 0x3000 s) +
       ReservedMemory (FreePage 0x3000 s) = 0x200000"
proof -
  let ?mem = "\<lparr>MemSize = 0x200000, KernelBaseVirtual = 0,
      KernelBasePhysical = 0,
      Entry = [\<lparr>PhysicalAddress = 0x100000, VirtualAddress = 0, Pages = 256,
                EntryType = GBP_Free, EntrySize = 0x100000, EntryLength = 0x100000\<rparr>]\<rparr>"
  obtain s where s: "ReadMemoryMap (\<lambda>_. 0) ?mem KernelAllocator0 = Inr s"
    by (simp add: ReadMemoryMap_def KernelAllocator0_def Let_def del: fold_simps)
  moreover have "pfa_step_any\<^sup>*\<^sup>* s (FreePage 0x3000 s)"
    by (intro r_into_rtranclp any_step step_FreePage)
  ultimately show ?thesis
    using pfa_counters_add_up [OF s, of "FreePage 0x3000 s"] by auto
qed

text \<open>
  C1. A page that \<^verbatim>\<open>RequestPage\<close> returns is a page-aligned address inside the bitmap
  that was free; afterwards it is taken, no other page has changed, and one page has moved from
  the free to the used counter.
\<close>

theorem RequestPage_correct:
  assumes "pages_ok s" and "RequestPage s = Inr (p, s')"
  shows "\<exists>i < Size (PageBitmap s) * 8. p = i * 4096 \<and> p div 4096 = i \<and> \<not> used s i \<and>
    (\<forall>j. used s' j = (j = i \<or> used s j)) \<and>
    FreeMemory s' = FreeMemory s - 4096 \<and> UsedMemory s' = UsedMemory s + 4096 \<and>
    ReservedMemory s' = ReservedMemory s"
  using assms(2)
proof (cases rule: RequestPage_cases)
  case (page i)
  let ?s = "s\<lparr>PageBitmapIndex := i\<rparr>"
  have "used (LockPage (i * 4096) ?s) j = (j = i \<or> used s j)" for j
    using LockPage_page [of ?s i j] assms(1) page(2) by simp
  moreover have "i * 4096 div 4096 = i"
    using pages_okD assms(1) page(2) by blast
  ultimately show ?thesis
    using page by (intro exI [of _ i])
      (simp add: LockPage_def Let_def case_prod_unfold Bitmap_Set_fst)
qed simp

theorem RequestPage_correct_witness:
  "pages_ok pfa_example \<and>
   (\<exists>s'. RequestPage pfa_example = Inr (0x1000, s') \<and>
      (\<exists>i < Size (PageBitmap pfa_example) * 8. 0x1000 = i * 4096 \<and> \<not> used pfa_example i \<and> used s' i))"
proof -
  have ok: "pages_ok pfa_example"
    by (simp add: pages_ok_def pfa_eval)
  have "RequestPage_cursor (PageBitmap pfa_example) 0 = 1"
    by (simp add: RequestPage_cursor.simps pfa_eval)
  then obtain s' where r: "RequestPage pfa_example = Inr (0x1000, s')"
    by (auto simp: RequestPage_def pfa_example_def KernelAllocator0_def Let_def)
  show ?thesis
    using ok r RequestPage_correct [OF ok r] by auto
qed

text \<open>
  C4. After any sequence of single-page requests, frees and locks from the memory map on,
  \<^verbatim>\<open>RequestPage\<close> panics exactly when no page of the bitmap is free, and otherwise
  returns the lowest free page.
\<close>

theorem RequestPage_lowest_free:
  assumes "ReadMemoryMap ram mem KernelAllocator0 = Inr s0" and "pfa_step\<^sup>*\<^sup>* s0 s"
  shows "case RequestPage s of
      Inl _ \<Rightarrow> \<forall>i < Size (PageBitmap s) * 8. used s i
    | Inr (p, _) \<Rightarrow> \<exists>i < Size (PageBitmap s) * 8.
        p = i * 4096 \<and> \<not> used s i \<and> (\<forall>k < i. used s k)"
proof -
  have "cursor_ok s"
    using reach_cursor_ok [OF assms(2)] ReadMemoryMap_cursor_ok [OF assms(1)] by blast
  note below = RequestPage_cursor_moves [OF this]
  from refl [of "RequestPage s"] show ?thesis
  proof (cases rule: RequestPage_cases)
    case (page i)
    then show ?thesis
      using below by (auto simp: page(4))
  next
    case panic
    then show ?thesis
      using below by (auto simp: panic(2) dest: order.strict_trans2)
  qed
qed

theorem RequestPage_lowest_free_witness:
  "\<exists>s. ReadMemoryMap (\<lambda>_. 0) \<lparr>MemSize = 0x200000, KernelBaseVirtual = 0,
      KernelBasePhysical = 0, Entry = []\<rparr>
       KernelAllocator0 = Inr s \<and>
     (case RequestPage (FreePage 0x3000 (LockPage 0x201000 s)) of
      Inl _ \<Rightarrow> \<forall>i < Size (PageBitmap s) * 8. used (FreePage 0x3000 (LockPage 0x201000 s)) i
    | Inr (p, _) \<Rightarrow> \<exists>i < Size (PageBitmap s) * 8.
        p = i * 4096 \<and> \<not> used (FreePage 0x3000 (LockPage 0x201000 s)) i \<and>
        (\<forall>k < i. used (FreePage 0x3000 (LockPage 0x201000 s)) k))"
proof -
  obtain s where s: "ReadMemoryMap (\<lambda>_. 0) \<lparr>MemSize = 0x200000, KernelBaseVirtual = 0,
      KernelBasePhysical = 0,
      Entry = []\<rparr> KernelAllocator0 = Inr s"
    by (simp add: ReadMemoryMap_def KernelAllocator0_def Let_def)
  have steps: "pfa_step\<^sup>*\<^sup>* s (FreePage 0x3000 (LockPage 0x201000 s))"
    by (rule converse_rtranclp_into_rtranclp, rule step_LockPage, rule r_into_rtranclp, rule step_FreePage)
  have size: "Size (PageBitmap (FreePage 0x3000 (LockPage 0x201000 s))) = Size (PageBitmap s)"
    by simp
  show ?thesis
    by (intro exI [of _ s] conjI s) (rule RequestPage_lowest_free [OF s steps, unfolded size])
qed

text \<open>
  Freeing a requested page undoes the request: the same pages are free as before, the
  counters have their old values, and the next request returns that page again.
\<close>

lemma RequestPage_FreePage:
  assumes "pages_ok s" and "RequestPage s = Inr (p, s')"
  shows "(\<forall>j. used (FreePage p s') j = used s j) \<and>
    FreeMemory (FreePage p s') = FreeMemory s \<and> UsedMemory (FreePage p s') = UsedMemory s \<and>
    (\<exists>s''. RequestPage (FreePage p s') = Inr (p, s''))"
  using assms(2)
proof (cases rule: RequestPage_cases)
  case (page i)
  let ?s = "s\<lparr>PageBitmapIndex := i\<rparr>"
  have i: "i * 4096 div 4096 = i" "i \<le> Size (PageBitmap s) * 8"
    using pages_okD [OF assms(1) page(2)] page(2) by simp_all
  have p: "p = i * 4096" and s': "s' = LockPage p ?s"
    using page(4) by simp_all
  have locked: "used s' j = (j = i \<or> used s j)" for j
    using LockPage_page [of ?s i j] assms(1) page(2) by (simp add: s' p)
  have sz: "Size (PageBitmap s') = Size (PageBitmap s)"
    by (simp add: s')
  have freed: "used (FreePage p s') j = used s j" for j
    using page(3) i(2) by (auto simp: FreePage_used locked p i(1) sz)
  have "FreeMemory (FreePage p s') = FreeMemory s" "UsedMemory (FreePage p s') = UsedMemory s"
    using locked [of i] page(3) i
    by (simp_all add: FreePage_def p s' Let_def case_prod_unfold Bitmap_Set_fst LockPage_def)
  moreover have "PageBitmapIndex (FreePage p s') = i"
    using locked [of i] i by (simp add: FreePage_cursor p s')
  then have "RequestPage_cursor (PageBitmap (FreePage p s')) (PageBitmapIndex (FreePage p s')) = i"
    using freed [of i] page(3) by (simp add: RequestPage_cursor.simps)
  then have "\<exists>s''. RequestPage (FreePage p s') = Inr (p, s'')"
    using page(2) by (simp add: RequestPage_def Let_def s') (simp add: p)
  ultimately show ?thesis
    using freed by blast
qed simp

lemma RequestPage_FreePage_witness:
  "\<exists>s' s''. RequestPage pfa_example = Inr (0x1000, s') \<and>
     RequestPage (FreePage 0x1000 s') = Inr (0x1000, s'') \<and> \<not> used (FreePage 0x1000 s') 1"
proof -
  have ok: "pages_ok pfa_example"
    by (simp add: pages_ok_def pfa_eval)
  have "RequestPage_cursor (PageBitmap pfa_example) 0 = 1"
    by (simp add: RequestPage_cursor.simps pfa_eval)
  then obtain s' where r: "RequestPage pfa_example = Inr (0x1000, s')"
    by (auto simp: RequestPage_def pfa_example_def KernelAllocator0_def Let_def)
  show ?thesis
    using r RequestPage_FreePage [OF ok r] by (auto simp: pfa_example_used)
qed

text \<open>
  C9. \<^verbatim>\<open>RequestPages\<close> returns for every bitmap and count that cannot wrap around. It either returns
  the address of a free page of the bitmap at or above the cursor that begins \<open>n\<close> pages none of which
  is marked as taken, and then marks as taken exactly those of them that the bitmap can mark; or, when
  there is no such page, returns NULL and leaves every page as it was. If the run ends inside the
  bitmap, all its \<open>n\<close> pages are taken afterwards. The code does not check that it does: pages behind the
  bitmap count as not taken, so a run that begins at its end is handed out without being locked.
\<close>

theorem RequestPages_correct:
  assumes "run_fits (PageBitmap s) n"
  shows "\<exists>p s'. RequestPages n s = Some (p, s') \<and>
    ((\<exists>i. p = i * 4096 \<and> PageBitmapIndex s \<le> i \<and> i < Size (PageBitmap s) * 8 \<and> \<not> used s i \<and>
       (\<forall>t < unat n. \<not> used s (i + of_nat t)) \<and>
       (\<forall>j. used s' j = (used s j \<or> in_map s j \<and> (\<exists>t < unat n. j = i + of_nat t))) \<and>
       (unat i + unat n \<le> unat (Size (PageBitmap s) * 8) \<longrightarrow> (\<forall>t < unat n. used s' (i + of_nat t)))) \<or>
     p = 0 \<and> (\<forall>k. PageBitmapIndex s \<le> k \<longrightarrow> \<not> free_run (PageBitmap s) n k) \<and>
       (\<forall>j. used s' j = used s j))"
proof -
  obtain r c where rc: "RequestPages_cursor (PageBitmap s) n (PageBitmapIndex s) = Some (r, c)"
    "cursor_result (PageBitmap s) n (PageBitmapIndex s) r c"
    using RequestPages_cursor_returns [OF assms, of "PageBitmapIndex s"] by blast
  show ?thesis
  proof (cases r)
    case None
    then show ?thesis
      using rc by (simp add: RequestPages_def cursor_result_def)
  next
    case (Some i)
    then have i: "PageBitmapIndex s \<le> i" "i < Size (PageBitmap s) * 8" "\<not> used s i"
      "\<forall>t < unat n. \<not> used s (i + of_nat t)"
      using rc(2) by (simp_all add: free_run_def cursor_result_def run_is_free_def list_all_iff)
    let ?s = "LockPages (i * 4096) n (s\<lparr>PageBitmapIndex := c\<rparr>)"
    have l: "used ?s j = (used s j \<or> in_map s j \<and> (\<exists>t < unat n. j = i + of_nat t))" for j
      using LockPages_run [of "s\<lparr>PageBitmapIndex := c\<rparr>" n i] i(2) assms by simp
    have "in_map s (i + of_nat t)" if "unat i + unat n \<le> unat (Size (PageBitmap s) * 8)" "t < unat n" for t
      using run_inside [OF assms i(2) that(2)] that by (simp add: word_le_nat_alt)
    then have "\<forall>t < unat n. used ?s (i + of_nat t)" if "unat i + unat n \<le> unat (Size (PageBitmap s) * 8)"
      using that by (auto simp: l)
    then show ?thesis
      using rc Some i l by (auto simp: RequestPages_def)
  qed
qed

text \<open>Two pages inside the bitmap, and four pages of which the bitmap only has the first.\<close>

definition pfa_last :: PageFrameAllocator where
  "pfa_last = pfa_example\<lparr>PageBitmap := \<lparr>Size = 1, Buffer = (\<lambda>i. if i = 0 then 0xFE else 0)\<rparr>\<rparr>"

lemma pfa_last_used: "used pfa_last i \<longleftrightarrow> i < 7"
proof -
  have "used pfa_last i = (i \<in> {0, 1, 2, 3, 4, 5, 6})" if "i \<le> 8"
  proof -
    have "i \<in> {0, 1, 2, 3, 4, 5, 6, 7, 8}"
      using that by (simp, unat_arith)
    then show ?thesis
      by (elim insertE) (simp_all add: pfa_last_def pfa_eval)
  qed
  moreover have "\<not> used pfa_last i" if "\<not> i \<le> 8"
    using that by (simp add: pfa_last_def pfa_eval)
  moreover have "i < 7 \<longleftrightarrow> i \<in> {0, 1, 2, 3, 4, 5, 6}"
    by (simp, unat_arith)
  ultimately show ?thesis
    by (cases "i \<le> 8") auto
qed

lemma pfa_example_sizes: "Size (PageBitmap pfa_example) = 1" "Size (PageBitmap pfa_last) = 1"
  by (simp_all add: pfa_example_def pfa_last_def)

lemma RequestPages_examples:
  "RequestPages 2 pfa_example = Some (0x4000, LockPages 0x4000 2 (pfa_example\<lparr>PageBitmapIndex := 1\<rparr>))"
  "RequestPages 4 pfa_last = Some (0x7000, LockPages 0x7000 4 (pfa_last\<lparr>PageBitmapIndex := 7\<rparr>))"
proof -
  have upt: "[0..<2] = [0, 1]" "[0..<4] = [0, 1, 2, 3]"
    by (simp_all add: upt_rec)
  have run: "run_is_free b i 2 \<longleftrightarrow> \<not> Bitmap_Get b i \<and> \<not> Bitmap_Get b (i + 1)"
    "run_is_free b i 4 \<longleftrightarrow> \<not> Bitmap_Get b i \<and> \<not> Bitmap_Get b (i + 1) \<and> \<not> Bitmap_Get b (i + 2) \<and> \<not> Bitmap_Get b (i + 3)" for b i
    by (simp_all add: run_is_free_def upt)
  have "RequestPages_index (PageBitmap pfa_example) 2 1 = Some (Some 4)"
    by (subst RequestPages_index.simps, subst RequestPages_index_here)
      (simp_all add: free_run_def run pfa_example_used pfa_example_sizes)
  then have "RequestPages_cursor (PageBitmap pfa_example) 2 0 = Some (Some 4, 1)"
    by (simp add: RequestPages_cursor.simps [of _ _ 0] RequestPages_cursor.simps [of _ _ 1]
        pfa_example_used pfa_example_sizes)
  then show "RequestPages 2 pfa_example = Some (0x4000, LockPages 0x4000 2 (pfa_example\<lparr>PageBitmapIndex := 1\<rparr>))"
    by (simp add: RequestPages_def pfa_example_def KernelAllocator0_def)
  have "RequestPages_index (PageBitmap pfa_last) 4 7 = Some (Some 7)"
    by (rule RequestPages_index_here)
      (simp add: free_run_def run pfa_last_used pfa_example_sizes)
  then have "RequestPages_cursor (PageBitmap pfa_last) 4 0 = Some (Some 7, 7)"
    by (simp add: RequestPages_cursor.simps pfa_last_used pfa_example_sizes)
  then show "RequestPages 4 pfa_last = Some (0x7000, LockPages 0x7000 4 (pfa_last\<lparr>PageBitmapIndex := 7\<rparr>))"
    by (simp add: RequestPages_def pfa_last_def pfa_example_def KernelAllocator0_def)
qed

theorem RequestPages_correct_witness:
  "(\<exists>s'. RequestPages 2 pfa_example = Some (0x4000, s') \<and> used s' 4 \<and> used s' 5 \<and> \<not> used s' 6) \<and>
   (\<exists>s'. RequestPages 4 pfa_last = Some (0x7000, s') \<and> used s' 7 \<and> used s' 8 \<and> \<not> used s' 9 \<and> \<not> used s' 10)"
proof -
  have few: "(\<exists>t < 4. P t) \<longleftrightarrow> P 0 \<or> P 1 \<or> P 2 \<or> P (3 :: nat)" "(\<exists>t < 2. P t) \<longleftrightarrow> P 0 \<or> P (1 :: nat)" for P
    by (auto simp: numeral_eq_Suc less_Suc_eq)
  have fits: "run_fits (PageBitmap pfa_example) 2" "run_fits (PageBitmap pfa_last) 4"
    by (simp_all add: run_fits_def pfa_example_sizes)
  have page: "i * 4096 div 4096 = i" if "i < 8" for i :: u64
    by (rule page_of_address, rule order.strict_trans [OF that]) simp
  have inj: "x = i" if "x * 4096 = i * 4096" "i < 8" "x < 8" for i x :: u64
    using page [OF that(2)] page [OF that(3)] that(1) by simp
  obtain s' where s': "RequestPages 2 pfa_example = Some (0x4000, s')"
    by (simp add: RequestPages_examples)
  have u: "used s' j = (used pfa_example j \<or> j \<le> 8 \<and> (j = 4 \<or> j = 5))" for j
    using RequestPages_correct [OF fits(1)] s'
    by (auto simp: pfa_example_sizes few dest!: inj [of 4, simplified])
  obtain t' where t': "RequestPages 4 pfa_last = Some (0x7000, t')"
    by (simp add: RequestPages_examples)
  have v: "used t' j = (used pfa_last j \<or> j \<le> 8 \<and> (j = 7 \<or> j = 8 \<or> j = 9 \<or> j = 10))" for j
    using RequestPages_correct [OF fits(2)] t'
    by (auto simp: pfa_example_sizes few dest!: inj [of 7, simplified])
  show ?thesis
    using s' t' by (simp add: u v pfa_example_used pfa_last_used)
qed

text \<open>
  C33. A \<^verbatim>\<open>RequestPages\<close> that finds no run leaves the cursor at the end of the bitmap:
  the next \<^verbatim>\<open>RequestPage\<close> panics with "out of memory" whatever pages are free.
\<close>

theorem RequestPages_failure_then_panic:
  assumes "run_fits (PageBitmap s) n"
    and "\<forall>k. PageBitmapIndex s \<le> k \<longrightarrow> \<not> free_run (PageBitmap s) n k"
  shows "\<exists>s'. RequestPages n s = Some (0, s') \<and> (\<forall>j. used s' j = used s j) \<and>
    RequestPage s' = Inl Panic"
proof -
  obtain r c where rc: "RequestPages_cursor (PageBitmap s) n (PageBitmapIndex s) = Some (r, c)"
    "cursor_result (PageBitmap s) n (PageBitmapIndex s) r c"
    using RequestPages_cursor_returns [OF assms(1), of "PageBitmapIndex s"] by blast
  have "r = None"
    using assms(2) rc(2) by (cases r) (auto simp: cursor_result_def)
  then have "RequestPages n s = Some (0, s\<lparr>PageBitmapIndex := c\<rparr>)" "Size (PageBitmap s) * 8 \<le> c"
    using rc by (simp_all add: RequestPages_def cursor_result_def)
  then show ?thesis
    by (auto simp: RequestPage_def Let_def RequestPage_cursor_end)
qed

theorem RequestPages_failure_then_panic_witness:
  "\<exists>s'. RequestPages 6 pfa_example = Some (0, s') \<and> \<not> used s' 1 \<and> RequestPage s' = Inl Panic"
proof -
  have fits: "run_fits (PageBitmap pfa_example) 6"
    by (simp add: run_fits_def pfa_eval)
  have pages: "[0..<6] = [0, 1, 2, 3, 4, 5]"
    by (simp add: upt_rec)
  have "\<not> free_run (PageBitmap pfa_example) 6 k" for k
  proof
    assume run: "free_run (PageBitmap pfa_example) 6 k"
    then have "k < 8"
      by (simp add: free_run_def pfa_eval)
    then have "k \<in> {0, 1, 2, 3, 4, 5, 6, 7}"
      by (simp, unat_arith)
    with run show False
      by (elim insertE) (simp_all add: free_run_def run_is_free_def pfa_example_used pages)
  qed
  then show ?thesis
    using RequestPages_failure_then_panic [OF fits] by (auto simp: pfa_example_used)
qed

text \<open>
  C7. After \<^verbatim>\<open>ReadMemoryMap\<close> a page of the bitmap is taken exactly when it is below 1 MB, is one
  of the \<^verbatim>\<open>Size / 4096 + 1\<close> pages from the start of the bitmap on (one more than its \<^verbatim>\<open>Size\<close> bytes
  fill), or has a number of at most \<^verbatim>\<open>MemSize / 4096\<close> (the page that follows the memory included) and
  lies in no free entry of the map. The other pages of the bitmap are free, those beyond the end of
  the memory among them.
\<close>

theorem ReadMemoryMap_taken_iff:
  assumes "ReadMemoryMap ram mem KernelAllocator0 = Inr s" and "i < Size (PageBitmap s) * 8"
  shows "used s i \<longleftrightarrow> i < 256 \<or>
    (\<exists>t < unat (Size (PageBitmap s) div 4096 + 1). i = (BufferAddress s + of_nat t * 4096) div 4096) \<or>
    i \<le> MemSize mem div 4096 \<and>
    \<not> (\<exists>e \<in> set (Entry mem). EntryType e = GBP_Free \<and> entry_page e i)"
  using assms(1)
proof (rule ReadMemoryMap_eq)
  fix s1 s2 s3
  let ?M = "MemSize mem div 4096"
  assume s1: "s1 = InitBitmap ram (ALIGN_UP (MemSize mem div 0x1000 div 8) 0x1000)
            (fst (LargestFreeMemorySegment (Entry mem)))
            (KernelAllocator0\<lparr>Initialized := True, TotalMemory := MemSize mem,
               FreeMemory := MemSize mem\<rparr>)"
    and s2: "s2 = ReservePages 0 (?M + 1) s1"
    and s3: "s3 = ReservePages 0 0x100 (release_entries (Entry mem) s2)"
    and s: "s = (LockPages (BufferAddress s3) (Size (PageBitmap s3) div 4096 + 1) s3)
           \<lparr>Initalized := True\<rparr>"
  have frame: "Size (PageBitmap s2) = Size (PageBitmap s)" "Size (PageBitmap s3) = Size (PageBitmap s)"
    "Size (PageBitmap s1) = Size (PageBitmap s)" "BufferAddress s3 = BufferAddress s"
    by (simp_all add: s s3 s2)
  have i: "in_map s i"
    using assms(2) by simp
  have "\<not> used s1 i"
    using assms(2) InitBitmap_clear [OF _ ALIGN_UP_bound [of "?M div 8"]] page_count_bound(2) [of "MemSize mem"]
      ReadMemoryMap_frame(3) [OF assms(1)]
    unfolding s1 by (simp add: word_less_nat_alt unat_div)
  moreover have "unat (?M + 1) \<le> 2 ^ 52" "i < ?M + 1 \<longleftrightarrow> i \<le> ?M"
    using page_count_bound [of "MemSize mem"]
    by (simp_all add: word_less_nat_alt word_le_nat_alt unat_div less_Suc_eq_le)
  ultimately have "used s2 i \<longleftrightarrow> i \<le> ?M"
    using reserve_low [where n = "?M + 1" and s = s1 and i = i] i by (simp add: s2 frame)
  then have "used s3 i \<longleftrightarrow> i < 256 \<or> i \<le> ?M \<and>
      \<not> (\<exists>e \<in> set (Entry mem). EntryType e = GBP_Free \<and> entry_page e i)"
    using reserve_low [where n = "0x100" and s = "release_entries (Entry mem) s2" and i = i] i
    by (auto simp: s3 release_used frame)
  moreover have i3: "in_map s3 i" and s_used: "used s i =
      used (LockPages (BufferAddress s3) (Size (PageBitmap s3) div 4096 + 1) s3) i"
    using i by (simp_all add: frame(2)) (simp add: s)
  have "used s i \<longleftrightarrow> used s3 i \<or>
      (\<exists>t < unat (Size (PageBitmap s3) div 4096 + 1). i = (BufferAddress s3 + of_nat t * 4096) div 4096)"
    using i3 by (auto simp: s_used LockPages_def lock.range_taken)
  ultimately show ?thesis
    by (auto simp: frame)
qed

theorem ReadMemoryMap_taken_iff_witness:
  "\<exists>s. ReadMemoryMap (\<lambda>_. 0) \<lparr>MemSize = 0x200000, KernelBaseVirtual = 0,
      KernelBasePhysical = 0,
      Entry = [\<lparr>PhysicalAddress = 0x100000, VirtualAddress = 0, Pages = 256,
                EntryType = GBP_Free, EntrySize = 0x100000, EntryLength = 0x100000\<rparr>]\<rparr> KernelAllocator0 = Inr s \<and>
     used s 255 \<and> used s 256 \<and> used s 257 \<and> \<not> used s 258 \<and> used s 512 \<and> \<not> used s 513"
proof -
  let ?mem = "\<lparr>MemSize = 0x200000, KernelBaseVirtual = 0,
      KernelBasePhysical = 0,
      Entry = [\<lparr>PhysicalAddress = 0x100000, VirtualAddress = 0, Pages = 256,
                EntryType = GBP_Free, EntrySize = 0x100000, EntryLength = 0x100000\<rparr>]\<rparr>"
  obtain s where s: "ReadMemoryMap (\<lambda>_. 0) ?mem KernelAllocator0 = Inr s"
    by (simp add: ReadMemoryMap_def KernelAllocator0_def Let_def del: fold_simps)
  have size: "Size (PageBitmap s) = 4096" "BufferAddress s = 0x100000"
    using ReadMemoryMap_frame(3,4) [OF s]
    by (simp_all add: ALIGN_UP_def LargestFreeMemorySegment_def)
  have two: "(\<exists>t < 2. P t) \<longleftrightarrow> P 0 \<or> P (1 :: nat)" for P
    by (auto simp: less_2_cases_iff)
  have page: "(0x100000 + of_nat t * 4096) div 4096 = (256 + of_nat t :: u64)" if "t < 256" for t
  proof -
    have "(256 + of_nat t :: u64) < 2 ^ 52"
      using that by (simp add: word_less_nat_alt unat_word_ariths unsigned_of_nat take_bit_nat_eq_self)
    then show ?thesis
      using page_of_address [of "256 + of_nat t"] by (simp add: algebra_simps)
  qed
  have "(\<exists>t < 256. (0x100000 + of_nat t * 4096) div 4096 = (258 :: u64))"
    using page [of 2] by (intro exI [of _ 2]) simp
  moreover have "(0x100000 + of_nat t * 4096) div 4096 \<noteq> (512 :: u64)" if "t < 256" for t
    unfolding page [OF that] using that
    by (auto dest!: arg_cong [of _ _ unat] simp: unat_word_ariths unsigned_of_nat take_bit_nat_eq_self)
  moreover note taken = ReadMemoryMap_taken_iff [OF s, unfolded size]
  ultimately have "used s 255" "used s 256" "used s 257" "\<not> used s 258" "used s 512" "\<not> used s 513"
    using taken [of 255] taken [of 256] taken [of 257] taken [of 258] taken [of 512] taken [of 513]
    by (simp_all add: two entry_page_def)
  then show ?thesis
    using s by (intro exI [of _ s] conjI)
qed

text \<open>
  C32. Requesting, locking and freeing pages, in any order, keeps \<^verbatim>\<open>FreeMemory\<close> in
  step with the bitmap: free memory plus 4096 bytes for every taken page is a constant.
\<close>

theorem pfa_free_memory_matches_bitmap:
  assumes "pfa_step\<^sup>*\<^sup>* s s'"
  shows "FreeMemory s' + 4096 * of_nat (card {i. used s' i}) =
    FreeMemory s + 4096 * of_nat (card {i. used s i})"
  using assms
  by (induction rule: rtranclp_induct)
    (auto dest: pfa_step_accounted simp: accounted_def)

theorem pfa_free_memory_matches_bitmap_witness:
  "pfa_step\<^sup>*\<^sup>* pfa_example (LockPage 0x1000 pfa_example) \<and>
   FreeMemory (LockPage 0x1000 pfa_example) +
     4096 * of_nat (card {i. used (LockPage 0x1000 pfa_example) i}) = 0x9000"
proof -
  have step: "pfa_step\<^sup>*\<^sup>* pfa_example (LockPage 0x1000 pfa_example)"
    by (intro r_into_rtranclp step_LockPage)
  have "{i. used pfa_example i} = {0, 2, 8}"
    by (auto simp: pfa_example_used)
  moreover have "FreeMemory pfa_example = 0x6000"
    by (simp add: pfa_example_def)
  ultimately show ?thesis
    using step pfa_free_memory_matches_bitmap [OF step] by simp
qed

text \<open>
  \<^verbatim>\<open>UnreservePage\<close> does not look at the bit it clears: on a page that is already
  free it counts the page a second time, taking it from the reserved memory.
\<close>

lemma UnreservePage_counts_twice:
  assumes "in_map s (a div 4096)" and "\<not> used s (a div 4096)"
  shows "(\<forall>j. used (UnreservePage a s) j = used s j) \<and>
    FreeMemory (UnreservePage a s) = FreeMemory s + 4096 \<and>
    ReservedMemory (UnreservePage a s) = ReservedMemory s - 4096"
  using assms
  by (auto simp: UnreservePage_used) (simp_all add: UnreservePage_def Let_def case_prod_unfold Bitmap_Set_fst)

lemma UnreservePage_counts_twice_witness:
  "FreeMemory (UnreservePage 0x1000 pfa_example) = 0x7000 \<and>
   ReservedMemory (UnreservePage 0x1000 pfa_example) = - 0x1000"
  using UnreservePage_counts_twice [of "0x1000" pfa_example]
  by (simp add: pfa_example_used) (simp add: pfa_example_def KernelAllocator0_def)

end
