(* ===== verification/Paging.thy ===== *)
theory Paging
  imports Page_Frame_Allocator "HOL-Library.Sublist"
begin

text \<open>
  The virtual memory manager of \<^verbatim>\<open>src/kernel/mem/VirtualMemoryManager.cpp\<close> and
  \<^verbatim>\<open>src/kernel/mem/helpers\<close>: page table entries, the four indices of an address,
  \<^verbatim>\<open>MapMemory\<close> and \<^verbatim>\<open>UnmapMemory\<close>, and the clients
  \<^verbatim>\<open>StackHeapManager.cpp\<close> and \<^verbatim>\<open>PageTableHeapManager.cpp\<close>. The tables
  live in the memory the kernel reads through its identity mapping.
\<close>

section \<open>Page table entries\<close>

datatype PTFlag = PT_P | PT_RW | PT_US | PT_PWT | PT_PCD | PT_A | PT_D | PT_PS | PT_G
  | PT_AVL0 | PT_AVL1 | PT_AVL2 | PT_PAT | PT_AVL3 | PT_AVL4 | PT_AVL5 | PT_AVL6 | PT_AVL7
  | PT_AVL8 | PT_AVL9 | PT_PK0 | PT_PK1 | PT_PK2 | PT_PK3 | PT_XD

fun ptflag :: "PTFlag \<Rightarrow> u64" where
  "ptflag PT_P = push_bit 0 1"
| "ptflag PT_RW = push_bit 1 1"
| "ptflag PT_US = push_bit 2 1"
| "ptflag PT_PWT = push_bit 3 1"
| "ptflag PT_PCD = push_bit 4 1"
| "ptflag PT_A = push_bit 5 1"
| "ptflag PT_D = push_bit 6 1"
| "ptflag PT_PS = push_bit 7 1"
| "ptflag PT_G = push_bit 8 1"
| "ptflag PT_AVL0 = push_bit 9 1"
| "ptflag PT_AVL1 = push_bit 10 1"
| "ptflag PT_AVL2 = push_bit 11 1"
| "ptflag PT_PAT = push_bit 12 1"
| "ptflag PT_AVL3 = push_bit 52 1"
| "ptflag PT_AVL4 = push_bit 53 1"
| "ptflag PT_AVL5 = push_bit 54 1"
| "ptflag PT_AVL6 = push_bit 55 1"
| "ptflag PT_AVL7 = push_bit 56 1"
| "ptflag PT_AVL8 = push_bit 57 1"
| "ptflag PT_AVL9 = push_bit 58 1"
| "ptflag PT_PK0 = push_bit 59 1"
| "ptflag PT_PK1 = push_bit 60 1"
| "ptflag PT_PK2 = push_bit 61 1"
| "ptflag PT_PK3 = push_bit 62 1"
| "ptflag PT_XD = push_bit 63 1"

declare ptflag.simps [simp del]

text \<open>A \<^verbatim>\<open>PageDirectoryEntry\<close> is its \<^verbatim>\<open>Value.raw\<close>.\<close>

type_synonym PageDirectoryEntry = u64

definition AddFlag :: "PageDirectoryEntry \<Rightarrow> u64 \<Rightarrow> PageDirectoryEntry" where
  "AddFlag raw Flag = raw OR Flag"

definition RemoveFlags :: "PageDirectoryEntry \<Rightarrow> u64 \<Rightarrow> PageDirectoryEntry" where
  "RemoveFlags raw Flag = raw AND NOT Flag"

definition ClearFlags :: "PageDirectoryEntry \<Rightarrow> PageDirectoryEntry" where
  "ClearFlags raw = 0"

definition SetFlag :: "PageDirectoryEntry \<Rightarrow> u64 \<Rightarrow> bool \<Rightarrow> PageDirectoryEntry" where
  "SetFlag raw Flag Enabled =
     (let raw = raw AND NOT Flag in if Enabled then raw OR Flag else raw)"

definition GetFlags :: "PageDirectoryEntry \<Rightarrow> u64" where
  "GetFlags raw = raw"

definition GetFlag :: "PageDirectoryEntry \<Rightarrow> u64 \<Rightarrow> bool" where
  "GetFlag raw Flag = (if raw AND Flag > 0 then True else False)"

definition GetAddress :: "PageDirectoryEntry \<Rightarrow> u64" where
  "GetAddress raw = drop_bit 12 (raw AND 0x000FFFFFFFFFF000)"

definition SetAddress :: "PageDirectoryEntry \<Rightarrow> u64 \<Rightarrow> PageDirectoryEntry" where
  "SetAddress raw Address =
     (let Address = Address AND 0x000000FFFFFFFFFF;
          raw = raw AND 0xFFF0000000000FFF
      in raw OR push_bit 12 Address)"

section \<open>Indices\<close>

record PageMapIndexer =
  PDP_i :: u64
  PD_i :: u64
  PT_i :: u64
  P_i :: u64

definition PageMapIndexer :: "u64 \<Rightarrow> PageMapIndexer" where
  "PageMapIndexer VirtualAddr =
     \<lparr>PDP_i = drop_bit 39 (VirtualAddr AND push_bit 39 0x1FF),
      PD_i = drop_bit 30 (VirtualAddr AND push_bit 30 0x1FF),
      PT_i = drop_bit 21 (VirtualAddr AND push_bit 21 0x1FF),
      P_i = drop_bit 12 (VirtualAddr AND push_bit 12 0x1FF)\<rparr>"

section \<open>The manager\<close>

record PageTableManager =
  MgrInitalized :: bool
  PML4 :: u64

text \<open>
  The state the manager works on: the frame allocator and the memory, of which only the
  8-byte entries at multiples of 8 are read and written here.
\<close>

record VirtualMemory =
  KernelAllocator :: PageFrameAllocator
  Memory :: "u64 \<Rightarrow> u64"

definition Entries :: "VirtualMemory \<Rightarrow> u64 \<Rightarrow> u64 \<Rightarrow> PageDirectoryEntry" where
  "Entries m table i = Memory m (table + 8 * i)"

definition set_Entries ::
    "u64 \<Rightarrow> u64 \<Rightarrow> PageDirectoryEntry \<Rightarrow> VirtualMemory \<Rightarrow> VirtualMemory" where
  "set_Entries table i e m = m\<lparr>Memory := (Memory m)(table + 8 * i := e)\<rparr>"

text \<open>\<^verbatim>\<open>RequestPage\<close> followed by \<^verbatim>\<open>memset(page, 0, PAGE_SIZE)\<close>.\<close>

definition memset_page :: "u64 \<Rightarrow> VirtualMemory \<Rightarrow> VirtualMemory" where
  "memset_page p m = m\<lparr>Memory := (\<lambda>a. if a - p < 0x1000 then 0 else Memory m a)\<rparr>"

definition RequestTable :: "VirtualMemory \<Rightarrow> stop + (u64 \<times> VirtualMemory)" where
  "RequestTable m =
     and_then (RequestPage (KernelAllocator m))
       (\<lambda>(p, a). Inr (p, memset_page p (m\<lparr>KernelAllocator := a\<rparr>)))"

definition new_entry :: "PageDirectoryEntry \<Rightarrow> u64 \<Rightarrow> u64 \<Rightarrow> PageDirectoryEntry" where
  "new_entry PDE Address Flags =
     (let PDE = SetAddress PDE (drop_bit 12 Address);
          PDE = SetFlag PDE (ptflag PT_P) True
      in AddFlag PDE Flags)"

text \<open>
  One level of the walk: the table the entry \<open>i\<close> of \<open>table\<close> refers to, allocated when
  the entry is not present.
\<close>

definition MapMemory_level ::
    "u64 \<Rightarrow> u64 \<Rightarrow> u64 \<Rightarrow> VirtualMemory \<Rightarrow> stop + (u64 \<times> VirtualMemory)" where
  "MapMemory_level table i Flags m =
     (let PDE = Entries m table i
      in if \<not> GetFlag PDE (ptflag PT_P)
         then and_then (RequestTable m)
           (\<lambda>(PD, m). Inr (PD, set_Entries table i (new_entry PDE PD Flags) m))
         else Inr (push_bit 12 (GetAddress PDE), m))"

text \<open>
  The top level. With an explicit \<^verbatim>\<open>PageTable4\<close> the code reads its entry again
  instead of storing the new one.
\<close>

definition MapMemory_top ::
    "PageTableManager \<Rightarrow> u64 \<Rightarrow> u64 \<Rightarrow> u64 \<Rightarrow> VirtualMemory \<Rightarrow> stop + (u64 \<times> VirtualMemory)"
where
  "MapMemory_top this PageTable4 i Flags m =
     (let PDE = (if PageTable4 \<noteq> 0 then Entries m PageTable4 i else Entries m (PML4 this) i)
      in if \<not> GetFlag PDE (ptflag PT_P)
         then and_then (RequestTable m)
           (\<lambda>(PDP, m).
              let PDE = new_entry PDE PDP Flags
              in Inr (PDP, if PageTable4 \<noteq> 0 then m else set_Entries (PML4 this) i PDE m))
         else Inr (push_bit 12 (GetAddress PDE), m))"

definition MapMemory ::
    "PageTableManager \<Rightarrow> u64 \<Rightarrow> u64 \<Rightarrow> u64 \<Rightarrow> u64 \<Rightarrow> VirtualMemory \<Rightarrow> stop + VirtualMemory"
where
  "MapMemory this VirtualAddr PhysicalAddr Flags PageTable4 m =
     (let indexer = PageMapIndexer VirtualAddr
      in if PML4 this = 0 \<and> PageTable4 = 0 then Inl Halt
         else
           and_then (MapMemory_top this PageTable4 (PDP_i indexer) Flags m) (\<lambda>(PDP, m).
           and_then (MapMemory_level PDP (PD_i indexer) Flags m) (\<lambda>(PD, m).
           and_then (MapMemory_level PD (PT_i indexer) Flags m) (\<lambda>(PT, m).
             let PDE = Entries m PT (P_i indexer)
             in Inr (set_Entries PT (P_i indexer) (new_entry PDE PhysicalAddr Flags) m)))))"

definition UnmapMemory ::
    "PageTableManager \<Rightarrow> u64 \<Rightarrow> u64 \<Rightarrow> VirtualMemory \<Rightarrow> PageDirectoryEntry \<times> VirtualMemory" where
  "UnmapMemory this VirtualAddr PageTable4 m =
     (let indexer = PageMapIndexer VirtualAddr;
          PDE = (if PageTable4 \<noteq> 0 then Entries m PageTable4 (PDP_i indexer)
                 else Entries m (PML4 this) (PDP_i indexer));
          PDE = ClearFlags PDE
      in (PDE, m))"

text \<open>The C entry point \<^verbatim>\<open>MapMemory(PML4, VirtualMemory, PhysicalMemory, Flags)\<close>.\<close>

definition MapMemory_C ::
    "PageTableManager \<Rightarrow> u64 \<Rightarrow> u64 \<Rightarrow> u64 \<Rightarrow> u64 \<Rightarrow> VirtualMemory \<Rightarrow> stop + VirtualMemory"
where
  "MapMemory_C mgr PageTable4 VirtualMem PhysicalMem Flags m =
     (if Flags = 0 then MapMemory mgr VirtualMem PhysicalMem (ptflag PT_RW) PageTable4 m
      else MapMemory mgr VirtualMem PhysicalMem Flags PageTable4 m)"

section \<open>Clients\<close>

text \<open>\<^verbatim>\<open>StackHeapManager.cpp\<close>\<close>

definition AllocateStack ::
    "PageTableManager \<Rightarrow> bool \<Rightarrow> VirtualMemory \<Rightarrow> stop + (u64 \<times> VirtualMemory)" where
  "AllocateStack mgr User m =
     and_then (RequestPage (KernelAllocator m)) (\<lambda>(Address, a).
       let m = m\<lparr>KernelAllocator := a\<rparr>
       in if User
          then and_then (MapMemory mgr Address Address (ptflag PT_RW OR ptflag PT_US) 0 m)
                 (\<lambda>m. Inr (Address, m))
          else Inr (Address, m))"

definition FreeStack :: "u64 \<Rightarrow> VirtualMemory \<Rightarrow> VirtualMemory" where
  "FreeStack Address m = m\<lparr>KernelAllocator := FreePage Address (KernelAllocator m)\<rparr>"

text \<open>
  \<^verbatim>\<open>PageTableHeapManager.cpp\<close>. \<open>page_loop\<close> is
  \<^verbatim>\<open>for (uint64_t t = from; t < to; t += PAGE_SIZE)\<close>, which does not end when
  \<^verbatim>\<open>t\<close> wraps around below \<^verbatim>\<open>to\<close>: \<open>None\<close>.
\<close>

partial_function (option) page_loop ::
    "(u64 \<Rightarrow> 's \<Rightarrow> stop + 's) \<Rightarrow> u64 \<Rightarrow> u64 \<Rightarrow> 's \<Rightarrow> (stop + 's) option" where
  "page_loop body t to s =
     (if t < to
      then case body t s of Inl e \<Rightarrow> Some (Inl e) | Inr s \<Rightarrow> page_loop body (t + 0x1000) to s
      else Some (Inr s))"

definition bind_loop ::
    "(stop + 'a) option \<Rightarrow> ('a \<Rightarrow> (stop + 'b) option) \<Rightarrow> (stop + 'b) option" where
  "bind_loop r k =
     Option.bind r (\<lambda>r. case r of Inl e \<Rightarrow> Some (Inl e) | Inr x \<Rightarrow> k x)"

record KernelImage =
  KernelStart :: u64
  KernelTextEnd :: u64
  KernelRoDataEnd :: u64
  KernelEnd :: u64

record GBPFramebuffer =
  BaseAddress :: u64
  BufferSize :: u64
  FbWidth :: u32
  FbHeight :: u32
  PixelsPerScanLine :: u32
  BitsPerPixel :: u16

definition NORMAL_VMA_OFFSET :: u64 where
  "NORMAL_VMA_OFFSET = 0xFFFF800000000000"

text \<open>The loop over the memory maps each page at its own address and at the offset.\<close>

definition map_ram_body ::
    "PageTableManager \<Rightarrow> u64 \<Rightarrow> u64 \<times> VirtualMemory \<Rightarrow> stop + (u64 \<times> VirtualMemory)" where
  "map_ram_body mgr t st =
     (case st of (VirtualOffsetNormalVMA, m) \<Rightarrow>
        and_then (MapMemory mgr t t (ptflag PT_RW OR ptflag PT_US) 0 m) (\<lambda>m.
        and_then (MapMemory mgr VirtualOffsetNormalVMA t (ptflag PT_RW OR ptflag PT_US) 0 m) (\<lambda>m.
          Inr (VirtualOffsetNormalVMA + 0x1000, m))))"

definition map_framebuffer_body ::
    "PageTableManager \<Rightarrow> u64 \<Rightarrow> VirtualMemory \<Rightarrow> stop + VirtualMemory" where
  "map_framebuffer_body mgr fb_base m =
     MapMemory mgr fb_base (fb_base - NORMAL_VMA_OFFSET) (ptflag PT_RW OR ptflag PT_US) 0 m"

text \<open>The three loops over the kernel image differ in the flags only.\<close>

definition map_kernel_body ::
    "PageTableManager \<Rightarrow> u64 \<Rightarrow> u64 \<Rightarrow> u64 \<times> VirtualMemory \<Rightarrow> stop + (u64 \<times> VirtualMemory)" where
  "map_kernel_body mgr Flags k st =
     (case st of (BaseKernelMapAddress, m) \<Rightarrow>
        and_then (MapMemory mgr k BaseKernelMapAddress Flags 0 m) (\<lambda>m.
          Inr (BaseKernelMapAddress + 0x1000,
               m\<lparr>KernelAllocator := LockPage BaseKernelMapAddress (KernelAllocator m)\<rparr>)))"

text \<open>
  The result is the new \<^verbatim>\<open>KernelPML4\<close>, which is also loaded into
  \<^verbatim>\<open>CR3\<close>, and the memory.
\<close>

definition init_kernelpml ::
    "GBPMemory \<Rightarrow> GBPFramebuffer \<Rightarrow> KernelImage \<Rightarrow> u64 \<Rightarrow> VirtualMemory \<Rightarrow>
     (stop + (u64 \<times> VirtualMemory)) option" where
  "init_kernelpml mem fb img KernelPML4 m =
     (if KernelPML4 = 0 then
        bind_loop (Some (RequestTable m)) (\<lambda>(pml4, m).
          let mgr = \<lparr>MgrInitalized = False, PML4 = pml4\<rparr>
          in
          bind_loop (page_loop (map_ram_body mgr) 0 (MemSize mem) (NORMAL_VMA_OFFSET, m)) (\<lambda>(_, m).
          bind_loop (page_loop (map_framebuffer_body mgr) (BaseAddress fb)
              (BaseAddress fb + (BufferSize fb + 0x1000)) m) (\<lambda>m.
          bind_loop (page_loop (map_kernel_body mgr (ptflag PT_RW)) (KernelStart img)
              (KernelTextEnd img) (KernelBasePhysical mem, m)) (\<lambda>st.
          bind_loop (page_loop (map_kernel_body mgr (ptflag PT_P)) (KernelTextEnd img)
              (KernelRoDataEnd img) st) (\<lambda>st.
          bind_loop (page_loop (map_kernel_body mgr (ptflag PT_RW)) (KernelRoDataEnd img)
              (KernelEnd img) st) (\<lambda>(_, m).
            Some (Inr (pml4, m))))))))
      else Some (Inr (KernelPML4, m)))"

text \<open>\<^verbatim>\<open>CreatePageTable\<close> returns the kernel's own tables whatever its argument.\<close>

definition CreatePageTable :: "u64 \<Rightarrow> bool \<Rightarrow> u64" where
  "CreatePageTable KernelPML4 User = KernelPML4"

section \<open>Entries: fields of a word\<close>

text \<open>The masks of \<^verbatim>\<open>PageDirectoryEntry.cpp\<close> are bits 12 to 51 and their complement.\<close>

lemma entry_masks:
  "(0x000FFFFFFFFFF000 :: u64) = push_bit 12 (mask 40)"
  "(0xFFF0000000000FFF :: u64) = NOT (push_bit 12 (mask 40))"
  "(0x000000FFFFFFFFFF :: u64) = mask 40"
  by (simp_all add: mask_eq_exp_minus_1)

lemma GetFlag_P: "GetFlag e (ptflag PT_P) \<longleftrightarrow> bit e 0"
  by (simp add: ptflag.simps GetFlag_def and_one_eq bit_0 odd_iff_mod_2_eq_one word_gt_0)

lemma new_entry_P: "GetFlag (new_entry e A F) (ptflag PT_P)"
  unfolding GetFlag_P
  by (simp add: ptflag.simps new_entry_def SetFlag_def AddFlag_def Let_def bit_or_iff)

text \<open>Flags that stay clear of the address bits, as every flag but \<^verbatim>\<open>PAT\<close> does.\<close>

definition flags_ok :: "u64 \<Rightarrow> bool" where
  "flags_ok F \<longleftrightarrow> F AND 0x000FFFFFFFFFF000 = 0"

lemma flags_ok_bit: "flags_ok F \<Longrightarrow> n < 40 \<Longrightarrow> \<not> bit F (n + 12)"
proof -
  assume "flags_ok F" "n < 40"
  then have "\<not> bit (F AND push_bit 12 (mask 40)) (n + 12)"
    by (simp add: flags_ok_def entry_masks)
  then show ?thesis
    using \<open>n < 40\<close> by (simp add: bit_and_iff bit_push_bit_iff bit_mask_iff)
qed

lemma GetAddress_bit: "bit (GetAddress e) n \<longleftrightarrow> n < 40 \<and> bit e (n + 12)"
  by (auto simp: GetAddress_def entry_masks bit_drop_bit_eq bit_and_iff bit_push_bit_iff
      bit_mask_iff add.commute)

lemma SetAddress_bit:
  "n < 40 \<Longrightarrow> bit (SetAddress e A) (n + 12) \<longleftrightarrow> bit A n"
  by (auto simp: SetAddress_def entry_masks Let_def bit_or_iff bit_and_iff bit_push_bit_iff
      bit_not_iff bit_mask_iff)

lemma SetFlag_bit: "0 < n \<Longrightarrow> bit (SetFlag e (ptflag PT_P) True) n \<longleftrightarrow> bit e n"
  by (auto simp: ptflag.simps SetFlag_def Let_def bit_or_iff bit_and_iff bit_not_iff bit_1_iff
      dest: bit_imp_le_length)

lemma new_entry_GetAddress:
  assumes "flags_ok F"
  shows "GetAddress (new_entry e A F) = take_bit 40 (drop_bit 12 A)"
proof (rule bit_word_eqI)
  fix n
  show "bit (GetAddress (new_entry e A F)) n = bit (take_bit 40 (drop_bit 12 A)) n"
    using flags_ok_bit [OF assms, of n] SetAddress_bit [of n e "drop_bit 12 A"]
      SetFlag_bit [of "n + 12"]
    by (auto simp: GetAddress_bit new_entry_def AddFlag_def Let_def bit_or_iff bit_take_bit_iff)
qed

text \<open>Page-aligned addresses below \<open>2 ^ 52\<close>: what an entry can hold.\<close>

definition page_addr :: "u64 \<Rightarrow> bool" where
  "page_addr t \<longleftrightarrow> take_bit 12 t = 0 \<and> t < 2 ^ 52"

lemma page_addr_iff: "page_addr t \<longleftrightarrow> (\<exists>i. i < 2 ^ 40 \<and> t = i * 4096)"
proof
  assume t: "page_addr t"
  then have "t = drop_bit 12 t * 4096"
    using bits_ident [of 12 t] by (simp add: page_addr_def push_bit_eq_mult)
  moreover have "drop_bit 12 t < 2 ^ 40"
    using t by (auto simp: page_addr_def drop_bit_eq_div word_less_nat_alt unat_div)
  ultimately show "\<exists>i. i < 2 ^ 40 \<and> t = i * 4096"
    by blast
next
  assume "\<exists>i. i < 2 ^ 40 \<and> t = i * 4096"
  then show "page_addr t"
    by (auto simp: page_addr_def word_less_nat_alt unat_word_ariths take_bit_eq_mod
        word_unat_eq_iff unat_mod)
qed

lemma new_entry_table:
  assumes "flags_ok F" "page_addr t"
  shows "push_bit 12 (GetAddress (new_entry e t F)) = t"
proof -
  have "take_bit 40 (drop_bit 12 t) = drop_bit 12 t"
    using assms(2) by (auto simp: page_addr_def take_bit_eq_mod drop_bit_eq_div
        word_less_nat_alt word_unat_eq_iff unat_div unat_mod)
  then show ?thesis
    using assms bits_ident [of 12 t] by (simp add: new_entry_GetAddress page_addr_def)
qed

section \<open>The tree of tables\<close>

text \<open>
  The table that a list of indices leads to from the table \<open>t\<close>, as the processor and
  \<^verbatim>\<open>MapMemory\<close> follow it, and the mapping of an address. The kernel never sets the
  \<^verbatim>\<open>PS\<close> bit, so an entry of an upper level refers to a table.
\<close>

fun table_at :: "VirtualMemory \<Rightarrow> u64 \<Rightarrow> u64 list \<Rightarrow> u64 option" where
  "table_at m t [] = Some t"
| "table_at m t (i # is) =
     (if GetFlag (Entries m t i) (ptflag PT_P)
      then table_at m (push_bit 12 (GetAddress (Entries m t i))) is else None)"

definition entry_at :: "VirtualMemory \<Rightarrow> u64 \<Rightarrow> u64 list \<Rightarrow> u64 \<Rightarrow> PageDirectoryEntry option" where
  "entry_at m r p i =
     Option.bind (table_at m r p)
       (\<lambda>t. if GetFlag (Entries m t i) (ptflag PT_P) then Some (Entries m t i) else None)"

definition page_path :: "u64 \<Rightarrow> u64 list" where
  "page_path va =
     [PDP_i (PageMapIndexer va), PD_i (PageMapIndexer va), PT_i (PageMapIndexer va)]"

definition page_entry :: "VirtualMemory \<Rightarrow> u64 \<Rightarrow> u64 \<Rightarrow> PageDirectoryEntry option" where
  "page_entry m r va = entry_at m r (page_path va) (P_i (PageMapIndexer va))"

definition translate :: "VirtualMemory \<Rightarrow> u64 \<Rightarrow> u64 \<Rightarrow> u64 option" where
  "translate m r va =
     map_option (\<lambda>e. push_bit 12 (GetAddress e) OR take_bit 12 va) (page_entry m r va)"

text \<open>
  Well-formed tables: every table reached from the root is a page the allocator has taken, and
  no two paths lead to the same table.
\<close>

definition short_path :: "u64 list \<Rightarrow> bool" where
  "short_path p \<longleftrightarrow> length p \<le> 3 \<and> (\<forall>i \<in> set p. i < 512)"

definition tables_ok :: "VirtualMemory \<Rightarrow> u64 \<Rightarrow> bool" where
  "tables_ok m r \<longleftrightarrow>
     (\<forall>p t. short_path p \<longrightarrow> table_at m r p = Some t \<longrightarrow>
        page_addr t \<and> used (KernelAllocator m) (t div 4096)) \<and>
     (\<forall>p q t. short_path p \<longrightarrow> short_path q \<longrightarrow> table_at m r p = Some t \<longrightarrow>
        table_at m r q = Some t \<longrightarrow> p = q)"

lemma tables_okD:
  assumes "tables_ok m r" "short_path p" "table_at m r p = Some t"
  shows "page_addr t" "used (KernelAllocator m) (t div 4096)"
    "\<And>q. short_path q \<Longrightarrow> table_at m r q = Some t \<Longrightarrow> p = q"
  using assms unfolding tables_ok_def by blast+

lemma short_path_simps [simp]:
  "short_path []"
  "short_path (p @ [i]) \<longleftrightarrow> short_path p \<and> length p \<le> 2 \<and> i < 512"
  by (auto simp: short_path_def)

lemma short_path_prefix: "short_path q \<Longrightarrow> prefix p q \<Longrightarrow> short_path p"
  by (auto simp: short_path_def prefix_def)

lemma table_at_append:
  "table_at m r (p @ q) = Option.bind (table_at m r p) (\<lambda>t. table_at m t q)"
  by (induction p arbitrary: r) auto

text \<open>Entries of different tables do not overlap.\<close>

lemma slot_inj:
  assumes "page_addr t" "page_addr u" "i < 512" "j < 512" "t + 8 * i = u + 8 * j"
  shows "t = u \<and> i = j"
proof -
  obtain a b where ab: "a < 2 ^ 40" "t = a * 4096" "b < 2 ^ 40" "u = b * 4096"
    using assms(1,2) by (auto simp: page_addr_iff)
  have "unat a * 4096 + 8 * unat i = unat b * 4096 + 8 * unat j"
    using assms(3-5) ab by (simp add: word_unat_eq_iff unat_word_ariths word_less_nat_alt)
  moreover have "8 * unat i < 4096" "8 * unat j < 4096"
    using assms(3,4) by (simp_all add: word_less_nat_alt)
  ultimately have "unat a = unat b \<and> unat i = unat j"
    using quotient_unique [of "unat a" 4096 "8 * unat i" "unat b" "8 * unat j"] by simp
  then show ?thesis
    by (simp add: ab flip: word_unat_eq_iff)
qed

lemma slot_in_page:
  assumes "page_addr t" "page_addr u" "i < 512"
  shows "t + 8 * i - u < 0x1000 \<longleftrightarrow> t = u"
proof
  assume less: "t + 8 * i - u < 0x1000"
  obtain a b where ab: "a < 2 ^ 40" "t = a * 4096" "b < 2 ^ 40" "u = b * 4096"
    using assms(1,2) by (auto simp: page_addr_iff)
  obtain d where d: "d = t + 8 * i - u" "unat d < 4096"
    using less by (simp add: word_less_nat_alt)
  then have "u + d = t + 8 * i"
    by simp
  then have "unat b * 4096 + unat d = unat a * 4096 + 8 * unat i"
    using assms(3) ab d(2) by (simp add: word_unat_eq_iff unat_word_ariths word_less_nat_alt)
  moreover have "8 * unat i < 4096"
    using assms(3) by (simp add: word_less_nat_alt)
  ultimately have "unat a = unat b"
    using d(2) quotient_unique [of "unat b" 4096 "unat d" "unat a" "8 * unat i"] by simp
  then show "t = u"
    by (simp add: ab flip: word_unat_eq_iff)
qed (use assms(3) in \<open>simp add: word_less_nat_alt unat_word_ariths\<close>)

lemma Entries_alloc [simp]: "Entries (m\<lparr>KernelAllocator := a\<rparr>) t i = Entries m t i"
  by (simp add: Entries_def)

lemma Entries_set:
  assumes "page_addr t" "page_addr u" "i < 512" "j < 512"
  shows "Entries (set_Entries t i e m) u j = (if u = t \<and> j = i then e else Entries m u j)"
  using slot_inj [of u t j i] assms by (auto simp: Entries_def set_Entries_def)

lemma Entries_memset:
  assumes "page_addr t" "page_addr u" "j < 512"
  shows "Entries (memset_page t m) u j = (if u = t then 0 else Entries m u j)"
  using slot_in_page [of u t j] assms by (auto simp: Entries_def memset_page_def)

section \<open>Fresh frames\<close>

text \<open>
  What the manager relies on of the frame allocator: a frame it hands out is page-aligned, was
  owned by nobody, and is owned from then on.
\<close>

locale frame_source =
  fixes request :: "'s \<Rightarrow> stop + (u64 \<times> 's)"
    and taken :: "'s \<Rightarrow> u64 \<Rightarrow> bool"
    and ok :: "'s \<Rightarrow> bool"
  assumes request_frame: "ok s \<Longrightarrow> request s = Inr (p, s') \<Longrightarrow> page_addr p \<and> \<not> taken s p"
    and request_ok: "ok s \<Longrightarrow> request s = Inr (p, s') \<Longrightarrow> ok s'"
    and request_taken: "ok s \<Longrightarrow> request s = Inr (p, s') \<Longrightarrow> page_addr q \<Longrightarrow>
      taken s' q = (q = p \<or> taken s q)"
begin

lemma request_disjoint:
  assumes "ok s" "request s = Inr (p, s')" "\<And>x. x \<in> X \<Longrightarrow> page_addr x \<and> taken s x"
  shows "p \<notin> X" "\<And>x. x \<in> insert p X \<Longrightarrow> page_addr x \<and> taken s' x"
  using request_frame [OF assms(1,2)] request_taken [OF assms(1,2)] assms(3) by auto

end

text \<open>Physical memory ends below \<open>2 ^ 52\<close>.\<close>

definition phys_ok :: "PageFrameAllocator \<Rightarrow> bool" where
  "phys_ok s \<longleftrightarrow> Size (PageBitmap s) \<le> 2 ^ 37"

lemma phys_ok_pages_ok: "phys_ok s \<Longrightarrow> pages_ok s"
  by (auto simp: phys_ok_def pages_ok_def intro: le_less_trans)

lemma phys_ok_page:
  assumes "phys_ok s" "i < Size (PageBitmap s) * 8"
  shows "i < 2 ^ 40"
  using assms by (simp add: phys_ok_def word_less_nat_alt word_le_nat_alt unat_word_ariths)

lemma page_addr_page: "page_addr q \<Longrightarrow> q div 4096 * 4096 = q"
  by (auto simp: page_addr_iff page_of_address [OF less_trans [of _ "2 ^ 40"]])

interpretation frames: frame_source RequestPage "\<lambda>s p. used s (p div 4096)" phys_ok
proof
  fix s p s'
  assume ok: "phys_ok s" and r: "RequestPage s = Inr (p, s')"
  from r obtain i where i: "i < Size (PageBitmap s) * 8" "\<not> used s i" "p = i * 4096"
      "s' = LockPage (i * 4096) (s\<lparr>PageBitmapIndex := i\<rparr>)"
    by (cases rule: RequestPage_cases) auto
  have p: "page_addr p" "p div 4096 = i"
    using phys_ok_page [OF ok i(1)] pages_okD [OF phys_ok_pages_ok [OF ok] i(1)] i(3)
    by (auto simp: page_addr_iff)
  then show "page_addr p \<and> \<not> used s (p div 4096)"
    using i(2) by simp
  show "phys_ok s'"
    using ok by (simp add: phys_ok_def i(4))
  fix q
  assume "page_addr q"
  then show "used s' (q div 4096) = (q = p \<or> used s (q div 4096))"
    using LockPage_page [of "s\<lparr>PageBitmapIndex := i\<rparr>" i "q div 4096"] phys_ok_pages_ok [OF ok]
      i(1) page_addr_page [of q] p(2) by (auto simp: i(3,4))
qed

section \<open>Adding a table\<close>

text \<open>Tables that do not lie below the entry that is written stay where they are.\<close>

lemma table_at_frame:
  assumes ok: "tables_ok m r"
    and p: "short_path p" "table_at m r p = Some t" "i < 512"
    and m': "\<And>u j. page_addr u \<Longrightarrow> used (KernelAllocator m) (u div 4096) \<Longrightarrow> j < 512 \<Longrightarrow>
      \<not> (u = t \<and> j = i) \<Longrightarrow> Entries m' u j = Entries m u j"
    and q: "short_path q" "\<not> prefix (p @ [i]) q"
  shows "table_at m' r q = table_at m r q"
  using q
proof (induction q rule: rev_induct)
  case (snoc j q)
  then have sq: "short_path q" "j < 512" and IH: "table_at m' r q = table_at m r q"
    using prefix_snoc [of "p @ [i]" q j] by auto
  show ?case
  proof (cases "table_at m r q")
    case (Some u)
    have "\<not> (u = t \<and> j = i)"
      using tables_okD(3) [OF ok p(1,2) sq(1)] Some snoc.prems(2) by auto
    then have "Entries m' u j = Entries m u j"
      using m' tables_okD(1,2) [OF ok sq(1) Some] sq(2) by blast
    then show ?thesis
      using IH Some by (simp add: table_at_append)
  qed (simp add: table_at_append IH)
qed simp

text \<open>
  A fresh, empty table hung into an entry that was not present: the tree has one more table and
  no more pages.
\<close>

lemma table_at_new:
  assumes ok: "tables_ok m r"
    and p: "short_path p" "length p \<le> 2" "table_at m r p = Some t" "i < 512"
      "\<not> GetFlag (Entries m t i) (ptflag PT_P)"
    and n: "page_addr n" "\<not> used (KernelAllocator m) (n div 4096)" "flags_ok F"
    and m': "m' = set_Entries t i (new_entry e n F) (memset_page n (m\<lparr>KernelAllocator := a\<rparr>))"
    and q: "short_path q"
  shows "table_at m' r q = (if q = p @ [i] then Some n else table_at m r q)"
proof -
  have tn: "t \<noteq> n" and pt: "page_addr t"
    using tables_okD(1,2) [OF ok p(1,3)] n(2) by auto
  have same: "Entries m' u j = Entries m u j"
    if "page_addr u" "used (KernelAllocator m) (u div 4096)" "j < 512" "\<not> (u = t \<and> j = i)" for u j
    using that n pt p(4) by (auto simp: m' Entries_set Entries_memset)
  have frame: "table_at m' r q = table_at m r q" if "short_path q" "\<not> prefix (p @ [i]) q" for q
    by (rule table_at_frame [OF ok p(1,3,4) _ that]) (use same in blast)
  have old: "table_at m r (p @ [i] @ s) = None" for s
    using p(3,5) by (simp add: table_at_append)
  have "table_at m' r p = Some t"
    using frame [OF p(1)] p(3) by (auto simp: prefix_def)
  moreover have "Entries m' t i = new_entry e n F"
    using pt p(4) by (simp add: m' Entries_set)
  ultimately have new: "table_at m' r (p @ [i] @ s) = table_at m' n s" for s
    by (simp add: table_at_append new_entry_P new_entry_table [OF n(3,1)])
  show ?thesis
  proof (cases "prefix (p @ [i]) q")
    case True
    then obtain s where s: "q = p @ [i] @ s"
      by (auto simp: prefix_def)
    show ?thesis
    proof (cases s)
      case (Cons j js)
      then have "j < 512"
        using q s by (simp add: short_path_def)
      then have "Entries m' n j = 0"
        using pt n(1) p(4) tn by (simp add: m' Entries_set Entries_memset)
      then show ?thesis
        using new [of s] old [of s] s Cons by (simp add: GetFlag_def)
    qed (use new [of "[]"] s in simp)
  qed (use frame [OF q] in auto)
qed

definition same_pages :: "VirtualMemory \<Rightarrow> VirtualMemory \<Rightarrow> u64 \<Rightarrow> bool" where
  "same_pages m m' r \<longleftrightarrow>
     (\<forall>q j. short_path q \<longrightarrow> length q = 3 \<longrightarrow> j < 512 \<longrightarrow> entry_at m' r q j = entry_at m r q j)"

lemma tables_ok_new:
  assumes ok: "tables_ok m r" "phys_ok (KernelAllocator m)"
    and p: "short_path p" "length p \<le> 2" "table_at m r p = Some t" "i < 512"
      "\<not> GetFlag (Entries m t i) (ptflag PT_P)" "flags_ok F"
    and n: "RequestPage (KernelAllocator m) = Inr (n, a)"
    and m': "m' = set_Entries t i (new_entry e n F) (memset_page n (m\<lparr>KernelAllocator := a\<rparr>))"
  shows "tables_ok m' r" "table_at m' r (p @ [i]) = Some n" "same_pages m m' r"
proof -
  have frame: "page_addr n" "\<not> used (KernelAllocator m) (n div 4096)"
    using frames.request_frame [OF ok(2) n] by auto
  have taken: "used a (q div 4096) = (q = n \<or> used (KernelAllocator m) (q div 4096))"
    if "page_addr q" for q
    using frames.request_taken [OF ok(2) n that] .
  have a: "KernelAllocator m' = a"
    by (simp add: m' set_Entries_def memset_page_def)
  note new = table_at_new [OF ok(1) p(1-5) frame p(6) m']
  then show "table_at m' r (p @ [i]) = Some n"
    using p by simp
  note old = tables_okD(1,2) [OF ok(1)]
  have page: "page_addr u" "used a (u div 4096)" if "short_path q" "table_at m' r q = Some u" for q u
  proof -
    show "page_addr u"
      using that old(1) frame(1) by (auto simp: new split: if_splits)
    then show "used a (u div 4096)"
      using that old(2) taken by (auto simp: new split: if_splits)
  qed
  moreover have "q = q'" if "short_path q" "short_path q'" "table_at m' r q = Some u"
      "table_at m' r q' = Some u" for q q' u
    using that old(2) tables_okD(3) [OF ok(1)] frame(2) by (auto simp: new split: if_splits)
  ultimately show "tables_ok m' r"
    unfolding tables_ok_def a by blast
  have pt: "page_addr t" "t \<noteq> n"
    using old [OF p(1,3)] frame(2) by auto
  have "entry_at m' r q j = entry_at m r q j" if q: "short_path q" "length q = 3" "j < 512" for q j
  proof (cases "q = p @ [i]")
    case True
    have "Entries m' n j = 0"
      using pt frame(1) p(4) q(3) by (simp add: m' Entries_set Entries_memset)
    moreover have "table_at m r q = None"
      using p(3,5) by (simp add: True table_at_append)
    ultimately show ?thesis
      using q(1) True by (simp add: entry_at_def new GetFlag_def)
  next
    case False
    have "Entries m' u j = Entries m u j" if u: "table_at m r q = Some u" for u
    proof -
      have "u \<noteq> t"
        using tables_okD(3) [OF ok(1) q(1) u, of p] p(1-3) q(2) by auto
      then show ?thesis
        using old [OF q(1) u] frame pt p(4) q(3) by (auto simp: m' Entries_set Entries_memset)
    qed
    then show ?thesis
      using False q(1) by (cases "table_at m r q") (simp_all add: entry_at_def new)
  qed
  then show "same_pages m m' r"
    by (simp add: same_pages_def)
qed

lemma same_pages_trans [trans]:
  "same_pages m m' r \<Longrightarrow> same_pages m' m'' r \<Longrightarrow> same_pages m m'' r"
  by (simp add: same_pages_def)

definition keeps_frames :: "VirtualMemory \<Rightarrow> VirtualMemory \<Rightarrow> bool" where
  "keeps_frames m m' \<longleftrightarrow>
     (\<forall>q. page_addr q \<longrightarrow> used (KernelAllocator m) (q div 4096) \<longrightarrow>
        used (KernelAllocator m') (q div 4096))"

lemma keeps_frames_trans:
  "keeps_frames m m' \<Longrightarrow> keeps_frames m' m'' \<Longrightarrow> keeps_frames m m''"
  by (simp add: keeps_frames_def)

lemma MapMemory_level_ok:
  assumes ok: "tables_ok m r" "phys_ok (KernelAllocator m)"
    and p: "short_path p" "length p \<le> 2" "table_at m r p = Some t" "i < 512" "flags_ok F"
    and l: "MapMemory_level t i F m = Inr (t', m')"
  shows "tables_ok m' r" "phys_ok (KernelAllocator m')" "table_at m' r (p @ [i]) = Some t'"
    "same_pages m m' r" "keeps_frames m m'"
proof -
  have "tables_ok m' r \<and> phys_ok (KernelAllocator m') \<and> table_at m' r (p @ [i]) = Some t' \<and>
    same_pages m m' r \<and> keeps_frames m m'"
  proof (cases "GetFlag (Entries m t i) (ptflag PT_P)")
    case True
    then show ?thesis
      using l ok p by (auto simp: MapMemory_level_def table_at_append same_pages_def
          keeps_frames_def)
  next
    case False
    then obtain a where a: "RequestPage (KernelAllocator m) = Inr (t', a)"
      "m' = set_Entries t i (new_entry (Entries m t i) t' F)
              (memset_page t' (m\<lparr>KernelAllocator := a\<rparr>))"
      using l by (auto simp: MapMemory_level_def RequestTable_def and_then_eq_Inr Let_def)
    then have "phys_ok (KernelAllocator m')" "keeps_frames m m'"
      using frames.request_ok [OF ok(2) a(1)] frames.request_taken [OF ok(2) a(1)]
      by (simp_all add: keeps_frames_def set_Entries_def memset_page_def)
    then show ?thesis
      using tables_ok_new [OF ok p(1-4) False p(5) a] by blast
  qed
  then show "tables_ok m' r" "phys_ok (KernelAllocator m')" "table_at m' r (p @ [i]) = Some t'"
    "same_pages m m' r" "keeps_frames m m'"
    by blast+
qed

lemma MapMemory_top_own: "MapMemory_top this 0 i F m = MapMemory_level (PML4 this) i F m"
  by (simp add: MapMemory_top_def MapMemory_level_def Let_def)

lemma PageMapIndexer_fields:
  "PDP_i (PageMapIndexer va) = take_bit 9 (drop_bit 39 va)"
  "PD_i (PageMapIndexer va) = take_bit 9 (drop_bit 30 va)"
  "PT_i (PageMapIndexer va) = take_bit 9 (drop_bit 21 va)"
  "P_i (PageMapIndexer va) = take_bit 9 (drop_bit 12 va)"
  by (simp_all add: PageMapIndexer_def take_bit_eq_mask mask_eq_exp_minus_1)

lemma take_bit_9_less: "take_bit 9 (x :: u64) < 512"
  by (simp add: take_bit_eq_mod word_less_nat_alt unat_mod)

lemma index_less [simp]:
  "PDP_i (PageMapIndexer va) < 512" "PD_i (PageMapIndexer va) < 512"
  "PT_i (PageMapIndexer va) < 512" "P_i (PageMapIndexer va) < 512"
  by (simp_all add: PageMapIndexer_fields take_bit_9_less)

lemma page_path_short [simp]: "short_path (page_path va)" "length (page_path va) = 3"
  by (auto simp: page_path_def short_path_def)

text \<open>Writing the last entry changes one page and no table.\<close>

lemma set_page_entry:
  assumes ok: "tables_ok m r"
    and p: "short_path p" "length p = 3" "table_at m r p = Some t" "i < 512"
    and m': "m' = set_Entries t i e m"
  shows "short_path q \<Longrightarrow> table_at m' r q = table_at m r q" "tables_ok m' r"
    "short_path q \<Longrightarrow> length q = 3 \<Longrightarrow> j < 512 \<Longrightarrow>
       entry_at m' r q j = (if q = p \<and> j = i then (if GetFlag e (ptflag PT_P) then Some e else None)
                            else entry_at m r q j)"
proof -
  note old = tables_okD [OF ok]
  have a: "KernelAllocator m' = KernelAllocator m"
    by (simp add: m' set_Entries_def)
  have same: "Entries m' u j = (if u = t \<and> j = i then e else Entries m u j)"
    if "page_addr u" "j < 512" for u j
    using that old(1) [OF p(1,3)] p(4) by (simp add: m' Entries_set)
  show tables: "table_at m' r q = table_at m r q" if q: "short_path q" for q
  proof -
    have "length q \<le> 3"
      using q by (simp add: short_path_def)
    then have "\<not> prefix (p @ [i]) q"
      using p(2) by (auto dest: prefix_length_le)
    then show ?thesis
      by (rule table_at_frame [OF ok p(1,3,4) _ q, rotated]) (auto simp: same)
  qed
  then show "tables_ok m' r"
    using ok by (simp add: tables_ok_def a)
  show "entry_at m' r q j = (if q = p \<and> j = i then (if GetFlag e (ptflag PT_P) then Some e else None)
                            else entry_at m r q j)" if "short_path q" "length q = 3" "j < 512" for q j
  proof (cases "table_at m r q")
    case (Some u)
    then have "u = t \<longleftrightarrow> q = p"
      using old(3) [OF that(1) Some p(1)] p(3) by auto
    then show ?thesis
      using Some tables [OF that(1)] same [OF old(1) [OF that(1) Some] that(3)]
      by (auto simp: entry_at_def)
  qed (use that tables [OF that(1)] p(3) in \<open>auto simp: entry_at_def\<close>)
qed

lemma PageMapIndexer_eq:
  "PageMapIndexer va = PageMapIndexer vb \<longleftrightarrow>
     take_bit 36 (drop_bit 12 va) = take_bit 36 (drop_bit 12 vb)"
proof
  assume eq: "PageMapIndexer va = PageMapIndexer vb"
  have field: "bit va (k + n) = bit vb (k + n)" if "n < 9" "k \<in> {12, 21, 30, 39}" for k n
  proof -
    have "take_bit 9 (drop_bit k va) = take_bit 9 (drop_bit k vb)"
      using that(2) arg_cong [OF eq, of P_i] arg_cong [OF eq, of PT_i] arg_cong [OF eq, of PD_i]
        arg_cong [OF eq, of PDP_i]
      by (auto simp: PageMapIndexer_fields)
    from arg_cong [OF this, of "\<lambda>w. bit w n"] that(1) show ?thesis
      by (simp add: bit_take_bit_iff bit_drop_bit_eq)
  qed
  show "take_bit 36 (drop_bit 12 va) = take_bit 36 (drop_bit 12 vb)"
  proof (rule bit_word_eqI)
    fix n
    have "bit va (12 + n) = bit vb (12 + n)" if "n < 36"
    proof -
      obtain k l where "12 + n = k + l" "l < 9" "k \<in> {12, 21, 30, 39 :: nat}"
      proof -
        consider "n < 9" | "9 \<le> n" "n < 18" | "18 \<le> n" "n < 27" | "27 \<le> n"
          by linarith
        then show ?thesis
          using that \<open>n < 36\<close>
          by cases (rule that [of 12 n] that [of 21 "n - 9"] that [of 30 "n - 18"]
              that [of 39 "n - 27"]; simp)+
      qed
      then show ?thesis
        using field [of l k] by simp
    qed
    then show "bit (take_bit 36 (drop_bit 12 va)) n = bit (take_bit 36 (drop_bit 12 vb)) n"
      by (auto simp: bit_take_bit_iff bit_drop_bit_eq)
  qed
next
  assume eq: "take_bit 36 (drop_bit 12 va) = take_bit 36 (drop_bit 12 vb)"
  have "take_bit 9 (drop_bit (12 + k) w) = take_bit 9 (drop_bit k (take_bit 36 (drop_bit 12 w)))"
    if "k \<le> 27" for k and w :: u64
    by (rule bit_word_eqI) (use that in \<open>auto simp: bit_take_bit_iff bit_drop_bit_eq ac_simps\<close>)
  then have field: "take_bit 9 (drop_bit (12 + k) va) = take_bit 9 (drop_bit (12 + k) vb)"
    if "k \<le> 27" for k
    using that eq by metis
  show "PageMapIndexer va = PageMapIndexer vb"
    using field [of 0] field [of 9] field [of 18] field [of 27]
    by (intro PageMapIndexer.equality) (simp_all add: PageMapIndexer_fields)
qed

section \<open>Liveness: enough free frames\<close>

definition free_frames :: "PageFrameAllocator \<Rightarrow> nat" where
  "free_frames s = card {i. i < Size (PageBitmap s) * 8 \<and> \<not> used s i}"

lemma RequestPage_returns:
  assumes "cursor_ok s" "pages_ok s" "0 < free_frames s"
  obtains p s' where "RequestPage s = Inr (p, s')" "cursor_ok s'"
    "free_frames s' = free_frames s - 1"
proof -
  obtain k where k: "k < Size (PageBitmap s) * 8" "\<not> used s k"
    using assms(3) by (force simp: free_frames_def card_gt_0_iff)
  from refl [of "RequestPage s"] show ?thesis
  proof (cases rule: RequestPage_cases)
    case (page i)
    let ?s = "LockPage (i * 4096) (s\<lparr>PageBitmapIndex := i\<rparr>)"
    have "used ?s j = (j = i \<or> used s j)" for j
      using LockPage_page [of "s\<lparr>PageBitmapIndex := i\<rparr>" i j] assms(2) page(2) by simp
    then have "{j. j < Size (PageBitmap ?s) * 8 \<and> \<not> used ?s j} =
        {j. j < Size (PageBitmap s) * 8 \<and> \<not> used s j} - {i}"
      by auto
    then have "free_frames ?s = free_frames s - 1"
      using page(2,3) by (simp add: free_frames_def)
    then show ?thesis
      using that page(4) RequestPage_cursor_ok [OF assms(1) page(4)] by simp
  next
    case panic
    then have "used s k"
      using RequestPage_cursor_moves [OF assms(1)] k(1) by (auto dest: order.strict_trans2)
    with k(2) show ?thesis
      by simp
  qed
qed

text \<open>The allocator can serve \<open>n\<close> more requests.\<close>

definition can_serve :: "nat \<Rightarrow> VirtualMemory \<Rightarrow> bool" where
  "can_serve n m \<longleftrightarrow> cursor_ok (KernelAllocator m) \<and> phys_ok (KernelAllocator m) \<and>
     n \<le> free_frames (KernelAllocator m)"

lemma MapMemory_level_returns:
  assumes "can_serve (Suc n) m"
  obtains t' m' where "MapMemory_level t i F m = Inr (t', m')" "can_serve n m'"
proof (cases "GetFlag (Entries m t i) (ptflag PT_P)")
  case True
  then show ?thesis
    using that assms by (simp add: MapMemory_level_def can_serve_def)
next
  case False
  obtain p a where pa: "RequestPage (KernelAllocator m) = Inr (p, a)" "cursor_ok a"
    "free_frames a = free_frames (KernelAllocator m) - 1"
    using RequestPage_returns [of "KernelAllocator m"] assms phys_ok_pages_ok
    by (auto simp: can_serve_def)
  moreover have "phys_ok a"
    using frames.request_ok [OF _ pa(1)] assms by (simp add: can_serve_def)
  moreover have "n \<le> free_frames a"
    using pa(3) assms by (auto simp: can_serve_def)
  ultimately show ?thesis
    using that False
    by (simp add: MapMemory_level_def RequestTable_def can_serve_def set_Entries_def
        memset_page_def)
qed

lemma MapMemory_returns:
  assumes "can_serve 3 m" "PML4 this \<noteq> 0 \<or> PageTable4 \<noteq> 0"
  shows "\<exists>m'. MapMemory this va pa F PageTable4 m = Inr m'"
proof -
  let ?i = "PageMapIndexer va" and ?r = "if PageTable4 \<noteq> 0 then PageTable4 else PML4 this"
  obtain t1 m0 where 0: "MapMemory_level ?r (PDP_i ?i) F m = Inr (t1, m0)" "can_serve 2 m0"
    using MapMemory_level_returns [of 2 m ?r "PDP_i ?i" F] assms(1) by (auto simp: numeral_3_eq_3)
  then obtain m1 where 1: "MapMemory_top this PageTable4 (PDP_i ?i) F m = Inr (t1, m1)" "can_serve 2 m1"
    by (auto simp: MapMemory_level_def MapMemory_top_def and_then_def Let_def can_serve_def
        set_Entries_def split: if_splits sum.splits)
  obtain t2 m2 where 2: "MapMemory_level t1 (PD_i ?i) F m1 = Inr (t2, m2)" "can_serve 1 m2"
    using MapMemory_level_returns [of 1 m1 t1 "PD_i ?i" F] 1(2) by (auto simp: numeral_2_eq_2)
  obtain t3 m3 where 3: "MapMemory_level t2 (PT_i ?i) F m2 = Inr (t3, m3)"
    using MapMemory_level_returns [of 0 m2 t2 "PT_i ?i" F] 2(2) unfolding One_nat_def by blast
  show ?thesis
    using assms(2) 1(1) 2(1) 3 by (auto simp: MapMemory_def Let_def)
qed

text \<open>The three levels build the path to the page table, then one entry is written.\<close>

lemma MapMemory_own_cases:
  assumes ok: "tables_ok m r" "phys_ok (KernelAllocator m)" "flags_ok F" "PML4 this = r"
    and m': "MapMemory this va pa F 0 m = Inr m'"
  obtains m3 t where "tables_ok m3 r" "same_pages m m3 r" "table_at m3 r (page_path va) = Some t"
    "phys_ok (KernelAllocator m3)" "keeps_frames m m3"
    "m' = set_Entries t (P_i (PageMapIndexer va))
            (new_entry (Entries m3 t (P_i (PageMapIndexer va))) pa F) m3"
proof -
  let ?i = "PageMapIndexer va"
  obtain t1 m1 t2 m2 t3 m3 where
    1: "MapMemory_level r (PDP_i ?i) F m = Inr (t1, m1)" and
    2: "MapMemory_level t1 (PD_i ?i) F m1 = Inr (t2, m2)" and
    3: "MapMemory_level t2 (PT_i ?i) F m2 = Inr (t3, m3)" and
    eq: "m' = set_Entries t3 (P_i ?i) (new_entry (Entries m3 t3 (P_i ?i)) pa F) m3"
    using m' ok(4)
    by (auto simp: MapMemory_def MapMemory_top_own and_then_eq_Inr Let_def split: if_splits)
  have path: "short_path [PDP_i ?i]" "short_path [PDP_i ?i, PD_i ?i]"
    by (simp_all add: short_path_def)
  have l1: "tables_ok m1 r" "phys_ok (KernelAllocator m1)"
      "table_at m1 r [PDP_i ?i] = Some t1" "same_pages m m1 r" "keeps_frames m m1"
    using MapMemory_level_ok [OF ok(1,2) _ _ _ _ ok(3) 1, of "[]"] by simp_all
  have l2: "tables_ok m2 r" "phys_ok (KernelAllocator m2)"
      "table_at m2 r [PDP_i ?i, PD_i ?i] = Some t2" "same_pages m1 m2 r" "keeps_frames m1 m2"
    using MapMemory_level_ok [OF l1(1,2) path(1) _ l1(3) _ ok(3) 2] by simp_all
  have l3: "tables_ok m3 r" "table_at m3 r (page_path va) = Some t3" "same_pages m2 m3 r"
      "phys_ok (KernelAllocator m3)" "keeps_frames m2 m3"
    using MapMemory_level_ok [OF l2(1,2) path(2) _ l2(3) _ ok(3) 3] by (simp_all add: page_path_def)
  have "same_pages m m3 r" "keeps_frames m m3"
    using l1(4,5) l2(4,5) l3(3,5) same_pages_trans keeps_frames_trans by blast+
  then show ?thesis
    using that l3(1,2,4) eq by blast
qed

text \<open>The page of an address: the 36 bits the four indices are cut from.\<close>

definition page_no :: "u64 \<Rightarrow> u64" where
  "page_no va = take_bit 36 (drop_bit 12 va)"

text \<open>What a call of \<^verbatim>\<open>MapMemory\<close> does to the mapping.\<close>

definition mapped :: "VirtualMemory \<Rightarrow> VirtualMemory \<Rightarrow> u64 \<Rightarrow> u64 \<Rightarrow> u64 \<Rightarrow> u64 \<Rightarrow> bool" where
  "mapped m m' r va pa F \<longleftrightarrow>
     (\<exists>e. page_entry m' r va = Some e \<and> e AND F = F) \<and>
     (\<forall>vb. if page_no vb = page_no va
           then page_addr pa \<longrightarrow> translate m' r vb = Some (pa OR take_bit 12 vb)
           else translate m' r vb = translate m r vb)"

lemma page_entry_cong:
  "page_no va = page_no vb \<Longrightarrow> page_entry m r va = page_entry m r vb"
  using PageMapIndexer_eq [of va vb] by (simp add: page_no_def page_entry_def page_path_def)

lemma MapMemory_mapped:
  assumes ok: "tables_ok m r" "phys_ok (KernelAllocator m)" "flags_ok F" "PML4 this = r"
    and m': "MapMemory this va pa F 0 m = Inr m'"
  shows "mapped m m' r va pa F" "tables_ok m' r" "phys_ok (KernelAllocator m')" "keeps_frames m m'"
proof -
  let ?i = "P_i (PageMapIndexer va)"
  obtain m3 t where m3: "tables_ok m3 r" "same_pages m m3 r" "table_at m3 r (page_path va) = Some t"
      "phys_ok (KernelAllocator m3)" "keeps_frames m m3"
    and eq: "m' = set_Entries t ?i (new_entry (Entries m3 t ?i) pa F) m3"
    using MapMemory_own_cases [OF ok(1-4) m'] .
  define e where "e = new_entry (Entries m3 t ?i) pa F"
  note w = set_page_entry [OF m3(1) _ _ m3(3) _ eq, simplified]
  show "tables_ok m' r" "phys_ok (KernelAllocator m')" "keeps_frames m m'"
    using w(2) m3(4,5) by (simp_all add: eq set_Entries_def keeps_frames_def)
  have e: "page_entry m' r va = Some e"
    unfolding page_entry_def using w(3) [of "page_path va" ?i] by (simp add: e_def new_entry_P)
  then have "translate m' r vb = Some (pa OR take_bit 12 vb)"
    if "page_addr pa" "page_no vb = page_no va" for vb
    using new_entry_table [OF ok(3) that(1)] page_entry_cong [OF that(2), of m' r]
    by (simp add: translate_def e_def)
  moreover have "e AND F = F"
    by (simp add: e_def new_entry_def AddFlag_def Let_def bit.conj_disj_distrib2)
  moreover have "translate m' r vb = translate m r vb" if "page_no vb \<noteq> page_no va" for vb
  proof -
    have "\<not> (page_path vb = page_path va \<and> P_i (PageMapIndexer vb) = ?i)"
      using that PageMapIndexer_eq [of vb va]
      by (auto simp: page_no_def page_path_def PageMapIndexer.equality)
    then have "page_entry m' r vb = page_entry m3 r vb"
      unfolding page_entry_def using w(3) [of "page_path vb" "P_i (PageMapIndexer vb)"] by auto
    then show ?thesis
      using m3(2) by (simp add: translate_def page_entry_def same_pages_def)
  qed
  ultimately show "mapped m m' r va pa F"
    using e by (simp add: mapped_def)
qed

section \<open>Properties\<close>

text \<open>Empty tables with the root in page 2 of the example allocator.\<close>

definition vm_example :: VirtualMemory where
  "vm_example = \<lparr>KernelAllocator = pfa_example, Memory = (\<lambda>_. 0)\<rparr>"

definition vm_example_manager :: PageTableManager where
  "vm_example_manager = \<lparr>MgrInitalized = True, PML4 = 0x2000\<rparr>"

lemma vm_example_tables: "table_at vm_example t p = (if p = [] then Some t else None)"
  by (cases p) (simp_all add: vm_example_def Entries_def GetFlag_def)

lemma vm_example_ok:
  "tables_ok vm_example 0x2000" "can_serve 3 vm_example"
proof -
  show "tables_ok vm_example 0x2000"
    by (auto simp: tables_ok_def vm_example_tables page_addr_def take_bit_eq_mod split: if_splits)
      (simp add: vm_example_def pfa_example_used)
  have sz: "Size (PageBitmap pfa_example) = 1" "PageBitmapIndex pfa_example = 0"
    by (simp_all add: pfa_example_def KernelAllocator0_def)
  have "{1, 3, 4} \<subseteq> {i. i < Size (PageBitmap pfa_example) * 8 \<and> \<not> used pfa_example i}"
    by (auto simp: pfa_example_used sz)
  then have "card {1, 3, 4 :: u64} \<le> free_frames pfa_example"
    unfolding free_frames_def by (intro card_mono) auto
  then show "can_serve 3 vm_example"
    by (simp add: can_serve_def vm_example_def cursor_ok_def phys_ok_def sz)
qed

text \<open>
  C2. \<^verbatim>\<open>MapMemory\<close> on the manager's own tables, with at least three free frames,
  returns; afterwards the address translates to the physical page with the requested flags set,
  every address of another page translates as before, and the tables are again a tree of pages
  owned by the allocator.
\<close>

theorem MapMemory_maps:
  assumes "tables_ok m (PML4 this)" and "can_serve 3 m" and "PML4 this \<noteq> 0"
    and "flags_ok Flags" and "page_addr pa"
  shows "\<exists>m'. MapMemory this va pa Flags 0 m = Inr m' \<and> tables_ok m' (PML4 this) \<and>
    (\<exists>e. page_entry m' (PML4 this) va = Some e \<and> e AND Flags = Flags) \<and>
    (\<forall>vb. translate m' (PML4 this) vb =
       (if page_no vb = page_no va then Some (pa OR take_bit 12 vb)
        else translate m (PML4 this) vb))"
proof -
  have phys: "phys_ok (KernelAllocator m)"
    using assms(2) by (simp add: can_serve_def)
  obtain m' where m': "MapMemory this va pa Flags 0 m = Inr m'"
    using MapMemory_returns assms(2,3) by blast
  show ?thesis
    using m' MapMemory_mapped [OF assms(1) phys assms(4) refl m'] assms(5)
    by (auto simp: mapped_def)
qed

theorem MapMemory_maps_witness:
  "\<exists>m'. MapMemory vm_example_manager 0x40005123 0x7000 (ptflag PT_RW) 0 vm_example = Inr m' \<and>
     translate m' 0x2000 0x40005123 = Some 0x7123 \<and> translate m' 0x2000 0x40006000 = None"
proof -
  have "translate vm_example 0x2000 0x40006000 = None"
    by (simp add: translate_def page_entry_def entry_at_def vm_example_tables page_path_def
        del: table_at.simps)
  moreover have "flags_ok (ptflag PT_RW)" "page_addr 0x7000"
    by (simp_all add: flags_ok_def ptflag.simps page_addr_def take_bit_eq_mod)
  ultimately show ?thesis
    using MapMemory_maps [of vm_example vm_example_manager "ptflag PT_RW" "0x7000" "0x40005123"]
      vm_example_ok
    by (auto simp: vm_example_manager_def page_no_def take_bit_eq_mask mask_eq_exp_minus_1)
qed

section \<open>Tables of another address space\<close>

text \<open>A table that has just been requested: all its entries are absent.\<close>

definition empty_table :: "VirtualMemory \<Rightarrow> u64 \<Rightarrow> bool" where
  "empty_table m t \<longleftrightarrow> page_addr t \<and> used (KernelAllocator m) (t div 4096) \<and>
     (\<forall>j < 512. Entries m t j = 0)"

text \<open>The table \<open>r\<close> is owned and its entries are those it had in \<open>m0\<close>.\<close>

definition same_table :: "VirtualMemory \<Rightarrow> VirtualMemory \<Rightarrow> u64 \<Rightarrow> bool" where
  "same_table m0 m r \<longleftrightarrow> phys_ok (KernelAllocator m) \<and> page_addr r \<and>
     used (KernelAllocator m) (r div 4096) \<and> (\<forall>j < 512. Entries m r j = Entries m0 r j)"

lemma RequestTable_fresh:
  assumes "same_table m0 m r" "RequestTable m = Inr (t, m')"
  shows "empty_table m' t" "t \<noteq> r" "same_table m0 m' r"
proof -
  have r: "phys_ok (KernelAllocator m)" "page_addr r" "used (KernelAllocator m) (r div 4096)"
    using assms(1) by (simp_all add: same_table_def)
  obtain a where a: "RequestPage (KernelAllocator m) = Inr (t, a)"
    "m' = memset_page t (m\<lparr>KernelAllocator := a\<rparr>)"
    using assms(2) by (auto simp: RequestTable_def and_then_eq_Inr)
  have m': "KernelAllocator m' = a"
    by (simp add: a(2) memset_page_def)
  have t: "page_addr t" "\<not> used (KernelAllocator m) (t div 4096)" "phys_ok a"
      "used a (t div 4096)" "used a (r div 4096)"
    using frames.request_frame [OF r(1) a(1)] frames.request_ok [OF r(1) a(1)] r(3)
      frames.request_taken [OF r(1) a(1)] r(2) by auto
  then show "t \<noteq> r"
    using r(3) by blast
  then show "empty_table m' t" "same_table m0 m' r"
    using t r(2) assms(1) by (auto simp: empty_table_def same_table_def m' Entries_memset)
      (auto simp: a(2) Entries_memset)
qed

lemma MapMemory_level_empty:
  assumes r: "same_table m0 m r" and t: "empty_table m t" "t \<noteq> r" and i: "i < 512"
    and l: "MapMemory_level t i F m = Inr (t', m')"
  shows "empty_table m' t'" "t' \<noteq> r" "same_table m0 m' r"
proof -
  have "\<not> GetFlag (Entries m t i) (ptflag PT_P)"
    using t(1) i by (simp add: empty_table_def GetFlag_def)
  then obtain m1 where m1: "RequestTable m = Inr (t', m1)"
    "m' = set_Entries t i (new_entry (Entries m t i) t' F) m1"
    using l by (auto simp: MapMemory_level_def and_then_eq_Inr Let_def)
  have "same_table m m t"
    using t(1) r by (simp add: same_table_def empty_table_def)
  then have "t' \<noteq> t"
    using RequestTable_fresh(2) [OF _ m1(1)] by blast
  moreover note f = RequestTable_fresh [OF r m1(1)]
  moreover have "KernelAllocator m' = KernelAllocator m1"
    by (simp add: m1(2) set_Entries_def)
  ultimately show "empty_table m' t'" "t' \<noteq> r" "same_table m0 m' r"
    using t i by (auto simp: empty_table_def same_table_def m1(2) Entries_set)
qed

text \<open>
  With an explicit \<^verbatim>\<open>PageTable4\<close> whose top-level entry is absent,
  \<^verbatim>\<open>MapMemory\<close> never stores the entry it has built: when it returns, the address is
  still not mapped in those tables.
\<close>

lemma MapMemory_explicit_root_lost:
  assumes "phys_ok (KernelAllocator m)" and "page_addr PageTable4"
    and "used (KernelAllocator m) (PageTable4 div 4096)" and "PageTable4 \<noteq> 0"
    and "\<not> GetFlag (Entries m PageTable4 (PDP_i (PageMapIndexer va))) (ptflag PT_P)"
    and "MapMemory this va pa Flags PageTable4 m = Inr m'"
  shows "translate m' PageTable4 va = None"
proof -
  let ?i = "PageMapIndexer va"
  have r: "same_table m m PageTable4"
    using assms(1-3) by (simp add: same_table_def)
  obtain t1 m1 t2 m2 t3 m3 where
    1: "RequestTable m = Inr (t1, m1)" and
    2: "MapMemory_level t1 (PD_i ?i) Flags m1 = Inr (t2, m2)" and
    3: "MapMemory_level t2 (PT_i ?i) Flags m2 = Inr (t3, m3)" and
    m': "m' = set_Entries t3 (P_i ?i) (new_entry (Entries m3 t3 (P_i ?i)) pa Flags) m3"
    using assms(4-6)
    by (auto simp: MapMemory_def MapMemory_top_def and_then_eq_Inr Let_def split: if_splits)
  note f1 = RequestTable_fresh [OF r 1]
  note f2 = MapMemory_level_empty [OF f1(3,1,2) _ 2, simplified]
  note f3 = MapMemory_level_empty [OF f2(3,1,2) _ 3, simplified]
  have "Entries m' PageTable4 (PDP_i ?i) = Entries m PageTable4 (PDP_i ?i)"
    using f3 by (auto simp: m' Entries_set same_table_def empty_table_def)
  then show ?thesis
    using assms(5) by (simp add: translate_def page_entry_def entry_at_def page_path_def)
qed

lemma MapMemory_explicit_root_lost_witness:
  "\<exists>m'. MapMemory vm_example_manager 0x40005123 0x7000 (ptflag PT_RW) 0x2000 vm_example = Inr m' \<and>
     translate m' 0x2000 0x40005123 = None"
proof -
  have ok: "phys_ok (KernelAllocator vm_example)"
      "used (KernelAllocator vm_example) (0x2000 div 4096)" "page_addr 0x2000"
      "\<not> GetFlag (Entries vm_example 0x2000 (PDP_i (PageMapIndexer 0x40005123))) (ptflag PT_P)"
    using vm_example_ok
    by (simp_all add: can_serve_def page_addr_def take_bit_eq_mod)
      (simp_all add: vm_example_def pfa_example_used Entries_def GetFlag_def)
  have "\<exists>m'. MapMemory vm_example_manager 0x40005123 0x7000 (ptflag PT_RW) 0x2000 vm_example = Inr m'"
    by (rule MapMemory_returns [OF vm_example_ok(2)]) simp
  then show ?thesis
    using MapMemory_explicit_root_lost [OF ok(1,3,2) _ ok(4)] by auto
qed

text \<open>
  A user stack: \<^verbatim>\<open>AllocateStack(true)\<close> returns a page that was free, is taken
  afterwards, and translates to itself in the kernel's tables; \<^verbatim>\<open>FreeStack\<close> gives it
  back.
\<close>

lemma AllocateStack_user:
  assumes "tables_ok m (PML4 mgr)" and "can_serve 4 m" and "PML4 mgr \<noteq> 0"
  shows "\<exists>p m'. AllocateStack mgr True m = Inr (p, m') \<and> page_addr p \<and>
    \<not> used (KernelAllocator m) (p div 4096) \<and> used (KernelAllocator m') (p div 4096) \<and>
    translate m' (PML4 mgr) p = Some p \<and>
    \<not> used (KernelAllocator (FreeStack p m')) (p div 4096)"
proof -
  let ?F = "ptflag PT_RW OR ptflag PT_US"
  have serve: "cursor_ok (KernelAllocator m)" "phys_ok (KernelAllocator m)"
      "4 \<le> free_frames (KernelAllocator m)"
    using assms(2) by (simp_all add: can_serve_def)
  obtain p a where pa: "RequestPage (KernelAllocator m) = Inr (p, a)" "cursor_ok a"
    "free_frames a = free_frames (KernelAllocator m) - 1"
    using RequestPage_returns [OF serve(1) phys_ok_pages_ok [OF serve(2)]] serve(3) by auto
  let ?m = "m\<lparr>KernelAllocator := a\<rparr>"
  have f: "page_addr p" "\<not> used (KernelAllocator m) (p div 4096)" "phys_ok a"
      "\<And>q. page_addr q \<Longrightarrow> used a (q div 4096) = (q = p \<or> used (KernelAllocator m) (q div 4096))"
    using frames.request_frame [OF serve(2) pa(1)] frames.request_ok [OF serve(2) pa(1)]
      frames.request_taken [OF serve(2) pa(1)] by auto
  have same: "table_at ?m r q = table_at m r q" for r q
    by (induction q arbitrary: r) auto
  then have tables: "tables_ok ?m (PML4 mgr)"
    using assms(1) f(4) by (simp add: tables_ok_def)
  have "can_serve 3 ?m"
    using pa f(3) serve(3) by (simp add: can_serve_def)
  then obtain m' where m': "MapMemory mgr p p ?F 0 ?m = Inr m'"
    using MapMemory_returns assms(3) by blast
  have "flags_ok ?F"
    by (simp add: flags_ok_def ptflag.simps)
  note mm = MapMemory_mapped [OF tables _ this refl m'] f
  have "translate m' (PML4 mgr) p = Some p"
    using mm f(1,3) by (simp add: mapped_def page_addr_def)
  moreover have "used (KernelAllocator m') (p div 4096)"
    using mm(4) f by (simp add: keeps_frames_def)
  ultimately show ?thesis
    using pa(1) m' f(1,2) by (auto simp: AllocateStack_def FreeStack_def FreePage_used dest: used_in_map)
qed

lemma vm_example_serves: "can_serve 4 vm_example"
proof -
  have "{1, 3, 4, 5} \<subseteq> {i. i < Size (PageBitmap pfa_example) * 8 \<and> \<not> used pfa_example i}"
    by (auto simp: pfa_example_used) (simp_all add: pfa_example_def KernelAllocator0_def)
  then have "card {1, 3, 4, 5 :: u64} \<le> free_frames pfa_example"
    unfolding free_frames_def by (intro card_mono) auto
  then show ?thesis
    using vm_example_ok(2) by (simp add: can_serve_def vm_example_def)
qed

section \<open>The kernel's own tables\<close>

text \<open>
  A loop whose bound leaves room for one step returns, and an invariant of the body, indexed by
  the loop variable, holds when it is left.
\<close>

lemma page_loop_rule:
  assumes "unat to + 0x1000 \<le> 2 ^ 64" "I t s"
    and step: "\<And>t s s'. t < to \<Longrightarrow> I t s \<Longrightarrow> body t s = Inr s' \<Longrightarrow> I (t + 0x1000) s'"
  shows "\<exists>r. page_loop body t to s = Some r \<and> (\<forall>s'. r = Inr s' \<longrightarrow> (\<exists>t'. to \<le> t' \<and> I t' s'))"
  using assms(2)
proof (induction "unat to - unat t" arbitrary: t s rule: less_induct)
  case less
  show ?case
  proof (cases "t < to")
    case True
    have "unat (t + 0x1000) = unat t + 0x1000"
      using True assms(1) by (simp add: unat_word_ariths word_less_nat_alt)
    then have "unat to - unat (t + 0x1000) < unat to - unat t"
      using True by (simp add: word_less_nat_alt)
    note IH = less.hyps [OF this]
    show ?thesis
    proof (cases "body t s")
      case (Inr s1)
      then show ?thesis
        using IH [OF step [OF True less.prems Inr]] True
        by (subst page_loop.simps) simp
    qed (use True in \<open>subst page_loop.simps, simp\<close>)
  next
    case False
    then show ?thesis
      using less.prems by (subst page_loop.simps) (auto simp: linorder_not_less)
  qed
qed

lemma unat_page_no: "unat (page_no va) = unat va div 4096 mod 2 ^ 36"
  by (simp add: page_no_def take_bit_eq_mod drop_bit_eq_div unat_mod unat_div)

lemma page_no_low: "x < 2 ^ 46 \<Longrightarrow> unat (page_no x) = unat x div 4096"
  by (simp add: unat_page_no word_less_nat_alt)

lemma page_no_high:
  assumes "x < 2 ^ 47"
  shows "unat (page_no (NORMAL_VMA_OFFSET + x)) = 2 ^ 35 + unat x div 4096"
proof -
  have x: "unat x < 2 ^ 47"
    using assms by (simp add: word_less_nat_alt)
  then have "unat (NORMAL_VMA_OFFSET + x) = (2 ^ 64 - 2 ^ 47) + unat x"
    by (simp add: NORMAL_VMA_OFFSET_def unat_word_ariths)
  then have "unat (NORMAL_VMA_OFFSET + x) div 4096 = 65535 * 2 ^ 36 + (2 ^ 35 + unat x div 4096)"
    by simp
  moreover have "2 ^ 35 + unat x div 4096 < 2 ^ 36"
    using x by auto
  ultimately show ?thesis
    unfolding unat_page_no by (simp only: mod_mult_self3 mod_less)
qed

lemma take_bit_offset: "take_bit 12 (NORMAL_VMA_OFFSET + x) = take_bit 12 x"
proof -
  have "(unat NORMAL_VMA_OFFSET + unat x) mod 2 ^ 64 mod 4096 = (unat NORMAL_VMA_OFFSET + unat x) mod 4096"
    by (rule mod_mod_cancel) simp
  also have "\<dots> = (unat NORMAL_VMA_OFFSET mod 4096 + unat x) mod 4096"
    by (simp add: mod_add_left_eq)
  also have "\<dots> = unat x mod 4096"
    by (simp add: NORMAL_VMA_OFFSET_def)
  finally show ?thesis
    by (simp add: take_bit_eq_mod word_unat_eq_iff unat_mod unat_word_ariths)
qed

lemma same_page_offset:
  assumes "unat x div 4096 = unat t div 4096" "take_bit 12 t = 0"
  shows "t OR take_bit 12 x = (x :: u64)"
proof -
  have same: "drop_bit 12 x = drop_bit 12 t"
    using assms(1) by (simp add: drop_bit_eq_div word_unat_eq_iff unat_div)
  have high: "bit x n = bit t n" if "12 \<le> n" for n
    using arg_cong [OF same, of "\<lambda>w. bit w (n - 12)"] that by (simp add: bit_drop_bit_eq)
  have low: "\<not> bit t n" if "n < 12" for n
    using arg_cong [OF assms(2), of "\<lambda>w. bit w n"] that by (simp add: bit_take_bit_iff)
  show ?thesis
  proof (rule bit_word_eqI)
    fix n
    show "bit (t OR take_bit 12 x) n = bit x n"
      using high [of n] low [of n] by (cases "n < 12") (simp_all add: bit_or_iff bit_take_bit_iff)
  qed
qed

lemma aligned_less:
  fixes x t :: nat
  assumes "x div 4096 \<noteq> t div 4096" "x < t + 4096" "t mod 4096 = 0"
  shows "x < t"
proof -
  have t: "t = 4096 * (t div 4096)"
    using assms(3) by auto
  then have "x div 4096 < t div 4096 + 1"
    using assms(2) by (simp add: less_mult_imp_div_less)
  then have "x div 4096 < t div 4096"
    using assms(1) by simp
  then show ?thesis
    using div_le_mono [of t x 4096] by linarith
qed

lemma aligned_div: "take_bit 12 t = 0 \<Longrightarrow> unat (t :: u64) mod 4096 = 0"
  by (simp add: take_bit_eq_mod word_unat_eq_iff unat_mod)

text \<open>The memory below \<open>n\<close> is mapped at its own address and at the offset.\<close>

definition ram_mapped :: "VirtualMemory \<Rightarrow> u64 \<Rightarrow> u64 \<Rightarrow> bool" where
  "ram_mapped m r n \<longleftrightarrow>
     (\<forall>x < n. translate m r x = Some x \<and> translate m r (NORMAL_VMA_OFFSET + x) = Some x)"

definition space_ok :: "VirtualMemory \<Rightarrow> u64 \<Rightarrow> bool" where
  "space_ok m r \<longleftrightarrow> tables_ok m r \<and> phys_ok (KernelAllocator m)"

lemma MapMemory_space:
  assumes "space_ok m r" "flags_ok F" "PML4 mgr = r" "MapMemory mgr va pa F 0 m = Inr m'"
  shows "space_ok m' r" "mapped m m' r va pa F"
  using MapMemory_mapped [OF _ _ assms(2-4)] assms(1) by (auto simp: space_ok_def)

lemma boot_flags [simp]:
  "flags_ok (ptflag PT_RW OR ptflag PT_US)" "flags_ok (ptflag PT_RW)" "flags_ok (ptflag PT_P)"
  by (simp_all add: flags_ok_def ptflag.simps)

lemma map_ram_step:
  assumes ok: "space_ok m r" "ram_mapped m r t" "PML4 mgr = r"
    and t: "take_bit 12 t = 0" "t < 2 ^ 46"
    and body: "map_ram_body mgr t (NORMAL_VMA_OFFSET + t, m) = Inr (off, m')"
  shows "space_ok m' r" "ram_mapped m' r (t + 0x1000)" "off = NORMAL_VMA_OFFSET + (t + 0x1000)"
proof -
  let ?F = "ptflag PT_RW OR ptflag PT_US"
  obtain m1 where 1: "MapMemory mgr t t ?F 0 m = Inr m1" and
    2: "MapMemory mgr (NORMAL_VMA_OFFSET + t) t ?F 0 m1 = Inr m'" and
    off: "off = NORMAL_VMA_OFFSET + t + 0x1000"
    using body by (auto simp: map_ram_body_def and_then_eq_Inr)
  note s1 = MapMemory_space [OF ok(1) boot_flags(1) ok(3) 1]
  note s2 = MapMemory_space [OF s1(1) boot_flags(1) ok(3) 2]
  show "space_ok m' r" "off = NORMAL_VMA_OFFSET + (t + 0x1000)"
    using s2(1) off by (simp_all add: algebra_simps)
  have pa: "page_addr t"
    using t by (auto simp: page_addr_def intro: less_trans)
  have tl: "unat t mod 4096 = 0" "unat t < 2 ^ 46"
    using aligned_div [OF t(1)] t(2) by (simp_all add: word_less_nat_alt)
  have "translate m' r x = Some x \<and> translate m' r (NORMAL_VMA_OFFSET + x) = Some x"
    if "x < t + 0x1000" for x
  proof -
    have x: "unat x < unat t + 4096"
      using that tl(2) by (simp add: word_less_nat_alt unat_word_ariths)
    have "unat t div 4096 < 2 ^ 34" "4096 * (unat t div 4096) = unat t"
      using tl by (auto simp: div_less_iff_less_mult)
    then have xl: "x < 2 ^ 46"
      using x by (simp add: word_less_nat_alt)
    note lows = page_no_low [OF xl] page_no_low [OF t(2)]
      page_no_high [OF less_trans [OF xl]] page_no_high [OF less_trans [OF t(2)]]
    show ?thesis
    proof (cases "unat x div 4096 = unat t div 4096")
      case True
      then have "page_no x = page_no t" "page_no (NORMAL_VMA_OFFSET + x) = page_no (NORMAL_VMA_OFFSET + t)"
        "page_no x \<noteq> page_no (NORMAL_VMA_OFFSET + t)"
        using lows tl(2) by (auto simp: word_unat_eq_iff)
      then show ?thesis
        using s1(2) s2(2) pa same_page_offset [OF True t(1)] by (simp add: mapped_def take_bit_offset)
    next
      case False
      then have "page_no x \<noteq> page_no t" "page_no x \<noteq> page_no (NORMAL_VMA_OFFSET + t)"
        "page_no (NORMAL_VMA_OFFSET + x) \<noteq> page_no t"
        "page_no (NORMAL_VMA_OFFSET + x) \<noteq> page_no (NORMAL_VMA_OFFSET + t)"
        using lows tl(2) xl by (auto simp: word_unat_eq_iff word_less_nat_alt)
      moreover have "x < t"
        using False x tl(1) by (simp add: word_less_nat_alt) (metis aligned_less)
      ultimately show ?thesis
        using s1(2) s2(2) ok(2) by (simp add: mapped_def ram_mapped_def)
    qed
  qed
  then show "ram_mapped m' r (t + 0x1000)"
    by (simp add: ram_mapped_def)
qed

lemma high_split:
  assumes "NORMAL_VMA_OFFSET \<le> k"
  obtains y where "k = NORMAL_VMA_OFFSET + y" "y < 2 ^ 47"
proof
  show "k = NORMAL_VMA_OFFSET + (k - NORMAL_VMA_OFFSET)"
    by simp
  show "k - NORMAL_VMA_OFFSET < 2 ^ 47"
    using assms unat_sub [OF assms] unsigned_less [of k, where ?'a = nat]
    by (simp add: word_less_nat_alt) (simp add: NORMAL_VMA_OFFSET_def)
qed

lemma map_high_step:
  assumes ok: "space_ok m r" "ram_mapped m r n" "n \<le> 2 ^ 46" "PML4 mgr = r" "flags_ok F"
    and y: "k = NORMAL_VMA_OFFSET + y" "y < 2 ^ 47" "2 ^ 46 \<le> y \<or> take_bit 12 y = 0 \<and> pa = y"
    and map: "MapMemory mgr k pa F 0 m = Inr m'"
  shows "space_ok m' r" "ram_mapped m' r n"
proof -
  note s = MapMemory_space [OF ok(1,5,4) map]
  show "space_ok m' r"
    by (rule s(1))
  have "translate m' r x = Some x \<and> translate m' r (NORMAL_VMA_OFFSET + x) = Some x" if "x < n" for x
  proof -
    have x: "x < 2 ^ 46" "unat x < 2 ^ 46" "unat y < 2 ^ 47"
      using that ok(3) y(2) by (auto simp: word_less_nat_alt word_le_nat_alt)
    note pages = page_no_low [OF x(1)] page_no_high [OF y(2)] page_no_high [OF less_trans [OF x(1)]]
    have old: "translate m r x = Some x" "translate m r (NORMAL_VMA_OFFSET + x) = Some x"
      using ok(2) that by (simp_all add: ram_mapped_def)
    have "page_no x \<noteq> page_no k"
      using pages x(2) by (auto simp: y(1) word_unat_eq_iff)
    then have low: "translate m' r x = Some x"
      using s(2) old by (simp add: mapped_def)
    show ?thesis
    proof (cases "unat x div 4096 = unat y div 4096")
      case True
      moreover have "unat x div 4096 < 2 ^ 34"
        using x(2) by (simp add: div_less_iff_less_mult)
      ultimately have "unat y div 4096 < 2 ^ 34"
        by simp
      then have "y < 2 ^ 46"
        by (simp add: word_less_nat_alt div_less_iff_less_mult)
      then have a: "take_bit 12 y = 0" "pa = y"
        using y(3) by auto
      have "page_no (NORMAL_VMA_OFFSET + x) = page_no k"
        using True pages by (simp add: y(1) word_unat_eq_iff)
      moreover have "page_addr pa"
        using a y(2) by (auto simp: page_addr_def intro: less_trans)
      ultimately show ?thesis
        using s(2) low same_page_offset [OF True a(1)] a(2) by (simp add: mapped_def take_bit_offset)
    next
      case False
      then have "page_no (NORMAL_VMA_OFFSET + x) \<noteq> page_no k"
        using pages by (auto simp: y(1) word_unat_eq_iff)
      then show ?thesis
        using s(2) old low by (simp add: mapped_def)
    qed
  qed
  then show "ram_mapped m' r n"
    by (simp add: ram_mapped_def)
qed

lemma aligned_step: "take_bit 12 t = 0 \<Longrightarrow> take_bit 12 (t + 0x1000) = (0 :: u64)"
proof -
  assume t: "take_bit 12 t = 0"
  have "(unat t + 4096) mod 2 ^ 64 mod 4096 = (unat t + 4096) mod 4096"
    by (rule mod_mod_cancel) simp
  then show ?thesis
    using aligned_div [OF t]
    by (simp add: take_bit_eq_mod word_unat_eq_iff unat_mod unat_word_ariths)
qed

text \<open>Locking more pages keeps the tables and the mapping.\<close>

lemma LockPage_space:
  "space_ok m r \<Longrightarrow> space_ok (m\<lparr>KernelAllocator := LockPage a (KernelAllocator m)\<rparr>) r"
  "ram_mapped (m\<lparr>KernelAllocator := b\<rparr>) r n = ram_mapped m r n"
proof -
  have tables: "table_at (m\<lparr>KernelAllocator := b\<rparr>) r q = table_at m r q" for b q r
    by (induction q arbitrary: r) auto
  then show "space_ok m r \<Longrightarrow> space_ok (m\<lparr>KernelAllocator := LockPage a (KernelAllocator m)\<rparr>) r"
    by (auto simp: space_ok_def tables_ok_def phys_ok_def LockPage_used)
  have "entry_at (m\<lparr>KernelAllocator := b\<rparr>) r q i = entry_at m r q i" for q i
    by (cases "table_at m r q") (simp_all add: entry_at_def tables)
  then show "ram_mapped (m\<lparr>KernelAllocator := b\<rparr>) r n = ram_mapped m r n"
    by (simp add: ram_mapped_def translate_def page_entry_def)
qed

text \<open>A loop returns, and \<open>Q\<close> holds of its result unless the machine has stopped.\<close>

definition loop_ok :: "(stop + 'a) option \<Rightarrow> ('a \<Rightarrow> bool) \<Rightarrow> bool" where
  "loop_ok r Q \<longleftrightarrow> (\<exists>x. r = Some x \<and> (\<forall>y. x = Inr y \<longrightarrow> Q y))"

lemma loop_ok_bind:
  "loop_ok r Q \<Longrightarrow> (\<And>y. Q y \<Longrightarrow> loop_ok (k y) R) \<Longrightarrow> loop_ok (bind_loop r k) R"
  by (fastforce simp: loop_ok_def bind_loop_def split: sum.split)

lemma loop_ok_loop:
  assumes "unat to + 0x1000 \<le> 2 ^ 64" "I t s"
    and "\<And>t s s'. t < to \<Longrightarrow> I t s \<Longrightarrow> body t s = Inr s' \<Longrightarrow> I (t + 0x1000) s'"
    and "\<And>t s. to \<le> t \<Longrightarrow> I t s \<Longrightarrow> Q s"
  shows "loop_ok (page_loop body t to s) Q"
  using page_loop_rule [of to I t s body] assms unfolding loop_ok_def by blast

lemma ram_loop:
  assumes "space_ok m r" "PML4 mgr = r" "n \<le> 2 ^ 46"
  shows "loop_ok (page_loop (map_ram_body mgr) 0 n (NORMAL_VMA_OFFSET, m))
    (\<lambda>st. space_ok (snd st) r \<and> ram_mapped (snd st) r n)"
proof (rule loop_ok_loop [where I = "\<lambda>t st. fst st = NORMAL_VMA_OFFSET + t \<and> take_bit 12 t = 0 \<and>
      space_ok (snd st) r \<and> ram_mapped (snd st) r t"], goal_cases)
  case 1
  then show ?case
    using assms(3) by (simp add: word_le_nat_alt)
next
  case (3 t st st')
  then show ?case
    using map_ram_step [of "snd st" r t mgr "fst st'" "snd st'"] assms(2,3) aligned_step
    by (cases st) (auto dest: less_le_trans)
next
  case (4 t st)
  then show ?case
    by (auto simp: ram_mapped_def dest: less_le_trans)
qed (simp_all add: ram_mapped_def assms)

lemma framebuffer_loop:
  assumes ok: "space_ok m r" "ram_mapped m r n" "PML4 mgr = r" "n \<le> 2 ^ 46"
    and fb: "take_bit 12 b = 0" "NORMAL_VMA_OFFSET \<le> b" "unat to + 0x1000 \<le> 2 ^ 64"
  shows "loop_ok (page_loop (map_framebuffer_body mgr) b to m)
    (\<lambda>m. space_ok m r \<and> ram_mapped m r n)"
proof (rule loop_ok_loop [where I = "\<lambda>t m. take_bit 12 t = 0 \<and> NORMAL_VMA_OFFSET \<le> t \<and>
      space_ok m r \<and> ram_mapped m r n"], goal_cases)
  case (3 t m m')
  then obtain y where y: "t = NORMAL_VMA_OFFSET + y" "y < 2 ^ 47"
    using high_split by blast
  have "take_bit 12 y = 0"
    using 3(2) take_bit_offset [of y] by (simp add: y(1))
  moreover have "NORMAL_VMA_OFFSET \<le> t + 0x1000"
    using 3(1,2) fb(3) by (simp add: word_le_nat_alt word_less_nat_alt unat_word_ariths)
  ultimately show ?case
    using map_high_step [OF _ _ ok(4,3) boot_flags(1) y, of m "t - NORMAL_VMA_OFFSET" m'] 3
      aligned_step [of t]
    by (simp add: map_framebuffer_body_def) (simp add: y(1))
qed (use assms in auto)

lemma kernel_loop:
  assumes ok: "space_ok m r" "ram_mapped m r n" "PML4 mgr = r" "n \<le> 2 ^ 46" "flags_ok F"
    and img: "NORMAL_VMA_OFFSET + 2 ^ 46 \<le> b" "unat to + 0x1000 \<le> 2 ^ 64"
  shows "loop_ok (page_loop (map_kernel_body mgr F) b to (base, m))
    (\<lambda>st. space_ok (snd st) r \<and> ram_mapped (snd st) r n)"
proof (rule loop_ok_loop [where I = "\<lambda>t st. NORMAL_VMA_OFFSET + 2 ^ 46 \<le> t \<and>
      space_ok (snd st) r \<and> ram_mapped (snd st) r n"], goal_cases)
  case (3 t st st')
  obtain m1 where m1: "MapMemory mgr t (fst st) F 0 (snd st) = Inr m1"
    "snd st' = m1\<lparr>KernelAllocator := LockPage (fst st) (KernelAllocator m1)\<rparr>"
    using 3(3) by (auto simp: map_kernel_body_def and_then_eq_Inr split: prod.splits)
  have "NORMAL_VMA_OFFSET \<le> t"
    using 3(2) unfolding NORMAL_VMA_OFFSET_def by unat_arith
  then obtain y where y: "t = NORMAL_VMA_OFFSET + y" "y < 2 ^ 47"
    using high_split by blast
  have "2 ^ 46 \<le> y"
    using 3(2) y unfolding NORMAL_VMA_OFFSET_def
    by (simp add: word_le_nat_alt word_less_nat_alt unat_word_ariths)
  moreover have "NORMAL_VMA_OFFSET + 2 ^ 46 \<le> t + 0x1000"
    using 3(1,2) img(2) by (simp add: word_le_nat_alt word_less_nat_alt unat_word_ariths)
  ultimately show ?case
    using 3(2) map_high_step [OF _ _ ok(4,3,5) y _ m1(1)] LockPage_space by (simp add: m1(2))
qed (use assms in auto)

lemma new_space:
  assumes "phys_ok (KernelAllocator m)" "RequestTable m = Inr (r, m')"
  shows "space_ok m' r"
proof -
  obtain a where a: "RequestPage (KernelAllocator m) = Inr (r, a)"
    "m' = memset_page r (m\<lparr>KernelAllocator := a\<rparr>)"
    using assms(2) by (auto simp: RequestTable_def and_then_eq_Inr)
  have f: "page_addr r" "phys_ok a" "used a (r div 4096)"
    using frames.request_frame [OF assms(1) a(1)] frames.request_ok [OF assms(1) a(1)]
      frames.request_taken [OF assms(1) a(1)] by auto
  have "table_at m' r p = (if p = [] then Some r else None)" if "short_path p" for p
    using that f(1) by (cases p) (auto simp: a(2) Entries_memset GetFlag_def short_path_def)
  then show ?thesis
    using f by (auto simp: space_ok_def tables_ok_def a(2) memset_page_def split: if_splits)
qed

subsection \<open>How many frames the start needs\<close>

text \<open>
  The tables that mapping the addresses \<open>V\<close> goes through, by their paths from the root, and how many
  of a set of tables are not there yet. An empty address space needs one frame for each of them.
\<close>

definition tables_for :: "u64 set \<Rightarrow> u64 list set" where
  "tables_for V = (\<Union>va \<in> V. {take 1 (page_path va), take 2 (page_path va), page_path va})"

definition missing :: "u64 list set \<Rightarrow> VirtualMemory \<Rightarrow> u64 \<Rightarrow> nat" where
  "missing P m r = card {p \<in> P. table_at m r p = None}"

lemma tables_for_Un [simp]: "tables_for (A \<union> B) = tables_for A \<union> tables_for B"
  by (auto simp: tables_for_def)

lemma tables_for_short: "tables_for V \<subseteq> Collect short_path"
  using short_path_prefix [OF page_path_short(1)] take_is_prefix by (auto simp: tables_for_def)

lemma card_tables_for: "finite V \<Longrightarrow> card (tables_for V) \<le> 3 * card V"
proof -
  assume V: "finite V"
  have "card (tables_for V) \<le> (\<Sum>va \<in> V. card {take 1 (page_path va), take 2 (page_path va), page_path va})"
    unfolding tables_for_def by (rule card_UN_le [OF V])
  also have "\<dots> \<le> (\<Sum>va \<in> V. 3)"
    by (rule sum_mono) (simp add: card_insert_if)
  finally show ?thesis
    by simp
qed

text \<open>A level takes a frame only for a table that is missing.\<close>

lemma MapMemory_level_serves:
  assumes ok: "tables_ok m r" and p: "short_path p" "length p \<le> 2" "table_at m r p = Some t" "i < 512" "flags_ok F"
    and P: "finite P" "P \<subseteq> Collect short_path" "p @ [i] \<in> P"
    and serve: "can_serve (missing P m r + k) m"
  obtains t' m' where "MapMemory_level t i F m = Inr (t', m')" "can_serve (missing P m' r + k) m'"
    "tables_ok m' r" "table_at m' r (p @ [i]) = Some t'"
proof (cases "GetFlag (Entries m t i) (ptflag PT_P)")
  case True
  then show ?thesis
    using that ok p(3) serve by (simp add: MapMemory_level_def table_at_append)
next
  case False
  let ?M = "{q \<in> P. table_at m r q = None}"
  have phys: "phys_ok (KernelAllocator m)"
    using serve by (simp add: can_serve_def)
  have in_M: "p @ [i] \<in> ?M" "finite ?M"
    using False p(3) P by (simp_all add: table_at_append)
  then have "missing P m r = Suc (card (?M - {p @ [i]}))"
    unfolding missing_def by (simp only: card_Suc_Diff1)
  then have free: "Suc (card (?M - {p @ [i]}) + k) \<le> free_frames (KernelAllocator m)"
    using serve by (simp add: can_serve_def)
  obtain n a where a: "RequestPage (KernelAllocator m) = Inr (n, a)" "cursor_ok a"
    "free_frames a = free_frames (KernelAllocator m) - 1"
    using RequestPage_returns [of "KernelAllocator m"] serve phys_ok_pages_ok [OF phys] free
    by (auto simp: can_serve_def)
  define m' where "m' = set_Entries t i (new_entry (Entries m t i) n F) (memset_page n (m\<lparr>KernelAllocator := a\<rparr>))"
  have l: "MapMemory_level t i F m = Inr (n, m')"
    using False a(1) by (simp add: MapMemory_level_def RequestTable_def m'_def)
  have new: "table_at m' r q = (if q = p @ [i] then Some n else table_at m r q)" if "q \<in> P" for q
    using table_at_new [OF ok p(1-4) False _ _ p(5) m'_def, of q] frames.request_frame [OF phys a(1)] P(2) that
    by auto
  have "{q \<in> P. table_at m' r q = None} = ?M - {p @ [i]}"
    using new by (auto split: if_splits)
  then have "can_serve (missing P m' r + k) m'"
    using free a MapMemory_level_ok(2) [OF ok phys p l]
    by (simp add: can_serve_def missing_def) (simp add: m'_def set_Entries_def memset_page_def)
  then show ?thesis
    using that l MapMemory_level_ok(1,3) [OF ok phys p l] by blast
qed

lemma MapMemory_serves:
  assumes ok: "tables_ok m r" "r \<noteq> 0" "PML4 mgr = r" "flags_ok F"
    and P: "finite V" "va \<in> V" and serve: "can_serve (missing (tables_for V) m r + k) m"
  shows "\<exists>m'. MapMemory mgr va pa F 0 m = Inr m' \<and> tables_ok m' r \<and> can_serve (missing (tables_for V) m' r + k) m'"
proof -
  let ?i = "PageMapIndexer va" and ?P = "tables_for V"
  have fin: "finite ?P"
    using P(1) by (simp add: tables_for_def)
  have inP: "[] @ [PDP_i ?i] \<in> ?P" "[PDP_i ?i] @ [PD_i ?i] \<in> ?P" "[PDP_i ?i, PD_i ?i] @ [PT_i ?i] \<in> ?P"
    using P(2) by (force simp: tables_for_def page_path_def)+
  have path: "short_path [PDP_i ?i]" "short_path [PDP_i ?i, PD_i ?i]"
    by (simp_all add: short_path_def)
  obtain t1 m1 where 1: "MapMemory_level r (PDP_i ?i) F m = Inr (t1, m1)" "can_serve (missing ?P m1 r + k) m1"
    "tables_ok m1 r" "table_at m1 r [PDP_i ?i] = Some t1"
    using MapMemory_level_serves [OF ok(1) _ _ _ _ ok(4) fin tables_for_short inP(1) serve, of r] by auto
  obtain t2 m2 where 2: "MapMemory_level t1 (PD_i ?i) F m1 = Inr (t2, m2)" "can_serve (missing ?P m2 r + k) m2"
    "tables_ok m2 r" "table_at m2 r [PDP_i ?i, PD_i ?i] = Some t2"
    using MapMemory_level_serves [OF 1(3) path(1) _ 1(4) _ ok(4) fin tables_for_short inP(2) 1(2)] by auto
  obtain t3 m3 where 3: "MapMemory_level t2 (PT_i ?i) F m2 = Inr (t3, m3)" "can_serve (missing ?P m3 r + k) m3"
    "tables_ok m3 r" "table_at m3 r (page_path va) = Some t3"
    using MapMemory_level_serves [OF 2(3) path(2) _ 2(4) _ ok(4) fin tables_for_short inP(3) 2(2)]
    by (auto simp: page_path_def)
  let ?m = "set_Entries t3 (P_i ?i) (new_entry (Entries m3 t3 (P_i ?i)) pa F) m3"
  note w = set_page_entry [OF 3(3) _ _ 3(4) _ refl, simplified]
  have "table_at ?m r q = table_at m3 r q" if "q \<in> ?P" for q
    by (intro w(1)) (use tables_for_short that in auto)
  then have "missing ?P ?m r = missing ?P m3 r"
    by (simp add: missing_def cong: conj_cong)
  then have "can_serve (missing ?P ?m r + k) ?m"
    using 3(2) by (simp add: can_serve_def set_Entries_def)
  moreover have "MapMemory mgr va pa F 0 m = Inr ?m"
    using ok(2,3) 1(1) 2(1) 3(1) by (simp add: MapMemory_def MapMemory_top_own Let_def)
  moreover have "tables_ok ?m r"
    by (rule w(2)) simp
  ultimately show ?thesis
    by blast
qed

text \<open>The addresses a loop passes, how many they are, and a rule for a loop that never stops early.\<close>

definition loop_pages :: "u64 \<Rightarrow> u64 \<Rightarrow> u64 set" where
  "loop_pages t0 to = {t. t0 \<le> t \<and> t < to \<and> take_bit 12 (t - t0) = 0}"

definition page_count :: "u64 \<Rightarrow> u64 \<Rightarrow> nat" where
  "page_count t to = (unat to - unat t + 4095) div 4096"

lemma page_count_step:
  assumes "unat to + 0x1000 \<le> 2 ^ 64" "t < to"
  shows "page_count t to = Suc (page_count (t + 0x1000) to)" "t \<le> t + 0x1000"
proof -
  have u: "unat (t + 0x1000) = unat t + 0x1000"
    using assms by (simp add: unat_word_ariths word_less_nat_alt)
  then show "t \<le> t + 0x1000"
    by (simp add: word_le_nat_alt)
  have "(d + 4095) div 4096 = Suc ((d - 4096 + 4095) div 4096)" if "0 < d" for d :: nat
  proof (cases "d \<le> 4096")
    case True
    moreover have "(d + 4095) div 4096 = 1"
      by (rule div_nat_eqI) (use True that in auto)
    ultimately show ?thesis
      by simp
  next
    case False
    then obtain e where "d = e + 4096"
      using le_iff_add [of 4096 d] by (auto simp: add.commute)
    moreover have "(e + 4095 + 4096) div 4096 = Suc ((e + 4095) div 4096)"
      by (subst div_add_self2) simp_all
    ultimately show ?thesis
      by (simp add: add.assoc)
  qed
  from this [of "unat to - unat t"] show "page_count t to = Suc (page_count (t + 0x1000) to)"
    using assms(2) by (simp add: page_count_def u word_less_nat_alt)
qed

lemma page_loop_total:
  assumes to: "unat to + 0x1000 \<le> 2 ^ 64" and "J t0 s"
    and step: "\<And>t s. t \<in> loop_pages t0 to \<Longrightarrow> J t s \<Longrightarrow> \<exists>s'. body t s = Inr s' \<and> J (t + 0x1000) s'"
  shows "\<exists>s' t'. page_loop body t0 to s = Some (Inr s') \<and> to \<le> t' \<and> J t' s'"
proof -
  have "\<exists>s' t'. page_loop body t to s = Some (Inr s') \<and> to \<le> t' \<and> J t' s'"
    if "t0 \<le> t" "take_bit 12 (t - t0) = 0" "J t s" for t s
    using that
  proof (induction "page_count t to" arbitrary: t s rule: less_induct)
    case less
    show ?case
    proof (cases "t < to")
      case True
      have "take_bit 12 (t + 0x1000 - t0) = 0"
        using aligned_step [OF less.prems(2)] by (simp add: algebra_simps)
      moreover obtain s' where "body t s = Inr s'" "J (t + 0x1000) s'"
        using step [of t s] less.prems True by (auto simp: loop_pages_def)
      ultimately show ?thesis
        using less.hyps [of "t + 0x1000" s'] page_count_step [OF to True] less.prems(1) True
        by (subst page_loop.simps) auto
    qed (use less.prems in \<open>subst page_loop.simps, auto simp: linorder_not_less\<close>)
  qed
  from this [of t0 s] show ?thesis
    using assms(2) by simp
qed

text \<open>The tables are well formed and there are frames for those still missing, and for \<open>k\<close> more pages.\<close>

definition serves :: "u64 set \<Rightarrow> u64 \<Rightarrow> nat \<Rightarrow> VirtualMemory \<Rightarrow> bool" where
  "serves V r k m \<longleftrightarrow> tables_ok m r \<and> can_serve (missing (tables_for V) m r + k) m"

lemma MapMemory_serves_step:
  assumes "serves V r k m" "r \<noteq> 0" "PML4 mgr = r" "flags_ok F" "va \<in> V" "finite V"
  obtains m' where "MapMemory mgr va pa F 0 m = Inr m'" "serves V r k m'"
  using MapMemory_serves [OF _ assms(2-4,6,5)] assms(1) unfolding serves_def by blast

lemma LockPage_serves:
  assumes "serves V r (Suc k) m"
  shows "serves V r k (m\<lparr>KernelAllocator := LockPage a (KernelAllocator m)\<rparr>)" (is "serves V r k ?m")
proof -
  let ?s = "KernelAllocator m" and ?t = "LockPage a (KernelAllocator m)"
  have s: "tables_ok m r" "can_serve (missing (tables_for V) m r + Suc k) m"
    using assms by (simp_all add: serves_def)
  have tables: "table_at ?m r q = table_at m r q" for q r
    by (induction q arbitrary: r) auto
  have "card ({i. i < Size (PageBitmap ?s) * 8 \<and> \<not> used ?s i} - {a div 4096}) \<le> free_frames ?t"
    unfolding free_frames_def by (rule card_mono) (auto simp: LockPage_used)
  then have "free_frames ?s - 1 \<le> free_frames ?t"
    by (simp add: free_frames_def card_Diff_singleton_if split: if_splits)
  then have "can_serve (missing (tables_for V) ?m r + k) ?m"
    using s(2) by (auto simp: can_serve_def missing_def tables phys_ok_def LockPage_cursor_ok)
  then show ?thesis
    using s LockPage_space(1) [of m r a] by (simp add: serves_def space_ok_def can_serve_def)
qed

lemma ram_loop_total:
  assumes "serves V r k m" "r \<noteq> 0" "PML4 mgr = r" "finite V" "n \<le> 2 ^ 46"
    and V: "loop_pages 0 n \<subseteq> V" "(+) NORMAL_VMA_OFFSET ` loop_pages 0 n \<subseteq> V"
  shows "\<exists>o' m'. page_loop (map_ram_body mgr) 0 n (NORMAL_VMA_OFFSET, m) = Some (Inr (o', m')) \<and> serves V r k m'"
proof -
  have "\<exists>st t'. page_loop (map_ram_body mgr) 0 n (NORMAL_VMA_OFFSET, m) = Some (Inr st) \<and> n \<le> t' \<and>
      fst st = NORMAL_VMA_OFFSET + t' \<and> serves V r k (snd st)"
  proof (rule page_loop_total, goal_cases)
    case (3 t st)
    then have "t \<in> V" "fst st \<in> V"
      using V by auto
    obtain m1 where 1: "MapMemory mgr t t (ptflag PT_RW OR ptflag PT_US) 0 (snd st) = Inr m1" "serves V r k m1"
      using MapMemory_serves_step [OF _ assms(2,3) boot_flags(1) \<open>t \<in> V\<close> assms(4)] 3(2) by blast
    obtain m2 where 2: "MapMemory mgr (fst st) t (ptflag PT_RW OR ptflag PT_US) 0 m1 = Inr m2" "serves V r k m2"
      using MapMemory_serves_step [OF 1(2) assms(2,3) boot_flags(1) \<open>fst st \<in> V\<close> assms(4)] by blast
    show ?case
      using 1(1) 2 3(2) by (auto simp: map_ram_body_def case_prod_unfold)
  qed (use assms in \<open>simp_all add: word_le_nat_alt\<close>)
  then show ?thesis
    by (metis prod.collapse)
qed

lemma framebuffer_loop_total:
  assumes "serves V r k m" "r \<noteq> 0" "PML4 mgr = r" "finite V" "unat to + 0x1000 \<le> 2 ^ 64" "loop_pages b to \<subseteq> V"
  shows "\<exists>m'. page_loop (map_framebuffer_body mgr) b to m = Some (Inr m') \<and> serves V r k m'"
proof -
  have "\<exists>m' t'. page_loop (map_framebuffer_body mgr) b to m = Some (Inr m') \<and> to \<le> t' \<and> serves V r k m'"
  proof (rule page_loop_total [OF assms(5)], rule assms(1))
    fix t m
    assume "t \<in> loop_pages b to" "serves V r k m"
    then show "\<exists>m'. map_framebuffer_body mgr t m = Inr m' \<and> serves V r k m'"
      unfolding map_framebuffer_body_def
      using MapMemory_serves_step [OF _ assms(2,3) boot_flags(1) _ assms(4)] assms(6) by blast
  qed
  then show ?thesis
    by blast
qed

lemma kernel_loop_total:
  assumes "serves V r (page_count b to + k) m" "r \<noteq> 0" "PML4 mgr = r" "finite V" "unat to + 0x1000 \<le> 2 ^ 64"
    and "loop_pages b to \<subseteq> V" "flags_ok F"
  shows "\<exists>base' m'. page_loop (map_kernel_body mgr F) b to (base, m) = Some (Inr (base', m')) \<and> serves V r k m'"
proof -
  have "\<exists>st t'. page_loop (map_kernel_body mgr F) b to (base, m) = Some (Inr st) \<and> to \<le> t' \<and>
      serves V r (page_count t' to + k) (snd st)"
  proof (rule page_loop_total [OF assms(5)], goal_cases)
    case (2 t st)
    then have t: "t \<in> V" "page_count t to = Suc (page_count (t + 0x1000) to)"
      using assms(6) page_count_step [OF assms(5), of t] by (auto simp: loop_pages_def)
    obtain m1 where 1: "MapMemory mgr t (fst st) F 0 (snd st) = Inr m1" "serves V r (page_count t to + k) m1"
      using MapMemory_serves_step [OF 2(2) assms(2,3,7) t(1) assms(4)] by blast
    show ?case
      using 1(1) LockPage_serves [OF 1(2) [unfolded t(2) add_Suc]]
      by (auto simp: map_kernel_body_def case_prod_unfold)
  qed (use assms(1) in simp)
  then obtain st t' where st: "page_loop (map_kernel_body mgr F) b to (base, m) = Some (Inr st)"
    "to \<le> t'" "serves V r (page_count t' to + k) (snd st)"
    by blast
  then have "page_count t' to = 0"
    by (simp add: page_count_def word_le_nat_alt)
  then show ?thesis
    using st(1,3) by (metis add_0 prod.collapse)
qed

text \<open>
  The addresses that \<^verbatim>\<open>init_kernelpml\<close> maps, and the frames it needs: the root, one for each of the
  tables for these addresses, and one for each page of the kernel image that it locks.
\<close>

definition boot_pages :: "GBPMemory \<Rightarrow> GBPFramebuffer \<Rightarrow> KernelImage \<Rightarrow> u64 set" where
  "boot_pages mem fb img = loop_pages 0 (MemSize mem) \<union> (+) NORMAL_VMA_OFFSET ` loop_pages 0 (MemSize mem) \<union>
     loop_pages (BaseAddress fb) (BaseAddress fb + (BufferSize fb + 0x1000)) \<union>
     loop_pages (KernelStart img) (KernelTextEnd img) \<union>
     loop_pages (KernelTextEnd img) (KernelRoDataEnd img) \<union> loop_pages (KernelRoDataEnd img) (KernelEnd img)"

definition boot_frames :: "GBPMemory \<Rightarrow> GBPFramebuffer \<Rightarrow> KernelImage \<Rightarrow> nat" where
  "boot_frames mem fb img = Suc (card (tables_for (boot_pages mem fb img)) +
     (page_count (KernelStart img) (KernelTextEnd img) + (page_count (KernelTextEnd img) (KernelRoDataEnd img) +
      page_count (KernelRoDataEnd img) (KernelEnd img))))"

lemma new_space_serves:
  assumes "can_serve (Suc (card (tables_for V) + k)) m" "used (KernelAllocator m) 0" "finite V"
  shows "\<exists>r m'. RequestTable m = Inr (r, m') \<and> r \<noteq> 0 \<and> serves V r k m'"
proof -
  have phys: "phys_ok (KernelAllocator m)"
    using assms(1) by (simp add: can_serve_def)
  obtain r a where a: "RequestPage (KernelAllocator m) = Inr (r, a)" "cursor_ok a"
    "free_frames a = free_frames (KernelAllocator m) - 1"
    using RequestPage_returns [of "KernelAllocator m"] assms(1) phys_ok_pages_ok [OF phys]
    by (auto simp: can_serve_def)
  let ?m = "memset_page r (m\<lparr>KernelAllocator := a\<rparr>)"
  have rt: "RequestTable m = Inr (r, ?m)"
    by (simp add: RequestTable_def a(1))
  have "r \<noteq> 0"
    using frames.request_frame [OF phys a(1)] assms(2) by auto
  moreover have "missing (tables_for V) ?m r \<le> card (tables_for V)"
    unfolding missing_def by (rule card_mono) (use assms(3) in \<open>auto simp: tables_for_def\<close>)
  then have "can_serve (missing (tables_for V) ?m r + k) ?m"
    using assms(1) a(2,3) new_space [OF phys rt] by (auto simp: can_serve_def space_ok_def memset_page_def)
  ultimately show ?thesis
    using rt new_space [OF phys rt] by (auto simp: serves_def space_ok_def)
qed

lemma init_kernelpml_total:
  assumes serve: "can_serve (boot_frames mem fb img) m" "used (KernelAllocator m) 0"
    and n: "MemSize mem \<le> 2 ^ 46" and fb: "unat (BaseAddress fb + (BufferSize fb + 0x1000)) + 0x1000 \<le> 2 ^ 64"
    and ends: "unat (KernelTextEnd img) + 0x1000 \<le> 2 ^ 64" "unat (KernelRoDataEnd img) + 0x1000 \<le> 2 ^ 64"
      "unat (KernelEnd img) + 0x1000 \<le> 2 ^ 64"
  shows "\<exists>pml4 m'. init_kernelpml mem fb img 0 m = Some (Inr (pml4, m'))"
proof -
  define V where "V = boot_pages mem fb img"
  let ?e = "page_count (KernelRoDataEnd img) (KernelEnd img)"
    and ?d = "page_count (KernelTextEnd img) (KernelRoDataEnd img)"
  have V: "finite V" "loop_pages 0 (MemSize mem) \<subseteq> V" "(+) NORMAL_VMA_OFFSET ` loop_pages 0 (MemSize mem) \<subseteq> V"
    "loop_pages (BaseAddress fb) (BaseAddress fb + (BufferSize fb + 0x1000)) \<subseteq> V"
    "loop_pages (KernelStart img) (KernelTextEnd img) \<subseteq> V"
    "loop_pages (KernelTextEnd img) (KernelRoDataEnd img) \<subseteq> V" "loop_pages (KernelRoDataEnd img) (KernelEnd img) \<subseteq> V"
    unfolding V_def boot_pages_def by auto
  obtain r m0 where 0: "RequestTable m = Inr (r, m0)" "r \<noteq> 0"
    "serves V r (page_count (KernelStart img) (KernelTextEnd img) + (?d + ?e)) m0"
    using new_space_serves [OF serve(1) [unfolded boot_frames_def, folded V_def] serve(2) V(1)] by blast
  let ?mgr = "\<lparr>MgrInitalized = False, PML4 = r\<rparr>"
  have mgr: "PML4 ?mgr = r"
    by simp
  obtain o1 m1 where 1: "page_loop (map_ram_body ?mgr) 0 (MemSize mem) (NORMAL_VMA_OFFSET, m0) = Some (Inr (o1, m1))"
    "serves V r (page_count (KernelStart img) (KernelTextEnd img) + (?d + ?e)) m1"
    using ram_loop_total [OF 0(3,2) mgr V(1) n V(2,3)] by blast
  obtain m2 where 2: "page_loop (map_framebuffer_body ?mgr) (BaseAddress fb)
      (BaseAddress fb + (BufferSize fb + 0x1000)) m1 = Some (Inr m2)"
    "serves V r (page_count (KernelStart img) (KernelTextEnd img) + (?d + ?e)) m2"
    using framebuffer_loop_total [OF 1(2) 0(2) mgr V(1) fb V(4)] by blast
  obtain b3 m3 where 3: "page_loop (map_kernel_body ?mgr (ptflag PT_RW)) (KernelStart img) (KernelTextEnd img)
      (KernelBasePhysical mem, m2) = Some (Inr (b3, m3))" "serves V r (?d + ?e) m3"
    using kernel_loop_total [OF 2(2) 0(2) mgr V(1) ends(1) V(5) boot_flags(2)] by blast
  obtain b4 m4 where 4: "page_loop (map_kernel_body ?mgr (ptflag PT_P)) (KernelTextEnd img) (KernelRoDataEnd img)
      (b3, m3) = Some (Inr (b4, m4))" "serves V r (?e + 0) m4"
    using kernel_loop_total [OF 3(2) 0(2) mgr V(1) ends(2) V(6) boot_flags(3)] by fastforce
  obtain b5 m5 where 5: "page_loop (map_kernel_body ?mgr (ptflag PT_RW)) (KernelRoDataEnd img) (KernelEnd img)
      (b4, m4) = Some (Inr (b5, m5))"
    using kernel_loop_total [OF 4(2) 0(2) mgr V(1) ends(3) V(7) boot_flags(2)] by blast
  show ?thesis
    by (simp add: init_kernelpml_def bind_loop_def 0(1) 1(1) 2(1) 3(1) 4(1) 5)
qed

text \<open>
  C12. \<^verbatim>\<open>init_kernelpml\<close> returns. When it does not stop for lack of a frame, the tables it leaves
  in \<^verbatim>\<open>CR3\<close> are well formed and map every byte of the memory at its own address and
  at \<^verbatim>\<open>NORMAL_VMA_OFFSET\<close>, although the framebuffer and the kernel image are mapped
  afterwards. It does not stop if page 0 is taken and there is a free frame for the root, for each
  table of the addresses it maps and for each page of the kernel image.
\<close>

theorem init_kernelpml_maps_memory:
  assumes "phys_ok (KernelAllocator m)" and "MemSize mem \<le> 2 ^ 46"
    and "take_bit 12 (BaseAddress fb) = 0" and "NORMAL_VMA_OFFSET \<le> BaseAddress fb"
    and "unat (BaseAddress fb) + unat (BufferSize fb) + 0x2000 \<le> 2 ^ 64"
    and "NORMAL_VMA_OFFSET + 2 ^ 46 \<le> KernelStart img" and "KernelStart img \<le> KernelTextEnd img"
    and "KernelTextEnd img \<le> KernelRoDataEnd img" and "KernelRoDataEnd img \<le> KernelEnd img"
    and "unat (KernelEnd img) + 0x1000 \<le> 2 ^ 64"
  shows "\<exists>r. init_kernelpml mem fb img 0 m = Some r \<and>
    (\<forall>pml4 m'. r = Inr (pml4, m') \<longrightarrow> tables_ok m' pml4 \<and>
       (\<forall>x < MemSize mem. translate m' pml4 x = Some x \<and>
          translate m' pml4 (NORMAL_VMA_OFFSET + x) = Some x)) \<and>
    (used (KernelAllocator m) 0 \<and> can_serve (boot_frames mem fb img) m \<longrightarrow> (\<exists>pml4 m'. r = Inr (pml4, m')))"
proof -
  let ?n = "MemSize mem" and ?fb = "BaseAddress fb + (BufferSize fb + 0x1000)"
  let ?Q = "\<lambda>r m. space_ok m r \<and> ram_mapped m r ?n"
  have fb: "unat ?fb + 0x1000 \<le> 2 ^ 64"
    using assms(5) by (simp add: unat_word_ariths)
  have ends: "unat (KernelTextEnd img) + 0x1000 \<le> 2 ^ 64" "unat (KernelRoDataEnd img) + 0x1000 \<le> 2 ^ 64"
    and starts: "NORMAL_VMA_OFFSET + 2 ^ 46 \<le> KernelTextEnd img"
      "NORMAL_VMA_OFFSET + 2 ^ 46 \<le> KernelRoDataEnd img"
    using assms(6-10) by (auto simp: word_le_nat_alt)
  have "loop_ok (init_kernelpml mem fb img 0 m) (\<lambda>(r, m'). ?Q r m')"
    unfolding init_kernelpml_def if_P [OF refl]
  proof (rule loop_ok_bind [where Q = "\<lambda>(r, m'). space_ok m' r"], goal_cases)
    case 1
    then show ?case
      using new_space [OF assms(1)] by (auto simp: loop_ok_def)
  next
    case (2 st)
    then obtain r m1 where st: "st = (r, m1)" "space_ok m1 r"
      by (cases st) auto
    show ?case
      unfolding st(1) prod.case Let_def
    proof (rule loop_ok_bind [where Q = "\<lambda>st. ?Q r (snd st)"], goal_cases)
      case 1
      then show ?case
        using ram_loop [OF st(2) _ assms(2)] by simp
    next
      case (2 st2)
      then show ?case
        unfolding case_prod_unfold
        apply -
        apply (rule loop_ok_bind [where Q = "?Q r"])
         apply (rule framebuffer_loop [OF _ _ _ assms(2-4) fb]; simp)
        apply (rule loop_ok_bind [where Q = "\<lambda>st. ?Q r (snd st)"])
         apply (rule kernel_loop [OF _ _ _ assms(2) _ assms(6) ends(1)]; simp)
        apply (rule loop_ok_bind [where Q = "\<lambda>st. ?Q r (snd st)"])
         apply (subst surjective_pairing, rule kernel_loop [OF _ _ _ assms(2) _ starts(1) ends(2)]; simp)
        apply (rule loop_ok_bind [where Q = "\<lambda>st. ?Q r (snd st)"])
         apply (subst surjective_pairing, rule kernel_loop [OF _ _ _ assms(2) _ starts(2) assms(10)]; simp)
        apply (simp add: loop_ok_def)
        done
    qed
  qed
  moreover have "\<exists>pml4 m'. init_kernelpml mem fb img 0 m = Some (Inr (pml4, m'))"
    if "used (KernelAllocator m) 0" "can_serve (boot_frames mem fb img) m"
    using init_kernelpml_total [OF that(2,1) assms(2) fb ends assms(10)] .
  ultimately show ?thesis
    by (auto simp: loop_ok_def space_ok_def ram_mapped_def)
qed

text \<open>Sixty-four frames of which the first is taken serve a memory of four pages.\<close>

lemma card_loop_pages: "card (loop_pages t0 to) \<le> page_count t0 to"
proof -
  have "loop_pages t0 to \<subseteq> (\<lambda>i. t0 + of_nat i * 0x1000) ` {..<page_count t0 to}"
  proof
    fix t
    assume "t \<in> loop_pages t0 to"
    then have t: "t0 \<le> t" "t < to" "unat (t - t0) mod 4096 = 0"
      using aligned_div [of "t - t0"] by (auto simp: loop_pages_def)
    let ?i = "unat (t - t0) div 4096"
    have d: "unat (t - t0) = unat t - unat t0" "?i * 4096 = unat (t - t0)"
      using t(1,3) unat_sub by (auto simp: word_le_nat_alt)
    have "of_nat ?i * 0x1000 = t - t0"
      using arg_cong [OF d(2), of "of_nat :: nat \<Rightarrow> u64"] by simp
    then have "t = t0 + of_nat ?i * 0x1000"
      by simp
    moreover have "?i < page_count t0 to"
      unfolding page_count_def using d t(1,2) by (simp add: word_less_nat_alt word_le_nat_alt less_eq_div_iff_mult_less_eq flip: Suc_le_eq)
    ultimately show "t \<in> (\<lambda>i. t0 + of_nat i * 0x1000) ` {..<page_count t0 to}"
      by blast
  qed
  then show ?thesis
    using surj_card_le [of "{..<page_count t0 to}"] by simp
qed

lemma boot_frames_bound:
  "boot_frames mem fb img \<le> 1 + 6 * page_count 0 (MemSize mem) +
     3 * page_count (BaseAddress fb) (BaseAddress fb + (BufferSize fb + 0x1000)) +
     4 * (page_count (KernelStart img) (KernelTextEnd img) + page_count (KernelTextEnd img) (KernelRoDataEnd img) +
          page_count (KernelRoDataEnd img) (KernelEnd img))"
proof -
  let ?n = "page_count 0 (MemSize mem)"
  have "card ((+) NORMAL_VMA_OFFSET ` loop_pages 0 (MemSize mem)) \<le> ?n"
    by (rule order.trans [OF card_image_le card_loop_pages]) simp
  then have "card (boot_pages mem fb img) \<le> ?n + ?n +
     page_count (BaseAddress fb) (BaseAddress fb + (BufferSize fb + 0x1000)) +
     page_count (KernelStart img) (KernelTextEnd img) + page_count (KernelTextEnd img) (KernelRoDataEnd img) +
     page_count (KernelRoDataEnd img) (KernelEnd img)"
    unfolding boot_pages_def
    by (intro order.trans [OF card_Un_le] add_mono card_loop_pages) simp_all
  then show ?thesis
    using card_tables_for [of "boot_pages mem fb img"] by (simp add: boot_frames_def)
qed

definition vm_boot :: VirtualMemory where
  "vm_boot = vm_example\<lparr>KernelAllocator := pfa_example
     \<lparr>PageBitmap := \<lparr>Size = 8, Buffer = (\<lambda>i. if i = 0 then 0x80 else 0)\<rparr>\<rparr>\<rparr>"

lemma vm_boot_serves: "used (KernelAllocator vm_boot) 0" "can_serve 50 vm_boot"
proof -
  let ?s = "KernelAllocator vm_boot" and ?A = "(of_nat :: nat \<Rightarrow> u64) ` {8..<58}"
  show "used ?s 0"
    by (simp add: vm_boot_def Bitmap_Get_def bitIndexer_def)
  have sz: "Size (PageBitmap ?s) = 8" "PageBitmapIndex ?s = 0"
    by (simp_all add: vm_boot_def pfa_example_def KernelAllocator0_def)
  have "(of_nat i :: u64) div 8 \<noteq> 0" "(of_nat i :: u64) < 64" if "8 \<le> i" "i < 58" for i
    using that by (auto dest!: arg_cong [of _ _ unat] simp: unat_div word_less_nat_alt unsigned_of_nat take_bit_nat_eq_self)
  then have "?A \<subseteq> {i. i < Size (PageBitmap ?s) * 8 \<and> \<not> used ?s i}"
    by (auto simp: sz) (auto simp: vm_boot_def Bitmap_Get_def Let_def split: if_splits)
  then have "card ?A \<le> free_frames ?s"
    unfolding free_frames_def by (rule card_mono [rotated]) simp
  moreover have "card ?A = 50"
    by (subst card_image) (auto intro!: inj_onI dest!: arg_cong [of _ _ unat] simp: unsigned_of_nat take_bit_nat_eq_self)
  ultimately show "can_serve 50 vm_boot"
    by (simp add: can_serve_def cursor_ok_def phys_ok_def sz)
qed

theorem init_kernelpml_maps_memory_witness:
  "\<exists>pml4 m'. init_kernelpml \<lparr>MemSize = 0x4000, KernelBaseVirtual = 0, KernelBasePhysical = 0x200000,
      Entry = []\<rparr> \<lparr>BaseAddress = 0xFFFF8000E0000000, BufferSize = 0x1000, FbWidth = 32,
       FbHeight = 32, PixelsPerScanLine = 32, BitsPerPixel = 32\<rparr>
      \<lparr>KernelStart = 0xFFFFFFFF80000000, KernelTextEnd = 0xFFFFFFFF80001000,
       KernelRoDataEnd = 0xFFFFFFFF80002000, KernelEnd = 0xFFFFFFFF80003000\<rparr> 0 vm_boot = Some (Inr (pml4, m')) \<and>
    translate m' pml4 0x3008 = Some 0x3008 \<and> translate m' pml4 0xFFFF800000003008 = Some 0x3008"
proof -
  let ?mem = "\<lparr>MemSize = 0x4000, KernelBaseVirtual = 0, KernelBasePhysical = 0x200000, Entry = []\<rparr>"
  let ?fb = "\<lparr>BaseAddress = 0xFFFF8000E0000000, BufferSize = 0x1000, FbWidth = 32,
       FbHeight = 32, PixelsPerScanLine = 32, BitsPerPixel = 32\<rparr>"
  let ?img = "\<lparr>KernelStart = 0xFFFFFFFF80000000, KernelTextEnd = 0xFFFFFFFF80001000,
       KernelRoDataEnd = 0xFFFFFFFF80002000, KernelEnd = 0xFFFFFFFF80003000\<rparr>"
  have "boot_frames ?mem ?fb ?img \<le> 50"
    by (rule order.trans [OF boot_frames_bound]) (simp add: page_count_def)
  then have serve: "can_serve (boot_frames ?mem ?fb ?img) vm_boot"
    using vm_boot_serves(2) by (simp add: can_serve_def)
  have ok: "phys_ok (KernelAllocator vm_boot)"
    using serve by (simp add: can_serve_def)
  have "\<exists>r. init_kernelpml ?mem ?fb ?img 0 vm_boot = Some r \<and>
    (\<forall>pml4 m'. r = Inr (pml4, m') \<longrightarrow> tables_ok m' pml4 \<and>
       (\<forall>x < MemSize ?mem. translate m' pml4 x = Some x \<and>
          translate m' pml4 (NORMAL_VMA_OFFSET + x) = Some x)) \<and>
    (used (KernelAllocator vm_boot) 0 \<and> can_serve (boot_frames ?mem ?fb ?img) vm_boot \<longrightarrow>
       (\<exists>pml4 m'. r = Inr (pml4, m')))"
    by (rule init_kernelpml_maps_memory [OF ok])
      (simp_all add: NORMAL_VMA_OFFSET_def take_bit_eq_mod)
  then obtain pml4 m' where r: "init_kernelpml ?mem ?fb ?img 0 vm_boot = Some (Inr (pml4, m'))"
    "\<forall>x < 0x4000. translate m' pml4 x = Some x \<and> translate m' pml4 (NORMAL_VMA_OFFSET + x) = Some x"
    using vm_boot_serves(1) serve by auto
  show ?thesis
    using r(1) spec [OF r(2), of "0x3008"] by (auto simp: NORMAL_VMA_OFFSET_def)
qed

end
