(* ===== verification/Heap_Default.thy ===== *)
theory Heap_Default
  imports Paging
begin

text \<open>
  The heap of \<^verbatim>\<open>src/kernel/mem/defaultalloc/defaultalloc.cpp\<close>, which \<^verbatim>\<open>init_heap\<close> can select as
  \<^verbatim>\<open>AllocationAlgorithm::Default\<close> (\<^verbatim>\<open>Kernel.cpp\<close> selects the vendored \<^verbatim>\<open>LibAlloc11\<close>): a doubly
  linked list of segments that tile the heap from \<^verbatim>\<open>HeapStart\<close> to
  \<^verbatim>\<open>HeapEnd\<close>, searched first-fit, split on allocation and joined on free. The segment
  headers are a store indexed by address; the bytes of the blocks are a second store, which
  \<^verbatim>\<open>calloc\<close> and \<^verbatim>\<open>realloc\<close> write.
\<close>

section \<open>State\<close>

record HeapSegHdr =
  SegLength :: u64
  SegNext :: u64
  SegLast :: u64
  SegIsFree :: bool

record DefHeap =
  HeapStart :: u64
  HeapEnd :: u64
  LastHdr :: u64
  Segs :: "u64 \<Rightarrow> HeapSegHdr"
  HeapBytes :: "u64 \<Rightarrow> u8"
  HeapVM :: VirtualMemory
  HeapManager :: PageTableManager

text \<open>\<^verbatim>\<open>sizeof(HeapSegHdr)\<close>, with \<^verbatim>\<open>__attribute__((aligned(16)))\<close>\<close>

abbreviation sizeof_HeapSegHdr :: u64 where
  "sizeof_HeapSegHdr \<equiv> 0x20"

definition upd_seg :: "u64 \<Rightarrow> (HeapSegHdr \<Rightarrow> HeapSegHdr) \<Rightarrow> DefHeap \<Rightarrow> DefHeap" where
  "upd_seg a f s = s\<lparr>Segs := (Segs s)(a := f (Segs s a))\<rparr>"

section \<open>Growing the heap\<close>

text \<open>\<^verbatim>\<open>PageCount\<close> times: request a frame and map it at the position.\<close>

primrec map_heap_pages ::
    "nat \<Rightarrow> u64 \<Rightarrow> PageTableManager \<Rightarrow> VirtualMemory \<Rightarrow> stop + VirtualMemory" where
  "map_heap_pages 0 Position mgr m = Inr m"
| "map_heap_pages (Suc n) Position mgr m =
     and_then (RequestPage (KernelAllocator m)) (\<lambda>(Page, a).
     and_then (MapMemory mgr Position Page (ptflag PT_RW) 0 (m\<lparr>KernelAllocator := a\<rparr>)) (\<lambda>m.
       map_heap_pages n (Position + 0x1000) mgr m))"

definition InitHeap :: "u64 \<Rightarrow> u64 \<Rightarrow> DefHeap \<Rightarrow> stop + DefHeap" where
  "InitHeap HeapAddress PageCount s =
     and_then (map_heap_pages (unat PageCount) HeapAddress (HeapManager s) (HeapVM s)) (\<lambda>m.
       let HeapLength = PageCount * 0x1000;
           s = s\<lparr>HeapVM := m, HeapStart := HeapAddress, HeapEnd := HeapAddress + HeapLength\<rparr>;
           s = upd_seg HeapAddress (\<lambda>h. h\<lparr>SegLength := HeapLength - sizeof_HeapSegHdr,
                 SegNext := 0, SegLast := 0, SegIsFree := True\<rparr>) s
       in Inr (s\<lparr>LastHdr := HeapAddress\<rparr>))"

text \<open>\<open>Split\<close> returns the new header, 0 when the segment stays whole.\<close>

definition Split :: "u64 \<Rightarrow> u64 \<Rightarrow> DefHeap \<Rightarrow> u64 \<times> DefHeap" where
  "Split this SplitLength s =
     (if SplitLength < 0x10 then (0, s)
      else
        let SplitSegmentLength = SegLength (Segs s this) - SplitLength - sizeof_HeapSegHdr
        in if SplitSegmentLength <s 0x10 then (0, s)
           else
             let NewSplitHdr = this + SplitLength + sizeof_HeapSegHdr;
                 s = upd_seg (SegNext (Segs s this)) (\<lambda>h. h\<lparr>SegLast := NewSplitHdr\<rparr>) s;
                 s = upd_seg NewSplitHdr (\<lambda>h. h\<lparr>SegNext := SegNext (Segs s this)\<rparr>) s;
                 s = upd_seg this (\<lambda>h. h\<lparr>SegNext := NewSplitHdr\<rparr>) s;
                 s = upd_seg NewSplitHdr (\<lambda>h. h\<lparr>SegLast := this\<rparr>) s;
                 s = upd_seg NewSplitHdr (\<lambda>h. h\<lparr>SegLength := SplitSegmentLength\<rparr>) s;
                 s = upd_seg NewSplitHdr (\<lambda>h. h\<lparr>SegIsFree := SegIsFree (Segs s this)\<rparr>) s;
                 s = upd_seg this (\<lambda>h. h\<lparr>SegLength := SplitLength\<rparr>) s;
                 s = (if LastHdr s = this then s\<lparr>LastHdr := NewSplitHdr\<rparr> else s)
             in (NewSplitHdr, s))"

definition CombineForward :: "u64 \<Rightarrow> DefHeap \<Rightarrow> DefHeap" where
  "CombineForward this s =
     (let Next = SegNext (Segs s this)
      in if Next = 0 then s
         else if \<not> SegIsFree (Segs s Next) then s
         else
           let s = (if Next = LastHdr s then s\<lparr>LastHdr := this\<rparr> else s);
               s = (if SegNext (Segs s Next) \<noteq> 0
                    then upd_seg (SegNext (Segs s Next)) (\<lambda>h. h\<lparr>SegLast := this\<rparr>) s else s);
               s = upd_seg this (\<lambda>h. h\<lparr>SegLength :=
                     SegLength h + SegLength (Segs s Next) + sizeof_HeapSegHdr\<rparr>) s
           in upd_seg this (\<lambda>h. h\<lparr>SegNext := SegNext (Segs s Next)\<rparr>) s)"

definition CombineBackward :: "u64 \<Rightarrow> DefHeap \<Rightarrow> DefHeap" where
  "CombineBackward this s =
     (let Last = SegLast (Segs s this)
      in if Last \<noteq> 0 \<and> SegIsFree (Segs s Last) then CombineForward Last s else s)"

definition ExpandHeap :: "u64 \<Rightarrow> DefHeap \<Rightarrow> stop + DefHeap" where
  "ExpandHeap Length s =
     (let Length = (if Length mod 0x1000 \<noteq> 0 then Length - Length mod 0x1000 + 0x1000 else Length);
          PageCount = Length div 0x1000;
          NewSegment = HeapEnd s
      in and_then (map_heap_pages (unat PageCount) (HeapEnd s) (HeapManager s) (HeapVM s)) (\<lambda>m.
           let s = s\<lparr>HeapVM := m, HeapEnd := HeapEnd s + PageCount * 0x1000\<rparr>;
               s = upd_seg NewSegment (\<lambda>h. h\<lparr>SegIsFree := True\<rparr>) s;
               s = upd_seg NewSegment (\<lambda>h. h\<lparr>SegLast := LastHdr s\<rparr>) s;
               s = upd_seg (LastHdr s) (\<lambda>h. h\<lparr>SegNext := NewSegment\<rparr>) s;
               s = s\<lparr>LastHdr := NewSegment\<rparr>;
               s = upd_seg NewSegment (\<lambda>h. h\<lparr>SegNext := 0\<rparr>) s;
               s = upd_seg NewSegment (\<lambda>h. h\<lparr>SegLength := Length - sizeof_HeapSegHdr\<rparr>) s
           in Inr (CombineBackward NewSegment s)))"

section \<open>The allocator's interface\<close>

definition defkfree :: "u64 \<Rightarrow> DefHeap \<Rightarrow> DefHeap" where
  "defkfree Address s =
     (if HeapStart s = 0 then s
      else
        let Segment = Address - sizeof_HeapSegHdr;
            s = upd_seg Segment (\<lambda>h. h\<lparr>SegIsFree := True\<rparr>) s;
            s = CombineForward Segment s
        in CombineBackward Segment s)"

text \<open>
  The search of \<^verbatim>\<open>malloc\<close>: the first free segment that is large enough.
  \<open>Some None\<close> is the \<^verbatim>\<open>break\<close> at the end of the list.
\<close>

partial_function (option) find_segment ::
    "(u64 \<Rightarrow> HeapSegHdr) \<Rightarrow> u64 \<Rightarrow> u64 \<Rightarrow> u64 option option" where
  "find_segment h Sz CurrentSegment =
     (if SegIsFree (h CurrentSegment) \<and>
         (SegLength (h CurrentSegment) > Sz \<or> SegLength (h CurrentSegment) = Sz)
      then Some (Some CurrentSegment)
      else if SegNext (h CurrentSegment) = 0 then Some None
      else find_segment h Sz (SegNext (h CurrentSegment)))"

definition malloc_size :: "u64 \<Rightarrow> u64" where
  "malloc_size Sz =
     (let Sz = (if Sz < 0x10 then 0x10 else Sz)
      in if Sz mod 0x10 > 0 then Sz - Sz mod 0x10 + 0x10 else Sz)"

text \<open>Taking a segment: an exact fit is not split.\<close>

definition take_segment :: "u64 \<Rightarrow> u64 \<Rightarrow> DefHeap \<Rightarrow> u64 \<times> DefHeap" where
  "take_segment Sz CurrentSegment s =
     (let s = (if SegLength (Segs s CurrentSegment) > Sz
               then snd (Split CurrentSegment Sz s) else s);
          s = upd_seg CurrentSegment (\<lambda>h. h\<lparr>SegIsFree := False\<rparr>) s
      in (CurrentSegment + sizeof_HeapSegHdr, s))"

text \<open>\<open>None\<close> is a call that does not return, \<open>Some (Inl _)\<close> a stopped machine.\<close>

partial_function (option) defkmalloc :: "u64 \<Rightarrow> DefHeap \<Rightarrow> (stop + (u64 \<times> DefHeap)) option" where
  "defkmalloc Sz s =
     (if HeapStart s = 0 then Some (Inr (0, s))
      else if malloc_size Sz = 0 then Some (Inr (0, s))
      else
        Option.bind (find_segment (Segs s) (malloc_size Sz) (HeapStart s))
          (\<lambda>found. case found of
             Some seg \<Rightarrow> Some (Inr (take_segment (malloc_size Sz) seg s))
           | None \<Rightarrow>
               (case ExpandHeap (malloc_size Sz) s of
                  Inl e \<Rightarrow> Some (Inl e)
                | Inr s \<Rightarrow> defkmalloc (malloc_size Sz) s)))"

definition memset_bytes :: "u64 \<Rightarrow> u8 \<Rightarrow> u64 \<Rightarrow> (u64 \<Rightarrow> u8) \<Rightarrow> u64 \<Rightarrow> u8" where
  "memset_bytes dst v n m = (\<lambda>a. if a - dst < n then v else m a)"

definition memcpy_bytes :: "u64 \<Rightarrow> u64 \<Rightarrow> u64 \<Rightarrow> (u64 \<Rightarrow> u8) \<Rightarrow> u64 \<Rightarrow> u8" where
  "memcpy_bytes dst src n m =
     fold (\<lambda>i m. m(dst + of_nat i := m (src + of_nat i))) [0..<unat n] m"

definition defkcalloc :: "u64 \<Rightarrow> u64 \<Rightarrow> DefHeap \<Rightarrow> (stop + (u64 \<times> DefHeap)) option" where
  "defkcalloc n Sz s =
     (if HeapStart s = 0 then Some (Inr (0, s))
      else
        let Sz = (if Sz < 0x10 then 0x10 else Sz)
        in map_option (\<lambda>r. and_then r (\<lambda>(Block, s).
             Inr (Block, if Block \<noteq> 0
                         then s\<lparr>HeapBytes := memset_bytes Block 0 (n * Sz) (HeapBytes s)\<rparr>
                         else s)))
             (defkmalloc (n * Sz) s))"

definition defkrealloc :: "u64 \<Rightarrow> u64 \<Rightarrow> DefHeap \<Rightarrow> (stop + (u64 \<times> DefHeap)) option" where
  "defkrealloc Address Sz s =
     (if HeapStart s = 0 then Some (Inr (0, s))
      else if Address = 0 \<and> Sz = 0 then Some (Inr (0, defkfree Address s))
      else if Address = 0 then defkcalloc Sz 1 s
      else
        let Sz = (if Sz < 0x10 then 0x10 else Sz)
        in map_option (\<lambda>r. and_then r (\<lambda>(newAddress, s).
             Inr (newAddress,
                  s\<lparr>HeapBytes := memcpy_bytes newAddress Address Sz (HeapBytes s)\<rparr>)))
             (defkcalloc Sz 1 s))"

section \<open>The list of segments\<close>

text \<open>
  \<open>chain h p as n\<close>: the headers \<open>as\<close> are doubly linked, from the predecessor \<open>p\<close>
  to the successor \<open>n\<close>. \<open>tiles h as s e\<close>: each segment begins where the one before
  it ends, from address \<open>s\<close> to address \<open>e\<close>.
\<close>

fun chain :: "(u64 \<Rightarrow> HeapSegHdr) \<Rightarrow> u64 \<Rightarrow> u64 list \<Rightarrow> u64 \<Rightarrow> bool" where
  "chain h p [] n = True"
| "chain h p (a # as) n =
     (SegLast (h a) = p \<and> SegNext (h a) = hd (as @ [n]) \<and> chain h a as n)"

definition seg_end :: "(u64 \<Rightarrow> HeapSegHdr) \<Rightarrow> u64 \<Rightarrow> nat" where
  "seg_end h a = unat a + 32 + unat (SegLength (h a))"

fun tiles :: "(u64 \<Rightarrow> HeapSegHdr) \<Rightarrow> u64 list \<Rightarrow> nat \<Rightarrow> nat \<Rightarrow> bool" where
  "tiles h [] s e = (s = e)"
| "tiles h (a # as) s e = (unat a = s \<and> tiles h as (seg_end h a) e)"

lemma chain_append:
  "chain h p (xs @ ys) n \<longleftrightarrow> chain h p xs (hd (ys @ [n])) \<and> chain h (last (p # xs)) ys n"
  by (induction xs arbitrary: p) (auto simp: hd_append)

lemma tiles_append:
  "tiles h (xs @ ys) s e \<longleftrightarrow> (\<exists>m. tiles h xs s m \<and> tiles h ys m e)"
  by (induction xs arbitrary: s) auto

lemma chain_cong:
  assumes "\<And>a. a \<in> set as \<Longrightarrow> SegLast (h' a) = SegLast (h a) \<and> SegNext (h' a) = SegNext (h a)"
  shows "chain h' p as n = chain h p as n"
  using assms by (induction as arbitrary: p) auto

lemma tiles_cong:
  assumes "\<And>a. a \<in> set as \<Longrightarrow> SegLength (h' a) = SegLength (h a)"
  shows "tiles h' as s e = tiles h as s e"
  using assms by (induction as arbitrary: s) (auto simp: seg_end_def)

lemma tiles_le: "tiles h as s e \<Longrightarrow> s \<le> e"
  by (induction as arbitrary: s) (fastforce simp: seg_end_def)+

lemma tiles_bounds:
  "tiles h as s e \<Longrightarrow> a \<in> set as \<Longrightarrow> s \<le> unat a \<and> seg_end h a \<le> e"
  by (induction as arbitrary: s) (fastforce simp: seg_end_def dest: tiles_le)+

text \<open>Two segments of a tiling do not overlap.\<close>

lemma tiles_disjoint:
  assumes "tiles h as s e" "a \<in> set as" "b \<in> set as" "unat a \<le> unat b" "a \<noteq> b"
  shows "seg_end h a \<le> unat b"
  using assms
proof (induction as arbitrary: s)
  case (Cons c as)
  then have t: "tiles h as (seg_end h c) e" "unat c = s"
    by auto
  show ?case
  proof (cases "a = c")
    case True
    then show ?thesis
      using Cons.prems tiles_bounds [OF t(1)] by auto
  next
    case False
    then have "b \<noteq> c"
      using Cons.prems tiles_bounds [OF t(1), of a] by (auto simp: seg_end_def)
    then show ?thesis
      using Cons.IH [OF t(1)] Cons.prems False by auto
  qed
qed simp

lemma tiles_distinct: "tiles h as s e \<Longrightarrow> distinct as"
proof (induction as arbitrary: s)
  case (Cons a as)
  then have "a \<notin> set as"
    using tiles_bounds [of h as "seg_end h a" e a] by (auto simp: seg_end_def)
  with Cons show ?case
    by auto
qed simp

text \<open>The invariant of the heap, with its list of segments.\<close>

definition heap_ok :: "DefHeap \<Rightarrow> u64 list \<Rightarrow> bool" where
  "heap_ok s as \<longleftrightarrow> as \<noteq> [] \<and> HeapStart s \<noteq> 0 \<and> hd as = HeapStart s \<and> LastHdr s = last as \<and>
     chain (Segs s) 0 as 0 \<and> tiles (Segs s) as (unat (HeapStart s)) (unat (HeapEnd s)) \<and>
     unat (HeapEnd s) < unat (HeapStart s) + 2 ^ 63 \<and>
     unat (HeapStart s) mod 16 = 0 \<and> (\<forall>a \<in> set as. unat (SegLength (Segs s a)) mod 16 = 0)"

lemma heap_okD:
  assumes "heap_ok s as"
  shows "as \<noteq> []" "HeapStart s \<noteq> 0" "hd as = HeapStart s" "LastHdr s = last as"
    "chain (Segs s) 0 as 0" "tiles (Segs s) as (unat (HeapStart s)) (unat (HeapEnd s))"
    "unat (HeapEnd s) < unat (HeapStart s) + 2 ^ 63"
    "unat (HeapStart s) mod 16 = 0" "\<And>a. a \<in> set as \<Longrightarrow> unat (SegLength (Segs s a)) mod 16 = 0"
    "0 \<notin> set as" "distinct as"
  using assms tiles_bounds [of "Segs s" as "unat (HeapStart s)" "unat (HeapEnd s)" 0] tiles_distinct
  by (auto simp: heap_ok_def unat_eq_0)

text \<open>The blocks that are in use, by the address of their header.\<close>

definition live :: "DefHeap \<Rightarrow> u64 list \<Rightarrow> u64 \<Rightarrow> u64 option" where
  "live s as a =
     (if a \<in> set as \<and> \<not> SegIsFree (Segs s a) then Some (SegLength (Segs s a)) else None)"

lemma upd_seg_simps [simp]:
  "Segs (upd_seg a f s) = (Segs s)(a := f (Segs s a))"
  "HeapStart (upd_seg a f s) = HeapStart s" "HeapEnd (upd_seg a f s) = HeapEnd s"
  "LastHdr (upd_seg a f s) = LastHdr s" "HeapBytes (upd_seg a f s) = HeapBytes s"
  "HeapVM (upd_seg a f s) = HeapVM s" "HeapManager (upd_seg a f s) = HeapManager s"
  by (simp_all add: upd_seg_def)

section \<open>Splitting and joining\<close>

text \<open>The headers after a split whose three headers are different ones.\<close>

lemma Split_Segs:
  assumes "16 \<le> unat S" "unat S + 48 \<le> unat (SegLength (Segs s a))"
    "unat (SegLength (Segs s a)) < 2 ^ 63"
    and n: "n = SegNext (Segs s a)" "new = a + S + 0x20" "n \<noteq> a" "n \<noteq> new" "a \<noteq> new"
  shows "Segs (snd (Split a S s)) = (Segs s)
      (n := (Segs s n)\<lparr>SegLast := new\<rparr>,
       a := (Segs s a)\<lparr>SegLength := S, SegNext := new\<rparr>,
       new := (Segs s new)\<lparr>SegLength := SegLength (Segs s a) - S - 0x20, SegNext := n,
                SegLast := a, SegIsFree := SegIsFree (Segs s a)\<rparr>)"
    "LastHdr (snd (Split a S s)) = (if LastHdr s = a then new else LastHdr s)"
    "HeapStart (snd (Split a S s)) = HeapStart s" "HeapEnd (snd (Split a S s)) = HeapEnd s"
    "HeapBytes (snd (Split a S s)) = HeapBytes s"
proof -
  have len: "unat (SegLength (Segs s a) - S - 0x20) = unat (SegLength (Segs s a)) - unat S - 32"
    using assms(2) by (simp add: unat_sub word_le_nat_alt)
  have "\<not> S < 0x10"
    using assms(1) by (simp add: word_less_nat_alt)
  moreover have "\<not> SegLength (Segs s a) - S - 0x20 <s 0x10"
    using len assms(2,3) sless_small [of "SegLength (Segs s a) - S - 0x20" "0x10"] by simp
  ultimately show
    "Segs (snd (Split a S s)) = (Segs s)
      (n := (Segs s n)\<lparr>SegLast := new\<rparr>,
       a := (Segs s a)\<lparr>SegLength := S, SegNext := new\<rparr>,
       new := (Segs s new)\<lparr>SegLength := SegLength (Segs s a) - S - 0x20, SegNext := n,
                SegLast := a, SegIsFree := SegIsFree (Segs s a)\<rparr>)"
    "LastHdr (snd (Split a S s)) = (if LastHdr s = a then new else LastHdr s)"
    "HeapStart (snd (Split a S s)) = HeapStart s" "HeapEnd (snd (Split a S s)) = HeapEnd s"
    "HeapBytes (snd (Split a S s)) = HeapBytes s"
    using n by (auto simp: Split_def Let_def fun_upd_twist)
qed

lemma live_eqI:
  assumes "\<And>b. b \<in> set as' \<Longrightarrow> b \<noteq> a \<Longrightarrow> SegIsFree (Segs s' b) \<and> b \<notin> set as \<or>
      b \<in> set as \<and> SegIsFree (Segs s' b) = SegIsFree (Segs s b) \<and>
        SegLength (Segs s' b) = SegLength (Segs s b)"
    and "\<And>b. b \<in> set as \<Longrightarrow> b \<noteq> a \<Longrightarrow> b \<notin> set as' \<Longrightarrow> SegIsFree (Segs s b)"
    and "a \<in> set as'"
  shows "live s' as' = (live s as)
    (a := if SegIsFree (Segs s' a) then None else Some (SegLength (Segs s' a)))"
  using assms by (fastforce simp: live_def fun_eq_iff)

text \<open>A segment that is split: the second half is a new free segment.\<close>

lemma heap_ok_Split:
  assumes ok: "heap_ok s (xs @ a # ys)"
    and S: "16 \<le> unat S" "unat S mod 16 = 0" "unat S + 48 \<le> unat (SegLength (Segs s a))"
    and s': "s' = snd (Split a S s)" and new: "new = a + S + 0x20"
  shows "heap_ok s' (xs @ a # new # ys)" "SegIsFree (Segs s' a) = SegIsFree (Segs s a)"
    "SegLength (Segs s' a) = S" "HeapBytes s' = HeapBytes s"
    "new \<notin> set (xs @ a # ys)" "SegIsFree (Segs s' new) = SegIsFree (Segs s a)"
    "\<And>b. b \<in> set (xs @ ys) \<Longrightarrow> SegIsFree (Segs s' b) = SegIsFree (Segs s b) \<and>
       SegLength (Segs s' b) = SegLength (Segs s b)"
proof -
  let ?h = "Segs s" and ?as = "xs @ a # ys" and ?n = "SegNext (Segs s a)"
  note d = heap_okD [OF ok]
  have bounds: "unat (HeapStart s) \<le> unat a" "seg_end ?h a \<le> unat (HeapEnd s)"
    using tiles_bounds [OF d(6), of a] by auto
  have len: "unat (SegLength (?h a)) < 2 ^ 63" and end_lt: "seg_end ?h a < 2 ^ 64"
    using bounds d(7) unsigned_less [of "HeapEnd s", where ?'a = nat] by (auto simp: seg_end_def)
  have unew: "unat new = unat a + unat S + 32"
    using end_lt S by (simp add: new seg_end_def unat_word_ariths)
  have fresh: "new \<notin> set ?as" "new \<noteq> 0"
  proof -
    have "new \<noteq> b" if "b \<in> set ?as" for b
    proof (cases "unat a \<le> unat b \<and> a \<noteq> b")
      case True
      then show ?thesis
        using tiles_disjoint [OF d(6) _ that, of a] S unew by (auto simp: seg_end_def)
    qed (use unew in auto)
    then show "new \<notin> set ?as" "new \<noteq> 0"
      using unew by (auto simp: unat_eq_0 [symmetric] simp del: unat_eq_0)
  qed
  have n: "?n = hd (ys @ [0])"
    using d(5) by (simp add: chain_append)
  then have n_cases: "?n \<in> set ys \<or> ?n = 0 \<and> ys = []"
    by (cases ys) auto
  have ne: "?n \<noteq> a" "?n \<noteq> new" "a \<noteq> new" "?n \<notin> set xs"
    using n_cases d(10,11) fresh by auto
  note sp = Split_Segs [OF S(1,3) len refl new ne(1-3), folded s']
  show "SegIsFree (Segs s' a) = SegIsFree (?h a)" "SegLength (Segs s' a) = S"
    "HeapBytes s' = HeapBytes s" "new \<notin> set ?as" "SegIsFree (Segs s' new) = SegIsFree (?h a)"
    using sp ne fresh by auto
  show same: "SegIsFree (Segs s' b) = SegIsFree (?h b) \<and> SegLength (Segs s' b) = SegLength (?h b)"
    if "b \<in> set (xs @ ys)" for b
    using that sp(1) ne d(11) fresh by auto
  have newlen: "unat (SegLength (?h a) - S - 0x20) = unat (SegLength (?h a)) - unat S - 32"
    using S(3) by (simp add: unat_sub word_le_nat_alt)
  have ch: "chain (Segs s') 0 (xs @ a # new # ys) 0"
  proof -
    have "chain (Segs s') 0 xs a"
      using d(5,11) sp(1) ne fresh by (subst chain_cong [of _ _ ?h]) (auto simp: chain_append)
    moreover have "chain (Segs s') new ys 0"
    proof (cases ys)
      case (Cons b bs)
      then have "chain (Segs s') b bs 0"
        using d(5,11) sp(1) ne fresh n
        by (subst chain_cong [of _ _ ?h]) (auto simp: chain_append)
      then show ?thesis
        using d(5,11) sp(1) ne fresh n Cons by (auto simp: chain_append)
    qed simp
    ultimately show ?thesis
      using d(5) sp(1) ne fresh n by (auto simp: chain_append)
  qed
  have ti: "tiles (Segs s') (xs @ a # new # ys) (unat (HeapStart s)) (unat (HeapEnd s))"
  proof -
    obtain m where m: "tiles ?h xs (unat (HeapStart s)) m" "unat a = m"
        "tiles ?h ys (seg_end ?h a) (unat (HeapEnd s))"
      using d(6) by (auto simp: tiles_append)
    have "tiles (Segs s') xs (unat (HeapStart s)) m" "tiles (Segs s') ys (seg_end ?h a) (unat (HeapEnd s))"
      using m same by (simp_all add: tiles_cong [of _ "Segs s'" ?h])
    moreover have "seg_end (Segs s') a = unat new" "seg_end (Segs s') new = seg_end ?h a"
      using sp(1) ne unew newlen S(3) by (simp_all add: seg_end_def)
    ultimately show ?thesis
      using m(2) by (auto simp: tiles_append)
  qed
  have al: "unat (SegLength (Segs s' b)) mod 16 = 0" if "b \<in> set (xs @ a # new # ys)" for b
  proof -
    have "(unat (SegLength (?h a)) - unat S - 32) mod 16 = 0"
      using d(9) [of a] S(2,3) by (auto simp: mod_eq_0_iff_dvd intro!: dvd_diff_nat)
    then show ?thesis
      using that d(9) sp(1) ne newlen S(2) same [of b] by auto
  qed
  have "LastHdr s' = last (xs @ a # new # ys)"
    using d(4,11) sp(2) by (cases ys rule: rev_cases) (auto split: if_splits)
  then show "heap_ok s' (xs @ a # new # ys)"
    using d(2,3,7,8) ch ti al by (simp add: heap_ok_def sp(3,4) hd_append split: if_splits)
qed

text \<open>A free segment that is joined to the one before it.\<close>

lemma heap_ok_CombineForward:
  assumes ok: "heap_ok s (xs @ a # b # ys)" and free: "SegIsFree (Segs s b)"
    and s': "s' = CombineForward a s"
  shows "heap_ok s' (xs @ a # ys)" "SegIsFree (Segs s' a) = SegIsFree (Segs s a)"
    "HeapBytes s' = HeapBytes s"
    "\<And>c. c \<in> set (xs @ ys) \<Longrightarrow> SegIsFree (Segs s' c) = SegIsFree (Segs s c) \<and>
       SegLength (Segs s' c) = SegLength (Segs s c)"
proof -
  let ?h = "Segs s" and ?as = "xs @ a # b # ys" and ?c = "SegNext (Segs s b)"
  note d = heap_okD [OF ok]
  have nx: "SegNext (?h a) = b" "?c = hd (ys @ [0])" "SegLast (?h b) = a"
    using d(5) by (simp_all add: chain_append)
  then have c_cases: "?c \<in> set ys \<and> ys \<noteq> [] \<or> ?c = 0 \<and> ys = []"
    by (cases ys) auto
  then have ne: "?c \<noteq> a" "?c \<noteq> b" "?c \<notin> set xs" "a \<noteq> b" "b \<noteq> 0" "a \<noteq> 0" "b \<notin> set ys"
    using d(10,11) by auto
  have Segs': "Segs s' = (if ?c \<noteq> 0 then ?h(?c := (?h ?c)\<lparr>SegLast := a\<rparr>) else ?h)
      (a := (?h a)\<lparr>SegLength := SegLength (?h a) + SegLength (?h b) + 0x20, SegNext := ?c\<rparr>)"
    and frame: "LastHdr s' = (if b = LastHdr s then a else LastHdr s)" "HeapStart s' = HeapStart s"
      "HeapEnd s' = HeapEnd s" "HeapBytes s' = HeapBytes s"
    using nx ne free by (auto simp: s' CombineForward_def Let_def)
  show "SegIsFree (Segs s' a) = SegIsFree (?h a)" "HeapBytes s' = HeapBytes s"
    using frame by (simp_all add: Segs')
  show same: "SegIsFree (Segs s' c) = SegIsFree (?h c) \<and> SegLength (Segs s' c) = SegLength (?h c)"
    if "c \<in> set (xs @ ys)" for c
    using that d(11) by (auto simp: Segs')
  have bounds: "unat (HeapStart s) \<le> unat a" "seg_end ?h b \<le> unat (HeapEnd s)"
    using tiles_bounds [OF d(6), of a] tiles_bounds [OF d(6), of b] by auto
  have b: "unat b = seg_end ?h a"
    using d(6) by (auto simp: tiles_append)
  then have len: "unat (SegLength (?h a) + SegLength (?h b) + 0x20) =
      unat (SegLength (?h a)) + unat (SegLength (?h b)) + 32"
    using bounds unsigned_less [of "HeapEnd s", where ?'a = nat]
    by (simp add: seg_end_def unat_word_ariths)
  have ch: "chain (Segs s') 0 (xs @ a # ys) 0"
  proof -
    have "chain (Segs s') 0 xs a"
      using d(5,11) ne by (subst chain_cong [of _ _ ?h]) (auto simp: chain_append Segs')
    moreover have "chain (Segs s') a ys 0"
    proof (cases ys)
      case (Cons c cs)
      then have "chain (Segs s') c cs 0"
        using d(5,11) ne nx(2) by (subst chain_cong [of _ _ ?h]) (auto simp: chain_append Segs')
      then show ?thesis
        using d(5,10,11) ne nx(2) Cons by (auto simp: chain_append Segs')
    qed simp
    ultimately show ?thesis
      using d(5) ne nx(2) by (auto simp: chain_append Segs')
  qed
  have ti: "tiles (Segs s') (xs @ a # ys) (unat (HeapStart s)) (unat (HeapEnd s))"
  proof -
    obtain m where m: "tiles ?h xs (unat (HeapStart s)) m" "unat a = m"
        "tiles ?h ys (seg_end ?h b) (unat (HeapEnd s))"
      using d(6) by (auto simp: tiles_append)
    have "tiles (Segs s') xs (unat (HeapStart s)) m" "tiles (Segs s') ys (seg_end ?h b) (unat (HeapEnd s))"
      using m same by (simp_all add: tiles_cong [of _ "Segs s'" ?h])
    moreover have "seg_end (Segs s') a = seg_end ?h b"
      using len b by (simp add: seg_end_def Segs')
    ultimately show ?thesis
      using m(2) by (auto simp: tiles_append)
  qed
  have al: "unat (SegLength (Segs s' c)) mod 16 = 0" if "c \<in> set (xs @ a # ys)" for c
  proof -
    have "(unat (SegLength (?h a)) + unat (SegLength (?h b)) + 32) mod 16 = 0"
      using d(9) [of a] d(9) [of b] by (auto simp: mod_eq_0_iff_dvd)
    then show ?thesis
      using that d(9) same [of c] len by (auto simp: Segs')
  qed
  have "LastHdr s' = last (xs @ a # ys)"
    using d(4,11) frame(1) by (cases ys rule: rev_cases) (auto split: if_splits)
  then show "heap_ok s' (xs @ a # ys)"
    using d(2,3,7,8) ch ti al by (simp add: heap_ok_def frame hd_append split: if_splits)
qed

text \<open>Joining free segments changes no block in use.\<close>

lemma CombineForward_live:
  assumes ok: "heap_ok s as" "a \<in> set as" "SegIsFree (Segs s a)"
  obtains as' where "heap_ok (CombineForward a s) as'" "live (CombineForward a s) as' = live s as"
    "a \<in> set as'" "SegIsFree (Segs (CombineForward a s) a)" "HeapBytes (CombineForward a s) = HeapBytes s"
    "hd as' = hd as" "length as \<le> length as' + 1" "HeapEnd (CombineForward a s) = HeapEnd s"
proof -
  obtain xs zs where as: "as = xs @ a # zs"
    using split_list [OF ok(2)] by blast
  note d = heap_okD [OF ok(1)]
  show ?thesis
  proof (cases "zs \<noteq> [] \<and> SegIsFree (Segs s (hd zs))")
    case True
    then obtain b ys where zs: "zs = b # ys" "SegIsFree (Segs s b)"
      by (cases zs) auto
    let ?s = "CombineForward a s"
    note cf = heap_ok_CombineForward [OF ok(1) [unfolded as zs(1)] zs(2) refl]
    have "live ?s (xs @ a # ys) = live s as"
      using cf(2,4) ok(3) zs(2) d(11) by (fastforce simp: live_def fun_eq_iff as zs(1))
    moreover have "HeapEnd ?s = HeapEnd s"
      by (auto simp: CombineForward_def Let_def)
    ultimately show ?thesis
      using that [of "xs @ a # ys"] cf ok(3) by (simp add: as zs(1) hd_append)
  next
    case False
    have "SegNext (Segs s a) = hd (zs @ [0])"
      using d(5) by (simp add: as chain_append)
    then have "CombineForward a s = s"
      using False by (cases zs) (auto simp: CombineForward_def)
    then show ?thesis
      using that ok by simp
  qed
qed

lemma CombineBackward_live:
  assumes ok: "heap_ok s as" "a \<in> set as" "SegIsFree (Segs s a)"
  obtains as' where "heap_ok (CombineBackward a s) as'" "live (CombineBackward a s) as' = live s as"
    "HeapBytes (CombineBackward a s) = HeapBytes s" "HeapEnd (CombineBackward a s) = HeapEnd s"
proof (cases "SegLast (Segs s a) \<noteq> 0 \<and> SegIsFree (Segs s (SegLast (Segs s a)))")
  case True
  obtain xs ys where as: "as = xs @ a # ys"
    using split_list [OF ok(2)] by blast
  have "SegLast (Segs s a) = last (0 # xs)"
    using heap_okD(5) [OF ok(1)] by (simp add: as chain_append)
  then have "SegLast (Segs s a) \<in> set as"
    using True by (auto simp: as split: if_splits)
  from CombineForward_live [OF ok(1) this] True show ?thesis
    using that by (auto simp: CombineBackward_def)
next
  case False
  then show ?thesis
    using that ok by (auto simp: CombineBackward_def)
qed

lemma mark_free:
  assumes "heap_ok s as" "a \<in> set as"
  shows "heap_ok (upd_seg a (\<lambda>h. h\<lparr>SegIsFree := b\<rparr>) s) as"
    "live (upd_seg a (\<lambda>h. h\<lparr>SegIsFree := b\<rparr>) s) as =
       (live s as)(a := if b then None else Some (SegLength (Segs s a)))"
proof -
  let ?s = "upd_seg a (\<lambda>h. h\<lparr>SegIsFree := b\<rparr>) s"
  have "chain (Segs ?s) 0 as 0 = chain (Segs s) 0 as 0"
    "tiles (Segs ?s) as x y = tiles (Segs s) as x y" for x y
    by (intro chain_cong tiles_cong, simp)+
  then show "heap_ok ?s as"
    using assms(1) by (simp add: heap_ok_def)
  show "live ?s as = (live s as)(a := if b then None else Some (SegLength (Segs s a)))"
    using assms(2) by (auto simp: live_def fun_eq_iff)
qed

section \<open>Free\<close>

lemma defkfree_live:
  assumes ok: "heap_ok s as" "live s as a = Some L"
  obtains as' where "heap_ok (defkfree (a + 0x20) s) as'"
    "live (defkfree (a + 0x20) s) as' = (live s as)(a := None)"
    "HeapBytes (defkfree (a + 0x20) s) = HeapBytes s"
proof -
  let ?s1 = "upd_seg a (\<lambda>h. h\<lparr>SegIsFree := True\<rparr>) s"
  have a: "a \<in> set as"
    using ok(2) by (simp add: live_def split: if_splits)
  note m = mark_free [OF ok(1) a, of True, simplified]
  obtain as2 where 2: "heap_ok (CombineForward a ?s1) as2"
    "live (CombineForward a ?s1) as2 = live ?s1 as" "a \<in> set as2"
    "SegIsFree (Segs (CombineForward a ?s1) a)" "HeapBytes (CombineForward a ?s1) = HeapBytes s"
    using CombineForward_live [OF m(1) a] by auto
  obtain as3 where 3: "heap_ok (CombineBackward a (CombineForward a ?s1)) as3"
    "live (CombineBackward a (CombineForward a ?s1)) as3 = live (CombineForward a ?s1) as2"
    "HeapBytes (CombineBackward a (CombineForward a ?s1)) = HeapBytes (CombineForward a ?s1)"
    using CombineBackward_live [OF 2(1,3,4)] .
  have "defkfree (a + 0x20) s = CombineBackward a (CombineForward a ?s1)"
    using heap_okD(2) [OF ok(1)] by (simp add: defkfree_def Let_def)
  then show ?thesis
    using that 3 2(2,5) m(2) by simp
qed

section \<open>Allocation\<close>

lemma find_segment_chain:
  assumes "chain h p as 0" "as \<noteq> []" "0 \<notin> set as"
  shows "find_segment h S (hd as) = Some (find (\<lambda>a. SegIsFree (h a) \<and> S \<le> SegLength (h a)) as)"
  using assms
proof (induction as arbitrary: p)
  case (Cons a as)
  have le: "S < SegLength (h a) \<or> SegLength (h a) = S \<longleftrightarrow> S \<le> SegLength (h a)"
    by auto
  show ?case
  proof (cases "as = []")
    case True
    then show ?thesis
      using Cons.prems by (simp add: find_segment.simps le)
  next
    case False
    then have "SegNext (h a) = hd as" "hd as \<noteq> 0"
      using Cons.prems by (cases as; auto)+
    then show ?thesis
      using Cons.IH [of a] Cons.prems False by (simp add: find_segment.simps [of h S a] le)
  qed
qed simp

text \<open>The size that is searched for: a multiple of 16, at least 16 and at least the request.\<close>

lemma malloc_size_ok:
  assumes "unat S \<le> 2 ^ 62"
  shows "unat S \<le> unat (malloc_size S)" "unat (malloc_size S) mod 16 = 0"
    "16 \<le> unat (malloc_size S)" "unat (malloc_size S) \<le> unat S + 32"
    "malloc_size (malloc_size S) = malloc_size S"
proof -
  let ?S = "if S < 0x10 then 0x10 else S"
  have S: "unat ?S = max 16 (unat S)"
    by (auto simp: word_less_nat_alt)
  define u where "u = unat ?S"
  have u: "16 \<le> u" "u \<le> 2 ^ 62" "unat S \<le> u" "u < unat S + 17"
    using S assms by (auto simp: u_def)
  have "unat (malloc_size S) = (if u mod 16 > 0 then u - u mod 16 + 16 else u)"
  proof -
    have le: "?S mod 0x10 \<le> ?S"
      by (simp only: word_le_nat_alt unat_mod) simp
    have "?S mod 0x10 > 0 \<longleftrightarrow> u mod 16 > 0"
      by (simp only: word_less_nat_alt unat_mod u_def) simp
    moreover have "unat (?S - ?S mod 0x10 + 0x10) = u - u mod 16 + 16"
    proof -
      have "unat (?S - ?S mod 0x10) = u - u mod 16"
        by (simp only: unat_sub [OF le] unat_mod u_def) simp
      then show ?thesis
        using u(2) by (simp only: unat_word_ariths) simp
    qed
    ultimately show ?thesis
      by (simp only: malloc_size_def Let_def split: if_split) (simp add: u_def)
  qed
  moreover have "u - u mod 16 + 16 = 16 * (u div 16 + 1)"
    by (simp add: minus_mod_eq_mult_div)
  moreover have "16 * (u div 16) \<le> u" "u < 16 * (u div 16 + 1)"
    using dividend_less_times_div [of 16 u] by simp_all
  ultimately have ms: "unat (malloc_size S) = (if u mod 16 > 0 then 16 * (u div 16 + 1) else u)"
      "16 * (u div 16) \<le> u" "u < 16 * (u div 16 + 1)"
    by auto
  show "unat S \<le> unat (malloc_size S)" "unat (malloc_size S) mod 16 = 0"
    "16 \<le> unat (malloc_size S)" "unat (malloc_size S) \<le> unat S + 32"
    using u ms by auto
  then show "malloc_size (malloc_size S) = malloc_size S"
    by (simp add: malloc_size_def [of "malloc_size S"] word_less_nat_alt unat_mod Let_def)
qed

lemma Split_whole:
  assumes "unat S mod 16 = 0" "unat (SegLength (Segs s a)) mod 16 = 0"
    "unat S \<le> unat (SegLength (Segs s a))" "unat (SegLength (Segs s a)) < unat S + 48"
  shows "Split a S s = (0, s)"
proof -
  define d where "d = SegLength (Segs s a) - S"
  have ud: "unat d = unat (SegLength (Segs s a)) - unat S"
    using assms(3) by (simp add: d_def unat_sub word_le_nat_alt)
  moreover have "16 dvd unat (SegLength (Segs s a)) - unat S"
    using assms(1,2) by (intro dvd_diff_nat) auto
  ultimately have "16 dvd unat d" "unat d < 48"
    using assms(4) by auto
  then obtain k where "unat d = 16 * k" "k < 3"
    by auto
  then have "unat d \<in> {0, 16, 32}"
    by (auto simp: less_Suc_eq numeral_3_eq_3)
  then have "d \<in> {0, 0x10, 0x20}"
    by (auto simp: word_unat_eq_iff)
  then have "d - 0x20 <s 0x10"
    by (auto simp: word_sless_alt)
  then show ?thesis
    by (simp add: Split_def Let_def d_def)
qed

lemma take_segment_live:
  assumes ok: "heap_ok s as" "a \<in> set as" "SegIsFree (Segs s a)"
    and S: "S \<le> SegLength (Segs s a)" "16 \<le> unat S" "unat S mod 16 = 0"
  obtains as' s' L where "take_segment S a s = (a + 0x20, s')" "heap_ok s' as'"
    "live s' as' = (live s as)(a \<mapsto> L)" "S \<le> L" "HeapBytes s' = HeapBytes s"
proof -
  note d = heap_okD [OF ok(1)]
  have le: "unat S \<le> unat (SegLength (Segs s a))"
    using S(1) by (simp add: word_le_nat_alt)
  show ?thesis
  proof (cases "unat S + 48 \<le> unat (SegLength (Segs s a))")
    case True
    obtain xs ys where as: "as = xs @ a # ys"
      using split_list [OF ok(2)] by blast
    let ?s = "snd (Split a S s)" and ?new = "a + S + 0x20"
    note sp = heap_ok_Split [OF ok(1) [unfolded as] S(2,3) True refl refl]
    note m = mark_free [OF sp(1), of a False, simplified]
    have "live ?s (xs @ a # ?new # ys) = live s as"
      using sp(2,3,5,6,7) ok(3) by (fastforce simp: live_def fun_eq_iff as)
    moreover have "S < SegLength (Segs s a)"
      using True by (simp add: word_less_nat_alt)
    ultimately show ?thesis
      using that [OF _ m(1)] m(2) sp(3,4) by (simp add: take_segment_def Let_def)
  next
    case False
    then have "snd (Split a S s) = s"
      using Split_whole [OF S(3) d(9) [OF ok(2)] le] by simp
    then show ?thesis
      using that [OF _ mark_free(1) [OF ok(1,2), of False]] mark_free(2) [OF ok(1,2), of False] S(1)
      by (simp add: take_segment_def Let_def)
  qed
qed

subsection \<open>Growing\<close>

text \<open>\<open>n\<close> more bytes fit into the address space and the list of segments.\<close>

definition room :: "DefHeap \<Rightarrow> nat \<Rightarrow> bool" where
  "room s n \<longleftrightarrow> unat (HeapEnd s) + n < 2 ^ 64 \<and> unat (HeapEnd s) + n < unat (HeapStart s) + 2 ^ 63"

text \<open>The length of the last segment and its header when it is free.\<close>

definition slack :: "DefHeap \<Rightarrow> u64 list \<Rightarrow> nat" where
  "slack s as = (if SegIsFree (Segs s (last as)) then 32 + unat (SegLength (Segs s (last as))) else 0)"

definition page_round :: "nat \<Rightarrow> nat" where
  "page_round n = (n + 4095) div 4096 * 4096"

lemma page_round_bounds: "n \<le> page_round n" "page_round n < n + 4096" "page_round n mod 16 = 0"
proof -
  have "(n + 4095) div 4096 * 4096 \<le> n + 4095" "n + 4095 < 4096 + 4096 * ((n + 4095) div 4096)"
    using dividend_less_times_div [of 4096 "n + 4095"] by simp_all
  then show "n \<le> page_round n" "page_round n < n + 4096"
    unfolding page_round_def by linarith+
  have "16 dvd (4096 :: nat)"
    by simp
  then show "page_round n mod 16 = 0"
    unfolding page_round_def by (simp only: mod_eq_0_iff_dvd dvd_mult)
qed

lemma page_round_ge: "0 < n \<Longrightarrow> 4096 \<le> page_round n"
proof -
  assume "0 < n"
  then have "1 \<le> (n + 4095) div 4096"
    by (simp add: less_eq_div_iff_mult_less_eq)
  then show ?thesis
    by (simp add: page_round_def)
qed

lemma heap_ok_new_segment:
  assumes ok: "heap_ok s as" and r: "room s (unat L + 32)" "unat L mod 16 = 0" "e = HeapEnd s + L + 0x20"
  shows "heap_ok (s\<lparr>HeapVM := m, HeapEnd := e, LastHdr := HeapEnd s,
      Segs := (Segs s)(last as := (Segs s (last as))\<lparr>SegNext := HeapEnd s\<rparr>,
        HeapEnd s := \<lparr>SegLength = L, SegNext = 0, SegLast = last as, SegIsFree = True\<rparr>)\<rparr>)
      (as @ [HeapEnd s])"
    (is "heap_ok ?s ?as")
proof -
  note d = heap_okD [OF ok]
  have ue: "unat e = unat (HeapEnd s) + unat L + 32"
    using r by (simp add: room_def unat_word_ariths)
  have fresh: "HeapEnd s \<notin> set as"
    using tiles_bounds [OF d(6), of "HeapEnd s"] by (auto simp: seg_end_def)
  obtain xs a where as: "as = xs @ [a]"
    using d(1) by (cases as rule: rev_cases) auto
  have "chain (Segs ?s) 0 ?as 0"
  proof -
    have "chain (Segs ?s) 0 xs a"
      using d(5,11) fresh by (subst chain_cong [of _ _ "Segs s"]) (auto simp: as chain_append)
    then show ?thesis
      using d(5) fresh by (auto simp: as chain_append)
  qed
  moreover have "tiles (Segs ?s) ?as (unat (HeapStart s)) (unat e)"
  proof -
    have "tiles (Segs ?s) as (unat (HeapStart s)) (unat (HeapEnd s))"
      using d(6) fresh by (subst tiles_cong [of _ _ "Segs s"]) auto
    then show ?thesis
      using ue by (auto simp: tiles_append seg_end_def)
  qed
  ultimately show ?thesis
    using d(1-3,8,9) r ue fresh by (auto simp: heap_ok_def room_def hd_append)
qed

lemma ExpandHeap_length:
  fixes S :: u64
  assumes "unat S < 2 ^ 63"
  defines "L \<equiv> if S mod 0x1000 \<noteq> 0 then S - S mod 0x1000 + 0x1000 else S"
  shows "unat L = page_round (unat S)" "L div 0x1000 * 0x1000 = L"
proof -
  have le: "S mod 0x1000 \<le> S"
    by (simp add: word_le_nat_alt unat_mod)
  have mz: "S mod 0x1000 = 0 \<longleftrightarrow> unat S mod 4096 = 0"
    by (simp add: word_unat_eq_iff unat_mod)
  let ?q = "unat S div 4096"
  have q: "unat S = 4096 * ?q + unat S mod 4096"
    by simp
  have "unat L = (if unat S mod 4096 \<noteq> 0 then unat S - unat S mod 4096 + 4096 else unat S)"
    using assms(1) by (simp add: L_def mz unat_word_ariths unat_sub [OF le] unat_mod)
  also have "\<dots> = page_round (unat S)"
  proof (cases "unat S mod 4096 = 0")
    case True
    then have "(unat S + 4095) div 4096 = ?q"
      by (simp add: div_add1_eq [of "unat S" 4095 4096])
    then show ?thesis
      using True q by (simp add: page_round_def)
  next
    case False
    then have "(unat S mod 4096 + 4095) div 4096 = 1"
      by (simp add: div_nat_eqI)
    then have "(unat S + 4095) div 4096 = ?q + 1"
      by (simp add: div_add1_eq [of "unat S" 4095 4096])
    then show ?thesis
      using False by (simp add: page_round_def minus_mod_eq_mult_div)
  qed
  finally show "unat L = page_round (unat S)" .
  then have "unat L div 4096 * 4096 = unat L" "unat L < 2 ^ LENGTH(64)"
    by (simp add: page_round_def, intro unsigned_less)
  then have "unat (L div 0x1000 * 0x1000) = unat L"
    by (simp add: unat_word_ariths unat_div)
  then show "L div 0x1000 * 0x1000 = L"
    by (simp add: word_unat_eq_iff)
qed

lemma all_fields:
  "h\<lparr>SegIsFree := f, SegLast := l, SegNext := n, SegLength := x\<rparr> =
     \<lparr>SegLength = x, SegNext = n, SegLast = l, SegIsFree = f\<rparr>" for h :: HeapSegHdr
  by (cases h) simp

lemma CombineBackward_last:
  assumes ok: "heap_ok s (as @ [a])" "as \<noteq> []" "SegIsFree (Segs s a)"
  obtains as' where "heap_ok (CombineBackward a s) as'" "live (CombineBackward a s) as' = live s (as @ [a])"
    "slack (CombineBackward a s) as' = slack s as + slack s (as @ [a])"
    "HeapBytes (CombineBackward a s) = HeapBytes s" "HeapEnd (CombineBackward a s) = HeapEnd s"
    "HeapStart (CombineBackward a s) = HeapStart s"
proof -
  obtain xs b where as: "as = xs @ [b]"
    using ok(2) by (cases as rule: rev_cases) auto
  note d = heap_okD [OF ok(1)]
  have pred: "SegLast (Segs s a) = b" "b \<noteq> 0"
    using d(5,10) by (auto simp: as chain_append)
  show ?thesis
  proof (cases "SegIsFree (Segs s b)")
    case True
    have h: "heap_ok s (xs @ b # a # [])"
      using ok(1) by (simp add: as)
    let ?s = "CombineForward b s"
    note cf = heap_ok_CombineForward [OF h ok(3) refl]
    have "live ?s (xs @ [b]) = live s (as @ [a])"
      using cf(2,4) ok(3) True d(11) by (fastforce simp: live_def fun_eq_iff as)
    moreover have "slack ?s (xs @ [b]) = slack s as + slack s (as @ [a])"
    proof -
      have "seg_end (Segs ?s) b = unat (HeapEnd ?s)"
        using heap_okD(6) [OF cf(1)] by (auto simp: tiles_append)
      moreover have "unat a = seg_end (Segs s) b" "seg_end (Segs s) a = unat (HeapEnd s)"
        using d(6) by (auto simp: as tiles_append)
      moreover have "HeapEnd ?s = HeapEnd s"
        by (auto simp: CombineForward_def Let_def)
      ultimately show ?thesis
        using True cf(2) ok(3) by (simp add: slack_def as seg_end_def)
    qed
    moreover have "CombineBackward a s = ?s" "HeapEnd ?s = HeapEnd s" "HeapStart ?s = HeapStart s"
      using pred True by (auto simp: CombineBackward_def CombineForward_def Let_def)
    ultimately show ?thesis
      using that [of "xs @ [b]"] cf(1,3) by simp
  next
    case False
    then have "CombineBackward a s = s"
      using pred by (simp add: CombineBackward_def)
    then show ?thesis
      using that [of "as @ [a]"] ok(1) False by (simp add: slack_def as)
  qed
qed

lemma ExpandHeap_live:
  assumes ok: "heap_ok s as" and S: "unat S < 2 ^ 63" "room s (page_round (unat S))" "0 < unat S"
    and e: "ExpandHeap S s = Inr s'"
  obtains as' where "heap_ok s' as'" "live s' as' = live s as" "slack s' as' = slack s as + page_round (unat S)"
    "HeapBytes s' = HeapBytes s" "HeapStart s' = HeapStart s"
    "unat (HeapEnd s') = unat (HeapEnd s) + page_round (unat S)"
proof -
  define L where "L = (if S mod 0x1000 \<noteq> 0 then S - S mod 0x1000 + 0x1000 else S)"
  note L = ExpandHeap_length [OF S(1), folded L_def]
  note d = heap_okD [OF ok]
  have L32: "unat (L - 0x20) = page_round (unat S) - 32" "32 \<le> page_round (unat S)"
  proof -
    have "4096 dvd page_round (unat S)" "0 < page_round (unat S)"
      using S(3) page_round_bounds(1) [of "unat S"] by (simp_all add: page_round_def)
    then show "32 \<le> page_round (unat S)"
      by (auto dest: dvd_imp_le)
    then show "unat (L - 0x20) = page_round (unat S) - 32"
      using L(1) by (simp add: unat_sub word_le_nat_alt)
  qed
  let ?a = "HeapEnd s"
  have fresh: "?a \<notin> set as"
    using tiles_bounds [OF d(6), of ?a] by (auto simp: seg_end_def)
  then have ne: "last as \<noteq> ?a"
    using d(1) last_in_set by metis
  obtain m s1 where s': "s' = CombineBackward ?a s1" and
    s1: "s1 = s\<lparr>HeapVM := m, HeapEnd := ?a + L, LastHdr := ?a,
      Segs := (Segs s)(last as := (Segs s (last as))\<lparr>SegNext := ?a\<rparr>,
        ?a := \<lparr>SegLength = L - 0x20, SegNext = 0, SegLast = last as, SegIsFree = True\<rparr>)\<rparr>"
    using e ne d(4) L(2)
    by (auto simp: ExpandHeap_def and_then_eq_Inr Let_def upd_seg_def L_def [symmetric]
        fun_upd_twist all_fields)
  have ok1: "heap_ok s1 (as @ [?a])"
    using heap_ok_new_segment [OF ok, of "L - 0x20" "?a + L"] L32 S(2) page_round_bounds(3) [of "unat S"]
    unfolding s1 by (auto simp: mod_eq_0_iff_dvd intro!: dvd_diff_nat)
  have new: "live s1 (as @ [?a]) = live s as" "slack s1 as = slack s as"
      "slack s1 (as @ [?a]) = page_round (unat S)" "SegIsFree (Segs s1 ?a)"
    using fresh ne L32 by (auto simp: live_def slack_def s1 fun_eq_iff)
  have frame: "unat (HeapEnd s1) = unat ?a + page_round (unat S)" "HeapBytes s1 = HeapBytes s"
      "HeapStart s1 = HeapStart s"
    using S(2) L(1) by (simp_all add: s1 room_def unat_word_ariths)
  obtain as' where "heap_ok s' as'" "live s' as' = live s1 (as @ [?a])"
      "slack s' as' = slack s1 as + slack s1 (as @ [?a])" "HeapBytes s' = HeapBytes s1"
      "HeapEnd s' = HeapEnd s1" "HeapStart s' = HeapStart s1"
    using CombineBackward_last [OF ok1 d(1) new(4)] unfolding s' .
  then show ?thesis
    using that [of as'] new frame by simp
qed

subsection \<open>The whole call\<close>

text \<open>What a call of \<^verbatim>\<open>malloc\<close> that returns has done.\<close>

definition allocated :: "u64 \<Rightarrow> DefHeap \<Rightarrow> u64 list \<Rightarrow> u64 \<Rightarrow> DefHeap \<Rightarrow> bool" where
  "allocated S s as p s' \<longleftrightarrow>
     (\<exists>a L as'. p = a + 0x20 \<and> S \<le> L \<and> live s as a = None \<and> heap_ok s' as' \<and>
        live s' as' = (live s as)(a \<mapsto> L) \<and> HeapBytes s' = HeapBytes s)"

text \<open>A search that finds a segment.\<close>

lemma defkmalloc_found:
  assumes ok: "heap_ok s as" and S: "unat S \<le> 2 ^ 62"
    and fit: "b \<in> set as" "SegIsFree (Segs s b)" "malloc_size S \<le> SegLength (Segs s b)"
  shows "\<exists>p s'. defkmalloc S s = Some (Inr (p, s')) \<and> allocated (malloc_size S) s as p s'"
proof -
  let ?S = "malloc_size S"
  note d = heap_okD [OF ok]
  obtain a where a: "find (\<lambda>a. SegIsFree (Segs s a) \<and> ?S \<le> SegLength (Segs s a)) as = Some a"
    using fit by (cases "find (\<lambda>a. SegIsFree (Segs s a) \<and> ?S \<le> SegLength (Segs s a)) as")
      (auto simp: find_None_iff)
  then have fa: "a \<in> set as" "SegIsFree (Segs s a)" "?S \<le> SegLength (Segs s a)"
    by (auto simp: find_Some_iff)
  have "find_segment (Segs s) ?S (HeapStart s) = Some (Some a)"
    using find_segment_chain [OF d(5,1,10), of ?S] a d(3) by simp
  moreover have "?S \<noteq> 0"
    using malloc_size_ok(3) [OF S] by auto
  ultimately have "defkmalloc S s = Some (Inr (take_segment ?S a s))"
    using d(2) by (subst defkmalloc.simps) simp
  moreover obtain as' s' L where "take_segment ?S a s = (a + 0x20, s')" "heap_ok s' as'"
      "live s' as' = (live s as)(a \<mapsto> L)" "?S \<le> L" "HeapBytes s' = HeapBytes s"
    using take_segment_live [OF ok fa malloc_size_ok(3,2) [OF S]] .
  moreover have "live s as a = None"
    using fa(2) by (simp add: live_def)
  ultimately show ?thesis
    unfolding allocated_def by auto
qed

lemma defkmalloc_not_found:
  assumes ok: "heap_ok s as" and S: "unat S \<le> 2 ^ 62"
    and none: "\<And>b. b \<in> set as \<Longrightarrow> \<not> (SegIsFree (Segs s b) \<and> malloc_size S \<le> SegLength (Segs s b))"
  shows "defkmalloc S s = (case ExpandHeap (malloc_size S) s of
    Inl e \<Rightarrow> Some (Inl e) | Inr s \<Rightarrow> defkmalloc (malloc_size S) s)"
proof -
  let ?S = "malloc_size S"
  note d = heap_okD [OF ok]
  have "find_segment (Segs s) ?S (HeapStart s) = Some None"
    using find_segment_chain [OF d(5,1,10), of ?S] none d(3) by (simp add: find_None_iff)
  moreover have "?S \<noteq> 0"
    using malloc_size_ok(3) [OF S] by auto
  ultimately show ?thesis
    using d(2) by (subst defkmalloc.simps) simp
qed

text \<open>A free last segment that is large enough is found.\<close>

lemma slack_fits:
  assumes "heap_ok s as" "unat S + 32 \<le> slack s as"
  shows "last as \<in> set as" "SegIsFree (Segs s (last as))" "S \<le> SegLength (Segs s (last as))"
  using assms heap_okD(1) [OF assms(1)]
  by (auto simp: slack_def word_le_nat_alt split: if_splits)

text \<open>
  One round of the search: the call is settled, or the heap has grown by whole pages and the
  search begins again.
\<close>

lemma defkmalloc_round:
  assumes ok: "heap_ok s as" and S: "unat S \<le> 2 ^ 62" "malloc_size S = T"
    and room: "room s (page_round (unat T))"
  obtains (found) p s' where "defkmalloc S s = Some (Inr (p, s'))" "allocated T s as p s'"
    | (stopped) e where "defkmalloc S s = Some (Inl e)"
    | (grown) s' as' where "defkmalloc S s = defkmalloc T s'" "heap_ok s' as'" "live s' as' = live s as"
        "HeapBytes s' = HeapBytes s" "slack s' as' = slack s as + page_round (unat T)"
        "HeapStart s' = HeapStart s" "unat (HeapEnd s') = unat (HeapEnd s) + page_round (unat T)"
proof -
  have T: "unat T < 2 ^ 63" "0 < unat T"
    using malloc_size_ok [OF S(1)] S by auto
  show ?thesis
  proof (cases "\<exists>b \<in> set as. SegIsFree (Segs s b) \<and> T \<le> SegLength (Segs s b)")
    case True
    then show ?thesis
      using defkmalloc_found [OF ok S(1)] S(2) found by blast
  next
    case False
    then have call: "defkmalloc S s =
        (case ExpandHeap T s of Inl e \<Rightarrow> Some (Inl e) | Inr s \<Rightarrow> defkmalloc T s)"
      using defkmalloc_not_found [OF ok S(1), unfolded S(2)] by blast
    show ?thesis
    proof (cases "ExpandHeap T s")
      case (Inr s')
      then show ?thesis
        using ExpandHeap_live [OF ok T(1) room T(2) Inr] grown call by auto
    qed (use call stopped in auto)
  qed
qed

lemma allocated_trans:
  "allocated S s' as' p t \<Longrightarrow> live s' as' = live s as \<Longrightarrow> HeapBytes s' = HeapBytes s \<Longrightarrow>
   allocated S s as p t"
  by (simp add: allocated_def)

text \<open>At most two rounds of growing are needed.\<close>

lemma defkmalloc_returns:
  assumes ok: "heap_ok s as" and S: "unat S \<le> 2 ^ 61" and room: "room s (2 * (unat S + 8192))"
  shows "(\<exists>p s'. defkmalloc S s = Some (Inr (p, s')) \<and> allocated (malloc_size S) s as p s') \<or>
    (\<exists>e. defkmalloc S s = Some (Inl e))"
proof -
  let ?S = "malloc_size S" and ?R = "page_round (unat (malloc_size S))"
  have S1: "unat S \<le> 2 ^ 62"
    using S by simp
  note ms = malloc_size_ok [OF S1]
  have S2: "unat ?S \<le> 2 ^ 62"
    using ms(4) S by simp
  have R: "?R < unat S + 4128" "unat ?S \<le> ?R" "4096 \<le> ?R"
    using page_round_bounds [of "unat ?S"] ms(3,4) page_round_ge [of "unat ?S"] by auto
  have "room s ?R"
    using room R by (simp add: room_def)
  from ok S1 refl this show ?thesis
  proof (cases rule: defkmalloc_round)
    case (grown s1 as1)
    have "room s1 ?R"
      using room R grown(6,7) by (simp add: room_def)
    from grown(2) S2 ms(5) this show ?thesis
    proof (cases rule: defkmalloc_round)
      case (grown s2 as2)
      note g1 = \<open>defkmalloc S s = defkmalloc ?S s1\<close> \<open>live s1 as1 = live s as\<close>
        \<open>HeapBytes s1 = HeapBytes s\<close> \<open>slack s1 as1 = slack s as + ?R\<close>
      have "unat ?S + 32 \<le> slack s2 as2"
        using g1(4) grown(5) R by simp
      from slack_fits [OF grown(2) this] show ?thesis
        using defkmalloc_found [OF grown(2) S2] allocated_trans g1 grown(1,3,4) ms(5) by metis
    qed (use grown allocated_trans in metis, use grown in simp)
  qed blast+
qed

section \<open>Properties\<close>

text \<open>One page of heap with a single free segment.\<close>

definition heap_example :: DefHeap where
  "heap_example = \<lparr>HeapStart = 0x100000, HeapEnd = 0x101000, LastHdr = 0x100000,
     Segs = (\<lambda>_. \<lparr>SegLength = 0xFE0, SegNext = 0, SegLast = 0, SegIsFree = True\<rparr>),
     HeapBytes = (\<lambda>_. 0xFF), HeapVM = vm_example, HeapManager = vm_example_manager\<rparr>"

lemma heap_example_ok: "heap_ok heap_example [0x100000]" "live heap_example [0x100000] = Map.empty"
  "room heap_example 0x100000"
  by (auto simp: heap_example_def heap_ok_def seg_end_def live_def room_def)

text \<open>The same page with two blocks in use and a free rest.\<close>

definition heap_example2 :: DefHeap where
  "heap_example2 = heap_example\<lparr>LastHdr := 0x1000E0, Segs := (\<lambda>a.
     if a = 0x100000 then \<lparr>SegLength = 0x70, SegNext = 0x100090, SegLast = 0, SegIsFree = False\<rparr>
     else if a = 0x100090 then
       \<lparr>SegLength = 0x30, SegNext = 0x1000E0, SegLast = 0x100000, SegIsFree = False\<rparr>
     else \<lparr>SegLength = 0xF00, SegNext = 0, SegLast = 0x100090, SegIsFree = True\<rparr>)\<rparr>"

lemma heap_example2_ok:
  "heap_ok heap_example2 [0x100000, 0x100090, 0x1000E0]"
  "live heap_example2 [0x100000, 0x100090, 0x1000E0] = [0x100000 \<mapsto> 0x70, 0x100090 \<mapsto> 0x30]"
  by (auto simp: heap_example2_def heap_example_def heap_ok_def seg_end_def live_def fun_eq_iff)

lemma seg_aligned:
  "tiles h as s e \<Longrightarrow> s mod 16 = 0 \<Longrightarrow> (\<And>a. a \<in> set as \<Longrightarrow> unat (SegLength (h a)) mod 16 = 0) \<Longrightarrow>
   a \<in> set as \<Longrightarrow> unat a mod 16 = 0"
  by (induction as arbitrary: s) (auto simp: seg_end_def mod_eq_0_iff_dvd)

lemma seg_aligned_live:
  assumes "heap_ok s as" "live s as a = Some L"
  shows "unat a mod 16 = 0"
  using seg_aligned [OF heap_okD(6,8,9) [OF assms(1)]] assms(2) by (auto simp: live_def split: if_splits)

lemma live_blocks_facts:
  assumes "heap_ok s as" "live s as a = Some L"
  shows "unat a + 32 + unat L \<le> unat (HeapEnd s)" "unat (HeapStart s) \<le> unat a"
    "\<And>b M. live s as b = Some M \<Longrightarrow> b \<noteq> a \<Longrightarrow>
       unat a + 32 + unat L \<le> unat b \<or> unat b + 32 + unat M \<le> unat a"
proof -
  note d = heap_okD [OF assms(1)]
  have a: "a \<in> set as" "SegLength (Segs s a) = L"
    using assms(2) by (auto simp: live_def split: if_splits)
  then show "unat a + 32 + unat L \<le> unat (HeapEnd s)" "unat (HeapStart s) \<le> unat a"
    using tiles_bounds [OF d(6) a(1)] by (simp_all add: seg_end_def)
  fix b M
  assume b: "live s as b = Some M" "b \<noteq> a"
  then have "b \<in> set as" "SegLength (Segs s b) = M"
    by (auto simp: live_def split: if_splits)
  then show "unat a + 32 + unat L \<le> unat b \<or> unat b + 32 + unat M \<le> unat a"
    using tiles_disjoint [OF d(6) a(1), of b] tiles_disjoint [OF d(6) _ a(1), of b] a(2) b(2)
    by (cases "unat a \<le> unat b") (auto simp: seg_end_def)
qed

text \<open>
  C8. \<^verbatim>\<open>malloc\<close> always returns or stops for want of frames. When it returns, the
  result is the data of a block that was not in use, is at least as long as the request, and is
  in use afterwards; every other block in use is still in use with its length, the bytes of the
  heap are unchanged, and the segments again tile the heap.
\<close>

theorem defkmalloc_correct:
  assumes "heap_ok s as" and "unat S \<le> 2 ^ 61" and "room s (2 * (unat S + 8192))"
  shows "\<exists>r. defkmalloc S s = Some r \<and>
    (case r of Inl _ \<Rightarrow> True
     | Inr (p, s') \<Rightarrow> \<exists>a L as'. p = a + 0x20 \<and> S \<le> L \<and> live s as a = None \<and>
         heap_ok s' as' \<and> live s' as' = (live s as)(a \<mapsto> L) \<and> HeapBytes s' = HeapBytes s)"
proof -
  have "S \<le> malloc_size S"
    using malloc_size_ok(1) [of S] assms(2) by (simp add: word_le_nat_alt)
  then show ?thesis
    using defkmalloc_returns [OF assms] unfolding allocated_def
    by (elim disjE exE conjE) (auto dest: order_trans)
qed

theorem defkmalloc_correct_witness:
  "\<exists>p s'. defkmalloc 100 heap_example = Some (Inr (p, s')) \<and>
     (\<exists>a L as'. p = a + 0x20 \<and> 100 \<le> L \<and> heap_ok s' as' \<and> live s' as' = [a \<mapsto> L])"
proof -
  have "malloc_size 100 = 0x70"
    by (simp add: malloc_size_def)
  then have "\<exists>p s'. defkmalloc 100 heap_example = Some (Inr (p, s'))"
    using defkmalloc_found [OF heap_example_ok(1), of 100 "0x100000"]
    by (auto simp: heap_example_def)
  moreover have "room heap_example (2 * (unat (100 :: u64) + 8192))"
    using heap_example_ok(3) by (simp add: room_def)
  ultimately show ?thesis
    using defkmalloc_correct [OF heap_example_ok(1), of 100] heap_example_ok(2) by auto blast
qed

text \<open>
  C10. \<^verbatim>\<open>free\<close> of a block in use takes exactly that block out of use: all others keep
  their address, length and bytes, and the segments again tile the heap.
\<close>

theorem defkfree_correct:
  assumes "heap_ok s as" and "live s as a = Some L"
  shows "\<exists>as'. heap_ok (defkfree (a + 0x20) s) as' \<and>
    live (defkfree (a + 0x20) s) as' = (live s as)(a := None) \<and>
    HeapBytes (defkfree (a + 0x20) s) = HeapBytes s"
  using defkfree_live [OF assms] by blast

theorem defkfree_correct_witness:
  "\<exists>as'. heap_ok (defkfree 0x100020 heap_example2) as' \<and>
     live (defkfree 0x100020 heap_example2) as' = [0x100090 \<mapsto> 0x30]"
proof -
  have "([0x100000 \<mapsto> 0x70, 0x100090 \<mapsto> 0x30])(0x100000 := None) =
      ([0x100090 \<mapsto> 0x30] :: u64 \<Rightarrow> u64 option)"
    by (simp add: fun_eq_iff)
  then show ?thesis
    using defkfree_correct [OF heap_example2_ok(1), of "0x100000" "0x70"]
    by (auto simp: heap_example2_ok(2))
qed

lemma memset_bytes_other:
  assumes "unat (x :: u64) < unat p \<or> unat p + unat n \<le> unat x" "unat p + unat n \<le> 2 ^ 64"
  shows "memset_bytes p v n m x = m x"
proof -
  have "n \<le> x - p"
  proof (cases "p \<le> x")
    case True
    then show ?thesis
      using assms by (auto simp: word_le_nat_alt unat_sub)
  next
    case False
    then have "unat (x - p) = 2 ^ 64 + unat x - unat p"
      by (simp add: unat_sub_if' word_le_nat_alt)
    then show ?thesis
      using False assms by (auto simp: word_le_nat_alt)
  qed
  then show ?thesis
    by (auto simp: memset_bytes_def)
qed

lemma defkcalloc_live:
  assumes ok: "heap_ok s as" and N: "N = n * (if Sz < 0x10 then 0x10 else Sz)" "unat N \<le> 2 ^ 61"
    and room: "room s (2 * (unat N + 8192))" and c: "defkcalloc n Sz s = Some (Inr (p, s'))"
  shows "\<exists>a L as'. p = a + 0x20 \<and> N \<le> L \<and> live s as a = None \<and> heap_ok s' as' \<and>
    live s' as' = (live s as)(a \<mapsto> L) \<and> HeapBytes s' = memset_bytes p 0 N (HeapBytes s)"
proof -
  obtain s1 where m: "defkmalloc N s = Some (Inr (p, s1))" and
    s': "s' = (if p \<noteq> 0 then s1\<lparr>HeapBytes := memset_bytes p 0 N (HeapBytes s1)\<rparr> else s1)"
    using N(1) c heap_okD(2) [OF ok] by (auto simp: defkcalloc_def Let_def and_then_eq_Inr)
  obtain a L as' where a: "p = a + 0x20" "malloc_size N \<le> L" "live s as a = None" "heap_ok s1 as'"
      "live s1 as' = (live s as)(a \<mapsto> L)" "HeapBytes s1 = HeapBytes s"
    using defkmalloc_returns [OF ok N(2) room] m by (auto simp: allocated_def)
  have "N \<le> L"
    using a(2) malloc_size_ok(1) [of N] N(2) by (simp add: word_le_nat_alt)
  moreover have "p \<noteq> 0"
    using live_blocks_facts(1) [OF a(4), of a L] a(5) unsigned_less [of "HeapEnd s1", where ?'a = nat]
    by (auto simp: a(1) word_unat_eq_iff unat_word_ariths)
  moreover have "heap_ok s' as'" "live s' as' = live s1 as'"
    using a(4) by (simp_all add: s' heap_ok_def live_def fun_eq_iff)
  ultimately show ?thesis
    using a s' by auto
qed

text \<open>
  \<^verbatim>\<open>calloc\<close> that returns hands out a block whose \<open>n * Size\<close> bytes are zero
  (with sizes below 16 raised to 16), and the bytes of every block that was in use are the same
  as before.
\<close>

lemma defkcalloc_zeroes:
  assumes "heap_ok s as" and "N = n * (if Sz < 0x10 then 0x10 else Sz)" and "unat N \<le> 2 ^ 61"
    and "room s (2 * (unat N + 8192))"
    and "defkcalloc n Sz s = Some (Inr (p, s'))"
  shows "\<exists>a L as'. p = a + 0x20 \<and> N \<le> L \<and> live s as a = None \<and> heap_ok s' as' \<and>
    live s' as' = (live s as)(a \<mapsto> L) \<and> (\<forall>i < N. HeapBytes s' (p + i) = 0) \<and>
    (\<forall>b M x. live s as b = Some M \<longrightarrow> unat b + 32 \<le> unat x \<longrightarrow> unat x < unat b + 32 + unat M \<longrightarrow>
       HeapBytes s' x = HeapBytes s x)"
proof -
  obtain a L as' where a: "p = a + 0x20" "N \<le> L" "live s as a = None" "heap_ok s' as'"
      "live s' as' = (live s as)(a \<mapsto> L)" and bytes: "HeapBytes s' = memset_bytes p 0 N (HeapBytes s)"
    using defkcalloc_live [OF assms] by blast
  have la: "live s' as' a = Some L"
    by (simp add: a(5))
  note dis = live_blocks_facts [OF a(4) la]
  have up: "unat p = unat a + 32"
    using dis(1) unsigned_less [of "HeapEnd s'", where ?'a = nat] by (simp add: a(1) unat_word_ariths)
  have fits: "unat p + unat N \<le> 2 ^ 64"
    using dis(1) a(2) up unsigned_less [of "HeapEnd s'", where ?'a = nat] by (simp add: word_le_nat_alt)
  have "HeapBytes s' x = HeapBytes s x"
    if "live s as b = Some M" "unat b + 32 \<le> unat x" "unat x < unat b + 32 + unat M" for b M x
  proof -
    have "b \<noteq> a" "live s' as' b = Some M"
      using that(1) a(3,5) by auto
    then have "unat x < unat p \<or> unat p + unat N \<le> unat x"
      using dis(3) [of b M] that(2,3) up a(2) by (auto simp: word_le_nat_alt)
    then show ?thesis
      using memset_bytes_other [OF _ fits] by (simp add: bytes)
  qed
  moreover have "HeapBytes s' (p + i) = 0" if "i < N" for i
    using that by (simp add: bytes memset_bytes_def)
  ultimately show ?thesis
    using a by blast
qed

lemma defkcalloc_zeroes_witness:
  "\<exists>p s'. defkcalloc 4 0x10 heap_example = Some (Inr (p, s')) \<and> (\<forall>i < 0x40. HeapBytes s' (p + i) = 0)"
proof -
  have "malloc_size 0x40 = 0x40"
    by (simp add: malloc_size_def)
  then have "\<exists>p s'. defkmalloc 0x40 heap_example = Some (Inr (p, s'))"
    using defkmalloc_found [OF heap_example_ok(1), of "0x40" "0x100000"]
    by (auto simp: heap_example_def)
  then obtain p s' where c: "defkcalloc 4 0x10 heap_example = Some (Inr (p, s'))"
    by (auto simp: defkcalloc_def) (auto simp: heap_example_def)
  have "room heap_example (2 * (unat (0x40 :: u64) + 8192))"
    using heap_example_ok(3) by (simp add: room_def)
  then show ?thesis
    using defkcalloc_zeroes [OF heap_example_ok(1), of "0x40" 4 "0x10" p s'] c by auto
qed

text \<open>
  \<^verbatim>\<open>realloc\<close> never frees: when it returns for a block in use, the old block is
  still in use beside the new one.
\<close>

lemma defkrealloc_leaks:
  assumes "heap_ok s as" and "live s as b = Some M" and "b + 0x20 \<noteq> 0" and "unat Sz \<le> 2 ^ 56"
    and "room s (2 * (16 * unat Sz + 16384))"
    and "defkrealloc (b + 0x20) Sz s = Some (Inr (p, s'))"
  shows "\<exists>a L as'. p = a + 0x20 \<and> a \<noteq> b \<and> Sz \<le> L \<and> live s as a = None \<and> heap_ok s' as' \<and>
    live s' as' = (live s as)(a \<mapsto> L)"
proof -
  let ?S = "if Sz < 0x10 then 0x10 else Sz"
  obtain s1 where c: "defkcalloc ?S 1 s = Some (Inr (p, s1))" and
    s': "s' = s1\<lparr>HeapBytes := memcpy_bytes p (b + 0x20) ?S (HeapBytes s1)\<rparr>"
    using assms(3,6) heap_okD(2) [OF assms(1)]
    by (auto simp: defkrealloc_def Let_def and_then_eq_Inr)
  have N: "unat (?S * 0x10) \<le> 16 * unat Sz + 256"
    using assms(4) by (auto simp: unat_word_ariths word_less_nat_alt)
  have "unat (?S * (if (1 :: u64) < 0x10 then 0x10 else 1)) \<le> 2 ^ 61"
      "room s (2 * (unat (?S * (if (1 :: u64) < 0x10 then 0x10 else 1)) + 8192))"
    using N assms(4,5) by (auto simp: room_def)
  from defkcalloc_live [OF assms(1) refl this c] obtain a L as' where
    a: "p = a + 0x20" "live s as a = None" "heap_ok s1 as'" "live s1 as' = (live s as)(a \<mapsto> L)"
      "?S * (if (1 :: u64) < 0x10 then 0x10 else 1) \<le> L"
    by blast
  moreover have "Sz \<le> L"
    using a(5) assms(4) by (auto simp: word_le_nat_alt word_less_nat_alt unat_word_ariths split: if_splits)
  moreover have "heap_ok s' as'" "live s' as' = live s1 as'"
    using a(3) by (simp_all add: s' heap_ok_def live_def fun_eq_iff)
  ultimately show ?thesis
    using assms(2) by auto
qed

lemma defkrealloc_leaks_witness:
  "\<exists>p s' a L as'. defkrealloc 0x100020 0x20 heap_example2 = Some (Inr (p, s')) \<and> p = a + 0x20 \<and>
     heap_ok s' as' \<and> live s' as' = [0x100000 \<mapsto> 0x70, 0x100090 \<mapsto> 0x30, a \<mapsto> L]"
proof -
  have ms: "malloc_size 0x200 = 0x200"
    by (simp add: malloc_size_def)
  have "0x1000E0 \<in> set [0x100000, 0x100090, 0x1000E0 :: u64]"
      "SegIsFree (Segs heap_example2 0x1000E0)"
      "malloc_size 0x200 \<le> SegLength (Segs heap_example2 0x1000E0)"
    by (simp_all add: ms heap_example2_def)
  from defkmalloc_found [OF heap_example2_ok(1) _ this]
  obtain p s1 where "defkmalloc 0x200 heap_example2 = Some (Inr (p, s1))"
    by auto
  moreover have "HeapStart heap_example2 \<noteq> 0"
    by (simp add: heap_example2_def heap_example_def)
  ultimately obtain s' where r: "defkrealloc 0x100020 0x20 heap_example2 = Some (Inr (p, s'))"
    by (auto simp: defkrealloc_def defkcalloc_def)
  have "live heap_example2 [0x100000, 0x100090, 0x1000E0] 0x100000 = Some 0x70"
    by (simp add: heap_example2_ok(2))
  moreover have "room heap_example2 (2 * (16 * unat (0x20 :: u64) + 16384))"
    using heap_example_ok(3) by (simp add: heap_example2_def room_def)
  ultimately show ?thesis
    using defkrealloc_leaks [OF heap_example2_ok(1), of "0x100000" "0x70" "0x20" p s'] r
    by (simp add: heap_example2_ok(2)) blast
qed

section \<open>Clients of the heap\<close>

text \<open>
  A client of the heap and the blocks it holds: the address each call returned and the size it asked
  for. The client starts with \<^verbatim>\<open>InitHeap\<close>, allocates with \<^verbatim>\<open>malloc\<close>, \<^verbatim>\<open>calloc\<close> and \<^verbatim>\<open>realloc\<close>, writes
  into its blocks and frees blocks it holds. After \<^verbatim>\<open>realloc\<close> it holds the old block as well, since
  that is not freed. A call that does not return or stops the machine has no successor.
\<close>

inductive heap_run :: "DefHeap \<Rightarrow> (u64 \<rightharpoonup> u64) \<Rightarrow> bool" where
  run_init: "InitHeap A n s = Inr s' \<Longrightarrow> A \<noteq> 0 \<Longrightarrow> unat A mod 16 = 0 \<Longrightarrow> 0 < n \<Longrightarrow>
    unat A + unat n * 4096 < 2 ^ 64 \<Longrightarrow> unat n * 4096 < 2 ^ 63 \<Longrightarrow> heap_run s' Map.empty"
| run_malloc: "heap_run s B \<Longrightarrow> unat S \<le> 2 ^ 61 \<Longrightarrow> room s (2 * (unat S + 8192)) \<Longrightarrow>
    defkmalloc S s = Some (Inr (p, s')) \<Longrightarrow> heap_run s' (B(p \<mapsto> S))"
| run_calloc: "heap_run s B \<Longrightarrow> N = n * (if S < 0x10 then 0x10 else S) \<Longrightarrow> unat N \<le> 2 ^ 61 \<Longrightarrow>
    room s (2 * (unat N + 8192)) \<Longrightarrow> defkcalloc n S s = Some (Inr (p, s')) \<Longrightarrow> heap_run s' (B(p \<mapsto> N))"
| run_realloc: "heap_run s B \<Longrightarrow> B q = Some k \<Longrightarrow> unat S \<le> 2 ^ 56 \<Longrightarrow> room s (2 * (16 * unat S + 16384)) \<Longrightarrow>
    defkrealloc q S s = Some (Inr (p, s')) \<Longrightarrow> heap_run s' (B(p \<mapsto> S))"
| run_free: "heap_run s B \<Longrightarrow> B p = Some k \<Longrightarrow> heap_run (defkfree p s) (B(p := None))"
| run_write: "heap_run s B \<Longrightarrow> B p = Some k \<Longrightarrow> a - p < k \<Longrightarrow>
    heap_run (s\<lparr>HeapBytes := (HeapBytes s)(a := v)\<rparr>) B"

text \<open>Every block the client holds is a segment in use that is long enough.\<close>

definition holds_blocks :: "DefHeap \<Rightarrow> u64 list \<Rightarrow> (u64 \<rightharpoonup> u64) \<Rightarrow> bool" where
  "holds_blocks s as B \<longleftrightarrow> heap_ok s as \<and> (\<forall>p n. B p = Some n \<longrightarrow> (\<exists>L. live s as (p - 0x20) = Some L \<and> n \<le> L))"

lemma InitHeap_ok:
  assumes "InitHeap A n s = Inr s'" "A \<noteq> 0" "unat A mod 16 = 0" "0 < n" "unat A + unat n * 4096 < 2 ^ 64"
    "unat n * 4096 < 2 ^ 63"
  shows "heap_ok s' [A]" "live s' [A] = Map.empty"
proof -
  obtain m where s': "s' = (upd_seg A (\<lambda>h. h\<lparr>SegLength := n * 0x1000 - sizeof_HeapSegHdr,
                 SegNext := 0, SegLast := 0, SegIsFree := True\<rparr>)
      (s\<lparr>HeapVM := m, HeapStart := A, HeapEnd := A + n * 0x1000\<rparr>))\<lparr>LastHdr := A\<rparr>"
    using assms(1) by (auto simp: InitHeap_def and_then_eq_Inr Let_def)
  have n: "0 < unat n"
    using assms(4) by (simp add: word_less_nat_alt)
  have u: "unat (n * 0x1000) = unat n * 4096" "unat (A + n * 0x1000) = unat A + unat n * 4096"
    using assms(5,6) by (simp_all add: unat_word_ariths)
  then have l: "unat (n * 0x1000 - 0x20) = unat n * 4096 - 32"
    using n by (simp add: unat_sub word_le_nat_alt)
  have "(unat n * 4096 - 32) mod 16 = 0"
    using n by (simp add: mod_eq_0_iff_dvd dvd_diff_nat)
  then show "heap_ok s' [A]"
    using assms(2,3,6) n by (simp add: s' heap_ok_def seg_end_def u l)
  show "live s' [A] = Map.empty"
    by (auto simp: s' live_def fun_eq_iff)
qed

lemma live_data:
  assumes "heap_ok s as" "live s as (q - 0x20) = Some L"
  shows "unat q = unat (q - 0x20) + 32"
proof -
  have "unat (q - 0x20) + 32 < 2 ^ 64"
    using live_blocks_facts(1) [OF assms] unsigned_less [of "HeapEnd s", where ?'a = nat] by simp
  then have "unat (q - 0x20 + 0x20) = unat (q - 0x20) + 32"
    by (simp only: unat_word_ariths) simp
  then show ?thesis
    by simp
qed

lemma holds_blocks_new:
  assumes "holds_blocks s as B" "live s as a = None" "heap_ok s' as'" "live s' as' = (live s as)(a \<mapsto> L)" "n \<le> L"
  shows "holds_blocks s' as' (B(a + 0x20 \<mapsto> n))"
  using assms by (fastforce simp: holds_blocks_def)

lemma heap_run_holds: "heap_run s B \<Longrightarrow> \<exists>as. holds_blocks s as B"
proof (induction rule: heap_run.induct)
  case (run_init A n s s')
  then show ?case
    using InitHeap_ok [OF run_init] by (auto simp: holds_blocks_def)
next
  case (run_malloc s B S p s')
  then obtain as where as: "holds_blocks s as B" "heap_ok s as"
    by (auto simp: holds_blocks_def)
  have S: "S \<le> malloc_size S"
    using malloc_size_ok(1) [of S] run_malloc.hyps by (simp add: word_le_nat_alt)
  obtain a L as' where a: "p = a + 0x20" "malloc_size S \<le> L" "live s as a = None" "heap_ok s' as'"
      "live s' as' = (live s as)(a \<mapsto> L)"
    using defkmalloc_returns [OF as(2) run_malloc.hyps(2,3)] run_malloc.hyps(4) by (auto simp: allocated_def)
  show ?case
    using holds_blocks_new [OF as(1) a(3-5) order_trans [OF S a(2)]] a(1) by blast
next
  case (run_calloc s B N n S p s')
  then obtain as where as: "holds_blocks s as B" "heap_ok s as"
    by (auto simp: holds_blocks_def)
  then show ?case
    using defkcalloc_live [OF as(2) run_calloc.hyps(2-5)] holds_blocks_new [OF as(1)] by blast
next
  case (run_realloc s B q k S p s')
  then obtain as L where as: "holds_blocks s as B" "heap_ok s as" "live s as (q - 0x20) = Some L"
    unfolding holds_blocks_def by blast
  have "q - 0x20 + 0x20 \<noteq> 0"
    using live_data [OF as(2,3)] by (auto simp: word_unat_eq_iff)
  moreover have "defkrealloc (q - 0x20 + 0x20) S s = Some (Inr (p, s'))"
    using run_realloc.hyps(5) by simp
  ultimately show ?case
    using defkrealloc_leaks [OF as(2,3) _ run_realloc.hyps(3,4)] holds_blocks_new [OF as(1)] by blast
next
  case (run_free s B p k)
  then obtain as L where as: "holds_blocks s as B" "heap_ok s as" "live s as (p - 0x20) = Some L"
    unfolding holds_blocks_def by blast
  obtain as' where "heap_ok (defkfree (p - 0x20 + 0x20) s) as'"
    "live (defkfree (p - 0x20 + 0x20) s) as' = (live s as)(p - 0x20 := None)"
    using defkfree_live [OF as(2,3)] by blast
  then show ?case
    using as(1) by (fastforce simp: holds_blocks_def)
next
  case (run_write s B p k a v)
  then obtain as where "holds_blocks s as B"
    by blast
  moreover have "heap_ok (s\<lparr>HeapBytes := (HeapBytes s)(a := v)\<rparr>) as = heap_ok s as"
    "live (s\<lparr>HeapBytes := (HeapBytes s)(a := v)\<rparr>) as = live s as"
    by (simp_all add: heap_ok_def live_def fun_eq_iff)
  ultimately show ?case
    unfolding holds_blocks_def by auto
qed

text \<open>
  C20. Whatever a client does, from \<^verbatim>\<open>InitHeap\<close> on, by allocating, reallocating, writing and freeing,
  each block it holds begins at a multiple of 16, lies inside the heap with the size that was asked
  for, and shares no byte with another block it holds.
\<close>

theorem heap_blocks_disjoint:
  assumes "heap_run s B" and "B p = Some n"
  shows "unat p mod 16 = 0 \<and> unat (HeapStart s) < unat p \<and> unat p + unat n \<le> unat (HeapEnd s) \<and>
    (\<forall>q k. B q = Some k \<longrightarrow> q \<noteq> p \<longrightarrow> unat p + unat n \<le> unat q \<or> unat q + unat k \<le> unat p)"
proof -
  obtain as where as: "holds_blocks s as B" "heap_ok s as"
    using heap_run_holds [OF assms(1)] by (auto simp: holds_blocks_def)
  have block: "\<exists>L. live s as (q - 0x20) = Some L \<and> unat k \<le> unat L \<and> unat q = unat (q - 0x20) + 32"
    if "B q = Some k" for q k
    using as(1) that live_data [OF as(2), of q] unfolding holds_blocks_def word_le_nat_alt by blast
  obtain L where L: "live s as (p - 0x20) = Some L" "unat n \<le> unat L" "unat p = unat (p - 0x20) + 32"
    using block [OF assms(2)] by blast
  note f = live_blocks_facts [OF as(2) L(1)]
  have "unat p + unat n \<le> unat q \<or> unat q + unat k \<le> unat p" if q: "B q = Some k" "q \<noteq> p" for q k
  proof -
    obtain M where "live s as (q - 0x20) = Some M" "unat k \<le> unat M" "unat q = unat (q - 0x20) + 32"
      using block [OF q(1)] by blast
    then show ?thesis
      using f(3) [of "q - 0x20" M] L q(2) by auto
  qed
  then show ?thesis
    using f(1,2) L seg_aligned_live [OF as(2) L(1)] by (auto simp: mod_eq_0_iff_dvd)
qed

text \<open>Two blocks from a heap of one page, the first freed and its room used again.\<close>

lemma InitHeap_example: "\<exists>m. InitHeap 0x100000 1 heap_example = Inr (heap_example\<lparr>HeapVM := m\<rparr>)"
proof -
  obtain p a where pa: "RequestPage (KernelAllocator vm_example) = Inr (p, a)" "cursor_ok a"
    "free_frames a = free_frames (KernelAllocator vm_example) - 1"
    using RequestPage_returns [of "KernelAllocator vm_example"] vm_example_serves phys_ok_pages_ok
    by (auto simp: can_serve_def)
  have "can_serve 3 (vm_example\<lparr>KernelAllocator := a\<rparr>)"
    using vm_example_serves pa(2,3) frames.request_ok [OF _ pa(1)] by (auto simp: can_serve_def)
  moreover have "PML4 vm_example_manager \<noteq> 0"
    by (simp add: vm_example_manager_def)
  ultimately obtain m where "MapMemory vm_example_manager 0x100000 p (ptflag PT_RW) 0 (vm_example\<lparr>KernelAllocator := a\<rparr>) = Inr m"
    using MapMemory_returns by blast
  then show ?thesis
    by (intro exI [of _ m]) (simp add: InitHeap_def heap_example_def pa(1) upd_seg_def Let_def fun_eq_iff)
qed

lemma defkmalloc_take:
  assumes "HeapStart s \<noteq> 0" "malloc_size S = R" "R \<noteq> 0" "find_segment (Segs s) R (HeapStart s) = Some (Some a)"
  shows "defkmalloc S s = Some (Inr (a + 0x20, snd (take_segment R a s)))"
  using assms by (subst defkmalloc.simps) (simp add: take_segment_def Let_def)

lemma take_segment_frame [simp]:
  "HeapStart (snd (take_segment R a s)) = HeapStart s" "HeapEnd (snd (take_segment R a s)) = HeapEnd s"
  by (simp_all add: take_segment_def Split_def Let_def)

lemma CombineForward_frame [simp]:
  "HeapStart (CombineForward a s) = HeapStart s" "HeapEnd (CombineForward a s) = HeapEnd s"
  unfolding CombineForward_def Let_def by (simp_all only: upd_seg_simps if_distrib [of HeapStart] if_distrib [of HeapEnd] if_cancel) simp_all

lemma defkfree_frame [simp]: "HeapStart (defkfree a s) = HeapStart s" "HeapEnd (defkfree a s) = HeapEnd s"
  by (simp_all add: defkfree_def CombineBackward_def Let_def)

lemma malloc_example:
  assumes s: "s = heap_example\<lparr>HeapVM := m\<rparr>"
    and s1: "s1 = snd (take_segment 0x70 0x100000 s)" and s2: "s2 = snd (take_segment 0x20 0x100090 s1)"
    and s3: "s3 = snd (take_segment 0x30 0x100000 (defkfree 0x100020 s2))"
  shows "defkmalloc 100 s = Some (Inr (0x100020, s1))" "defkmalloc 20 s1 = Some (Inr (0x1000B0, s2))"
    "defkmalloc 40 (defkfree 0x100020 s2) = Some (Inr (0x100020, s3))"
    "HeapStart s = 0x100000" "HeapStart s1 = 0x100000" "HeapStart s2 = 0x100000"
    "HeapEnd s = 0x101000" "HeapEnd s1 = 0x101000" "HeapEnd s2 = 0x101000" "HeapEnd s3 = 0x101000"
proof -
  note eval = take_segment_def Split_def upd_seg_def Let_def word_sless_alt heap_example_def
  have 0: "Segs s a = \<lparr>SegLength = 0xFE0, SegNext = 0, SegLast = 0, SegIsFree = True\<rparr>" for a
    by (simp add: s heap_example_def)
  show h: "HeapStart s = 0x100000" "HeapEnd s = 0x101000"
    by (simp_all add: s heap_example_def)
  then show h1: "HeapStart s1 = 0x100000" "HeapEnd s1 = 0x101000"
    and h2: "HeapStart s2 = 0x100000" "HeapEnd s2 = 0x101000"
    and "HeapEnd s3 = 0x101000"
    by (simp_all add: s1 s2 s3)
  have 1: "Segs s1 0x100000 = \<lparr>SegLength = 0x70, SegNext = 0x100090, SegLast = 0, SegIsFree = False\<rparr>"
    "Segs s1 0x100090 = \<lparr>SegLength = 0xF50, SegNext = 0, SegLast = 0x100000, SegIsFree = True\<rparr>"
    by (simp_all add: s1 s eval)
  have "Segs s2 0x100000 = \<lparr>SegLength = 0x70, SegNext = 0x100090, SegLast = 0, SegIsFree = False\<rparr>"
    "\<not> SegIsFree (Segs s2 0x100090)"
    using Split_Segs(1) [of "0x20" s1 "0x100090" 0 "0x1000D0"]
    by (simp_all add: s2 h1 1 take_segment_def Let_def)
  then have 2: "Segs (defkfree 0x100020 s2) 0x100000 = \<lparr>SegLength = 0x70, SegNext = 0x100090, SegLast = 0, SegIsFree = True\<rparr>"
    by (simp add: h2 defkfree_def CombineForward_def CombineBackward_def Let_def)
  show "defkmalloc 100 s = Some (Inr (0x100020, s1))"
    using defkmalloc_take [of s 100 "0x70" "0x100000"] by (simp add: h 0 s1 malloc_size_def find_segment.simps)
  show "defkmalloc 20 s1 = Some (Inr (0x1000B0, s2))"
    using defkmalloc_take [of s1 20 "0x20" "0x100090"] by (simp add: h1 1 s2 malloc_size_def find_segment.simps)
  show "defkmalloc 40 (defkfree 0x100020 s2) = Some (Inr (0x100020, s3))"
    using defkmalloc_take [of "defkfree 0x100020 s2" 40 "0x30" "0x100000"]
    by (simp add: h2 2 s3 malloc_size_def find_segment.simps)
qed

theorem heap_blocks_disjoint_witness:
  "\<exists>s. heap_run s [0x1000B0 \<mapsto> 20, 0x100020 \<mapsto> 40] \<and>
     (unat (0x1000B0 :: u64) + unat (20 :: u64) \<le> unat (0x100020 :: u64) \<or>
      unat (0x100020 :: u64) + unat (40 :: u64) \<le> unat (0x1000B0 :: u64)) \<and>
     unat (0x1000B0 :: u64) + unat (20 :: u64) \<le> unat (HeapEnd s)"
proof -
  obtain s m where i: "InitHeap 0x100000 1 heap_example = Inr s" and s: "s = heap_example\<lparr>HeapVM := m\<rparr>"
    using InitHeap_example by blast
  define s1 s2 s3 where d: "s1 = snd (take_segment 0x70 0x100000 s)" "s2 = snd (take_segment 0x20 0x100090 s1)"
    "s3 = snd (take_segment 0x30 0x100000 (defkfree 0x100020 s2))"
  note e = malloc_example [OF s d]
  have fits: "room t (2 * (unat S + 8192))" if "HeapStart t = 0x100000" "HeapEnd t = 0x101000" "unat S \<le> 100" for t and S :: u64
    using that by (simp add: room_def)
  have "heap_run s Map.empty"
    by (rule run_init [OF i]) simp_all
  then have "heap_run s1 [0x100020 \<mapsto> 100]"
    by (rule run_malloc [OF _ _ fits e(1)]) (simp_all add: e)
  then have "heap_run s2 [0x100020 \<mapsto> 100, 0x1000B0 \<mapsto> 20]"
    by (rule run_malloc [OF _ _ fits e(2)]) (simp_all add: e)
  then have "heap_run (defkfree 0x100020 s2) ([0x100020 \<mapsto> 100, 0x1000B0 \<mapsto> 20](0x100020 := None))"
    by (rule run_free) simp
  then have "heap_run s3 ([0x100020 \<mapsto> 100, 0x1000B0 \<mapsto> 20](0x100020 := None, 0x100020 \<mapsto> 40))"
    by (rule run_malloc [OF _ _ fits e(3)]) (simp_all add: e)
  moreover have "[0x100020 \<mapsto> 100, 0x1000B0 \<mapsto> 20](0x100020 := None, 0x100020 \<mapsto> 40) =
      ([0x1000B0 \<mapsto> 20, 0x100020 \<mapsto> 40] :: u64 \<Rightarrow> u64 option)"
    by (simp add: fun_eq_iff)
  ultimately have r: "heap_run s3 [0x1000B0 \<mapsto> 20, 0x100020 \<mapsto> 40]"
    by simp
  show ?thesis
    using r heap_blocks_disjoint [OF r, of "0x1000B0" 20] by (intro exI [of _ s3]) auto
qed

end
