(* ===== verification/Arith64.thy ===== *)
theory Arith64
  imports Kernel_Prelude "HOL-Library.Signed_Division"
begin

text \<open>
  The 64-bit arithmetic of the 32-bit kernel,
  \<^verbatim>\<open>src/kernel/libs/ArithmeticOperations.c\<close> (the file
  \<^verbatim>\<open>src/libc/libgcc/ArithmeticOperations.c\<close> is the same code): shifts on the two
  halves of a word, leading and trailing zeros, population count and long division. The theorems
  are equivalences with the operations on 64-bit words that the compiler takes these functions
  for. The leading underscores of the C names are dropped.
\<close>

section \<open>The functions of the source\<close>

text \<open>The union \<^verbatim>\<open>arith64_word\<close> seen as its two halves.\<close>

record arith64_word =
  lo :: u32
  hi :: u32

definition arith64_of :: "u64 \<Rightarrow> arith64_word" where
  "arith64_of n = \<lparr>lo = ucast n, hi = ucast (drop_bit 32 n)\<rparr>"

definition arith64_value :: "arith64_word \<Rightarrow> u64" where
  "arith64_value w = push_bit 32 (ucast (hi w)) OR ucast (lo w)"

definition arith64_hi :: "u64 \<Rightarrow> u32" where
  "arith64_hi n = hi (arith64_of n)"

definition arith64_lo :: "u64 \<Rightarrow> u32" where
  "arith64_lo n = lo (arith64_of n)"

text \<open>Negate \<open>a\<close> if \<open>b\<close> is negative, by inversion and increment.\<close>

definition arith64_neg :: "u64 \<Rightarrow> u64 \<Rightarrow> u64" where
  "arith64_neg a b = (a XOR (of_bool (0 \<le>s b) - 1)) + of_bool (b <s 0)"

definition arith64_abs :: "u64 \<Rightarrow> u64" where
  "arith64_abs a = arith64_neg a a"

definition absvdi2 :: "u64 \<Rightarrow> u64" where
  "absvdi2 a = arith64_abs a"

definition ashldi3 :: "u64 \<Rightarrow> u32 \<Rightarrow> u64" where
  "ashldi3 a b =
     (let w = arith64_of a; b = b AND 63
      in arith64_value
           (if b \<ge> 32 then w\<lparr>hi := push_bit (unat (b - 32)) (lo w), lo := 0\<rparr>
            else if b \<noteq> 0 then
              w\<lparr>hi := drop_bit (unat (32 - b)) (lo w) OR push_bit (unat b) (hi w),
                lo := push_bit (unat b) (lo w)\<rparr>
            else w))"

definition ashrdi3 :: "u64 \<Rightarrow> u32 \<Rightarrow> u64" where
  "ashrdi3 a b =
     (let w = arith64_of a; b = b AND 63
      in arith64_value
           (if b \<ge> 32 then
              w\<lparr>lo := signed_drop_bit (unat (b - 32)) (hi w), hi := signed_drop_bit 31 (hi w)\<rparr>
            else if b \<noteq> 0 then
              w\<lparr>lo := push_bit (unat (32 - b)) (hi w) OR drop_bit (unat b) (lo w),
                hi := signed_drop_bit (unat b) (hi w)\<rparr>
            else w))"

definition lshrdi3 :: "u64 \<Rightarrow> u32 \<Rightarrow> u64" where
  "lshrdi3 a b =
     (let w = arith64_of a; b = b AND 63
      in arith64_value
           (if b \<ge> 32 then w\<lparr>lo := drop_bit (unat (b - 32)) (hi w), hi := 0\<rparr>
            else if b \<noteq> 0 then
              w\<lparr>lo := push_bit (unat (32 - b)) (hi w) OR drop_bit (unat b) (lo w),
                hi := drop_bit (unat b) (hi w)\<rparr>
            else w))"

text \<open>One step of the zero counts: \<^verbatim>\<open>b = !(a & m) << k; n += b; a <<= b\<close>.\<close>

definition clz_step :: "'a::len word \<Rightarrow> nat \<Rightarrow> u32 \<times> 'a word \<Rightarrow> u32 \<times> 'a word" where
  "clz_step m k = (\<lambda>(n, a).
     let b = push_bit k (of_bool (a AND m = 0)) :: u32
     in (n + b, push_bit (unat b) a))"

definition ctz_step :: "'a::len word \<Rightarrow> nat \<Rightarrow> u32 \<times> 'a word \<Rightarrow> u32 \<times> 'a word" where
  "ctz_step m k = (\<lambda>(n, a).
     let b = push_bit k (of_bool (a AND m = 0)) :: u32
     in (n + b, drop_bit (unat b) a))"

definition clzsi2 :: "u32 \<Rightarrow> u32" where
  "clzsi2 a =
     (let s = clz_step 0xffff0000 4 (0, a);
          s = clz_step 0xff000000 3 s;
          s = clz_step 0xf0000000 2 s;
          (n, a) = clz_step 0xc0000000 1 s
      in n + of_bool (a AND 0x80000000 = 0))"

definition clzdi2 :: "u64 \<Rightarrow> u32" where
  "clzdi2 a =
     (let s = clz_step 0xffffffff00000000 5 (0, a);
          s = clz_step 0xffff000000000000 4 s;
          s = clz_step 0xff00000000000000 3 s;
          s = clz_step 0xf000000000000000 2 s;
          (n, a) = clz_step 0xc000000000000000 1 s
      in n + of_bool (a AND 0x8000000000000000 = 0))"

definition ctzsi2 :: "u32 \<Rightarrow> u32" where
  "ctzsi2 a =
     (let s = ctz_step 0x0000ffff 4 (0, a);
          s = ctz_step 0x000000ff 3 s;
          s = ctz_step 0x0000000f 2 s;
          (n, a) = ctz_step 0x00000003 1 s
      in n + of_bool (a AND 0x00000001 = 0))"

definition ctzdi2 :: "u64 \<Rightarrow> u32" where
  "ctzdi2 a =
     (let s = ctz_step 0x00000000ffffffff 5 (0, a);
          s = ctz_step 0x000000000000ffff 4 s;
          s = ctz_step 0x00000000000000ff 3 s;
          s = ctz_step 0x000000000000000f 2 s;
          (n, a) = ctz_step 0x0000000000000003 1 s
      in n + of_bool (a AND 0x0000000000000001 = 0))"

definition ffsdi2 :: "u64 \<Rightarrow> u32" where
  "ffsdi2 a = (if a \<noteq> 0 then ctzdi2 a + 1 else 0)"

text \<open>
  Long division. One round shifts a bit of the numerator into the remainder and the last quotient
  bit into the numerator. \<open>None\<close> is the exception that a zero divisor forces. The second
  component of the result is what \<^verbatim>\<open>*c\<close> holds when \<open>c\<close> is not null.
\<close>

primrec divmod_loop :: "nat \<Rightarrow> u64 \<Rightarrow> u64 \<times> u64 \<times> u64 \<Rightarrow> u64 \<times> u64 \<times> u64" where
  "divmod_loop 0 b s = s"
| "divmod_loop (Suc n) b s =
     (case s of (rem, a, wrap) \<Rightarrow>
        let rem = push_bit 1 rem OR drop_bit 63 a;
            a = push_bit 1 a OR (wrap AND 1);
            wrap = signed_drop_bit 63 (b - rem - 1);
            rem = rem - (b AND wrap)
        in divmod_loop n b (rem, a, wrap))"

definition divmoddi4 :: "u64 \<Rightarrow> u64 \<Rightarrow> (u64 \<times> u64) option" where
  "divmoddi4 a b =
     (if b > a then Some (0, a)
      else if arith64_hi b = 0 \<and> b = 0 then None
      else if arith64_hi b = 0 \<and> b = 1 then Some (a, 0)
      else if arith64_hi b = 0 \<and> arith64_hi a = 0 then
        Some (ucast (arith64_lo a div arith64_lo b), ucast (arith64_lo a mod arith64_lo b))
      else
        let bits = ucast (clzdi2 b - clzdi2 a + 1) :: u8;
            rem = drop_bit (unat bits) a;
            a = push_bit (unat (64 - bits)) a;
            (rem, a, wrap) = divmod_loop (nat (sint bits)) b (rem, a, 0)
        in Some (push_bit 1 a OR (wrap AND 1), rem))"

definition divdi3 :: "u64 \<Rightarrow> u64 \<Rightarrow> u64 option" where
  "divdi3 a b =
     map_option (\<lambda>(q, _). arith64_neg q (a XOR b)) (divmoddi4 (arith64_abs a) (arith64_abs b))"

definition moddi3 :: "u64 \<Rightarrow> u64 \<Rightarrow> u64 option" where
  "moddi3 a b =
     map_option (\<lambda>(_, r). arith64_neg r a) (divmoddi4 (arith64_abs a) (arith64_abs b))"

definition udivdi3 :: "u64 \<Rightarrow> u64 \<Rightarrow> u64 option" where
  "udivdi3 a b = map_option fst (divmoddi4 a b)"

definition umoddi3 :: "u64 \<Rightarrow> u64 \<Rightarrow> u64 option" where
  "umoddi3 a b = map_option snd (divmoddi4 a b)"

text \<open>The number of set bits, by summing neighbouring fields.\<close>

definition popcountsi2 :: "u32 \<Rightarrow> u32" where
  "popcountsi2 a =
     (let a = a - (drop_bit 1 a AND 0x55555555);
          a = (drop_bit 2 a AND 0x33333333) + (a AND 0x33333333);
          a = (a + drop_bit 4 a) AND 0x0F0F0F0F;
          a = a + drop_bit 16 a
      in (a + drop_bit 8 a) AND 63)"

definition popcountdi2 :: "u64 \<Rightarrow> u32" where
  "popcountdi2 a =
     (let a = a - (drop_bit 1 a AND 0x5555555555555555);
          a = (drop_bit 2 a AND 0x3333333333333333) + (a AND 0x3333333333333333);
          a = (a + drop_bit 4 a) AND 0x0F0F0F0F0F0F0F0F;
          a = a + drop_bit 32 a;
          a = a + drop_bit 16 a
      in ucast ((a + drop_bit 8 a) AND 127))"

section \<open>Shifts\<close>

lemma bit_arith64_value:
  "bit (arith64_value w) i \<longleftrightarrow> (if i < 32 then bit (lo w) i else bit (hi w) (i - 32))"
  using bit_imp_le_length [of "hi w" "i - 32"] bit_imp_le_length [of "lo w" i]
  by (auto simp: arith64_value_def bit_simps)

lemma arith64_of_bits [simp]:
  "bit (lo (arith64_of a)) i \<longleftrightarrow> i < 32 \<and> bit a i"
  "bit (hi (arith64_of a)) i \<longleftrightarrow> bit a (i + 32)"
  using bit_imp_le_length [of a "i + 32"] by (auto simp: arith64_of_def bit_simps ac_simps)

lemma shift_amount:
  fixes b :: u32
  defines "n \<equiv> unat (b AND 63)"
  shows "n < 64" "32 \<le> b AND 63 \<longleftrightarrow> 32 \<le> n" "b AND 63 = 0 \<longleftrightarrow> n = 0"
    "32 \<le> n \<Longrightarrow> unat ((b AND 63) - 32) = n - 32" "n < 32 \<Longrightarrow> unat (32 - (b AND 63)) = 32 - n"
proof -
  have "b AND 63 = take_bit 6 b"
    by (simp add: take_bit_eq_mask mask_eq_exp_minus_1)
  then have "n = unat b mod 64"
    by (simp add: n_def take_bit_eq_mod unat_mod)
  then show "n < 64"
    by simp
  show "32 \<le> b AND 63 \<longleftrightarrow> 32 \<le> n" "b AND 63 = 0 \<longleftrightarrow> n = 0"
    by (simp_all add: n_def word_le_nat_alt unat_eq_0)
  show "32 \<le> n \<Longrightarrow> unat ((b AND 63) - 32) = n - 32"
    by (simp add: n_def unat_sub word_le_nat_alt)
  show "n < 32 \<Longrightarrow> unat (32 - (b AND 63)) = 32 - n"
    by (simp add: n_def unat_sub word_le_nat_alt)
qed

lemma halves_shift:
  assumes "n < 64"
  shows "arith64_value (if 32 \<le> n then (arith64_of a)\<lparr>hi := push_bit (n - 32) (lo (arith64_of a)), lo := 0\<rparr>
      else (arith64_of a)\<lparr>hi := drop_bit (32 - n) (lo (arith64_of a)) OR push_bit n (hi (arith64_of a)),
        lo := push_bit n (lo (arith64_of a))\<rparr>) = push_bit n a" (is ?l)
    and "arith64_value (if 32 \<le> n then (arith64_of a)\<lparr>lo := drop_bit (n - 32) (hi (arith64_of a)), hi := 0\<rparr>
      else (arith64_of a)\<lparr>lo := push_bit (32 - n) (hi (arith64_of a)) OR drop_bit n (lo (arith64_of a)),
        hi := drop_bit n (hi (arith64_of a))\<rparr>) = drop_bit n a" (is ?r)
    and "arith64_value (if 32 \<le> n then (arith64_of a)\<lparr>lo := signed_drop_bit (n - 32) (hi (arith64_of a)),
        hi := signed_drop_bit 31 (hi (arith64_of a))\<rparr>
      else (arith64_of a)\<lparr>lo := push_bit (32 - n) (hi (arith64_of a)) OR drop_bit n (lo (arith64_of a)),
        hi := signed_drop_bit n (hi (arith64_of a))\<rparr>) = signed_drop_bit n a" (is "arith64_value (if _ then ?a1 else ?a2) = _")
proof -
  show ?l
    using assms
    by (intro bit_word_eqI) (auto simp: bit_arith64_value bit_simps not_le dest: bit_imp_le_length)
  show ?r
    using assms
    by (intro bit_word_eqI) (auto simp: bit_arith64_value bit_simps not_le add.commute dest: bit_imp_le_length)
  show "arith64_value (if 32 \<le> n then ?a1 else ?a2) = signed_drop_bit n a"
  proof (rule bit_word_eqI, cases "32 \<le> n")
    fix i
    assume i: "i < LENGTH(64)" and n: "32 \<le> n"
    then show "bit (arith64_value (if 32 \<le> n then ?a1 else ?a2)) i = bit (signed_drop_bit n a) i"
      using assms
      by (cases "i < 32"; cases "64 - n \<le> i"; cases "i = 32")
        (auto simp: bit_arith64_value bit_signed_drop_bit_iff)
  next
    fix i
    assume i: "i < LENGTH(64)" and n: "\<not> 32 \<le> n"
    then show "bit (arith64_value (if 32 \<le> n then ?a1 else ?a2)) i = bit (signed_drop_bit n a) i"
      using assms
      by (cases "i < 32"; cases "32 - n \<le> i")
        (auto simp: bit_arith64_value bit_signed_drop_bit_iff bit_or_iff bit_push_bit_iff bit_drop_bit_eq
          add.commute [of n])
  qed
qed

lemma arith64_shifts:
  "ashldi3 a b = push_bit (unat (b AND 63)) a"
  "lshrdi3 a b = drop_bit (unat (b AND 63)) a"
  "ashrdi3 a b = signed_drop_bit (unat (b AND 63)) a"
proof -
  have "arith64_value (arith64_of a) = a"
    by (rule bit_word_eqI) (simp add: bit_arith64_value)
  moreover note n = shift_amount [of b]
  ultimately show "ashldi3 a b = push_bit (unat (b AND 63)) a"
      "lshrdi3 a b = drop_bit (unat (b AND 63)) a"
      "ashrdi3 a b = signed_drop_bit (unat (b AND 63)) a"
    unfolding ashldi3_def lshrdi3_def ashrdi3_def Let_def n(2,3)
    by (cases "unat (b AND 63) = 0"; cases "32 \<le> unat (b AND 63)";
        use halves_shift [OF n(1), of a] n(4,5) in simp)+
qed

section \<open>Zero counts\<close>

lemma high_mask_eq_0:
  fixes a :: "'a::len word"
  assumes "k \<le> LENGTH('a)"
  shows "a AND push_bit k (mask (LENGTH('a) - k)) = 0 \<longleftrightarrow> unat a < 2 ^ k"
proof -
  have "a AND push_bit k (mask (LENGTH('a) - k)) = 0 \<longleftrightarrow> take_bit k a = a"
    using assms by (auto simp: bit_eq_iff bit_simps dest: bit_imp_le_length)
  also have "\<dots> \<longleftrightarrow> unat a < 2 ^ k"
    by (simp add: word_unat_eq_iff unsigned_take_bit_eq take_bit_nat_eq_self_iff)
  finally show ?thesis .
qed

text \<open>
  The count so far shifts the argument without loss, and at most \<open>q\<close> leading zeros are left.
\<close>

definition clz_ok :: "'a::len word \<Rightarrow> nat \<Rightarrow> u32 \<times> 'a word \<Rightarrow> bool" where
  "clz_ok a q = (\<lambda>(n, a'). unat n + q \<le> LENGTH('a) \<and> unat a' = unat a * 2 ^ unat n \<and>
     2 ^ (LENGTH('a) - q) \<le> unat a')"

lemma unat_push_bit_1: "k < 32 \<Longrightarrow> unat (push_bit k 1 :: u32) = 2 ^ k"
  by (simp only: unsigned_push_bit_eq) (simp add: push_bit_eq_mult take_bit_nat_eq_self)

lemma clz_step_ok:
  fixes a :: "'a::len word"
  assumes ok: "clz_ok a q s" and q: "q = 2 * p" "p = 2 ^ k"
    and m: "m = push_bit (LENGTH('a) - 2 ^ k) (mask (2 ^ k))" and k: "k < 6" "LENGTH('a) \<le> 64"
  shows "clz_ok a p (clz_step m k s)"
proof -
  obtain n a' where s: "s = (n, a')" by (cases s)
  have n: "unat n + 2 * 2 ^ k \<le> LENGTH('a)" and a': "unat a' = unat a * 2 ^ unat n"
    and lb: "2 ^ (LENGTH('a) - 2 * 2 ^ k) \<le> unat a'"
    using ok by (auto simp: clz_ok_def s q)
  have m0: "a' AND m = 0 \<longleftrightarrow> unat a' < 2 ^ (LENGTH('a) - 2 ^ k)"
    using high_mask_eq_0 [of "LENGTH('a) - 2 ^ k" a'] n by (simp add: m)
  show ?thesis
  proof (cases "a' AND m = 0")
    case True
    have b: "unat (push_bit k 1 :: u32) = 2 ^ k"
      using k by (intro unat_push_bit_1) simp
    have "unat a' * 2 ^ 2 ^ k < 2 ^ (LENGTH('a) - 2 ^ k) * 2 ^ 2 ^ k"
      using True m0 by simp
    also have "\<dots> = 2 ^ LENGTH('a)"
      using n by (simp flip: power_add)
    finally have "unat (push_bit (2 ^ k) a') = unat a' * 2 ^ 2 ^ k"
      by (simp only: unsigned_push_bit_eq) (simp add: push_bit_eq_mult take_bit_nat_eq_self)
    moreover have "2 ^ (LENGTH('a) - 2 * 2 ^ k) * 2 ^ 2 ^ k \<le> unat a' * 2 ^ 2 ^ k"
      using lb by (rule mult_right_mono) simp
    moreover have "(2 :: nat) ^ (LENGTH('a) - 2 ^ k) = 2 ^ (LENGTH('a) - 2 * 2 ^ k) * 2 ^ 2 ^ k"
      using n by (simp flip: power_add)
    moreover have "unat (n + push_bit k 1) = unat n + 2 ^ k"
      using n k b by (simp add: unat_word_ariths)
    ultimately show ?thesis
      using True b n a' by (simp add: clz_step_def s clz_ok_def power_add q)
  next
    case False
    then show ?thesis
      using m0 n a' by (simp add: clz_step_def s clz_ok_def q)
  qed
qed

lemma clz_bounds:
  assumes "clz_ok a 1 (n, a')" 
  shows "unat n < LENGTH('a)" "2 ^ (LENGTH('a) - 1 - unat n) \<le> unat (a :: 'a::len word)"
    "unat a < 2 ^ (LENGTH('a) - unat n)"
proof -
  have n: "unat n < LENGTH('a)" and a: "2 ^ (LENGTH('a) - 1) \<le> unat a * 2 ^ unat n"
      "unat a * 2 ^ unat n < 2 ^ LENGTH('a)"
    using assms unsigned_less [of a', where ?'a = nat] by (auto simp: clz_ok_def)
  then show "unat n < LENGTH('a)"
    by simp
  have "2 ^ (LENGTH('a) - 1) = 2 ^ (LENGTH('a) - 1 - unat n) * (2 :: nat) ^ unat n"
      "2 ^ LENGTH('a) = 2 ^ (LENGTH('a) - unat n) * (2 :: nat) ^ unat n"
    using n by (simp_all flip: power_add)
  then show "2 ^ (LENGTH('a) - 1 - unat n) \<le> unat a" "unat a < 2 ^ (LENGTH('a) - unat n)"
    using a by simp_all
qed

lemma clz_last: "clz_ok a p (clz_step m 0 s) \<Longrightarrow>
    \<exists>a'. clz_ok a p (fst s + of_bool (snd s AND m = 0), a')"
  by (cases s) (auto simp: clz_step_def Let_def)

lemma push_bit_mask: "push_bit k (mask j) = (2 ^ j - 1) * (2 ^ k :: 'a::len word)"
  by (simp add: push_bit_eq_mult mask_eq_exp_minus_1)

lemma clzdi2_ok:
  assumes "a \<noteq> 0"
  shows "\<exists>a'. clz_ok a 1 (clzdi2 a, a')"
proof -
  have "clz_ok a 64 (0, a)"
    using assms by (simp add: clz_ok_def Suc_le_eq unat_gt_0)
  then have "clz_ok a 32 (clz_step 0xffffffff00000000 5 (0, a))" (is "clz_ok _ _ ?s0")
    by (rule clz_step_ok) (simp_all add: push_bit_mask)
  then have "clz_ok a 16 (clz_step 0xffff000000000000 4 ?s0)" (is "clz_ok _ _ ?s1")
    by (rule clz_step_ok) (simp_all add: push_bit_mask)
  then have "clz_ok a 8 (clz_step 0xff00000000000000 3 ?s1)" (is "clz_ok _ _ ?s2")
    by (rule clz_step_ok) (simp_all add: push_bit_mask)
  then have "clz_ok a 4 (clz_step 0xf000000000000000 2 ?s2)" (is "clz_ok _ _ ?s3")
    by (rule clz_step_ok) (simp_all add: push_bit_mask)
  then have "clz_ok a 2 (clz_step 0xc000000000000000 1 ?s3)" (is "clz_ok _ _ ?s4")
    by (rule clz_step_ok) (simp_all add: push_bit_mask)
  then have "clz_ok a 1 (clz_step 0x8000000000000000 0 ?s4)"
    by (rule clz_step_ok) (simp_all add: push_bit_mask)
  then show ?thesis
    unfolding clzdi2_def Let_def case_prod_beta by (rule clz_last)
qed

lemma clzsi2_ok:
  assumes "a \<noteq> 0"
  shows "\<exists>a'. clz_ok a 1 (clzsi2 a, a')"
proof -
  have "clz_ok a 32 (0, a)"
    using assms by (simp add: clz_ok_def Suc_le_eq unat_gt_0)
  then have "clz_ok a 16 (clz_step 0xffff0000 4 (0, a))" (is "clz_ok _ _ ?s0")
    by (rule clz_step_ok) (simp_all add: push_bit_mask)
  then have "clz_ok a 8 (clz_step 0xff000000 3 ?s0)" (is "clz_ok _ _ ?s1")
    by (rule clz_step_ok) (simp_all add: push_bit_mask)
  then have "clz_ok a 4 (clz_step 0xf0000000 2 ?s1)" (is "clz_ok _ _ ?s2")
    by (rule clz_step_ok) (simp_all add: push_bit_mask)
  then have "clz_ok a 2 (clz_step 0xc0000000 1 ?s2)" (is "clz_ok _ _ ?s3")
    by (rule clz_step_ok) (simp_all add: push_bit_mask)
  then have "clz_ok a 1 (clz_step 0x80000000 0 ?s3)"
    by (rule clz_step_ok) (simp_all add: push_bit_mask)
  then show ?thesis
    unfolding clzsi2_def Let_def case_prod_beta by (rule clz_last)
qed

text \<open>Trailing zeros: the argument is what is left, scaled by the count.\<close>

definition ctz_ok :: "'a::len word \<Rightarrow> nat \<Rightarrow> u32 \<times> 'a word \<Rightarrow> bool" where
  "ctz_ok a q = (\<lambda>(n, a'). unat n + q \<le> LENGTH('a) \<and> unat a = unat a' * 2 ^ unat n \<and>
     \<not> 2 ^ q dvd unat a')"

lemma ctz_step_ok:
  fixes a :: "'a::len word"
  assumes ok: "ctz_ok a q s" and q: "q = 2 * p" "p = 2 ^ k"
    and m: "m = mask (2 ^ k)" and k: "k < 6" "LENGTH('a) \<le> 64"
  shows "ctz_ok a p (ctz_step m k s)"
proof -
  obtain n a' where s: "s = (n, a')" by (cases s)
  have n: "unat n + 2 * p \<le> LENGTH('a)" and a: "unat a = unat a' * 2 ^ unat n"
    and lb: "\<not> 2 ^ (2 * p) dvd unat a'"
    using ok by (auto simp: ctz_ok_def s q)
  have m0: "a' AND m = 0 \<longleftrightarrow> 2 ^ p dvd unat a'"
    by (simp add: m q word_unat_eq_iff unsigned_take_bit_eq dvd_eq_mod_eq_0
        flip: take_bit_eq_mask take_bit_eq_mod)
  show ?thesis
  proof (cases "a' AND m = 0")
    case True
    then obtain c where c: "unat a' = 2 ^ p * c"
      using m0 by (auto simp: dvd_def)
    have b: "unat (push_bit k 1 :: u32) = p"
      using k unat_push_bit_1 [of k] by (simp add: q)
    have "unat (drop_bit p a') = c"
      using unsigned_less [of a', where ?'a = nat]
      by (simp only: unsigned_drop_bit_eq) (simp add: drop_bit_eq_div c take_bit_nat_eq_self)
    moreover have "\<not> 2 ^ p dvd c"
      using lb by (auto simp: c mult_2 power_add)
    moreover have "unat (n + push_bit k 1) = unat n + p"
      using n k b by (simp add: unat_word_ariths)
    ultimately show ?thesis
      using True b n a c by (simp add: ctz_step_def s ctz_ok_def power_add)
  next
    case False
    then show ?thesis
      using m0 n a by (simp add: ctz_step_def s ctz_ok_def)
  qed
qed

lemma ctz_last: "ctz_ok a p (ctz_step m 0 s) \<Longrightarrow>
    \<exists>a'. ctz_ok a p (fst s + of_bool (snd s AND m = 0), a')"
  by (cases s) (auto simp: ctz_step_def Let_def)

lemma ctzdi2_ok:
  assumes "a \<noteq> 0"
  shows "\<exists>a'. ctz_ok a 1 (ctzdi2 a, a')"
proof -
  have "ctz_ok a 64 (0, a)"
    using assms unsigned_less [of a, where ?'a = nat]
    by (auto simp: ctz_ok_def unat_gt_0 dest!: dvd_imp_le)
  then have "ctz_ok a 32 (ctz_step 0x00000000ffffffff 5 (0, a))" (is "ctz_ok _ _ ?s0")
    by (rule ctz_step_ok) (simp_all add: mask_eq_exp_minus_1)
  then have "ctz_ok a 16 (ctz_step 0x000000000000ffff 4 ?s0)" (is "ctz_ok _ _ ?s1")
    by (rule ctz_step_ok) (simp_all add: mask_eq_exp_minus_1)
  then have "ctz_ok a 8 (ctz_step 0x00000000000000ff 3 ?s1)" (is "ctz_ok _ _ ?s2")
    by (rule ctz_step_ok) (simp_all add: mask_eq_exp_minus_1)
  then have "ctz_ok a 4 (ctz_step 0x000000000000000f 2 ?s2)" (is "ctz_ok _ _ ?s3")
    by (rule ctz_step_ok) (simp_all add: mask_eq_exp_minus_1)
  then have "ctz_ok a 2 (ctz_step 0x0000000000000003 1 ?s3)" (is "ctz_ok _ _ ?s4")
    by (rule ctz_step_ok) (simp_all add: mask_eq_exp_minus_1)
  then have "ctz_ok a 1 (ctz_step 0x0000000000000001 0 ?s4)"
    by (rule ctz_step_ok) (simp_all add: mask_eq_exp_minus_1)
  then show ?thesis
    unfolding ctzdi2_def Let_def case_prod_beta by (rule ctz_last)
qed

lemma ctzsi2_ok:
  assumes "a \<noteq> 0"
  shows "\<exists>a'. ctz_ok a 1 (ctzsi2 a, a')"
proof -
  have "ctz_ok a 32 (0, a)"
    using assms unsigned_less [of a, where ?'a = nat]
    by (auto simp: ctz_ok_def unat_gt_0 dest!: dvd_imp_le)
  then have "ctz_ok a 16 (ctz_step 0x0000ffff 4 (0, a))" (is "ctz_ok _ _ ?s0")
    by (rule ctz_step_ok) (simp_all add: mask_eq_exp_minus_1)
  then have "ctz_ok a 8 (ctz_step 0x000000ff 3 ?s0)" (is "ctz_ok _ _ ?s1")
    by (rule ctz_step_ok) (simp_all add: mask_eq_exp_minus_1)
  then have "ctz_ok a 4 (ctz_step 0x0000000f 2 ?s1)" (is "ctz_ok _ _ ?s2")
    by (rule ctz_step_ok) (simp_all add: mask_eq_exp_minus_1)
  then have "ctz_ok a 2 (ctz_step 0x00000003 1 ?s2)" (is "ctz_ok _ _ ?s3")
    by (rule ctz_step_ok) (simp_all add: mask_eq_exp_minus_1)
  then have "ctz_ok a 1 (ctz_step 0x00000001 0 ?s3)"
    by (rule ctz_step_ok) (simp_all add: mask_eq_exp_minus_1)
  then show ?thesis
    unfolding ctzsi2_def Let_def case_prod_beta by (rule ctz_last)
qed


lemma ctz_bounds:
  assumes "ctz_ok a 1 (n, a')"
  shows "unat n < LENGTH('a)" "2 ^ unat n dvd unat (a :: 'a::len word)" "\<not> 2 ^ Suc (unat n) dvd unat a"
  using assms by (auto simp: ctz_ok_def)

section \<open>Long division\<close>

lemma push_bit_1_or:
  assumes "y = 0 \<or> y = (1 :: u64)"
  shows "push_bit 1 x OR y = 2 * x + y"
  using assms by (auto simp: or_one_eq)

lemma signed_drop_bit_63: "signed_drop_bit 63 (x :: u64) = (if 2 ^ 63 \<le> unat x then - 1 else 0)"
proof -
  have "bit x 63 \<longleftrightarrow> odd (unat x div 2 ^ 63)"
    using bit_unsigned_iff [of x 63, where ?'a = nat] by (simp add: bit_iff_odd [of "unat x"])
  moreover have "unat x div 2 ^ 63 < 2"
    using unsigned_less [of x, where ?'a = nat] by (simp add: div_less_iff_less_mult)
  ultimately have "bit x 63 \<longleftrightarrow> 2 ^ 63 \<le> unat x"
    by (auto simp: less_2_cases_iff div_eq_0_iff not_less)
  moreover have "signed_drop_bit 63 x = (if bit x 63 then - 1 else 0)"
  proof (rule bit_word_eqI)
    fix i
    show "bit (signed_drop_bit 63 x) i \<longleftrightarrow> bit (if bit x 63 then - 1 else 0 :: u64) i" if "i < LENGTH(64)"
      using that by (cases i) (auto simp: bit_signed_drop_bit_iff)
  qed
  ultimately show ?thesis
    by simp
qed

text \<open>The branch-free comparison of the loop: the sign of \<open>b - rem - 1\<close>.\<close>

lemma wrap_compare:
  fixes b r :: u64
  assumes "unat r < unat b \<Longrightarrow> unat b - unat r \<le> 2 ^ 63" "unat b \<le> unat r \<Longrightarrow> unat r - unat b < 2 ^ 63"
  shows "signed_drop_bit 63 (b - r - 1) = (if unat r < unat b then 0 else - 1)"
proof (cases "unat r < unat b")
  case True
  then have "unat (b - r - 1) = unat b - unat r - 1"
    by unat_arith
  then show ?thesis
    using True assms(1) by (simp add: signed_drop_bit_63)
next
  case False
  have "unat (b - r - 1) = 2 ^ 64 - (unat r - unat b + 1)"
    using False unsigned_less [of r, where ?'a = nat]
    by (simp add: unat_sub_if' word_le_nat_alt; linarith)
  then show ?thesis
    using False assms(2) by (simp add: signed_drop_bit_63)
qed

text \<open>
  The state of the loop with \<open>n\<close> rounds to go on numerator \<open>A\<close> and divisor \<open>B\<close>: the
  remainder of the bits read so far, the unread bits with the quotient digits but the last below
  them, and the last digit in \<open>wrap\<close>.
\<close>

definition div_inv :: "nat \<Rightarrow> nat \<Rightarrow> nat \<Rightarrow> u64 \<times> u64 \<times> u64 \<Rightarrow> bool" where
  "div_inv A B n = (\<lambda>(rem, a, wrap).
     unat rem = A div 2 ^ n mod B \<and>
     unat a = A mod 2 ^ n * 2 ^ (64 - n) + A div 2 ^ n div B div 2 \<and>
     A div 2 ^ n div B < 2 ^ (64 - n) \<and> wrap = (if odd (A div 2 ^ n div B) then - 1 else 0))"

lemma div_digit:
  fixes N B t :: nat
  assumes "t < 2" "0 < B"
  defines "R \<equiv> 2 * (N mod B) + t"
  shows "(2 * N + t) div B = 2 * (N div B) + of_bool (B \<le> R)"
    "(2 * N + t) mod B = (if B \<le> R then R - B else R)" "R < 2 * B"
proof -
  have "N mod B < B"
    using assms(2) by simp
  then show R: "R < 2 * B"
    using assms(1) by (auto simp: R_def)
  have "2 * N = 2 * (B * (N div B)) + 2 * (N mod B)"
    by (simp flip: distrib_left)
  then have N: "2 * N + t = B * (2 * (N div B)) + R"
    by (simp add: R_def)
  have "R div B = of_bool (B \<le> R) \<and> R mod B = (if B \<le> R then R - B else R)"
    using R assms(2) by (auto simp: div_nat_eqI mod_if le_mod_geq)
  then show "(2 * N + t) div B = 2 * (N div B) + of_bool (B \<le> R)"
      "(2 * N + t) mod B = (if B \<le> R then R - B else R)"
    unfolding N using assms(2) by simp_all
qed

lemma div_inv_numerator:
  assumes "n < 64" "Q < 2 ^ (63 - n)"
  shows "(A mod 2 ^ n) * 2 ^ (63 - n) + Q < (2 :: nat) ^ 63"
    "A mod 2 ^ Suc n * 2 ^ (63 - n) = (A div 2 ^ n) mod 2 * 2 ^ 63 + A mod 2 ^ n * 2 ^ (63 - n)"
proof -
  have p: "(2 :: nat) ^ 63 = 2 ^ n * 2 ^ (63 - n)"
    using assms(1) by (simp flip: power_add)
  have "A mod 2 ^ n + 1 \<le> 2 ^ n"
    by (simp add: Suc_le_eq)
  then have "(A mod 2 ^ n + 1) * 2 ^ (63 - n) \<le> 2 ^ n * 2 ^ (63 - n)"
    by (rule mult_le_mono1)
  then show "(A mod 2 ^ n) * 2 ^ (63 - n) + Q < (2 :: nat) ^ 63"
    using assms(2) unfolding p by (simp add: algebra_simps)
  have "A mod 2 ^ Suc n = A div 2 ^ n mod 2 * 2 ^ n + A mod 2 ^ n"
    using mod_mult2_eq [of A "2 ^ n" 2] by (simp add: mult.commute)
  then show "A mod 2 ^ Suc n * 2 ^ (63 - n) = (A div 2 ^ n) mod 2 * 2 ^ 63 + A mod 2 ^ n * 2 ^ (63 - n)"
    unfolding p by (simp add: algebra_simps)
qed

lemma divmod_round:
  assumes inv: "div_inv A (unat b) (Suc n) (rem, a, wrap)" and n: "n < 64" and b: "0 < unat b"
    and R: "R = 2 * unat rem + A div 2 ^ n mod 2" "R < 2 ^ 64"
    and sgn: "R < unat b \<Longrightarrow> unat b - R \<le> 2 ^ 63" "unat b \<le> R \<Longrightarrow> R - unat b < 2 ^ 63"
  defines "r \<equiv> push_bit 1 rem OR drop_bit 63 a"
  defines "w \<equiv> signed_drop_bit 63 (b - r - 1)"
  shows "div_inv A (unat b) n (r - (b AND w), push_bit 1 a OR (wrap AND 1), w)"
proof -
  let ?B = "unat b" and ?N = "A div 2 ^ Suc n" and ?t = "A div 2 ^ n mod 2"
  have N: "A div 2 ^ n = 2 * ?N + ?t"
    using mult_div_mod_eq [of 2 "A div 2 ^ n"] by (simp only: power_Suc2 div_mult2_eq)
  have rem: "unat rem = ?N mod ?B" and a: "unat a = A mod 2 ^ Suc n * 2 ^ (63 - n) + ?N div ?B div 2"
    and Q: "?N div ?B < 2 ^ (63 - n)" and wrap: "wrap AND 1 = of_bool (odd (?N div ?B))"
    using inv by (auto simp: div_inv_def)
  let ?X = "A mod 2 ^ n * 2 ^ (63 - n) + ?N div ?B div 2"
  have "?N div ?B div 2 < 2 ^ (63 - n)"
    using Q by (rule le_less_trans [rotated]) simp
  then have X: "?X < 2 ^ 63" "unat a = ?t * 2 ^ 63 + ?X"
    using div_inv_numerator [OF n, of "?N div ?B div 2" A] by (simp_all only: a)
  have t: "unat (drop_bit 63 a) = ?t"
    using X unsigned_less [of a, where ?'a = nat]
    by (simp only: unsigned_drop_bit_eq) (simp add: drop_bit_eq_div take_bit_nat_eq_self)
  then have "drop_bit 63 a = 0 \<or> drop_bit 63 a = 1"
    by (cases "?t = 0") (simp_all add: word_unat_eq_iff)
  then have "r = 2 * rem + drop_bit 63 a"
    unfolding r_def by (rule push_bit_1_or)
  then have r: "unat r = R"
    using R(2) t by (simp add: unat_word_ariths R(1) mod_simps)
  then have w: "w = (if R < ?B then 0 else - 1)"
    using wrap_compare [of r b] sgn by (simp add: w_def)
  have r': "unat (r - (b AND w)) = (if ?B \<le> R then R - ?B else R)"
    by (simp add: w r unat_sub word_le_nat_alt)
  have "unat (2 * a + of_bool (odd (?N div ?B))) = 2 * ?X + ?N div ?B mod 2"
    using X by (simp add: unat_word_ariths mod_simps)
  also have "\<dots> = A mod 2 ^ n * (2 * 2 ^ (63 - n)) + ?N div ?B"
    by simp
  also have p: "2 * 2 ^ (63 - n) = (2 :: nat) ^ (64 - n)"
    using n by (simp flip: power_Suc)
  finally have a': "unat (push_bit 1 a OR (wrap AND 1)) = A mod 2 ^ n * 2 ^ (64 - n) + ?N div ?B"
    unfolding wrap by (subst push_bit_1_or) auto
  have digit: "A div 2 ^ n div ?B = 2 * (?N div ?B) + of_bool (?B \<le> R)"
      "A div 2 ^ n mod ?B = (if ?B \<le> R then R - ?B else R)"
    using div_digit(1,2) [of ?t ?B ?N] b unfolding N [symmetric] rem [symmetric] R(1) [symmetric] by simp_all
  have "2 * (?N div ?B) + 1 < 2 ^ (64 - n)"
    using Q p by linarith
  then show ?thesis
    unfolding div_inv_def prod.case a' r' digit by (simp add: w)
qed

lemma divmod_loop_correct:
  assumes "div_inv A (unat b) n s" "n \<le> 64" "0 < unat b" "unat b < 2 ^ 63"
  shows "div_inv A (unat b) 0 (divmod_loop n b s)"
  using assms(1,2)
proof (induction n arbitrary: s)
  case (Suc n)
  obtain rem a wrap where s: "s = (rem, a, wrap)" by (cases s)
  have "unat rem < unat b"
    using Suc.prems(1) assms(3) by (simp add: s div_inv_def)
  moreover have "A div 2 ^ n mod 2 < 2"
    by simp
  ultimately have "2 * unat rem + A div 2 ^ n mod 2 < 2 * unat b"
    by linarith
  then show ?case
    using divmod_round [OF Suc.prems(1) [unfolded s] _ assms(3) refl] Suc.prems(2) assms(4)
    by (auto simp: s Let_def intro!: Suc.IH)
qed simp

lemma arith64_hi_eq_0: "arith64_hi a = 0 \<longleftrightarrow> unat a < 2 ^ 32"
proof -
  have a: "unat a < 2 ^ 64"
    using unsigned_less [of a, where ?'a = nat] by simp
  then have "unat a div 2 ^ 32 < 2 ^ 32"
    by (simp add: div_less_iff_less_mult)
  with a have "unat (arith64_hi a) = unat a div 2 ^ 32"
    by (simp only: arith64_hi_def arith64_of_def unsigned_ucast_eq unsigned_drop_bit_eq arith64_word.simps)
      (simp add: drop_bit_eq_div take_bit_nat_eq_self)
  then show ?thesis
    by (simp add: word_unat_eq_iff div_eq_0_iff)
qed

lemma unat_arith64_lo: "unat a < 2 ^ 32 \<Longrightarrow> unat (arith64_lo a) = unat a"
  by (simp add: arith64_lo_def arith64_of_def unsigned_ucast_eq take_bit_nat_eq_self)

lemma clzdi2_bounds:
  assumes "a \<noteq> 0"
  shows "unat (clzdi2 a) < 64" "2 ^ (63 - unat (clzdi2 a)) \<le> unat a" "unat a < 2 ^ (64 - unat (clzdi2 a))"
proof -
  obtain a' where "clz_ok a 1 (clzdi2 a, a')"
    using clzdi2_ok [OF assms] by blast
  from clz_bounds [OF this] show "unat (clzdi2 a) < 64" "2 ^ (63 - unat (clzdi2 a)) \<le> unat a"
      "unat a < 2 ^ (64 - unat (clzdi2 a))"
    by simp_all
qed

text \<open>The number of rounds: enough for the quotient, and the first remainder is below \<open>b\<close>.\<close>

lemma divmod_bits:
  fixes a b :: u64
  assumes "b \<le> a" "2 \<le> unat b"
  defines "bits \<equiv> ucast (clzdi2 b - clzdi2 a + 1) :: u8"
  obtains n where "unat bits = n" "sint bits = int n" "unat (64 - bits) = 64 - n" "1 \<le> n" "n < 64"
    "unat a div 2 ^ n < unat b" "unat b < 2 ^ 63 \<or> n = 1"
proof -
  have "a \<noteq> 0" "b \<noteq> 0"
    using assms(1,2) by (auto simp: word_le_nat_alt)
  obtain na nb where nab: "na = unat (clzdi2 a)" "nb = unat (clzdi2 b)" by blast
  note A = clzdi2_bounds [OF \<open>a \<noteq> 0\<close>, folded nab] and B = clzdi2_bounds [OF \<open>b \<noteq> 0\<close>, folded nab]
  have "(2 :: nat) ^ (63 - nb) < 2 ^ (64 - na)"
    using A(3) B(2) assms(1) unfolding word_le_nat_alt by linarith
  then have le: "na \<le> nb"
    using A(1) B(1) by (simp add: power_strict_increasing_iff)
  have "(2 :: nat) ^ 1 < 2 ^ (64 - nb)"
    using B(3) assms(2) by simp
  then have nb: "nb < 63"
    by (simp only: power_strict_increasing_iff)
  have "unat (clzdi2 b - clzdi2 a + 1) = nb - na + 1"
    using le nb by (simp add: unat_word_ariths unat_sub word_le_nat_alt nab)
  then have bits: "unat bits = nb - na + 1"
    using nb by (simp add: bits_def unsigned_ucast_eq take_bit_nat_eq_self)
  show ?thesis
  proof (rule that [OF bits])
    have "uint bits < 2 ^ 7"
      using bits nb by (simp add: uint_nat)
    then have "signed_take_bit 7 (uint bits) = uint bits"
      by (intro signed_take_bit_int_eq_self order_trans [of "- (2 ^ 7)" 0 "uint bits"]) simp_all
    then show "sint bits = int (nb - na + 1)"
      by (simp add: sint_uint) (simp only: uint_nat bits)
    show "unat (64 - bits) = 64 - (nb - na + 1)"
      using bits nb by (simp add: unat_sub word_le_nat_alt)
    show "1 \<le> nb - na + 1" "nb - na + 1 < 64"
      using nb by simp_all
    have e: "64 - na = (63 - nb) + (nb - na + 1)"
      using le nb by simp
    have "unat a < 2 ^ (63 - nb) * 2 ^ (nb - na + 1)"
      using A(3) unfolding e power_add .
    then have "unat a div 2 ^ (nb - na + 1) < 2 ^ (63 - nb)"
      by (intro less_mult_imp_div_less)
    then show "unat a div 2 ^ (nb - na + 1) < unat b"
      using B(2) by linarith
    show "unat b < 2 ^ 63 \<or> nb - na + 1 = 1"
    proof (cases "nb = 0")
      case False
      then have "(2 :: nat) ^ (64 - nb) \<le> 2 ^ 63"
        by (intro power_increasing) simp_all
      then show ?thesis using B(3) by simp
    qed simp
  qed
qed

lemma unat_ucast_u32 [simp]: "unat (ucast (x :: u32) :: u64) = unat x"
  using unsigned_less [of x, where ?'a = nat] by (simp add: unsigned_ucast_eq take_bit_nat_eq_self)

lemma div_inv_start:
  assumes "unat a div 2 ^ n < unat b" "n \<le> 64"
  shows "div_inv (unat a) (unat b) n (drop_bit n a, push_bit (64 - n) a, 0)"
proof -
  have "unat (push_bit (64 - n) a) = (unat a * 2 ^ (64 - n)) mod 2 ^ 64"
    by (simp only: unsigned_push_bit_eq) (simp add: push_bit_eq_mult take_bit_eq_mod)
  also have "(2 :: nat) ^ 64 = 2 ^ n * 2 ^ (64 - n)"
    using assms(2) by (simp flip: power_add)
  finally have "unat (push_bit (64 - n) a) = unat a mod 2 ^ n * 2 ^ (64 - n)"
    by simp
  moreover have "unat (drop_bit n a) = unat a div 2 ^ n"
    using unsigned_less [of a, where ?'a = nat]
    by (simp only: unsigned_drop_bit_eq) (simp add: drop_bit_eq_div take_bit_nat_eq_self)
  ultimately show ?thesis
    using assms(1) by (simp add: div_inv_def)
qed

lemma div_inv_end:
  assumes "div_inv (unat a) (unat b) 0 (r, a', w)" "0 < unat b"
  shows "r = a mod b" "push_bit 1 a' OR (w AND 1) = a div b"
proof -
  have "unat r = unat a mod unat b" and a': "unat a' = unat a div unat b div 2"
    and w: "w AND 1 = of_bool (odd (unat a div unat b))"
    using assms by (auto simp: div_inv_def)
  then show "r = a mod b"
    by (simp add: word_unat_eq_iff unat_mod)
  have "unat a div unat b < 2 ^ LENGTH(64)"
    using div_le_dividend unsigned_less [of a] by (rule le_less_trans)
  then have "unat (2 * a' + of_bool (odd (unat a div unat b))) = unat a div unat b"
    by (simp add: unat_word_ariths a' mod_simps)
  then show "push_bit 1 a' OR (w AND 1) = a div b"
    unfolding w by (subst push_bit_1_or) (auto simp: word_unat_eq_iff unat_div)
qed

lemma divmod_long:
  assumes "b \<le> a" "2 \<le> unat b" "2 ^ 32 \<le> unat a"
  shows "divmoddi4 a b = Some (a div b, a mod b)"
proof -
  obtain n where n: "unat (ucast (clzdi2 b - clzdi2 a + 1) :: u8) = n"
      "sint (ucast (clzdi2 b - clzdi2 a + 1) :: u8) = int n"
      "unat (64 - ucast (clzdi2 b - clzdi2 a + 1) :: u8) = 64 - n" "1 \<le> n" "n < 64"
      "unat a div 2 ^ n < unat b" "unat b < 2 ^ 63 \<or> n = 1"
    using divmod_bits [OF assms(1,2)] by blast
  obtain r a' w where l: "divmod_loop n b (drop_bit n a, push_bit (64 - n) a, 0) = (r, a', w)"
    by (metis surj_pair)
  have "div_inv (unat a) (unat b) 0 (divmod_loop n b (drop_bit n a, push_bit (64 - n) a, 0))"
  proof (cases "unat b < 2 ^ 63")
    case True
    then show ?thesis
      using divmod_loop_correct [OF div_inv_start] n assms(2) by simp
  next
    case False
    then have [simp]: "n = 1"
      using n(7) by simp
    have "unat (drop_bit 1 a) = unat a div 2"
      using unsigned_less [of a, where ?'a = nat]
      by (simp only: unsigned_drop_bit_eq) (simp add: drop_bit_eq_div take_bit_nat_eq_self)
    then have "2 * unat (drop_bit 1 a) + unat a div 2 ^ 0 mod 2 = unat a"
      by simp
    moreover have "div_inv (unat a) (unat b) (Suc 0) (drop_bit 1 a, push_bit (64 - 1) a, 0)"
      using div_inv_start [of a 1 b] n(6) by simp
    moreover have "unat b \<le> unat a" "unat a < 2 ^ 64" "0 < unat b"
      using assms(1,2) unsigned_less [of a, where ?'a = nat] by (simp_all add: word_le_nat_alt)
    ultimately have "div_inv (unat a) (unat b) 0 (divmod_loop (Suc 0) b (drop_bit 1 a, push_bit (64 - 1) a, 0))"
      using False unfolding divmod_loop.simps prod.case Let_def
      by (intro divmod_round [where R = "unat a"]) simp_all
    then show ?thesis
      by simp
  qed
  then have "r = a mod b" "push_bit 1 a' OR (w AND 1) = a div b"
    using div_inv_end [of a b r a' w] assms(2) by (simp_all add: l)
  then show ?thesis
    using assms l by (auto simp: divmoddi4_def arith64_hi_eq_0 not_less n(1-3) Let_def)
qed

lemma divmoddi4_eq: "divmoddi4 a b = (if b = 0 then None else Some (a div b, a mod b))"
proof -
  have "2 \<le> unat b" if "b \<noteq> 0" "b \<noteq> 1"
    using that by (simp add: word_unat_eq_iff)
  then consider "a < b" | "b \<le> a" "b = 0" | "b \<le> a" "b = 1" | "b \<le> a" "2 \<le> unat b" "unat a < 2 ^ 32"
    | "b \<le> a" "2 \<le> unat b" "2 ^ 32 \<le> unat a"
    by (metis not_less)
  then show ?thesis
  proof cases
    case 1
    then show ?thesis
      by (auto simp: divmoddi4_def word_unat_eq_iff unat_div unat_mod word_less_nat_alt)
  next
    case 2
    then show ?thesis
      by (simp add: divmoddi4_def arith64_hi_eq_0)
  next
    case 3
    then show ?thesis
      by (simp add: divmoddi4_def arith64_hi_eq_0 not_less)
  next
    case 4
    then have b: "unat b < 2 ^ 32" "b \<noteq> 0" "b \<noteq> 1"
      by (auto simp: word_le_nat_alt)
    have "ucast (arith64_lo a div arith64_lo b) = a div b" "ucast (arith64_lo a mod arith64_lo b) = a mod b"
      using 4 b(1) by (simp_all add: word_unat_eq_iff unat_div unat_mod unat_arith64_lo)
    then show ?thesis
      using 4 b by (auto simp: divmoddi4_def arith64_hi_eq_0)
  next
    case 5
    then have "b \<noteq> 0"
      by auto
    then show ?thesis
      using divmod_long 5 by simp
  qed
qed

section \<open>Signed division\<close>

lemma arith64_neg_eq: "arith64_neg a b = (if b <s 0 then - a else a)"
proof -
  have "0 \<le>s b \<longleftrightarrow> \<not> b <s 0"
    by (simp add: word_sle_eq word_sless_alt not_less)
  then show ?thesis
    by (simp add: arith64_neg_def minus_eq_not_plus_1 [of a])
qed

lemma uint_arith64_abs: "uint (arith64_abs a) = \<bar>sint a\<bar>"
proof (cases "a <s 0")
  case True
  then have neg: "sint a < 0"
    by (simp add: word_sless_alt)
  have "- (2 ^ 63) \<le> sint a"
    using sint_greater_eq [of a] by simp
  then have "take_bit 64 (- sint a) = - sint a"
    using neg by (simp add: take_bit_int_eq_self)
  then have "uint (- a) = - sint a"
    using uint_word_of_int_eq [of "- sint a", where ?'a = 64] by simp
  then show ?thesis
    using True neg by (simp add: arith64_abs_def arith64_neg_eq)
next
  case False
  then have "0 \<le> sint a"
    by (simp add: word_sless_alt)
  then have "uint a = sint a"
    using sint_lt [of a] uint_word_of_int_eq [of "sint a", where ?'a = 64]
    by (simp add: take_bit_int_eq_self)
  then show ?thesis
    using False \<open>0 \<le> sint a\<close> by (simp add: arith64_abs_def arith64_neg_eq)
qed

lemma xor_sless_0: "(a XOR b :: u64) <s 0 \<longleftrightarrow> (a <s 0) \<noteq> (b <s 0)"
  using bit_last_iff [of "a XOR b"] bit_last_iff [of a] bit_last_iff [of b]
  by (simp add: word_sless_alt bit_xor_iff)

lemma signed_divmod:
  assumes "b \<noteq> 0"
  shows "arith64_neg (arith64_abs a div arith64_abs b) (a XOR b) = word_of_int (sint a sdiv sint b)"
    "arith64_neg (arith64_abs a mod arith64_abs b) a = word_of_int (sint a smod sint b)"
proof -
  have "arith64_abs a div arith64_abs b = word_of_int (\<bar>sint a\<bar> div \<bar>sint b\<bar>)"
    "arith64_abs a mod arith64_abs b = word_of_int (\<bar>sint a\<bar> mod \<bar>sint b\<bar>)"
    by (simp_all add: word_div_def word_mod_def uint_arith64_abs)
  moreover have "sint b \<noteq> 0"
    using assms by (metis signed_eq_0_iff)
  ultimately show "arith64_neg (arith64_abs a div arith64_abs b) (a XOR b) = word_of_int (sint a sdiv sint b)"
    "arith64_neg (arith64_abs a mod arith64_abs b) a = word_of_int (sint a smod sint b)"
    using xor_sless_0 [of a b]
    by (auto simp: arith64_neg_eq word_sless_alt signed_divide_int_def signed_modulo_int_def sgn_if)
qed

section \<open>Properties\<close>

text \<open>
  C5. Division of the 32-bit kernel is 64-bit division: a zero divisor raises, every other
  division returns, unsigned quotient and remainder are those of the values, and the signed ones
  truncate towards zero (the quotient of the smallest number by \<open>-1\<close> wraps to itself).
\<close>

theorem arith64_division:
  "divmoddi4 a b = (if b = 0 then None else Some (a div b, a mod b)) \<and>
   udivdi3 a b = (if b = 0 then None else Some (a div b)) \<and>
   umoddi3 a b = (if b = 0 then None else Some (a mod b)) \<and>
   divdi3 a b = (if b = 0 then None else Some (word_of_int (sint a sdiv sint b))) \<and>
   moddi3 a b = (if b = 0 then None else Some (word_of_int (sint a smod sint b)))"
proof -
  have "arith64_abs b = 0 \<longleftrightarrow> b = 0"
    using uint_arith64_abs [of b] by (metis abs_eq_0 signed_eq_0_iff unsigned_eq_0_iff)
  then show ?thesis
    by (simp add: divmoddi4_eq udivdi3_def umoddi3_def divdi3_def moddi3_def signed_divmod)
qed

text \<open>
  The shifts on the two 32-bit halves are the shifts of the 64-bit word by the amount modulo
  64: left, logical right and arithmetic right.
\<close>

lemma arith64_shift_equivalence:
  "ashldi3 a b = push_bit (unat b mod 64) a \<and> lshrdi3 a b = drop_bit (unat b mod 64) a \<and>
   ashrdi3 a b = signed_drop_bit (unat b mod 64) a"
proof -
  have "b AND 63 = take_bit 6 b"
    by (simp add: take_bit_eq_mask mask_eq_exp_minus_1)
  then have "unat (b AND 63) = unat b mod 64"
    by (simp add: take_bit_eq_mod unat_mod)
  then show ?thesis
    using arith64_shifts [of a b] by simp
qed

text \<open>
  The binary searches for the first and the last set bit: for a non-zero word
  \<^verbatim>\<open>__clzdi2\<close> gives the position of the highest bit,
  \<^verbatim>\<open>__ctzdi2\<close> the largest power of two that divides the word, and
  \<^verbatim>\<open>__ffsdi2\<close> is one more (0 for the word 0).
\<close>

lemma arith64_zero_counts:
  assumes "a \<noteq> 0"
  shows "unat (clzdi2 a) < 64 \<and> 2 ^ (63 - unat (clzdi2 a)) \<le> unat a \<and>
    unat a < 2 ^ (64 - unat (clzdi2 a)) \<and>
    unat (ctzdi2 a) < 64 \<and> 2 ^ unat (ctzdi2 a) dvd unat a \<and> \<not> 2 ^ Suc (unat (ctzdi2 a)) dvd unat a \<and>
    unat (ffsdi2 a) = unat (ctzdi2 a) + 1 \<and> ffsdi2 0 = 0"
proof -
  obtain a' where "ctz_ok a 1 (ctzdi2 a, a')"
    using ctzdi2_ok [OF assms] by blast
  note c = ctz_bounds [OF this]
  moreover have "unat (ffsdi2 a) = unat (ctzdi2 a) + 1"
    using assms c(1) by (simp add: ffsdi2_def unat_word_ariths)
  ultimately show ?thesis
    using clzdi2_bounds [OF assms] by (simp add: ffsdi2_def)
qed

lemma arith64_zero_counts_witness:
  "2 ^ (63 - unat (clzdi2 0x50)) \<le> (0x50 :: nat) \<and> 2 ^ unat (ctzdi2 0x50) dvd (0x50 :: nat)"
  using arith64_zero_counts [of "0x50"] by simp

end
