(* ===== verification/C_String.thy ===== *)
theory C_String
  imports Kernel_Prelude "HOL-Library.Sublist"
begin

text \<open>
  The string and memory functions of \<^verbatim>\<open>src/kernel/libs/String.c\<close> and those that only
  \<^verbatim>\<open>src/libc/src/string/string.c\<close> has. Memory is a store of bytes indexed by address, so
  overlapping arguments behave as in C. A loop that looks for a terminator is a partial function:
  \<open>None\<close> is a scan that never ends. The theorems relate the functions to lists of bytes, by
  \<open>cstr m p s\<close>: the bytes \<open>s\<close> and a terminating zero stand at \<open>p\<close>.
\<close>

section \<open>Memory blocks\<close>

type_synonym mem = "u64 \<Rightarrow> u8"

definition memcpy :: "u64 \<Rightarrow> u64 \<Rightarrow> u64 \<Rightarrow> mem \<Rightarrow> u64 \<times> mem" where
  "memcpy dest src n m =
     (dest, fold (\<lambda>i m. m(dest + of_nat i := m (src + of_nat i))) [0..<unat n] m)"

definition memset :: "u64 \<Rightarrow> u32 \<Rightarrow> u64 \<Rightarrow> mem \<Rightarrow> u64 \<times> mem" where
  "memset dest data nbytes m =
     (dest, fold (\<lambda>i m. m(dest + of_nat i := ucast data)) [0..<unat nbytes] m)"

definition memmove :: "u64 \<Rightarrow> u64 \<Rightarrow> u64 \<Rightarrow> mem \<Rightarrow> u64 \<times> mem" where
  "memmove dest src n m =
     (dest,
      if dest < src then fold (\<lambda>i m. m(dest + of_nat i := m (src + of_nat i))) [0..<unat n] m
      else fold (\<lambda>i m. m(dest + of_nat i := m (src + of_nat i))) (rev [0..<unat n]) m)"

primrec memcmp_loop :: "nat \<Rightarrow> u64 \<Rightarrow> u64 \<Rightarrow> mem \<Rightarrow> int" where
  "memcmp_loop 0 l r m = 0"
| "memcmp_loop (Suc n) l r m =
     (if m l = m r then memcmp_loop n (l + 1) (r + 1) m else uint (m l) - uint (m r))"

definition memcmp :: "u64 \<Rightarrow> u64 \<Rightarrow> u64 \<Rightarrow> mem \<Rightarrow> int" where
  "memcmp vl vr n m = memcmp_loop (unat n) vl vr m"

section \<open>Strings\<close>

text \<open>A plain \<^verbatim>\<open>char\<close> is signed; the first argument is the number of rounds left.\<close>

primrec strncmp_loop :: "nat \<Rightarrow> u64 \<Rightarrow> u64 \<Rightarrow> mem \<Rightarrow> int" where
  "strncmp_loop 0 s1 s2 m = 0"
| "strncmp_loop (Suc n) s1 s2 m =
     (if m s1 \<noteq> m s2 then sint (m s1) - sint (m s2)
      else if m s1 = 0 then 0
      else strncmp_loop n (s1 + 1) (s2 + 1) m)"

definition strncmp :: "u64 \<Rightarrow> u64 \<Rightarrow> u64 \<Rightarrow> mem \<Rightarrow> int" where
  "strncmp s1 s2 n m = strncmp_loop (unat n) s1 s2 m"

partial_function (option) strlen_loop :: "mem \<Rightarrow> u64 \<Rightarrow> u64 \<Rightarrow> u64 option" where
  "strlen_loop m s i = (if m (s + i) \<noteq> 0 then strlen_loop m s (i + 1) else Some i)"

definition strlen :: "u64 \<Rightarrow> mem \<Rightarrow> u64 option" where
  "strlen s m = strlen_loop m s 0"

text \<open>The copying loop that \<^verbatim>\<open>strcpy\<close> and \<^verbatim>\<open>strcat\<close> share.\<close>

partial_function (option) strcpy_loop :: "u64 \<Rightarrow> u64 \<Rightarrow> mem \<Rightarrow> mem option" where
  "strcpy_loop destination source m =
     (if m source \<noteq> 0 then
        strcpy_loop (destination + 1) (source + 1) (m(destination := m source))
      else Some (m(destination := 0)))"

partial_function (option) strend_loop :: "u64 \<Rightarrow> mem \<Rightarrow> u64 option" where
  "strend_loop start m = (if m start \<noteq> 0 then strend_loop (start + 1) m else Some start)"

definition strcat :: "u64 \<Rightarrow> u64 \<Rightarrow> mem \<Rightarrow> (u64 \<times> mem) option" where
  "strcat destination source m =
     (if destination = 0 \<and> source = 0 then Some (0, m)
      else Option.bind (strend_loop destination m) (\<lambda>start.
           Option.bind (strcpy_loop start source m) (\<lambda>m. Some (destination, m))))"

definition strcpy :: "u64 \<Rightarrow> u64 \<Rightarrow> mem \<Rightarrow> (u64 \<times> mem) option" where
  "strcpy destination source m =
     (if destination = 0 then Some (0, m)
      else Option.bind (strcpy_loop destination source m) (\<lambda>m. Some (destination, m)))"

primrec strncpy_loop :: "nat \<Rightarrow> u64 \<Rightarrow> u64 \<Rightarrow> mem \<Rightarrow> mem" where
  "strncpy_loop 0 destination source m = m(destination := 0)"
| "strncpy_loop (Suc num) destination source m =
     (if m source \<noteq> 0 then
        strncpy_loop num (destination + 1) (source + 1) (m(destination := m source))
      else m(destination := 0))"

definition strncpy :: "u64 \<Rightarrow> u64 \<Rightarrow> u64 \<Rightarrow> mem \<Rightarrow> u64 \<times> mem" where
  "strncpy destination source num m =
     (if destination = 0 then (0, m)
      else (destination, strncpy_loop (unat num) destination source m))"

partial_function (option) strcmp :: "u64 \<Rightarrow> u64 \<Rightarrow> mem \<Rightarrow> int option" where
  "strcmp l r m =
     (if m l = m r \<and> m l \<noteq> 0 then strcmp (l + 1) (r + 1) m
      else Some (uint (m l) - uint (m r)))"

partial_function (option) strstr_loop ::
    "u64 \<Rightarrow> u64 \<Rightarrow> u64 \<Rightarrow> u64 \<Rightarrow> mem \<Rightarrow> u64 option" where
  "strstr_loop haystack needle a b m =
     (if m b = 0 then Some haystack
      else if m a = 0 then Some 0
      else if m a \<noteq> m b then strstr_loop (haystack + 1) needle (haystack + 1) needle m
      else strstr_loop haystack needle (a + 1) (b + 1) m)"

definition strstr :: "u64 \<Rightarrow> u64 \<Rightarrow> mem \<Rightarrow> u64 option" where
  "strstr haystack needle m = strstr_loop haystack needle haystack needle m"

definition isdigit :: "u8 \<Rightarrow> bool" where
  "isdigit c \<longleftrightarrow> 0x30 \<le>s c \<and> c \<le>s 0x39"

definition isspace :: "u8 \<Rightarrow> bool" where
  "isspace c \<longleftrightarrow> c = 0x20 \<or> c = 0x09 \<or> c = 0x0D \<or> c = 0x0A \<or> c = 0x0C \<or> c = 0x0B"

partial_function (option) isempty_loop :: "u64 \<Rightarrow> mem \<Rightarrow> bool option" where
  "isempty_loop str m =
     (if m str \<noteq> 0 then (if \<not> isspace (m str) then Some False else isempty_loop (str + 1) m)
      else Some True)"

definition isempty :: "u64 \<Rightarrow> mem \<Rightarrow> bool option" where
  "isempty str m =
     Option.bind (strlen str m) (\<lambda>n. if n = 0 then Some True else isempty_loop str m)"

section \<open>Functions of the C library only\<close>

partial_function (option) isdelim :: "u8 \<Rightarrow> u64 \<Rightarrow> mem \<Rightarrow> bool option" where
  "isdelim c delim m =
     (if m delim \<noteq> 0 then (if c = m delim then Some True else isdelim c (delim + 1) m)
      else Some False)"

partial_function (option) strchr :: "u64 \<Rightarrow> u8 \<Rightarrow> mem \<Rightarrow> u64 option" where
  "strchr String Ch m =
     (if m String \<noteq> Ch then (if m String = 0 then Some 0 else strchr (String + 1) Ch m)
      else Some String)"

partial_function (option) strrchr_loop :: "u64 \<Rightarrow> u64 \<Rightarrow> u8 \<Rightarrow> mem \<Rightarrow> u64 option" where
  "strrchr_loop ret String Ch m =
     (let ret = (if m String = Ch then String else ret)
      in if m String \<noteq> 0 then strrchr_loop ret (String + 1) Ch m else Some ret)"

definition strrchr :: "u64 \<Rightarrow> u8 \<Rightarrow> mem \<Rightarrow> u64 option" where
  "strrchr String Ch m = strrchr_loop 0 String Ch m"

text \<open>The macro \<^verbatim>\<open>tolower\<close> of \<^verbatim>\<open>src/libc/include/ctype.h\<close>.\<close>

definition tolower :: "int \<Rightarrow> int" where
  "tolower c = c + 0x20 * of_bool (0x41 \<le> c \<and> c \<le> 0x5A)"

primrec strncasecmp_loop :: "nat \<Rightarrow> u64 \<Rightarrow> u64 \<Rightarrow> mem \<Rightarrow> int" where
  "strncasecmp_loop 0 lhs rhs m = 0"
| "strncasecmp_loop (Suc Count) lhs rhs m =
     (if m lhs = 0 \<or> m rhs = 0 then uint (m lhs) - uint (m rhs)
      else if tolower (sint (m lhs)) \<noteq> tolower (sint (m rhs)) then uint (m lhs) - uint (m rhs)
      else strncasecmp_loop Count (lhs + 1) (rhs + 1) m)"

definition strncasecmp :: "u64 \<Rightarrow> u64 \<Rightarrow> u64 \<Rightarrow> mem \<Rightarrow> int" where
  "strncasecmp lhs rhs Count m = strncasecmp_loop (unat Count) lhs rhs m"

partial_function (option) strcasecmp :: "u64 \<Rightarrow> u64 \<Rightarrow> mem \<Rightarrow> int option" where
  "strcasecmp lhs rhs m =
     (if m lhs \<noteq> 0 \<and> tolower (sint (m lhs)) = tolower (sint (m rhs))
      then strcasecmp (lhs + 1) (rhs + 1) m
      else Some (tolower (sint (m lhs)) - tolower (sint (m rhs))))"

text \<open>
  \<^verbatim>\<open>strtok\<close> keeps the rest of the string in the static variable \<open>src1\<close>, which the
  model passes in and returns. The two loops skip delimiters and read the token.
\<close>

partial_function (option) strtok_skip :: "u64 \<Rightarrow> u64 \<Rightarrow> mem \<Rightarrow> u64 option" where
  "strtok_skip src delim m =
     Option.bind (isdelim (m src) delim m) (\<lambda>d.
       if d then strtok_skip (src + 1) delim m else Some src)"

partial_function (option) strtok_token :: "u64 \<Rightarrow> u64 \<Rightarrow> mem \<Rightarrow> (mem \<times> u64) option" where
  "strtok_token src delim m =
     (if m src = 0 then Some (m, src)
      else Option.bind (isdelim (m src) delim m) (\<lambda>d.
        if d then Some (m(src := 0), src + 1) else strtok_token (src + 1) delim m))"

definition strtok :: "u64 \<Rightarrow> u64 \<Rightarrow> mem \<times> u64 \<Rightarrow> (u64 \<times> mem \<times> u64) option" where
  "strtok src delim = (\<lambda>(m, src1).
     let src = (if src = 0 then src1 else src)
     in if src = 0 then Some (0, m, src1)
        else Option.bind (strtok_skip src delim m) (\<lambda>src.
          if m src = 0 then Some (0, m, src1)
          else Option.bind (strtok_token src delim m) (\<lambda>(m, src1). Some (src, m, src1))))"

section \<open>Strings as lists\<close>

primrec cstr :: "mem \<Rightarrow> u64 \<Rightarrow> u8 list \<Rightarrow> bool" where
  "cstr m p [] \<longleftrightarrow> m p = 0"
| "cstr m p (c # s) \<longleftrightarrow> m p = c \<and> c \<noteq> 0 \<and> cstr m (p + 1) s"

text \<open>The bytes \<open>xs\<close> written at \<open>p\<close>.\<close>

primrec write_bytes :: "u64 \<Rightarrow> u8 list \<Rightarrow> mem \<Rightarrow> mem" where
  "write_bytes p [] m = m"
| "write_bytes p (c # s) m = write_bytes (p + 1) s (m(p := c))"

text \<open>The \<open>n\<close> bytes at \<open>p\<close>; a block may wrap around the end of the address space.\<close>

definition block :: "u64 \<Rightarrow> nat \<Rightarrow> u64 set" where
  "block p n = (\<lambda>i. p + of_nat i) ` {..<n}"

lemma block_Suc: "block p (Suc n) = insert p (block (p + 1) n)"
  by (auto simp: block_def image_iff lessThan_Suc_eq_insert_0 algebra_simps)

lemma block_0 [simp]: "block p 0 = {}"
  by (simp add: block_def)

lemma block_self [simp]: "p \<in> block p n \<longleftrightarrow> 0 < n"
  if "n \<le> 2 ^ 64" for n
  by (cases n) (auto simp: block_Suc)

lemma of_nat_neq_0: "0 < n \<Longrightarrow> n < 2 ^ 64 \<Longrightarrow> of_nat n \<noteq> (0 :: u64)"
  by (simp only: word_unat_eq_iff unat_of_nat) simp

lemma not_in_block_next: "n < 2 ^ 64 \<Longrightarrow> p \<notin> block (p + 1) n"
proof
  assume n: "n < 2 ^ 64" and "p \<in> block (p + 1) n"
  then obtain i where "i < n" "of_nat (Suc i) = (0 :: u64)"
    by (auto simp: block_def algebra_simps)
  then show False
    using n of_nat_neq_0 [of "Suc i"] by simp
qed

lemma cstr_upd: "a \<notin> block p (Suc (length s)) \<Longrightarrow> cstr (m(a := v)) p s = cstr m p s"
  by (induction s arbitrary: p) (auto simp: block_Suc)

lemma cstr_nth:
  "cstr m p s \<Longrightarrow> 0 \<notin> set s \<and> (\<forall>i < length s. m (p + of_nat i) = s ! i) \<and> m (p + of_nat (length s)) = 0"
proof (induction s arbitrary: p)
  case (Cons c s)
  then show ?case
    using Cons.IH [of "p + 1"] by (auto simp: nth_Cons add.assoc split: nat.split)
qed simp

lemma cstr_length:
  assumes "cstr m p s"
  shows "length s < 2 ^ 64"
proof (rule ccontr)
  assume "\<not> length s < 2 ^ 64"
  then have i: "length s mod 2 ^ 64 < length s"
    by (metis less_le_trans mod_less_divisor not_less zero_less_numeral zero_less_power)
  have "(of_nat (length s mod 2 ^ 64) :: u64) = of_nat (length s)"
    by (simp add: word_unat_eq_iff unat_of_nat)
  moreover have "m (p + of_nat (length s mod 2 ^ 64)) = s ! (length s mod 2 ^ 64)"
      "m (p + of_nat (length s)) = 0"
    using cstr_nth [OF assms] i by blast+
  ultimately have "s ! (length s mod 2 ^ 64) = 0"
    by simp
  then show False
    using cstr_nth [OF assms] nth_mem [OF i] by simp
qed

lemma write_bytes_other: "x \<notin> block p (length s) \<Longrightarrow> write_bytes p s m x = m x"
  by (induction s arbitrary: p m) (auto simp: block_Suc)

lemma cstr_write_other:
  "block p (length w) \<inter> block q (Suc (length s)) = {} \<Longrightarrow> cstr (write_bytes p w m) q s = cstr m q s"
proof (induction w arbitrary: p m)
  case (Cons c w)
  then have "p \<notin> block q (Suc (length s))" "block (p + 1) (length w) \<inter> block q (Suc (length s)) = {}"
    using block_Suc [of p "length w"] by auto
  then show ?case
    using Cons.IH by (simp add: cstr_upd del: fun_upd_apply)
qed simp

lemma cstr_write:
  assumes "0 \<notin> set s" "length s < 2 ^ 64"
  shows "cstr (write_bytes p (s @ [0]) m) p s"
  using assms
proof (induction s arbitrary: p m)
  case (Cons c s)
  then have "write_bytes (p + 1) (s @ [0]) (m(p := c)) p = c"
    using not_in_block_next [of "Suc (length s)" p] by (subst write_bytes_other) auto
  then show ?case
    using Cons by auto
qed simp

section \<open>Functional correctness\<close>

lemma strlen_loop_cstr: "cstr m (p + i) s \<Longrightarrow> strlen_loop m p i = Some (i + of_nat (length s))"
proof (induction s arbitrary: i)
  case Nil
  then show ?case
    by (subst strlen_loop.simps) simp
next
  case (Cons c s)
  then show ?case
    by (subst strlen_loop.simps) (simp add: algebra_simps)
qed

lemma strlen_cstr: "cstr m p s \<Longrightarrow> strlen p m = Some (of_nat (length s))"
  using strlen_loop_cstr [of m p 0 s] by (simp add: strlen_def)

lemma strend_loop_cstr: "cstr m p s \<Longrightarrow> strend_loop p m = Some (p + of_nat (length s))"
proof (induction s arbitrary: p)
  case Nil
  then show ?case
    by (subst strend_loop.simps) simp
next
  case (Cons c s)
  then show ?case
    by (subst strend_loop.simps) (simp add: algebra_simps)
qed

text \<open>Copying forwards is safe when the target does not meet the source.\<close>

lemma strcpy_loop_cstr:
  assumes "cstr m q s" "block p (Suc (length s)) \<inter> block q (Suc (length s)) = {}"
  shows "strcpy_loop p q m = Some (write_bytes p (s @ [0]) m)"
  using assms
proof (induction s arbitrary: p q m)
  case Nil
  then show ?case
    by (subst strcpy_loop.simps) simp
next
  case (Cons c s)
  have "p \<notin> block (q + 1) (Suc (length s))"
      "block (p + 1) (Suc (length s)) \<inter> block (q + 1) (Suc (length s)) = {}"
    using Cons.prems(2) block_Suc [of p "Suc (length s)"] block_Suc [of q "Suc (length s)"] by auto
  then have "strcpy_loop (p + 1) (q + 1) (m(p := c)) = Some (write_bytes (p + 1) (s @ [0]) (m(p := c)))"
    using Cons by (simp add: cstr_upd del: fun_upd_apply)
  then show ?case
    using Cons.prems(1) by (subst strcpy_loop.simps) simp
qed

lemma strcmp_cstr:
  "cstr m p s \<Longrightarrow> cstr m q t \<Longrightarrow> \<exists>d. strcmp p q m = Some d \<and> (d = 0 \<longleftrightarrow> s = t) \<and>
     (d < 0 \<longleftrightarrow> ord_class.lexordp s t)"
proof (induction s arbitrary: p q t)
  case Nil
  then show ?case
    by (cases t; subst strcmp.simps) (simp_all add: order_less_le uint_0_iff)
next
  case (Cons c s)
  show ?case
  proof (cases "\<exists>t'. t = c # t'")
    case True
    then show ?thesis
      using Cons by (subst strcmp.simps) auto
  next
    case False
    then show ?thesis
      using Cons.prems by (cases t; subst strcmp.simps) (auto simp: word_less_def word_uint_eq_iff)
  qed
qed

text \<open>The first place where \<open>ns\<close> occurs in a list.\<close>

fun find_sub :: "'a list \<Rightarrow> 'a list \<Rightarrow> nat option" where
  "find_sub ns [] = (if ns = [] then Some 0 else None)"
| "find_sub ns (x # xs) = (if prefix ns (x # xs) then Some 0 else map_option Suc (find_sub ns xs))"

lemma find_sub_Some:
  "find_sub ns xs = Some i \<Longrightarrow> i \<le> length xs \<and> prefix ns (drop i xs) \<and> (\<forall>j < i. \<not> prefix ns (drop j xs))"
proof (induction xs arbitrary: i)
  case (Cons x xs)
  show ?case
  proof (cases i)
    case (Suc k)
    then have "find_sub ns xs = Some k" "\<not> prefix ns (x # xs)"
      using Cons.prems by (auto split: if_splits)
    then show ?thesis
      using Cons.IH [of k] Suc by (auto simp: less_Suc_eq_0_disj)
  qed (use Cons.prems in \<open>auto split: if_splits\<close>)
qed (auto split: if_splits)

lemma find_sub_None: "find_sub ns xs = None \<longleftrightarrow> \<not> sublist ns xs"
  by (induction xs) (auto simp: sublist_Cons_right)

text \<open>Comparing the needle at one place.\<close>

lemma strstr_match:
  "cstr m a as \<Longrightarrow> cstr m b bs \<Longrightarrow> strstr_loop h n a b m =
     (if prefix bs as then Some h else if prefix as bs then Some 0 else strstr_loop (h + 1) n (h + 1) n m)"
proof (induction bs arbitrary: a b as)
  case Nil
  then show ?case
    by (subst strstr_loop.simps) simp
next
  case (Cons c bs)
  show ?case
  proof (cases as)
    case Nil
    then show ?thesis
      using Cons.prems by (subst strstr_loop.simps) simp
  next
    case (Cons d ds)
    then show ?thesis
      using Cons.IH [of "a + 1" ds "b + 1"] \<open>cstr m a as\<close> \<open>cstr m b (c # bs)\<close>
      by (subst strstr_loop.simps) auto
  qed
qed

lemma strstr_cstr:
  "cstr m h xs \<Longrightarrow> cstr m n ns \<Longrightarrow>
   strstr h n m = Some (case find_sub ns xs of None \<Rightarrow> 0 | Some i \<Rightarrow> h + of_nat i)"
  unfolding strstr_def
proof (induction xs arbitrary: h)
  case Nil
  then show ?case
    using strstr_match [OF Nil] by simp
next
  case (Cons x xs)
  have short: "\<not> sublist ns xs" if "prefix (x # xs) ns"
    using that by (auto dest!: prefix_length_le sublist_length_le)
  show ?case
  proof (cases "prefix (x # xs) ns \<and> \<not> prefix ns (x # xs)")
    case True
    then show ?thesis
      using strstr_match [OF Cons.prems] short find_sub_None [of ns xs] by simp
  next
    case False
    then show ?thesis
      using strstr_match [OF Cons.prems] Cons by (auto simp: algebra_simps split: option.splits)
  qed
qed

lemma isdelim_cstr: "cstr m d ds \<Longrightarrow> isdelim c d m = Some (c \<in> set ds)"
proof (induction ds arbitrary: d)
  case Nil
  then show ?case
    by (subst isdelim.simps) simp
next
  case (Cons x ds)
  then show ?case
    by (subst isdelim.simps) auto
qed

text \<open>A string read from the start of its tail.\<close>

lemma cstr_append: "cstr m p (s @ t) \<Longrightarrow> cstr m (p + of_nat (length s)) t"
proof (induction s arbitrary: p)
  case (Cons c s)
  then show ?case
    using Cons.IH [of "p + 1"] by (simp add: add.assoc)
qed simp

lemma cstr_no_zero: "cstr m p s \<Longrightarrow> 0 \<notin> set s"
  by (induction s arbitrary: p) auto

lemma strtok_skip_cstr:
  assumes "cstr m d ds" "r = [] \<or> hd r \<notin> set ds"
  shows "cstr m p (t @ r) \<Longrightarrow> set t \<subseteq> set ds \<Longrightarrow> strtok_skip p d m = Some (p + of_nat (length t))"
proof (induction t arbitrary: p)
  case Nil
  then show ?case
    using isdelim_cstr [OF assms(1)] cstr_no_zero [OF assms(1)] assms(2)
    by (subst strtok_skip.simps, cases r) auto
next
  case (Cons c s)
  then show ?case
    using isdelim_cstr [OF assms(1)] by (subst strtok_skip.simps) (auto simp: algebra_simps)
qed

lemma strtok_token_cstr:
  assumes "cstr m d ds" "r = [] \<or> hd r \<in> set ds"
  shows "cstr m p (t @ r) \<Longrightarrow> set t \<inter> set ds = {} \<Longrightarrow> strtok_token p d m =
    (let e = p + of_nat (length t) in if r = [] then Some (m, e) else Some (m(e := 0), e + 1))"
proof (induction t arbitrary: p)
  case Nil
  then show ?case
    using isdelim_cstr [OF assms(1)] assms(2) by (subst strtok_token.simps, cases r) auto
next
  case (Cons c s)
  then show ?case
    using isdelim_cstr [OF assms(1)]
    by (subst strtok_token.simps) (auto simp: Let_def add.assoc simp del: fun_upd_apply)
qed

text \<open>Cutting a string: the part before the cut and the rest behind it.\<close>

lemma cstr_cut_front: "cstr m p (t @ x # r) \<Longrightarrow> cstr (m(p + of_nat (length t) := 0)) p t"
proof (induction t arbitrary: p)
  case (Cons c t)
  have "length (c # t) < 2 ^ 64"
    using cstr_length [OF Cons.prems(1)] by simp
  then have "p \<noteq> p + of_nat (length (c # t))"
    using of_nat_neq_0 [of "length (c # t)"] by simp
  then show ?case
    using Cons.IH [of "p + 1"] Cons.prems by (auto simp: add.assoc)
qed simp

lemma cstr_cut_back:
  assumes "cstr m p (t @ x # r)"
  shows "cstr (m(p + of_nat (length t) := 0)) (p + of_nat (length t) + 1) r"
proof -
  have "cstr m (p + of_nat (length t)) (x # r)"
    using cstr_append [OF assms] .
  then show ?thesis
    using cstr_length [of m "p + of_nat (length t)" "x # r"]
      not_in_block_next [of "Suc (length r)" "p + of_nat (length t)"]
    by (simp add: cstr_upd del: fun_upd_apply)
qed

section \<open>Copying\<close>

lemma strncpy_loop_cstr:
  assumes "cstr m q s" "block p (Suc (length s)) \<inter> block q (Suc (length s)) = {}"
  shows "strncpy_loop n p q m = write_bytes p (take n s @ [0]) m"
  using assms
proof (induction s arbitrary: n p q m)
  case Nil
  then show ?case
    by (cases n) simp_all
next
  case (Cons c s)
  have "p \<notin> block (q + 1) (Suc (length s))"
      "block (p + 1) (Suc (length s)) \<inter> block (q + 1) (Suc (length s)) = {}"
    using Cons.prems(2) block_Suc [of p "Suc (length s)"] block_Suc [of q "Suc (length s)"] by auto
  then show ?case
    using Cons by (cases n) (simp_all add: cstr_upd del: fun_upd_apply)
qed

text \<open>Copying in an order that reads no byte after it was written.\<close>

lemma copy_fold:
  fixes d s :: u64 and m :: mem
  defines "copy \<equiv> (\<lambda>i m. m(d + of_nat i := m (s + of_nat i)))"
  assumes "distinct is" "inj_on (\<lambda>i. d + of_nat i) (set is)"
    and "\<And>xs i ys j. is = xs @ i # ys \<Longrightarrow> j \<in> set xs \<Longrightarrow> s + of_nat i \<noteq> d + of_nat j"
  shows "(\<forall>i \<in> set is. fold copy is m (d + of_nat i) = m (s + of_nat i)) \<and>
    (\<forall>x. x \<notin> (\<lambda>i. d + of_nat i) ` set is \<longrightarrow> fold copy is m x = m x)"
  using assms(2-)
proof (induction "is" rule: rev_induct)
  case (snoc i xs)
  have IH: "(\<forall>j \<in> set xs. fold copy xs m (d + of_nat j) = m (s + of_nat j)) \<and>
    (\<forall>x. x \<notin> (\<lambda>j. d + of_nat j) ` set xs \<longrightarrow> fold copy xs m x = m x)"
    using snoc.prems by (intro snoc.IH) (auto intro: inj_on_subset)
  have "s + of_nat i \<notin> (\<lambda>j. d + of_nat j) ` set xs"
    using snoc.prems(3) [of xs i "[]"] by auto
  moreover have "d + of_nat j \<noteq> d + of_nat i" if "j \<in> set xs" for j
    using that snoc.prems(1,2) by (auto simp: inj_on_def)
  moreover have "copy i M x = (if x = d + of_nat i then M (s + of_nat i) else M x)" for M x
    by (simp add: copy_def)
  ultimately show ?case
    using IH by auto
qed simp

lemma inj_on_offset: "n \<le> 2 ^ 64 \<Longrightarrow> inj_on (\<lambda>i. d + of_nat i :: u64) {..<n}"
  by (rule inj_onI) (auto dest!: arg_cong [where f = unat] simp: unat_of_nat)

lemma unat_offset: "unat (d :: u64) + n \<le> 2 ^ 64 \<Longrightarrow> i < n \<Longrightarrow> unat (d + of_nat i) = unat d + i"
  by (simp add: unat_word_ariths unat_of_nat)

lemma block_disjoint:
  assumes "unat p + n \<le> 2 ^ 64" "unat q + k \<le> 2 ^ 64" "unat p + n \<le> unat q \<or> unat q + k \<le> unat p"
  shows "block p n \<inter> block q k = {}"
  using assms(3) by (auto simp: block_def word_unat_eq_iff unat_offset [OF assms(1)] unat_offset [OF assms(2)])

lemma memmove_copies:
  assumes "unat d + unat n \<le> 2 ^ 64" "unat s + unat n \<le> 2 ^ 64"
  shows "(\<forall>i < unat n. snd (memmove d s n m) (d + of_nat i) = m (s + of_nat i)) \<and>
    (\<forall>x. x \<notin> block d (unat n) \<longrightarrow> snd (memmove d s n m) x = m x)"
proof -
  have inj: "inj_on (\<lambda>i. d + of_nat i) {..<unat n}"
    using unsigned_less [of n, where ?'a = nat] by (intro inj_on_offset) simp
  show ?thesis
  proof (cases "d < s")
    case True
    have "s + of_nat i \<noteq> d + of_nat j" if "[0..<unat n] = xs @ i # ys" "j \<in> set xs" for xs i ys j
    proof -
      have "sorted_wrt (<) (xs @ i # ys)" "set (xs @ i # ys) = {0..<unat n}"
        by (simp_all flip: that(1))
      then have "j < i" "i < unat n"
        using that(2) by (auto simp: sorted_wrt_append)
      then show ?thesis
        using True unat_offset [OF assms(1), of j] unat_offset [OF assms(2), of i]
        by (auto simp: word_unat_eq_iff word_less_nat_alt)
    qed
    then show ?thesis
      using copy_fold [of "[0..<unat n]" d s m] inj True
      by (auto simp: memmove_def block_def lessThan_atLeast0)
  next
    case False
    have "s + of_nat i \<noteq> d + of_nat j" if "rev [0..<unat n] = xs @ i # ys" "j \<in> set xs" for xs i ys j
    proof -
      have "sorted_wrt (>) (xs @ i # ys)" "set (xs @ i # ys) = {0..<unat n}"
        by (simp_all add: sorted_wrt_rev flip: that(1))
      then have "i < j" "j < unat n"
        using that(2) by (auto simp: sorted_wrt_append)
      then show ?thesis
        using False unat_offset [OF assms(1), of j] unat_offset [OF assms(2), of i]
        by (auto simp: word_unat_eq_iff word_less_nat_alt)
    qed
    then show ?thesis
      using copy_fold [of "rev [0..<unat n]" d s m] inj False
      by (auto simp: memmove_def block_def lessThan_atLeast0)
  qed
qed

section \<open>Properties\<close>

text \<open>
  \<^verbatim>\<open>strcpy\<close> into a place that does not meet the source ends, leaves the string at
  both places and changes nothing outside the target; \<^verbatim>\<open>strcmp\<close> of the two is then 0.
\<close>

lemma strcpy_correct:
  assumes "cstr m q s" and "p \<noteq> 0" and "block p (Suc (length s)) \<inter> block q (Suc (length s)) = {}"
  shows "\<exists>m'. strcpy p q m = Some (p, m') \<and> cstr m' p s \<and> cstr m' q s \<and>
    (\<forall>x. x \<notin> block p (Suc (length s)) \<longrightarrow> m' x = m x) \<and> strcmp p q m' = Some 0"
proof -
  let ?m = "write_bytes p (s @ [0]) m"
  have "cstr ?m p s"
    using cstr_write cstr_no_zero [OF assms(1)] cstr_length [OF assms(1)] by simp
  moreover have "cstr ?m q s"
    using assms(1,3) cstr_write_other [of p "s @ [0]" q s m] by simp
  ultimately show ?thesis
    using strcpy_loop_cstr [OF assms(1,3)] strcmp_cstr [of ?m p s q s] assms(2)
    by (auto simp: strcpy_def write_bytes_other)
qed

definition string_example :: mem where
  "string_example = write_bytes 0x1000 [0x61, 0x2F, 0x62, 0x2F, 0x63, 0] (\<lambda>_. 0xFF)"

lemma string_example_cstr: "cstr string_example 0x1000 [0x61, 0x2F, 0x62, 0x2F, 0x63]"
  by (simp add: string_example_def)

lemma strcpy_correct_witness:
  "\<exists>m'. strcpy 0x2000 0x1000 string_example = Some (0x2000, m') \<and>
     cstr m' 0x2000 [0x61, 0x2F, 0x62, 0x2F, 0x63]"
proof -
  have "block 0x2000 (Suc (length [0x61, 0x2F, 0x62, 0x2F, 0x63 :: u8])) \<inter>
      block 0x1000 (Suc (length [0x61, 0x2F, 0x62, 0x2F, 0x63 :: u8])) = {}"
    by (rule block_disjoint) simp_all
  then show ?thesis
    using strcpy_correct [OF string_example_cstr, of "0x2000"] by (auto simp del: cstr.simps)
qed

text \<open>
  \<^verbatim>\<open>strstr\<close> ends on every two strings and finds the first occurrence: the result is
  the null pointer exactly when the needle is not part of the haystack, and otherwise points to
  the first place where the needle begins.
\<close>

lemma strstr_correct:
  assumes "cstr m h xs" and "cstr m n ns"
  shows "(if sublist ns xs
    then \<exists>i. strstr h n m = Some (h + of_nat i) \<and> i \<le> length xs \<and> prefix ns (drop i xs) \<and>
           (\<forall>j < i. \<not> prefix ns (drop j xs))
    else strstr h n m = Some 0)"
proof (cases "find_sub ns xs")
  case None
  then show ?thesis
    using strstr_cstr [OF assms] find_sub_None [of ns xs] by simp
next
  case (Some i)
  then have "sublist ns xs"
    using find_sub_None [of ns xs] by simp
  then show ?thesis
    using strstr_cstr [OF assms] find_sub_Some [OF Some] Some by auto
qed

lemma strstr_correct_witness:
  "\<exists>i. strstr 0x1000 0x1003 string_example = Some (0x1000 + of_nat i) \<and>
     prefix [0x2F, 0x63] (drop i [0x61, 0x2F, 0x62, 0x2F, 0x63 :: u8])"
proof -
  have "cstr string_example 0x1003 [0x2F, 0x63]"
    by (simp add: string_example_def)
  moreover have "sublist [0x2F, 0x63] [0x61, 0x2F, 0x62, 0x2F, 0x63 :: u8]"
    by (simp add: sublist_code)
  ultimately show ?thesis
    using strstr_correct [OF string_example_cstr, of "0x1003" "[0x2F, 0x63]"] by auto
qed

text \<open>
  C35. \<^verbatim>\<open>memmove\<close> equals a simultaneous copy for every overlap of two blocks that do not
  wrap: each target byte gets the old source byte, and no other byte changes.
\<close>

theorem memmove_overlap:
  assumes "unat d + unat n \<le> 2 ^ 64" and "unat s + unat n \<le> 2 ^ 64"
  shows "(\<forall>i < unat n. snd (memmove d s n m) (d + of_nat i) = m (s + of_nat i)) \<and>
    (\<forall>x. x \<notin> block d (unat n) \<longrightarrow> snd (memmove d s n m) x = m x)"
  using memmove_copies [OF assms] .

theorem memmove_overlap_witness:
  "map (\<lambda>i. snd (memmove 0x1002 0x1000 5 string_example) (0x1002 + of_nat i)) [0..<5] =
     map (\<lambda>i. string_example (0x1000 + of_nat i)) [0..<5]"
  using memmove_overlap [of "0x1002" 5 "0x1000" string_example] by simp

text \<open>
  \<^verbatim>\<open>strncpy\<close> writes beyond its bound: for a source of at least \<open>num\<close> characters the
  terminator goes to offset \<open>num\<close>, one byte behind the \<open>num\<close> bytes of the target.
\<close>

lemma strncpy_overruns:
  assumes "cstr m q s" and "p \<noteq> 0" and "block p (Suc (length s)) \<inter> block q (Suc (length s)) = {}"
    and "unat num \<le> length s"
  shows "snd (strncpy p q num m) = write_bytes p (take (unat num) s @ [0]) m \<and>
    snd (strncpy p q num m) (p + num) = 0"
proof -
  have s: "snd (strncpy p q num m) = write_bytes p (take (unat num) s @ [0]) m"
    using strncpy_loop_cstr [OF assms(1,3)] assms(2) by (simp add: strncpy_def)
  have "cstr (write_bytes p (take (unat num) s @ [0]) m) p (take (unat num) s)"
    using cstr_no_zero [OF assms(1)] cstr_length [OF assms(1)]
    by (intro cstr_write) (auto dest: in_set_takeD)
  then show ?thesis
    using cstr_nth assms(4) s by fastforce
qed

lemma strncpy_overruns_witness:
  "snd (strncpy 0x2000 0x1000 3 string_example) 0x2003 = 0"
proof -
  have "block 0x2000 (Suc (length [0x61, 0x2F, 0x62, 0x2F, 0x63 :: u8])) \<inter>
      block 0x1000 (Suc (length [0x61, 0x2F, 0x62, 0x2F, 0x63 :: u8])) = {}"
    by (rule block_disjoint) simp_all
  then show ?thesis
    using strncpy_overruns [OF string_example_cstr, of "0x2000" 3] by simp
qed

text \<open>
  \<^verbatim>\<open>strtok\<close> takes a string apart: when only delimiters are left it returns the null
  pointer; otherwise it ends, returns the place of the first token, terminated in memory, and keeps
  in its static variable the string behind the token's delimiter, so that the next call goes on
  there.
\<close>

lemma strtok_correct:
  assumes "cstr m d ds" and "cstr m p s" and "p \<noteq> 0"
    and "block p (Suc (length s)) \<inter> block d (Suc (length ds)) = {}"
    and "s = skip @ tok @ rest" and "set skip \<subseteq> set ds" and "set tok \<inter> set ds = {}"
    and "tok = [] \<longrightarrow> rest = []" and "rest = [] \<or> hd rest \<in> set ds"
  shows "if tok = [] then strtok p d (m, src1) = Some (0, m, src1)
    else \<exists>m' r. strtok p d (m, src1) = Some (p + of_nat (length skip), m', r) \<and>
           cstr m' (p + of_nat (length skip)) tok \<and> cstr m' r (tl rest) \<and> cstr m' d ds"
proof -
  let ?q = "p + of_nat (length skip)"
  have q: "cstr m ?q (tok @ rest)"
    using assms(2,5) cstr_append by simp
  have skip: "strtok_skip p d m = Some ?q"
    using strtok_skip_cstr [OF assms(1), of "tok @ rest" p skip] assms by (cases tok) auto
  show ?thesis
  proof (cases "tok = []")
    case True
    then show ?thesis
      using q assms(3,8) skip by (simp add: strtok_def)
  next
    case False
    then have nz: "m ?q \<noteq> 0"
      using q by (cases tok) auto
    note tk = strtok_token_cstr [OF assms(1,9) q assms(7)]
    show ?thesis
    proof (cases rest)
      case Nil
      then show ?thesis
        using False nz tk q cstr_append [of m ?q tok "[]"] assms(1,3) skip by (simp add: strtok_def)
    next
      case (Cons x r)
      let ?e = "?q + of_nat (length tok)"
      have "?e \<in> block p (Suc (length s))"
        using assms(5) by (auto simp: block_def image_iff intro!: bexI [of _ "length skip + length tok"])
      then have "cstr (m(?e := 0)) d ds"
        using assms(1,4) by (subst cstr_upd) auto
      then show ?thesis
        using False nz tk q cstr_cut_front [of m ?q tok x r] cstr_cut_back [of m ?q tok x r] assms(3) skip Cons
        by (simp add: strtok_def Let_def)
    qed
  qed
qed

lemma strtok_correct_witness:
  "\<exists>m' r. strtok 0x1001 0x2000 (write_bytes 0x2000 [0x2F, 0] string_example, 0) = Some (0x1002, m', r) \<and>
     cstr m' 0x1002 [0x62] \<and> cstr m' r [0x63] \<and> cstr m' 0x2000 [0x2F]"
proof -
  let ?m = "write_bytes 0x2000 [0x2F, 0] string_example"
  have "cstr ?m 0x2000 [0x2F]" "cstr ?m 0x1001 [0x2F, 0x62, 0x2F, 0x63]"
    by (simp_all add: string_example_def)
  moreover have "0x1001 \<noteq> (0 :: u64)"
    by simp
  moreover have "block 0x1001 (Suc (length [0x2F, 0x62, 0x2F, 0x63 :: u8])) \<inter>
      block 0x2000 (Suc (length [0x2F :: u8])) = {}"
    by (rule block_disjoint) simp_all
  ultimately have "if [0x62 :: u8] = [] then strtok 0x1001 0x2000 (?m, 0) = Some (0, ?m, 0)
    else \<exists>m' r. strtok 0x1001 0x2000 (?m, 0) = Some (0x1001 + of_nat (length [0x2F :: u8]), m', r) \<and>
           cstr m' (0x1001 + of_nat (length [0x2F :: u8])) [0x62] \<and> cstr m' r (tl [0x2F, 0x63]) \<and>
           cstr m' 0x2000 [0x2F]"
    by (rule strtok_correct) simp_all
  then show ?thesis
    by (simp del: cstr.simps write_bytes.simps)
qed

end
