(* ===== verification/Convert.thy ===== *)
theory Convert
  imports C_String "HOL-Library.Signed_Division"
begin

text \<open>
  Numbers and text: \<^verbatim>\<open>src/kernel/libs/converter.cpp\<close> (numbers to decimal and hexadecimal
  strings in static buffers) and \<^verbatim>\<open>src/libc/src/FennixStandardLibrary/convert.c\<close>
  (\<^verbatim>\<open>itoa\<close> and \<^verbatim>\<open>atoi\<close>). A static buffer is the store around its first
  element, indexed by an integer, so that an access outside of the array is visible. The
  properties are round trips: reading the digits gives the number back.
\<close>

section \<open>Decimal numbers in the kernel\<close>

type_synonym buffer = "int \<Rightarrow> u8"

text \<open>The first loop counts the digits but one, the second writes them from the end.\<close>

function size_loop :: "u64 \<Rightarrow> u8 \<Rightarrow> u8" where
  "size_loop SizeTest Sz =
     (if SizeTest div 10 > 0 then size_loop (SizeTest div 10) (Sz + 1) else Sz)"
  by pat_completeness auto
termination
  by (relation "measure (\<lambda>(v, _). unat v)") (auto simp: unat_div word_gt_0 word_unat_eq_iff)

function digit_loop :: "u8 \<Rightarrow> u64 \<Rightarrow> u8 \<Rightarrow> buffer \<Rightarrow> u64 \<times> u8 \<times> buffer" where
  "digit_loop Sz Val Index out =
     (if Val div 10 > 0 then
        let Remainder = ucast (Val mod 10) :: u8
        in digit_loop Sz (Val div 10) (Index + 1) (out(uint Sz - uint Index := Remainder + 0x30))
      else (Val, Index, out))"
  by pat_completeness auto
termination
  by (relation "measure (\<lambda>(_, v, _, _). unat v)") (auto simp: unat_div word_gt_0 word_unat_eq_iff)

definition u64ToString :: "u64 \<Rightarrow> buffer \<Rightarrow> buffer" where
  "u64ToString Val out =
     (let Sz = size_loop Val 0;
          (Val, Index, out) = digit_loop Sz Val 0 out;
          Remainder = ucast (Val mod 10) :: u8;
          out = out(uint Sz - uint Index := Remainder + 0x30)
      in out(uint Sz + 1 := 0))"

text \<open>
  The signed version; \<open>Val / 10\<close> is a signed division, and the negation of the smallest number
  wraps.
\<close>

function sdigit_loop :: "int \<Rightarrow> u8 \<Rightarrow> int \<Rightarrow> u8 \<Rightarrow> buffer \<Rightarrow> int \<times> u8 \<times> buffer" where
  "sdigit_loop IsNegative Sz Val Index out =
     (if Val sdiv 10 > 0 then
        let Remainder = word_of_int (Val smod 10) :: u8
        in sdigit_loop IsNegative Sz (Val sdiv 10) (Index + 1)
             (out(IsNegative + uint Sz - uint Index := Remainder + 0x30))
      else (Val, Index, out))"
  by pat_completeness auto
termination
  by (relation "measure (\<lambda>(_, _, v, _, _). nat v)")
    (auto simp: signed_divide_int_def sgn_if split: if_splits)

definition i64ToString :: "u64 \<Rightarrow> buffer \<Rightarrow> buffer" where
  "i64ToString Val out =
     (let IsNegative = (if Val <s 0 then 1 else 0);
          (Val, out) = (if Val <s 0 then (Val * - 1, out(0 := 0x2D)) else (Val, out));
          Sz = size_loop Val 0;
          (Val, Index, out) = sdigit_loop IsNegative Sz (sint Val) 0 out;
          Remainder = word_of_int (Val smod 10) :: u8;
          out = out(IsNegative + uint Sz - uint Index := Remainder + 0x30)
      in out(IsNegative + uint Sz + 1 := 0))"

section \<open>Hexadecimal numbers in the kernel\<close>

definition hex_char :: "u8 \<Rightarrow> u8" where
  "hex_char Temp = Temp + (if Temp > 9 then 55 else 0x30)"

text \<open>One round writes the two digits of a byte.\<close>

definition hex_round :: "int \<Rightarrow> (nat \<Rightarrow> u8) \<Rightarrow> nat \<Rightarrow> buffer \<Rightarrow> buffer" where
  "hex_round Sz Ptr i out =
     (let Temp = drop_bit 4 (Ptr i AND 0xF0);
          out = out(Sz - (int i * 2 + 1) := hex_char Temp);
          Temp = Ptr i AND 0x0F
      in out(Sz - int i * 2 := hex_char Temp))"

definition u64ToHexString :: "u64 \<Rightarrow> buffer \<Rightarrow> buffer" where
  "u64ToHexString Val out =
     (let Sz = 8 * 2 - 1;
          out = fold (hex_round Sz (\<lambda>i. ucast (drop_bit (8 * i) Val))) [0..<nat (Sz div 2 + 1)] out
      in out(Sz + 1 := 0))"

text \<open>
  The narrower versions run over \<open>Size\<close> bytes although the value has fewer: \<open>beyond\<close> are the
  bytes that follow the value on the stack.
\<close>

definition value_bytes :: "nat \<Rightarrow> u64 \<Rightarrow> (nat \<Rightarrow> u8) \<Rightarrow> nat \<Rightarrow> u8" where
  "value_bytes width Val beyond i = (if i < width then ucast (drop_bit (8 * i) Val) else beyond i)"

definition u32ToHexString :: "u32 \<Rightarrow> (nat \<Rightarrow> u8) \<Rightarrow> buffer \<Rightarrow> buffer" where
  "u32ToHexString Val beyond out =
     (let Sz = 4 * 2 - 1;
          out = fold (hex_round Sz (value_bytes 4 (ucast Val) beyond)) [0..<nat Sz] out
      in out(Sz + 1 := 0))"

definition u16ToHexString :: "u16 \<Rightarrow> (nat \<Rightarrow> u8) \<Rightarrow> buffer \<Rightarrow> buffer" where
  "u16ToHexString Val beyond out =
     (let Sz = 2 * 2 - 1;
          out = fold (hex_round Sz (value_bytes 2 (ucast Val) beyond)) [0..<nat Sz] out
      in out(Sz + 1 := 0))"

definition u8ToHexString :: "u8 \<Rightarrow> (nat \<Rightarrow> u8) \<Rightarrow> buffer \<Rightarrow> buffer" where
  "u8ToHexString Val beyond out =
     (let Sz = 1 * 2 - 1;
          out = fold (hex_round Sz (value_bytes 1 (ucast Val) beyond)) [0..<nat Sz] out
      in out(Sz + 1 := 0))"

section \<open>Numbers in the C library\<close>

text \<open>An \<^verbatim>\<open>int\<close> is the value of its 32 bits; the results of overflows wrap.\<close>

definition wrap_int :: "int \<Rightarrow> int" where
  "wrap_int x = sint (word_of_int x :: u32)"

definition abs_int :: "int \<Rightarrow> int" where
  "abs_int i = (if i < 0 then wrap_int (- i) else i)"

definition swap_bytes :: "u64 \<Rightarrow> u64 \<Rightarrow> mem \<Rightarrow> mem" where
  "swap_bytes x y m = (let t = m x; m = m(x := m y) in m(y := t))"

function reverse_bytes :: "u64 \<Rightarrow> int \<Rightarrow> int \<Rightarrow> mem \<Rightarrow> mem" where
  "reverse_bytes Buffer i j m =
     (if i < j then
        reverse_bytes Buffer (i + 1) (j - 1)
          (swap_bytes (Buffer + word_of_int i) (Buffer + word_of_int j) m)
      else m)"
  by pat_completeness auto
termination
  by (relation "measure (\<lambda>(_, i, j, _). nat (j - i))") auto

text \<open>\<^verbatim>\<open>(String[i - 1] - 48) * Power\<close> is computed in 64 bits.\<close>

primrec atoi_loop :: "nat \<Rightarrow> u64 \<Rightarrow> u64 \<Rightarrow> u64 \<Rightarrow> mem \<Rightarrow> u64" where
  "atoi_loop 0 String OutBuffer Power m = OutBuffer"
| "atoi_loop (Suc i) String OutBuffer Power m =
     atoi_loop i String (OutBuffer + word_of_int (sint (m (String + of_nat i)) - 48) * Power)
       (Power * 10) m"

definition atoi :: "u64 \<Rightarrow> mem \<Rightarrow> int option" where
  "atoi String m =
     map_option (\<lambda>Length. sint (ucast (atoi_loop (unat Length) String 0 1 m) :: u32)) (strlen String m)"

function itoa_loop :: "int \<Rightarrow> int \<Rightarrow> int \<Rightarrow> u64 \<Rightarrow> mem \<Rightarrow> int \<times> mem" where
  "itoa_loop n Base i Buffer m =
     (if n \<noteq> 0 \<and> 2 \<le> Base then
        let r = n smod Base
        in itoa_loop (n sdiv Base) Base (i + 1) Buffer
             (m(Buffer + word_of_int i := word_of_int (if r \<ge> 10 then 65 + (r - 10) else 48 + r)))
      else (i, m))"
  by pat_completeness auto
termination
proof (relation "measure (\<lambda>(n, _). nat \<bar>n\<bar>)", goal_cases)
  case (2 n Base i Buffer m x)
  then have "\<bar>n\<bar> div Base < \<bar>n\<bar>"
    by (intro int_div_less_self) auto
  moreover have "0 \<le> \<bar>n\<bar> div Base"
    using 2 by (simp add: pos_imp_zdiv_nonneg_iff)
  then have "\<bar>n sdiv Base\<bar> = \<bar>n\<bar> div Base"
    using 2 by (simp add: signed_divide_int_def abs_mult sgn_if)
  ultimately show ?case
    using 2 by simp
qed simp

definition itoa :: "int \<Rightarrow> u64 \<Rightarrow> int \<Rightarrow> mem \<Rightarrow> u64 \<times> mem" where
  "itoa Val Buffer Base m =
     (if Base < 2 \<or> Base > 32 then (Buffer, m)
      else
        let n = abs_int Val;
            (i, m) = itoa_loop n Base 0 Buffer m;
            (i, m) = (if i = 0 then (i + 1, m(Buffer + word_of_int i := 0x30)) else (i, m));
            (i, m) = (if Val < 0 \<and> Base = 10 then (i + 1, m(Buffer + word_of_int i := 0x2D)) else (i, m));
            m = m(Buffer + word_of_int i := 0)
        in (Buffer, reverse_bytes Buffer 0 (i - 1) m))"

declare size_loop.simps [simp del] digit_loop.simps [simp del] sdigit_loop.simps [simp del]
  reverse_bytes.simps [simp del] itoa_loop.simps [simp del]

section \<open>Digits\<close>

fun dec :: "nat \<Rightarrow> nat list" where
  "dec n = (if n < 10 then [n] else dec (n div 10) @ [n mod 10])"

definition dec_value :: "nat list \<Rightarrow> nat" where
  "dec_value ds = foldl (\<lambda>a d. 10 * a + d) 0 ds"

declare dec.simps [simp del]

lemma dec_value_dec [simp]: "dec_value (dec n) = n"
  by (induction n rule: dec.induct) (subst dec.simps, simp add: dec_value_def)

lemma dec_digits: "d \<in> set (dec n) \<Longrightarrow> d < 10"
  by (induction n rule: dec.induct) (subst (asm) dec.simps, auto split: if_splits)

lemma dec_nonempty: "0 < length (dec n)"
  by (subst dec.simps) simp

lemma length_dec_le: "n < 10 ^ Suc k \<Longrightarrow> length (dec n) \<le> Suc k"
proof (induction k arbitrary: n)
  case 0
  then show ?case
    by (subst dec.simps) simp
next
  case (Suc k)
  then have "length (dec (n div 10)) \<le> Suc k"
    by (simp add: div_less_iff_less_mult mult.commute)
  then show ?case
    by (subst dec.simps) simp
qed

lemma length_dec_u64: "length (dec (unat (v :: u64))) \<le> 20"
  using length_dec_le [of "unat v" 19] unsigned_less [of v, where ?'a = nat] by simp

lemma u64_div_10: "0 < v div 10 \<longleftrightarrow> 10 \<le> unat (v :: u64)"
  by (simp add: word_gt_0 word_unat_eq_iff unat_div div_greater_zero_iff)

lemma size_loop_dec: "size_loop v s = s + of_nat (length (dec (unat v)) - 1)"
proof (induction v s rule: size_loop.induct)
  case (1 v s)
  show ?case
  proof (cases "10 \<le> unat v")
    case True
    then show ?thesis
      using 1 dec_nonempty [of "unat v div 10"]
      by (subst size_loop.simps, subst dec.simps) (simp add: u64_div_10 unat_div of_nat_diff)
  next
    case False
    then show ?thesis
      by (subst size_loop.simps, subst dec.simps) (simp add: u64_div_10)
  qed
qed

lemma digit_loop_dec:
  assumes "uint Sz = uint Index + int (length (dec (unat v)) - 1)"
  shows "\<exists>v' I' out'. digit_loop Sz v Index out = (v', I', out') \<and>
    out'(uint Sz - uint I' := ucast (v' mod 10) + 0x30) =
      (\<lambda>k. if 0 \<le> k \<and> k < int (length (dec (unat v)))
           then of_nat (dec (unat v) ! nat k) + 0x30 else out k)"
  using assms
proof (induction Sz v Index out rule: digit_loop.induct)
  case (1 Sz v Index out)
  show ?case
  proof (cases "10 \<le> unat v")
    case True
    let ?ds = "dec (unat (v div 10))"
    have d: "dec (unat v) = ?ds @ [unat v mod 10]"
      using True by (subst dec.simps) (simp add: unat_div)
    have sz: "uint Sz = uint Index + int (length ?ds)" "uint Sz < 256" "0 < length ?ds"
      using 1(2) uint_lt2p [of Sz] dec_nonempty by (simp_all add: d)
    then have "uint Index + 1 < 256"
      by linarith
    then have "uint (Index + 1) = uint Index + 1"
      by (simp add: uint_word_ariths)
    then have "uint Sz = uint (Index + 1) + int (length ?ds - 1)"
      using sz by (cases "length ?ds") simp_all
    moreover have "0 < v div 10"
      using True by (simp add: u64_div_10)
    ultimately obtain v' I' out' where IH: "digit_loop Sz (v div 10) (Index + 1)
          (out(uint Sz - uint Index := ucast (v mod 10) + 0x30)) = (v', I', out')"
        "out'(uint Sz - uint I' := ucast (v' mod 10) + 0x30) =
          (\<lambda>k. if 0 \<le> k \<and> k < int (length ?ds) then of_nat (?ds ! nat k) + 0x30
               else (out(uint Sz - uint Index := ucast (v mod 10) + 0x30)) k)"
      using 1(1) [OF _ refl] by blast
    have loop: "digit_loop Sz v Index out = (v', I', out')"
      using True IH(1) by (subst digit_loop.simps) (simp add: u64_div_10)
    have "ucast (v mod 10) = (of_nat (unat v mod 10) :: u8)"
      using of_nat_unat [of "v mod 10", where ?'a = "8 word"] unfolding unat_mod by simp
    then have "(\<lambda>k. if 0 \<le> k \<and> k < int (length ?ds) then of_nat (?ds ! nat k) + 0x30
          else (out(uint Sz - uint Index := ucast (v mod 10) + 0x30)) k) =
        (\<lambda>k. if 0 \<le> k \<and> k < int (length (dec (unat v)))
          then of_nat (dec (unat v) ! nat k) + 0x30 else out k)"
      using sz(1) by (auto simp: fun_eq_iff d nth_append)
    then show ?thesis
      by (intro exI [of _ v'] exI [of _ I'] exI [of _ out'] conjI loop) (simp only: IH(2))
  next
    case False
    then have d: "dec (unat v) = [unat v]"
      by (subst dec.simps) simp
    have "v mod 10 = v"
      using False by (simp add: word_unat_eq_iff unat_mod)
    moreover have "digit_loop Sz v Index out = (v, Index, out)"
      using False by (subst digit_loop.simps) (simp add: u64_div_10)
    ultimately show ?thesis
      using 1(2) by (auto simp: d fun_eq_iff)
  qed
qed

lemma u64ToString_dec:
  "u64ToString v out = (\<lambda>k. if k = int (length (dec (unat v))) then 0
     else if 0 \<le> k \<and> k < int (length (dec (unat v))) then of_nat (dec (unat v) ! nat k) + 0x30 else out k)"
proof -
  let ?L = "length (dec (unat v))"
  have "unat (of_nat (?L - 1) :: u8) = ?L - 1"
    using length_dec_u64 [of v] by (simp add: unat_of_nat)
  then have sz: "uint (size_loop v 0) = int (?L - 1)"
    by (simp add: size_loop_dec uint_nat)
  then obtain v' I' out' where "digit_loop (size_loop v 0) v 0 out = (v', I', out')"
    "out'(int (?L - 1) - uint I' := ucast (v' mod 10) + 0x30) =
      (\<lambda>k. if 0 \<le> k \<and> k < int ?L then of_nat (dec (unat v) ! nat k) + 0x30 else out k)"
    using digit_loop_dec [of "size_loop v 0" 0 v out] by auto
  then show ?thesis
    using sz dec_nonempty [of "unat v"]
    by (simp add: u64ToString_def of_nat_diff fun_eq_iff)
qed

lemma hex_round_at:
  "hex_round Sz Ptr i out k =
     (if k = Sz - int i * 2 then hex_char (Ptr i AND 0x0F)
      else if k = Sz - (int i * 2 + 1) then hex_char (drop_bit 4 (Ptr i AND 0xF0)) else out k)"
  by (simp add: hex_round_def Let_def)

lemma nibbles:
  "drop_bit 4 (ucast (drop_bit n v :: u64) AND 0xF0 :: u8) = ucast (drop_bit (n + 4) v AND 0xF)"
  "(ucast (drop_bit n v :: u64) :: u8) AND 0xF = ucast (drop_bit n v AND 0xF)"
proof -
  have m: "(0xF0 :: u8) = push_bit 4 (mask 4)" "(0xF :: u8) = mask 4" "(0xF :: u64) = mask 4"
    by (simp_all add: mask_eq_exp_minus_1 push_bit_eq_mult)
  show "drop_bit 4 (ucast (drop_bit n v :: u64) AND 0xF0 :: u8) = ucast (drop_bit (n + 4) v AND 0xF)"
    "(ucast (drop_bit n v :: u64) :: u8) AND 0xF = ucast (drop_bit n v AND 0xF)"
    unfolding m by (rule bit_word_eqI; auto simp: bit_simps ac_simps)+
qed

lemma hex_fold_at:
  "fold (hex_round Sz Ptr) [0..<n] out k =
     (let i = nat ((Sz - k) div 2)
      in if k \<le> Sz \<and> i < n
         then hex_char (if (Sz - k) mod 2 = 0 then Ptr i AND 0x0F else drop_bit 4 (Ptr i AND 0xF0))
         else out k)"
  by (induction n) (auto simp: hex_round_at Let_def)

lemma hex_nibble:
  assumes "k \<le> S"
  shows "(let i = nat ((int S - int k) div 2); Ptr = (\<lambda>i. ucast (drop_bit (8 * i) (v :: u64)) :: u8)
     in if (int S - int k) mod 2 = 0 then Ptr i AND 0x0F else drop_bit 4 (Ptr i AND 0xF0)) =
     ucast (drop_bit (4 * (S - k)) v AND 0xF)"
proof -
  obtain d where d: "S - k = d" "int S - int k = int d"
    using assms by (simp add: of_nat_diff)
  have e: "int d mod 2 = int (d mod 2)" "nat (int d div 2) = d div 2"
    by (simp_all add: zmod_int nat_div_distrib)
  show ?thesis
  proof (cases "even d")
    case True
    then have eq: "8 * (d div 2) = 4 * d" and "int (d mod 2) = 0"
      using even_two_times_div_two [OF True] by (linarith, simp)
    then show ?thesis
      unfolding d Let_def e nibbles eq by simp
  next
    case False
    then have eq: "8 * (d div 2) + 4 = 4 * d" and "int (d mod 2) \<noteq> 0"
      using odd_two_times_div_two_succ [OF False] by (linarith, simp add: odd_iff_mod_2_eq_one)
    then show ?thesis
      unfolding d Let_def e nibbles eq by simp
  qed
qed

section \<open>In-place reversal\<close>

lemma offset_eq_iff:
  assumes "0 \<le> s" "s < 2 ^ 64" "0 \<le> t" "t < 2 ^ 64"
  shows "(B :: u64) + word_of_int s = B + word_of_int t \<longleftrightarrow> s = t"
proof -
  have "B + word_of_int s = B + word_of_int t \<longleftrightarrow> (word_of_int s :: u64) = word_of_int t"
    by (rule add_left_cancel)
  then show ?thesis
    using assms by (simp add: word_uint_eq_iff uint_word_of_int_eq take_bit_int_eq_self)
qed

lemma reverse_bytes_at:
  "0 \<le> i \<Longrightarrow> j < 2 ^ 64 \<Longrightarrow> 0 \<le> t \<Longrightarrow> t < 2 ^ 64 \<Longrightarrow>
   reverse_bytes B i j m (B + word_of_int t) =
     (if i \<le> t \<and> t \<le> j then m (B + word_of_int (i + j - t)) else m (B + word_of_int t))"
proof (induction B i j m rule: reverse_bytes.induct)
  case (1 B i j m)
  show ?case
  proof (cases "i < j")
    case True
    let ?m = "swap_bytes (B + word_of_int i) (B + word_of_int j) m"
    have m: "?m (B + word_of_int s) =
        (if s = j then m (B + word_of_int i) else if s = i then m (B + word_of_int j)
         else m (B + word_of_int s))" if "0 \<le> s" "s < 2 ^ 64" for s
      using that 1(2-) True offset_eq_iff [of s i B] offset_eq_iff [of s j B] by (simp add: swap_bytes_def)
    have "reverse_bytes B i j m = reverse_bytes B (i + 1) (j - 1) ?m"
      using True by (subst reverse_bytes.simps) simp
    then show ?thesis
      using 1 True m [of t] m [of "i + j - t"] by auto
  next
    case False
    then have "reverse_bytes B i j m = m"
      by (subst reverse_bytes.simps) simp
    moreover have "i = t \<and> j = t" if "i \<le> t \<and> t \<le> j"
      using that False by auto
    ultimately show ?thesis
      by auto
  qed
qed

lemma cstrI:
  "0 \<notin> set s \<Longrightarrow> (\<And>k. k < length s \<Longrightarrow> m (p + of_nat k) = s ! k) \<Longrightarrow> m (p + of_nat (length s)) = 0 \<Longrightarrow>
   cstr m p s"
proof (induction s arbitrary: p)
  case (Cons c s)
  have "m (p + 1 + of_nat k) = s ! k" if "k < length s" for k
    using Cons.prems(2) [of "Suc k"] that by (simp add: add.assoc)
  then show ?case
    using Cons.IH [of "p + 1"] Cons.prems(1,3) Cons.prems(2) [of 0] by (simp add: add.assoc)
qed simp

section \<open>Digits written backwards\<close>

definition dec_chars :: "nat \<Rightarrow> u8 list" where
  "dec_chars n = map (\<lambda>d. of_nat d + 0x30) (dec n)"

lemma digit_char: "d < 10 \<Longrightarrow> (word_of_int (48 + int d) :: u8) = of_nat d + 0x30"
  by simp

lemma sint_digit_char: "d < 10 \<Longrightarrow> sint (of_nat d + 0x30 :: u8) - 48 = int d"
proof -
  assume "d < 10"
  then have "d \<in> {0, 1, 2, 3, 4, 5, 6, 7, 8, 9}"
    by auto
  then show ?thesis
    by auto
qed

lemma digit_char_nonzero: "d < 10 \<Longrightarrow> (of_nat d + 0x30 :: u8) \<noteq> 0"
  using sint_digit_char [of d] by auto

lemma dec_chars_nonzero: "0 \<notin> set (dec_chars n)"
  using digit_char_nonzero dec_digits by (fastforce simp: dec_chars_def)

text \<open>The loop of \<^verbatim>\<open>itoa\<close> writes the digits from the last to the first.\<close>

lemma itoa_loop_dec:
  assumes "0 < n" "0 \<le> i" "i + int (length (dec (nat n))) < 2 ^ 64"
  shows "\<exists>m'. itoa_loop n 10 i B m = (i + int (length (dec (nat n))), m') \<and>
    (\<forall>t. 0 \<le> t \<longrightarrow> t < 2 ^ 64 \<longrightarrow> m' (B + word_of_int t) =
      (if i \<le> t \<and> t < i + int (length (dec (nat n)))
       then rev (dec_chars (nat n)) ! nat (t - i) else m (B + word_of_int t)))"
  using assms
proof (induction n "10 :: int" i B m rule: itoa_loop.induct)
  case (1 n i B m)
  let ?c = "word_of_int (48 + n smod 10) :: u8" and ?L = "length (dec (nat n))"
  have n: "n sdiv 10 = n div 10" "n smod 10 = n mod 10"
    using 1(2) by (simp_all add: signed_divide_int_def signed_modulo_int_def)
  have lt: "\<not> 10 \<le> n mod 10"
    using pos_mod_bound [of 10 n] by linarith
  then have step: "itoa_loop n 10 i B m = itoa_loop (n div 10) 10 (i + 1) B (m(B + word_of_int i := ?c))"
    using 1(2) by (subst itoa_loop.simps) (simp add: n Let_def)
  have "n mod 10 = int (nat n mod 10)"
    using 1(2) by (simp add: zmod_int)
  then have c: "?c = of_nat (nat n mod 10) + 0x30"
    unfolding n by (simp only:) (rule digit_char, simp)
  have upd: "(m(B + word_of_int i := ?c)) (B + word_of_int t) = (if t = i then ?c else m (B + word_of_int t))"
    if "0 \<le> t" "t < 2 ^ 64" for t
    using that 1(3,4) offset_eq_iff [of t i B] by simp
  show ?case
  proof (cases "n < 10")
    case True
    then have dn: "dec (nat n) = [nat n]"
      by (subst dec.simps) simp
    then have d: "dec_chars (nat n) = [?c]" "?L = 1"
      using True 1(2) by (simp_all add: dec_chars_def n)
    have "itoa_loop (n div 10) 10 (i + 1) B (m(B + word_of_int i := ?c)) = (i + 1, m(B + word_of_int i := ?c))"
      using True 1(2) by (subst itoa_loop.simps) simp
    then show ?thesis
      unfolding step d using upd by auto
  next
    case False
    let ?M = "length (dec (nat (n div 10)))"
    have "dec (nat n) = dec (nat (n div 10)) @ [nat n mod 10]"
      using False by (subst dec.simps) (simp add: nat_div_distrib)
    then have d: "dec_chars (nat n) = dec_chars (nat (n div 10)) @ [?c]" "?L = ?M + 1"
      unfolding c by (simp_all add: dec_chars_def)
    obtain m' where m': "itoa_loop (n div 10) 10 (i + 1) B (m(B + word_of_int i := ?c)) = (i + 1 + int ?M, m')"
        "\<forall>t. 0 \<le> t \<longrightarrow> t < 2 ^ 64 \<longrightarrow> m' (B + word_of_int t) =
          (if i + 1 \<le> t \<and> t < i + 1 + int ?M then rev (dec_chars (nat (n div 10))) ! nat (t - (i + 1))
           else (m(B + word_of_int i := ?c)) (B + word_of_int t))"
      using 1(1) [OF _ refl, unfolded n if_not_P [OF lt]] 1(2-4) False d(2) pos_imp_zdiv_pos_iff [of 10 n]
      unfolding n by auto
    have "m' (B + word_of_int t) = (if i \<le> t \<and> t < i + int ?L
        then rev (dec_chars (nat n)) ! nat (t - i) else m (B + word_of_int t))" if "0 \<le> t" "t < 2 ^ 64" for t
    proof -
      have "nat (t - (i + 1)) = nat (t - i) - 1"
        by arith
      then show ?thesis
        using m'(2) that upd [OF that] by (auto simp: d nth_Cons')
    qed
    then show ?thesis
      unfolding step m'(1) by (simp add: d)
  qed
qed

lemma atoi_loop_value:
  assumes "\<And>k. k < n \<Longrightarrow> ds ! k < 10 \<and> m (p + of_nat k) = of_nat (ds ! k) + 0x30" "n \<le> length ds"
  shows "atoi_loop n p out pow m = out + pow * of_nat (dec_value (take n ds))"
  using assms
proof (induction n arbitrary: out pow)
  case (Suc n)
  have "dec_value (take (Suc n) ds) = 10 * dec_value (take n ds) + ds ! n"
    using Suc.prems(2) by (simp add: take_Suc_conv_app_nth dec_value_def)
  moreover have "word_of_int (sint (m (p + of_nat n)) - 48) = (of_nat (ds ! n) :: u64)"
    using Suc.prems(1) [of n] sint_digit_char [of "ds ! n"] by simp
  ultimately show ?case
    using Suc by (simp add: algebra_simps)
qed (simp add: dec_value_def)

lemma atoi_dec:
  assumes "cstr m p (dec_chars n)" "n < 2 ^ 31"
  shows "atoi p m = Some (int n)"
proof -
  have len: "length (dec n) < 2 ^ 64"
    using cstr_length [OF assms(1)] by (simp add: dec_chars_def)
  have "atoi_loop (length (dec n)) p 0 1 m = of_nat n"
    using cstr_nth [OF assms(1)] dec_digits [OF nth_mem] 
    by (subst atoi_loop_value [where ds = "dec n"]) (auto simp: dec_chars_def)
  moreover have "sint (ucast (of_nat n :: u64) :: u32) = int n"
    using assms(2)
    by (simp add: unsigned_of_nat take_bit_nat_eq_self signed_of_nat signed_take_bit_int_eq_self)
  ultimately show ?thesis
    using strlen_cstr [OF assms(1)] len by (simp add: atoi_def dec_chars_def unat_of_nat)
qed

lemma itoa_dec:
  assumes "0 \<le> n" "n < 2 ^ 31"
  shows "cstr (snd (itoa n B 10 m)) B (dec_chars (nat n))"
proof -
  let ?L = "length (dec (nat n))" and ?cs = "dec_chars (nat n)"
  have L: "0 < ?L" "?L \<le> 10" "length ?cs = ?L"
    using length_dec_le [of "nat n" 9] assms dec_nonempty by (auto simp: dec_chars_def)
  obtain m' where m': "itoa n B 10 m = (B, reverse_bytes B 0 (int ?L - 1) (m'(B + word_of_int (int ?L) := 0)))"
    "\<And>t. 0 \<le> t \<Longrightarrow> t < int ?L \<Longrightarrow> m' (B + word_of_int t) = rev ?cs ! nat t"
  proof (cases "n = 0")
    case True
    then have "?cs = [0x30]"
      by (simp add: dec_chars_def) (subst dec.simps, simp)
    moreover have "itoa_loop 0 10 0 B m = (0, m)"
      by (subst itoa_loop.simps) simp
    moreover have "(m(B := 0x30)) (B + word_of_int t) = 0x30" if "0 \<le> t" "t < 1" for t
    proof -
      have "t = 0"
        using that by simp
      then show ?thesis
        by simp
    qed
    ultimately show ?thesis
      using True L(3) [symmetric] by (intro that [of "m(B := 0x30)"]) (simp_all add: itoa_def abs_int_def)
  next
    case False
    then obtain m' where "itoa_loop n 10 0 B m = (int ?L, m')"
        "\<forall>t. 0 \<le> t \<longrightarrow> t < 2 ^ 64 \<longrightarrow> m' (B + word_of_int t) =
          (if 0 \<le> t \<and> t < int ?L then rev ?cs ! nat t else m (B + word_of_int t))"
      using itoa_loop_dec [of n 0 B m] assms L by auto
    then show ?thesis
      using False assms L that [of m'] by (simp add: itoa_def abs_int_def)
  qed
  let ?r = "reverse_bytes B 0 (int ?L - 1) (m'(B + word_of_int (int ?L) := 0))"
  have "?r (B + word_of_int (int k)) = ?cs ! k" if "k < ?L" for k
  proof -
    have e: "0 + (int ?L - 1) - int k = int (?L - 1 - k)"
      using that by simp
    have "B + word_of_int (int (?L - 1 - k)) \<noteq> B + word_of_int (int ?L)"
      using that L offset_eq_iff [of "int (?L - 1 - k)" "int ?L" B] by simp
    then have "?r (B + word_of_int (int k)) = m' (B + word_of_int (int (?L - 1 - k)))"
      using reverse_bytes_at [of 0 "int ?L - 1" "int k" B] that L unfolding e by simp
    also have "\<dots> = rev ?cs ! nat (int (?L - 1 - k))"
      using that by (intro m'(2)) simp_all
    also have "\<dots> = rev ?cs ! (?L - 1 - k)"
      by (simp only: nat_int)
    finally show ?thesis
      using that L(3) by (simp add: rev_nth)
  qed
  moreover have "?r (B + word_of_int (int ?L)) = 0"
    using reverse_bytes_at [of 0 "int ?L - 1" "int ?L" B] L by simp
  ultimately show ?thesis
    using L dec_chars_nonzero by (auto intro!: cstrI simp: m'(1))
qed

section \<open>Properties\<close>

text \<open>
  The kernel's decimal conversion is a round trip: \<^verbatim>\<open>u64ToString\<close> leaves at the
  start of its buffer at most 20 digits and a terminator, the digits denote the number, and the
  rest of the buffer is as before.
\<close>

lemma u64ToString_roundtrip:
  "\<exists>ds. 0 < length ds \<and> length ds \<le> 20 \<and> (\<forall>d. d \<in> set ds \<longrightarrow> d < 10) \<and> dec_value ds = unat v \<and>
     (\<forall>k. u64ToString v out k =
        (if k = int (length ds) then 0
         else if 0 \<le> k \<and> k < int (length ds) then of_nat (ds ! nat k) + 0x30 else out k))"
  using u64ToString_dec [of v out] dec_nonempty [of "unat v"] length_dec_u64 [of v]
    dec_digits [of _ "unat v"] dec_value_dec [of "unat v"]
  by (intro exI [of _ "dec (unat v)"]) simp

lemma u64ToString_roundtrip_witness:
  "\<exists>ds. dec_value ds = 4096 \<and> (\<forall>d. d \<in> set ds \<longrightarrow> d < 10) \<and> u64ToString 4096 (\<lambda>_. 0) (int (length ds)) = 0"
  using u64ToString_roundtrip [of 4096 "\<lambda>_. 0"] by auto

text \<open>
  The C library's conversions agree: \<^verbatim>\<open>atoi\<close> reads back every number from 0 to
  \<open>2 ^ 31 - 1\<close> that \<^verbatim>\<open>itoa\<close> wrote in base 10.
\<close>

lemma atoi_itoa_roundtrip:
  assumes "0 \<le> n" and "n < 2 ^ 31"
  shows "atoi B (snd (itoa n B 10 m)) = Some n"
  using atoi_dec [OF itoa_dec [OF assms]] assms by simp

lemma atoi_itoa_roundtrip_witness: "atoi 0x1000 (snd (itoa 1907 0x1000 10 (\<lambda>_. 0xAA))) = Some 1907"
  by (rule atoi_itoa_roundtrip) simp_all

text \<open>
  \<^verbatim>\<open>u64ToHexString\<close> writes the 16 hexadecimal digits of the value, most significant
  first; \<^verbatim>\<open>u32ToHexString\<close> writes its 8 digits but also the six cells before its buffer, with
  digits of the three bytes that follow the value on the stack.
\<close>

lemma hex_conversion:
  "(\<forall>k < 16. u64ToHexString v out (int k) = hex_char (ucast (drop_bit (4 * (15 - k)) v AND 0xF))) \<and>
   u64ToHexString v out 16 = 0 \<and>
   (\<forall>k < 8. u32ToHexString w beyond out (int k) = hex_char (ucast (drop_bit (4 * (7 - k)) (ucast w :: u64) AND 0xF))) \<and>
   (\<forall>k < 3. u32ToHexString w beyond out (- 1 - 2 * int k) = hex_char (beyond (4 + k) AND 0xF) \<and>
      u32ToHexString w beyond out (- 2 - 2 * int k) = hex_char (drop_bit 4 (beyond (4 + k) AND 0xF0)))"
proof (intro conjI allI impI)
  fix k :: nat
  show "u64ToHexString v out (int k) = hex_char (ucast (drop_bit (4 * (15 - k)) v AND 0xF))" if "k < 16"
  proof -
    have "nat ((15 - int k) div 2) < 8"
      using that by linarith
    then show ?thesis
      using that hex_nibble [of k 15 v] by (simp add: u64ToHexString_def hex_fold_at Let_def)
  qed
  show "u32ToHexString w beyond out (int k) = hex_char (ucast (drop_bit (4 * (7 - k)) (ucast w :: u64) AND 0xF))"
    if "k < 8"
  proof -
    have "nat ((7 - int k) div 2) < 4"
      using that by linarith
    then show ?thesis
      using that hex_nibble [of k 7 "ucast w"]
      by (auto simp: u32ToHexString_def hex_fold_at Let_def value_bytes_def split: if_splits)
  qed
  show "u32ToHexString w beyond out (- 1 - 2 * int k) = hex_char (beyond (4 + k) AND 0xF)"
    "u32ToHexString w beyond out (- 2 - 2 * int k) = hex_char (drop_bit 4 (beyond (4 + k) AND 0xF0))" if "k < 3"
  proof -
    have "nat (4 + int k) = 4 + k" "nat (int k + 4) = 4 + k"
      by linarith+
    then show "u32ToHexString w beyond out (- 1 - 2 * int k) = hex_char (beyond (4 + k) AND 0xF)"
      "u32ToHexString w beyond out (- 2 - 2 * int k) = hex_char (drop_bit 4 (beyond (4 + k) AND 0xF0))"
      using that by (simp_all add: u32ToHexString_def hex_fold_at Let_def value_bytes_def)
  qed
qed (simp add: u64ToHexString_def)

lemma hex_conversion_witness:
  "u64ToHexString 0xA5 (\<lambda>_. 0) 15 = hex_char (ucast (drop_bit 0 (0xA5 :: u64) AND 0xF)) \<and>
   u32ToHexString 7 (\<lambda>_. 0x41) (\<lambda>_. 0) (- 1) = hex_char (0x41 AND 0xF)"
proof -
  have "(15 :: nat) < 16" "(0 :: nat) < 3"
    by simp_all
  then have "u64ToHexString 0xA5 (\<lambda>_. 0) (int 15) = hex_char (ucast (drop_bit (4 * (15 - 15)) (0xA5 :: u64) AND 0xF))"
    "u32ToHexString 7 (\<lambda>_. 0x41) (\<lambda>_. 0) (- 1 - 2 * int 0) = hex_char (0x41 AND 0xF)"
    using hex_conversion [of "0xA5" "\<lambda>_. 0" 7 "\<lambda>_. 0x41"] by blast+
  then show ?thesis
    by simp
qed

end
