(* ===== verification/Containers.thy ===== *)
theory Containers
  imports Kernel_Prelude
begin

text \<open>
  The containers of the kernel: the growable array of \<^verbatim>\<open>src/kernel/include/vector.hpp\<close> and the
  hash table of \<^verbatim>\<open>src/kernel/include/hashmap.hpp\<close>, with the interfaces their clients rely on
  (locales \<open>sequence\<close> and \<open>table\<close>). A buffer is the store that follows its first element, so that
  an access behind the array is visible; what freshly allocated memory holds is a parameter.
\<close>

section \<open>The growable array\<close>

text \<open>
  \<open>VectorAlloc\<close> is not a member of the class: it is the number of elements of the last
  \<^verbatim>\<open>new T[n]\<close>, which only the heap knows. For a null pointer the buffer is the memory at
  address 0.
\<close>

record 'a Vector =
  VectorSize :: u64
  VectorCapacity :: u64
  VectorBuffer :: "u64 \<Rightarrow> 'a"
  VectorNull :: bool
  VectorAlloc :: u64

definition Vector_empty :: "(u64 \<Rightarrow> 'a) \<Rightarrow> 'a Vector" where
  "Vector_empty null = \<lparr>VectorSize = 0, VectorCapacity = 0, VectorBuffer = null, VectorNull = True,
     VectorAlloc = 0\<rparr>"

definition Vector_sized :: "u64 \<Rightarrow> (u64 \<Rightarrow> 'a) \<Rightarrow> 'a Vector" where
  "Vector_sized Sz fresh = \<lparr>VectorSize = Sz, VectorCapacity = Sz, VectorBuffer = fresh,
     VectorNull = False, VectorAlloc = Sz\<rparr>"

definition Vector_filled :: "u64 \<Rightarrow> 'a \<Rightarrow> (u64 \<Rightarrow> 'a) \<Rightarrow> 'a Vector" where
  "Vector_filled Sz Initial fresh =
     (Vector_sized Sz fresh)\<lparr>VectorBuffer :=
        fold (\<lambda>i b. b(of_nat i := Initial)) [0..<unat Sz] fresh\<rparr>"

text \<open>The copying loop of the copy constructor, of the assignment and of \<^verbatim>\<open>reserve\<close>.\<close>

definition copy_elements :: "nat \<Rightarrow> (u64 \<Rightarrow> 'a) \<Rightarrow> (u64 \<Rightarrow> 'a) \<Rightarrow> u64 \<Rightarrow> 'a" where
  "copy_elements n source target = fold (\<lambda>i b. b(of_nat i := source (of_nat i))) [0..<n] target"

definition Vector_copy :: "'a Vector \<Rightarrow> (u64 \<Rightarrow> 'a) \<Rightarrow> 'a Vector" where
  "Vector_copy v fresh = \<lparr>VectorSize = VectorSize v, VectorCapacity = VectorCapacity v,
     VectorBuffer = copy_elements (unat (VectorSize v)) (VectorBuffer v) fresh,
     VectorNull = False, VectorAlloc = VectorSize v\<rparr>"

definition Vector_assign :: "'a Vector \<Rightarrow> 'a Vector \<Rightarrow> (u64 \<Rightarrow> 'a) \<Rightarrow> 'a Vector" where
  "Vector_assign this v fresh = this\<lparr>VectorSize := VectorSize v, VectorCapacity := VectorCapacity v,
     VectorBuffer := copy_elements (unat (VectorSize v)) (VectorBuffer v) fresh,
     VectorNull := False, VectorAlloc := VectorSize v\<rparr>"

text \<open>The loop of \<^verbatim>\<open>remove\<close>: \<open>n\<close> elements from \<open>Position\<close> on take the value behind them.\<close>

definition shift_elements :: "u64 \<Rightarrow> nat \<Rightarrow> (u64 \<Rightarrow> 'a) \<Rightarrow> u64 \<Rightarrow> 'a" where
  "shift_elements Position n b =
     fold (\<lambda>i b. b(Position + of_nat i := b (Position + of_nat i + 1))) [0..<n] b"

text \<open>\<open>zero\<close> is the element whose bytes are all 0.\<close>

definition Vector_remove :: "'a \<Rightarrow> u64 \<Rightarrow> 'a Vector \<Rightarrow> 'a Vector" where
  "Vector_remove zero Position v =
     (if Position \<ge> VectorSize v then v
      else
        let b = (VectorBuffer v)(Position := zero);
            b = shift_elements Position (unat (VectorSize v - 1)) b
        in v\<lparr>VectorBuffer := b, VectorSize := VectorSize v - 1\<rparr>)"

definition Vector_at :: "'a Vector \<Rightarrow> u64 \<Rightarrow> 'a" where
  "Vector_at v Index = VectorBuffer v Index"

definition Vector_front :: "'a Vector \<Rightarrow> 'a" where
  "Vector_front v = VectorBuffer v 0"

definition Vector_back :: "'a Vector \<Rightarrow> 'a" where
  "Vector_back v = VectorBuffer v (VectorSize v - 1)"

definition Vector_reserve :: "u64 \<Rightarrow> (u64 \<Rightarrow> 'a) \<Rightarrow> 'a Vector \<Rightarrow> 'a Vector" where
  "Vector_reserve Capacity fresh v =
     (let v = (if VectorNull v then v\<lparr>VectorSize := 0, VectorCapacity := 0\<rparr> else v);
          Sz = (if Capacity < VectorSize v then Capacity else VectorSize v);
          Newbuffer = copy_elements (unat Sz) (VectorBuffer v) fresh
      in v\<lparr>VectorCapacity := Capacity, VectorBuffer := Newbuffer, VectorNull := False,
           VectorAlloc := Capacity\<rparr>)"

definition Vector_resize :: "u64 \<Rightarrow> (u64 \<Rightarrow> 'a) \<Rightarrow> 'a Vector \<Rightarrow> 'a Vector" where
  "Vector_resize Sz fresh v = (Vector_reserve Sz fresh v)\<lparr>VectorSize := Sz\<rparr>"

definition Vector_push_back :: "'a \<Rightarrow> (u64 \<Rightarrow> 'a) \<Rightarrow> 'a Vector \<Rightarrow> 'a Vector" where
  "Vector_push_back Val fresh v =
     (let v = (if VectorSize v \<ge> VectorCapacity v then Vector_reserve (VectorCapacity v + 5) fresh v else v)
      in v\<lparr>VectorBuffer := (VectorBuffer v)(VectorSize v := Val), VectorSize := VectorSize v + 1\<rparr>)"

definition Vector_pop_back :: "'a Vector \<Rightarrow> 'a Vector" where
  "Vector_pop_back v = v\<lparr>VectorSize := VectorSize v - 1\<rparr>"

function reverse_loop :: "u64 \<Rightarrow> u64 \<Rightarrow> (u64 \<Rightarrow> 'a) \<Rightarrow> u64 \<Rightarrow> 'a" where
  "reverse_loop i j b =
     (if i < j then reverse_loop (i + 1) (j - 1) (b(i := b j, j := b i)) else b)"
  by pat_completeness auto
termination
  by (relation "measure (\<lambda>(i, j, _). unat j - unat i)") (simp, unat_arith)

definition Vector_reverse :: "'a Vector \<Rightarrow> 'a Vector" where
  "Vector_reverse v =
     (if VectorSize v \<le> 1 then v
      else v\<lparr>VectorBuffer := reverse_loop 0 (VectorSize v - 1) (VectorBuffer v)\<rparr>)"

text \<open>\<^verbatim>\<open>clear\<close> forgets the buffer without freeing it.\<close>

definition Vector_clear :: "(u64 \<Rightarrow> 'a) \<Rightarrow> 'a Vector \<Rightarrow> 'a Vector" where
  "Vector_clear null v = v\<lparr>VectorCapacity := 0, VectorSize := 0, VectorBuffer := null, VectorNull := True,
     VectorAlloc := 0\<rparr>"

section \<open>The array as a list\<close>

definition contents :: "'a Vector \<Rightarrow> 'a list" where
  "contents v = map (\<lambda>i. VectorBuffer v (of_nat i)) [0..<unat (VectorSize v)]"

text \<open>The elements fit the capacity, and the capacity fits the allocation.\<close>

definition vec_ok :: "'a Vector \<Rightarrow> bool" where
  "vec_ok v \<longleftrightarrow> VectorSize v \<le> VectorCapacity v \<and> VectorCapacity v \<le> VectorAlloc v \<and>
     (VectorNull v \<longrightarrow> VectorCapacity v = 0)"

definition vec_room :: "'a Vector \<Rightarrow> bool" where
  "vec_room v \<longleftrightarrow> unat (VectorCapacity v) + 5 < 2 ^ 64"

lemma length_contents [simp]: "length (contents v) = unat (VectorSize v)"
  by (simp add: contents_def)

lemma nth_contents: "i < unat (VectorSize v) \<Longrightarrow> contents v ! i = VectorBuffer v (of_nat i)"
  by (simp add: contents_def)

lemma contents_eqI:
  assumes "unat (VectorSize v) = length xs" "\<And>i. i < length xs \<Longrightarrow> VectorBuffer v (of_nat i) = xs ! i"
  shows "contents v = xs"
  using assms by (intro nth_equalityI) (simp_all add: nth_contents)

lemma of_nat_eq_u64: "i < 2 ^ 64 \<Longrightarrow> j < 2 ^ 64 \<Longrightarrow> (of_nat i :: u64) = of_nat j \<longleftrightarrow> i = j"
  by (simp add: word_unat_eq_iff unat_of_nat)

lemma copy_elements_at:
  "n \<le> 2 ^ 64 \<Longrightarrow> copy_elements n s t x = (if unat x < n then s x else t x)"
proof (induction n)
  case (Suc n)
  have "x = of_nat n \<longleftrightarrow> unat x = n"
    using Suc.prems by (auto simp: word_unat_eq_iff unat_of_nat)
  moreover have "copy_elements (Suc n) s t = (copy_elements n s t)(of_nat n := s (of_nat n))"
    by (simp add: copy_elements_def)
  ultimately show ?case
    using Suc by (auto simp: less_Suc_eq)
qed (simp add: copy_elements_def)

lemma copy_elements_size: "copy_elements (unat (n :: u64)) s t x = (if unat x < unat n then s x else t x)"
  using copy_elements_at [of "unat n" s t x] unsigned_less [of n, where ?'a = nat] by simp

lemma contents_copy: "contents (Vector_copy v fresh) = contents v"
  by (rule contents_eqI)
    (simp_all add: Vector_copy_def copy_elements_size nth_contents of_nat_unat_less)

lemma contents_assign: "contents (Vector_assign this v fresh) = contents v"
  by (rule contents_eqI)
    (simp_all add: Vector_assign_def copy_elements_size nth_contents of_nat_unat_less)

lemma contents_reserve:
  assumes "vec_ok v" "VectorSize v \<le> c"
  shows "contents (Vector_reserve c fresh v) = contents v" "vec_ok (Vector_reserve c fresh v)"
    "VectorSize (Vector_reserve c fresh v) = VectorSize v" "VectorCapacity (Vector_reserve c fresh v) = c"
  using assms
  by (auto intro!: contents_eqI simp: Vector_reserve_def Let_def vec_ok_def copy_elements_size nth_contents
      of_nat_unat_less not_less)

lemma push_back_contents:
  assumes "vec_ok v" "vec_room v"
  shows "contents (Vector_push_back x fresh v) = contents v @ [x]" "vec_ok (Vector_push_back x fresh v)"
proof -
  define w where "w = (if VectorSize v \<ge> VectorCapacity v then Vector_reserve (VectorCapacity v + 5) fresh v else v)"
  have c: "unat (VectorCapacity v + 5) = unat (VectorCapacity v) + 5"
    using assms(2) by (simp add: vec_room_def unat_word_ariths)
  then have "VectorSize v \<le> VectorCapacity v + 5"
    using assms(1) by (simp add: vec_ok_def word_le_nat_alt)
  note r = contents_reserve [OF assms(1) this, of fresh]
  have w: "contents w = contents v" "vec_ok w" "VectorSize w = VectorSize v" "VectorSize w < VectorCapacity w"
    using r assms(1) c by (auto simp: w_def vec_ok_def word_le_nat_alt word_less_nat_alt)
  have n: "unat (VectorSize w + 1) = unat (VectorSize w) + 1"
    using u64_less_Suc [OF w(4)] by simp
  have p: "Vector_push_back x fresh v =
      w\<lparr>VectorBuffer := (VectorBuffer w)(VectorSize w := x), VectorSize := VectorSize w + 1\<rparr>"
    by (simp only: Vector_push_back_def w_def Let_def)
  have "VectorBuffer (Vector_push_back x fresh v) (of_nat i) = (contents w @ [x]) ! i"
    if "i < unat (VectorSize w) + 1" for i
  proof (cases "i = unat (VectorSize w)")
    case False
    then have "i < unat (VectorSize w)"
      using that by simp
    moreover from this have "of_nat i \<noteq> VectorSize w"
      by (simp add: word_unat_eq_iff of_nat_unat_less)
    ultimately show ?thesis
      by (simp add: p nth_append nth_contents)
  qed (simp add: p nth_append)
  then show "contents (Vector_push_back x fresh v) = contents v @ [x]"
    using n by (intro contents_eqI) (simp_all add: p flip: w(1))
  show "vec_ok (Vector_push_back x fresh v)"
    using w(2,4) n by (auto simp: p vec_ok_def word_le_nat_alt word_less_nat_alt)
qed

text \<open>Shifting one element at a time, upwards from \<open>p\<close>.\<close>

lemma shift_elements_at:
  assumes "unat p + n < 2 ^ 64"
  shows "shift_elements p n b x =
    (if unat p \<le> unat x \<and> unat x < unat p + n then b (x + 1) else b x)"
  using assms
proof (induction n arbitrary: x)
  case (Suc n)
  have p: "unat (p + of_nat n) = unat p + n" "unat (p + of_nat n + 1) = unat p + n + 1"
    using Suc.prems by (simp_all add: unat_word_ariths unat_of_nat)
  then have "x = p + of_nat n \<longleftrightarrow> unat x = unat p + n"
    by (auto simp: word_unat_eq_iff)
  moreover have "shift_elements p (Suc n) b =
      (shift_elements p n b)(p + of_nat n := shift_elements p n b (p + of_nat n + 1))"
    by (simp add: shift_elements_def)
  ultimately show ?case
    using Suc p by auto
qed (auto simp: shift_elements_def)

lemma remove_contents:
  assumes "vec_ok v" "unat i < length (contents v)" "unat i + unat (VectorSize v) < 2 ^ 64"
  shows "contents (Vector_remove zero i v) = take (unat i) (contents v) @ drop (Suc (unat i)) (contents v)"
    "vec_ok (Vector_remove zero i v)"
proof -
  let ?n = "unat (VectorSize v)"
  have n: "unat (VectorSize v - 1) = ?n - 1" "i < VectorSize v" "0 < ?n"
    using assms(2) by (simp_all add: unat_sub word_le_nat_alt word_less_nat_alt Suc_le_eq)
  let ?b = "(VectorBuffer v)(i := zero)"
  have "unat i + (?n - 1) < 2 ^ 64"
    using assms(3) by simp
  note sh = shift_elements_at [OF this, of ?b]
  have r: "Vector_remove zero i v = v\<lparr>VectorBuffer :=
      shift_elements i (?n - 1) ?b, VectorSize := VectorSize v - 1\<rparr>"
    using n by (simp add: Vector_remove_def Let_def not_le)
  have "VectorBuffer (Vector_remove zero i v) (of_nat j) =
      (take (unat i) (contents v) @ drop (Suc (unat i)) (contents v)) ! j" if "j < ?n - 1" for j
  proof -
    have j: "unat (of_nat j :: u64) = j" "unat (of_nat (Suc j) :: u64) = Suc j"
      using that of_nat_unat_less [of j "VectorSize v"] of_nat_unat_less [of "Suc j" "VectorSize v"] by simp_all
    then have "(of_nat j :: u64) + 1 \<noteq> i" if "unat i \<le> j"
      using that by (auto simp: word_unat_eq_iff add.commute)
    moreover have "(of_nat j :: u64) \<noteq> i" if "j < unat i"
      using that j by (auto simp: word_unat_eq_iff)
    ultimately show ?thesis
      using that assms(2) j(1)
      by (auto simp: r sh [unfolded One_nat_def] nth_append nth_contents min_absorb2 add.commute)
  qed
  then show "contents (Vector_remove zero i v) = take (unat i) (contents v) @ drop (Suc (unat i)) (contents v)"
    using n assms(2) by (intro contents_eqI) (simp_all add: r min_absorb2)
  show "vec_ok (Vector_remove zero i v)"
    using assms(1) n by (auto simp: r vec_ok_def word_le_nat_alt)
qed

text \<open>What the two operations write: \<^verbatim>\<open>push_back\<close> one cell, \<^verbatim>\<open>remove\<close> a run of cells that does not end at the last element.\<close>

lemma push_back_outside:
  assumes "vec_ok v" "vec_room v" "VectorAlloc (Vector_push_back x fresh v) \<le> j"
  shows "VectorBuffer (Vector_push_back x fresh v) j =
    (if VectorSize v \<ge> VectorCapacity v then fresh j else VectorBuffer v j)"
proof -
  have c: "unat (VectorCapacity v + 5) = unat (VectorCapacity v) + 5"
    using assms(2) by (simp add: vec_room_def unat_word_ariths)
  have u: "unat (VectorSize v) \<le> unat (VectorCapacity v)" "unat (VectorCapacity v) \<le> unat (VectorAlloc v)"
    using assms(1) by (simp_all add: vec_ok_def word_le_nat_alt)
  show ?thesis
  proof (cases "VectorSize v \<ge> VectorCapacity v")
    case True
    then have "unat (VectorSize v) < unat j" "\<not> VectorCapacity v + 5 < VectorSize v" "VectorNull v \<Longrightarrow> VectorSize v = 0"
      using assms(1,3) c u by (auto simp: Vector_push_back_def Vector_reserve_def Let_def vec_ok_def word_le_nat_alt
          word_less_nat_alt word_unat_eq_iff)
    then show ?thesis
      using True by (auto simp: Vector_push_back_def Vector_reserve_def Let_def copy_elements_size)
  next
    case False
    then have "unat (VectorSize v) < unat j"
      using assms(3) u by (simp add: Vector_push_back_def word_le_nat_alt)
    then show ?thesis
      using False by (auto simp: Vector_push_back_def)
  qed
qed

lemma remove_cells:
  assumes "i < VectorSize v" "unat i + unat (VectorSize v) < 2 ^ 64"
  shows "VectorBuffer (Vector_remove zero i v) j =
    (if unat i \<le> unat j \<and> unat j < unat i + (unat (VectorSize v) - 1) then VectorBuffer v (j + 1)
     else if j = i then zero else VectorBuffer v j)"
proof -
  have n: "unat (VectorSize v - 1) = unat (VectorSize v) - 1"
    using assms(1) by (simp add: unat_sub word_le_nat_alt word_less_nat_alt Suc_le_eq)
  have "unat i + (unat (VectorSize v) - 1) < 2 ^ 64"
    using assms(2) by simp
  note sh = shift_elements_at [OF this, of "(VectorBuffer v)(i := zero)" j]
  have "j + 1 \<noteq> i" if "unat i \<le> unat j" "unat j < unat i + (unat (VectorSize v) - 1)"
    using that assms(2) by (auto dest!: arg_cong [of _ _ unat] simp: unat_word_ariths)
  moreover have "VectorBuffer (Vector_remove zero i v) j =
      shift_elements i (unat (VectorSize v) - 1) ((VectorBuffer v)(i := zero)) j"
    using assms(1) by (simp add: Vector_remove_def Let_def n flip: not_less)
  ultimately show ?thesis
    unfolding sh by auto
qed

declare reverse_loop.simps [simp del]

lemma reverse_loop_at:
  "unat j < 2 ^ 64 - 1 \<Longrightarrow> reverse_loop i j b x =
     (if unat i \<le> unat x \<and> unat x \<le> unat j then b (i + j - x) else b x)"
proof (induction i j b rule: reverse_loop.induct)
  case (1 i j b)
  show ?case
  proof (cases "i < j")
    case True
    have ij: "unat (i + 1) = unat i + 1" "unat (j - 1) = unat j - 1" "unat i < unat j"
      using True by unat_arith+
    define b' where "b' = b(i := b j, j := b i)"
    have b': "b' y = (if y = j then b i else if y = i then b j else b y)" for y
      by (simp add: b'_def)
    have "reverse_loop i j b = reverse_loop (i + 1) (j - 1) b'"
      using True by (subst reverse_loop.simps) (simp add: b'_def)
    moreover have "reverse_loop (i + 1) (j - 1) b' x =
        (if unat (i + 1) \<le> unat x \<and> unat x \<le> unat (j - 1) then b' (i + 1 + (j - 1) - x) else b' x)"
      unfolding b'_def using 1(2) ij(2) by (intro 1(1) True) simp
    moreover have "i + 1 + (j - 1) - x = i + j - x"
      by simp
    moreover have "i + j - x = i \<longleftrightarrow> x = j" "i + j - x = j \<longleftrightarrow> x = i"
      by (auto simp: algebra_simps)
    moreover have "x = i \<longleftrightarrow> unat x = unat i" "x = j \<longleftrightarrow> unat x = unat j"
      by (simp_all add: word_unat_eq_iff)
    ultimately show ?thesis
      using ij by (auto simp: b')
  next
    case False
    then have "i + j - x = x" if "unat i \<le> unat x" "unat x \<le> unat j"
    proof -
      have "i = x" "j = x"
        using that False by (simp_all add: word_unat_eq_iff word_less_nat_alt)
      then show ?thesis
        by simp
    qed
    then show ?thesis
      using False by (subst reverse_loop.simps) auto
  qed
qed

lemma reverse_contents: "contents (Vector_reverse v) = rev (contents v)"
proof (cases "VectorSize v \<le> 1")
  case True
  then have "unat (VectorSize v) = 0 \<or> unat (VectorSize v) = 1"
    by (auto simp: word_le_nat_alt)
  then have "rev (contents v) = contents v"
    by (auto simp: contents_def)
  then show ?thesis
    using True by (simp add: Vector_reverse_def)
next
  case False
  let ?n = "unat (VectorSize v)"
  have n: "unat (VectorSize v - 1) = ?n - 1" "1 < ?n"
    using False by (simp_all add: unat_sub word_le_nat_alt not_le)
  have "reverse_loop 0 (VectorSize v - 1) (VectorBuffer v) (of_nat i) = rev (contents v) ! i" if "i < ?n" for i
  proof -
    have "unat (of_nat i :: u64) = i" "i \<le> ?n - 1"
      using that by (simp_all add: of_nat_unat_less)
    then show ?thesis
      using that n reverse_loop_at [of "VectorSize v - 1" 0 "VectorBuffer v" "of_nat i"]
        unsigned_less [of "VectorSize v", where ?'a = nat]
      by (simp add: rev_nth nth_contents of_nat_diff diff_diff_add)
  qed
  then show ?thesis
    using False by (intro contents_eqI) (simp_all add: Vector_reverse_def)
qed

section \<open>What a client of the array relies on\<close>

locale sequence =
  fixes elems :: "'s \<Rightarrow> 'a list"
    and ok :: "'s \<Rightarrow> bool"
    and room :: "'s \<Rightarrow> bool"
    and count :: "'s \<Rightarrow> u64"
    and get_at :: "'s \<Rightarrow> u64 \<Rightarrow> 'a"
    and push :: "'a \<Rightarrow> 's \<Rightarrow> 's"
  assumes count_elems: "ok s \<Longrightarrow> unat (count s) = length (elems s)"
    and get_at_elems: "ok s \<Longrightarrow> i < length (elems s) \<Longrightarrow> get_at s (of_nat i) = elems s ! i"
    and push_elems: "ok s \<Longrightarrow> room s \<Longrightarrow> elems (push x s) = elems s @ [x]"
    and push_ok: "ok s \<Longrightarrow> room s \<Longrightarrow> ok (push x s)"
begin

text \<open>Searching after an insertion: the old elements come first.\<close>

lemma find_push:
  "ok s \<Longrightarrow> room s \<Longrightarrow> find P (elems (push x s)) =
     (case find P (elems s) of Some y \<Rightarrow> Some y | None \<Rightarrow> if P x then Some x else None)"
  by (simp add: push_elems split: option.split)

lemma find_push_fresh:
  "ok s \<Longrightarrow> room s \<Longrightarrow> (\<And>y. y \<in> set (elems s) \<Longrightarrow> \<not> P y) \<Longrightarrow> P x \<Longrightarrow> find P (elems (push x s)) = Some x"
  using find_None_iff [of P "elems s"] by (auto simp: find_push)

text \<open>A loop over the indices sees the elements.\<close>

lemma elems_by_index: "ok s \<Longrightarrow> map (\<lambda>i. get_at s (of_nat i)) [0..<unat (count s)] = elems s"
  by (rule nth_equalityI) (simp_all add: count_elems get_at_elems)

end

interpretation vec: sequence contents vec_ok vec_room VectorSize Vector_at "\<lambda>x. Vector_push_back x fresh" for fresh
  by unfold_locales (simp_all add: push_back_contents nth_contents Vector_at_def)

section \<open>The hash table\<close>

text \<open>
  The instance of the kernel: keys are \<^verbatim>\<open>IPCPort\<close> (\<^verbatim>\<open>unsigned int\<close>), values
  are \<^verbatim>\<open>uint64_t\<close>. A deleted entry points to the dummy node with key and value \<open>-1\<close>.
\<close>

record HashMap =
  HashMapSize :: u32
  Nodes :: "nat \<Rightarrow> (u32 \<times> u64) option"

abbreviation HashMapCapacity :: nat where
  "HashMapCapacity \<equiv> 20"

definition DummyNode :: "u32 \<times> u64" where
  "DummyNode = (- 1, - 1)"

definition HashMap_empty :: HashMap where
  "HashMap_empty = \<lparr>HashMapSize = 0, Nodes = (\<lambda>_. None)\<rparr>"

definition HashCode :: "u32 \<Rightarrow> nat" where
  "HashCode Key = unat Key mod HashMapCapacity"

text \<open>The probing loop of \<^verbatim>\<open>AddNode\<close>; it does not end when no slot is left.\<close>

partial_function (option) AddNode_probe :: "(nat \<Rightarrow> (u32 \<times> u64) option) \<Rightarrow> u32 \<Rightarrow> nat \<Rightarrow> nat option" where
  "AddNode_probe nodes Key Index =
     (case nodes Index of
        None \<Rightarrow> Some Index
      | Some (k, v) \<Rightarrow>
          if k \<noteq> Key \<and> k \<noteq> - 1 then AddNode_probe nodes Key ((Index + 1) mod HashMapCapacity)
          else Some Index)"

definition AddNode :: "u32 \<Rightarrow> u64 \<Rightarrow> HashMap \<Rightarrow> HashMap option" where
  "AddNode Key Val h =
     map_option (\<lambda>Index.
       let h = (if Nodes h Index = None \<or> map_option fst (Nodes h Index) = Some (- 1)
                then h\<lparr>HashMapSize := HashMapSize h + 1\<rparr> else h)
       in h\<lparr>Nodes := (Nodes h)(Index := Some (Key, Val))\<rparr>)
       (AddNode_probe (Nodes h) Key (HashCode Key))"

partial_function (option) DeleteNode_probe :: "HashMap \<Rightarrow> u32 \<Rightarrow> nat \<Rightarrow> (u64 option \<times> HashMap) option" where
  "DeleteNode_probe h Key Index =
     (case Nodes h Index of
        None \<Rightarrow> Some (None, h)
      | Some (k, v) \<Rightarrow>
          if k = Key then
            Some (Some v, h\<lparr>Nodes := (Nodes h)(Index := Some DummyNode), HashMapSize := HashMapSize h - 1\<rparr>)
          else DeleteNode_probe h Key ((Index + 1) mod HashMapCapacity))"

definition DeleteNode :: "u32 \<Rightarrow> HashMap \<Rightarrow> (u64 option \<times> HashMap) option" where
  "DeleteNode Key h = DeleteNode_probe h Key (HashCode Key)"

function Get_loop :: "(nat \<Rightarrow> (u32 \<times> u64) option) \<Rightarrow> u32 \<Rightarrow> nat \<Rightarrow> nat \<Rightarrow> u64" where
  "Get_loop nodes Key Index Iterate =
     (case nodes Index of
        None \<Rightarrow> 0
      | Some (k, v) \<Rightarrow>
          if Iterate > HashMapCapacity then 0
          else if k = Key then v
          else Get_loop nodes Key ((Index + 1) mod HashMapCapacity) (Iterate + 1))"
  by pat_completeness auto
termination
  by (relation "measure (\<lambda>(_, _, _, i). 22 - i)") auto

definition Get :: "u32 \<Rightarrow> HashMap \<Rightarrow> u64" where
  "Get Key h = Get_loop (Nodes h) Key (HashCode Key) 0"

declare Get_loop.simps [simp del]

section \<open>Probing\<close>

definition slot :: "u32 \<Rightarrow> nat \<Rightarrow> nat" where
  "slot Key d = (HashCode Key + d) mod HashMapCapacity"

lemma slot_0: "HashCode Key = slot Key 0"
  by (simp add: slot_def HashCode_def)

lemma slot_Suc: "(slot Key d + 1) mod HashMapCapacity = slot Key (Suc d)"
  by (simp add: slot_def mod_simps)

lemma slot_less: "slot Key d < 20"
  by (simp add: slot_def)

lemma probe_slot_inj:
  assumes "d < 20" "e < 20" "slot Key d = slot Key e"
  shows "d = e"
proof -
  have "HashCode Key < 20"
    by (simp add: HashCode_def)
  then show ?thesis
    using assms by (auto simp: slot_def mod_if [of "_ + _"] split: if_splits)
qed

lemma slot_reaches: "i < 20 \<Longrightarrow> \<exists>d < 20. slot Key d = i"
proof -
  assume i: "i < 20"
  have "HashCode Key < 20"
    by (simp add: HashCode_def)
  then have "slot Key ((i + 20 - HashCode Key) mod 20) = i"
    using i by (simp add: slot_def mod_simps)
  then show ?thesis
    by (intro exI [of _ "(i + 20 - HashCode Key) mod 20"]) simp
qed

text \<open>The place where \<^verbatim>\<open>AddNode\<close> stops and where \<^verbatim>\<open>Get\<close> stops.\<close>

definition add_stop :: "(nat \<Rightarrow> (u32 \<times> u64) option) \<Rightarrow> u32 \<Rightarrow> nat \<Rightarrow> bool" where
  "add_stop nodes Key i = (case nodes i of None \<Rightarrow> True | Some (k, v) \<Rightarrow> k = Key \<or> k = - 1)"

definition get_stop :: "(nat \<Rightarrow> (u32 \<times> u64) option) \<Rightarrow> u32 \<Rightarrow> nat \<Rightarrow> bool" where
  "get_stop nodes Key i = (case nodes i of None \<Rightarrow> True | Some (k, v) \<Rightarrow> k = Key)"

lemma AddNode_probe_first:
  assumes "\<And>c. e \<le> c \<Longrightarrow> c < d \<Longrightarrow> \<not> add_stop nodes Key (slot Key c)" "add_stop nodes Key (slot Key d)" "e \<le> d"
  shows "AddNode_probe nodes Key (slot Key e) = Some (slot Key d)"
  using assms(3,1)
proof (induction "d - e" arbitrary: e)
  case 0
  then show ?case
    using assms(2) by (subst AddNode_probe.simps) (auto simp: add_stop_def split: option.splits)
next
  case (Suc n)
  then have "AddNode_probe nodes Key (slot Key (Suc e)) = Some (slot Key d)"
    by (intro Suc.hyps(1)) simp_all
  moreover have "\<not> add_stop nodes Key (slot Key e)"
    using Suc by simp
  ultimately show ?case
    by (subst AddNode_probe.simps)
      (auto simp: add_stop_def slot_Suc [unfolded Suc_eq_plus1 [symmetric]] split: option.splits)
qed

lemma Get_loop_step:
  "\<not> get_stop nodes Key (slot Key e) \<Longrightarrow> e \<le> 20 \<Longrightarrow>
   Get_loop nodes Key (slot Key e) e = Get_loop nodes Key (slot Key (Suc e)) (Suc e)"
  using slot_Suc [of Key e] by (subst Get_loop.simps) (auto simp: get_stop_def split: option.splits)

lemma Get_loop_first:
  assumes "\<And>c. e \<le> c \<Longrightarrow> c < d \<Longrightarrow> \<not> get_stop nodes Key (slot Key c)" "get_stop nodes Key (slot Key d)"
    "e \<le> d" "d \<le> 20"
  shows "Get_loop nodes Key (slot Key e) e = (case nodes (slot Key d) of None \<Rightarrow> 0 | Some (k, v) \<Rightarrow> v)"
  using assms(3,1)
proof (induction "d - e" arbitrary: e)
  case 0
  then show ?case
    using assms(2,4) by (subst Get_loop.simps) (auto simp: get_stop_def split: option.splits)
next
  case (Suc n)
  then have "Get_loop nodes Key (slot Key (Suc e)) (Suc e) = (case nodes (slot Key d) of None \<Rightarrow> 0 | Some (k, v) \<Rightarrow> v)"
    by (intro Suc.hyps(1)) simp_all
  then show ?case
    using Get_loop_step [of nodes Key e] Suc assms(4) by simp
qed

lemma Get_loop_never:
  assumes "\<And>c. e \<le> c \<Longrightarrow> c \<le> 20 \<Longrightarrow> \<not> get_stop nodes Key (slot Key c)" "e \<le> 21"
  shows "Get_loop nodes Key (slot Key e) e = 0"
  using assms(2,1)
proof (induction "21 - e" arbitrary: e)
  case 0
  then show ?case
    by (subst Get_loop.simps) (simp split: option.splits)
next
  case (Suc n)
  then have "Get_loop nodes Key (slot Key (Suc e)) (Suc e) = 0"
    by (intro Suc.hyps(1)) simp_all
  then show ?case
    using Get_loop_step [of nodes Key e] Suc by simp
qed

text \<open>\<^verbatim>\<open>Get\<close> in terms of the first place where it stops.\<close>

lemma Get_cases:
  obtains (found) d where "d < 20" "get_stop (Nodes h) Key (slot Key d)"
      "\<And>c. c < d \<Longrightarrow> \<not> get_stop (Nodes h) Key (slot Key c)"
      "Get Key h = (case Nodes h (slot Key d) of None \<Rightarrow> 0 | Some (k, v) \<Rightarrow> v)"
    | (none) "\<And>c. \<not> get_stop (Nodes h) Key (slot Key c)" "Get Key h = 0"
proof (cases "\<exists>d < 20. get_stop (Nodes h) Key (slot Key d)")
  case True
  define d where "d = (LEAST d. get_stop (Nodes h) Key (slot Key d))"
  from True have "get_stop (Nodes h) Key (slot Key d)" "d < 20"
    unfolding d_def by (auto intro: LeastI le_less_trans [OF Least_le])
  moreover have "\<not> get_stop (Nodes h) Key (slot Key c)" if "c < d" for c
    using that not_less_Least unfolding d_def by blast
  ultimately show ?thesis
    using found Get_loop_first [of 0 d "Nodes h" Key] by (simp add: Get_def slot_0)
next
  case False
  have "slot Key c = slot Key (c mod 20)" for c
    by (simp add: slot_def mod_simps)
  then have "\<not> get_stop (Nodes h) Key (slot Key c)" for c
    using False by (metis mod_less_divisor zero_less_numeral)
  then show ?thesis
    using none Get_loop_never [of 0 "Nodes h" Key] by (simp add: Get_def slot_0)
qed

text \<open>No entry stands behind a hole of its probe sequence.\<close>

definition chain_ok :: "HashMap \<Rightarrow> bool" where
  "chain_ok h \<longleftrightarrow> (\<forall>d < 20. \<forall>Key v. Key \<noteq> - 1 \<longrightarrow> Nodes h (slot Key d) = Some (Key, v) \<longrightarrow>
     (\<forall>e < d. Nodes h (slot Key e) \<noteq> None))"

definition has_hole :: "HashMap \<Rightarrow> bool" where
  "has_hole h \<longleftrightarrow> (\<exists>i < 20. Nodes h i = None)"

text \<open>Where \<^verbatim>\<open>AddNode\<close> puts the entry.\<close>

lemma AddNode_place:
  assumes "has_hole h"
  obtains d where "d < 20" "add_stop (Nodes h) Key (slot Key d)"
    "\<And>c. c < d \<Longrightarrow> \<not> add_stop (Nodes h) Key (slot Key c)"
    "\<exists>n. AddNode Key Val h = Some (h\<lparr>HashMapSize := n, Nodes := (Nodes h)(slot Key d := Some (Key, Val))\<rparr>)"
proof -
  obtain i where "i < 20" "Nodes h i = None"
    using assms by (auto simp: has_hole_def)
  then obtain c where "c < 20" "add_stop (Nodes h) Key (slot Key c)"
    using slot_reaches [of i Key] by (auto simp: add_stop_def)
  define d where "d = (LEAST d. add_stop (Nodes h) Key (slot Key d))"
  from \<open>c < 20\<close> \<open>add_stop (Nodes h) Key (slot Key c)\<close>
  have d: "add_stop (Nodes h) Key (slot Key d)" "d < 20"
    unfolding d_def by (auto intro: LeastI le_less_trans [OF Least_le])
  moreover have first: "\<not> add_stop (Nodes h) Key (slot Key c)" if "c < d" for c
    using that not_less_Least unfolding d_def by blast
  moreover have "AddNode_probe (Nodes h) Key (HashCode Key) = Some (slot Key d)"
    using AddNode_probe_first [of 0 d "Nodes h" Key] first d(1) by (simp add: slot_0)
  then have "\<exists>n. AddNode Key Val h = Some (h\<lparr>HashMapSize := n, Nodes := (Nodes h)(slot Key d := Some (Key, Val))\<rparr>)"
    by (cases h) (auto simp: AddNode_def)
  ultimately show ?thesis
    using that by blast
qed

lemma AddNode_result:
  assumes "has_hole h" "AddNode Key Val h = Some h'"
  obtains d n where "d < 20" "add_stop (Nodes h) Key (slot Key d)"
    "\<And>c. c < d \<Longrightarrow> \<not> add_stop (Nodes h) Key (slot Key c)"
    "h' = h\<lparr>HashMapSize := n, Nodes := (Nodes h)(slot Key d := Some (Key, Val))\<rparr>"
  by (rule AddNode_place [OF assms(1), of Key Val]) (use assms(2) that in auto)

lemma AddNode_same:
  assumes "has_hole h" "AddNode Key Val h = Some h'"
  shows "Get Key h' = Val"
proof -
  obtain d n where d: "d < 20" "\<And>c. c < d \<Longrightarrow> \<not> add_stop (Nodes h) Key (slot Key c)"
    "h' = h\<lparr>HashMapSize := n, Nodes := (Nodes h)(slot Key d := Some (Key, Val))\<rparr>"
    using AddNode_result [OF assms] by blast
  have "\<not> get_stop (Nodes h') Key (slot Key c)" if "c < d" for c
  proof -
    have "slot Key c \<noteq> slot Key d"
      using probe_slot_inj [of c d Key] that d(1) by auto
    then show ?thesis
      using d(2) [OF that] by (auto simp: d(3) add_stop_def get_stop_def split: option.splits)
  qed
  moreover have "get_stop (Nodes h') Key (slot Key d)"
    by (simp add: d(3) get_stop_def)
  ultimately show ?thesis
    using Get_loop_first [of 0 d "Nodes h'" Key] d(1) by (simp add: Get_def slot_0 d(3))
qed

lemma AddNode_chain:
  assumes "has_hole h" "chain_ok h" "AddNode Key Val h = Some h'"
  shows "chain_ok h'"
proof -
  obtain d n where d: "d < 20" "\<And>c. c < d \<Longrightarrow> \<not> add_stop (Nodes h) Key (slot Key c)"
    "h' = h\<lparr>HashMapSize := n, Nodes := (Nodes h)(slot Key d := Some (Key, Val))\<rparr>"
    using AddNode_result [OF assms(1,3)] by blast
  show ?thesis
    unfolding chain_ok_def
  proof (intro allI impI)
    fix e k v c
    assume e: "e < 20" "k \<noteq> - 1" "Nodes h' (slot k e) = Some (k, v)" "c < e"
    show "Nodes h' (slot k c) \<noteq> None"
    proof (cases "slot k e = slot Key d")
      case True
      then have "k = Key" "e = d"
        using e d(1,3) probe_slot_inj [of e d Key] by auto
      then show ?thesis
        using d(2) [of c] e(4) by (auto simp: d(3) add_stop_def split: option.splits)
    next
      case False
      then show ?thesis
        using e assms(2) by (auto simp: d(3) chain_ok_def)
    qed
  qed
qed

lemma AddNode_other:
  assumes "has_hole h" "chain_ok h" "AddNode Key Val h = Some h'" "k \<noteq> Key" "k \<noteq> - 1"
  shows "Get k h' = Get k h"
proof -
  obtain d n where d: "d < 20" "add_stop (Nodes h) Key (slot Key d)"
    "h' = h\<lparr>HashMapSize := n, Nodes := (Nodes h)(slot Key d := Some (Key, Val))\<rparr>"
    using AddNode_result [OF assms(1,3)] by blast
  have stop: "get_stop (Nodes h') k i \<longleftrightarrow> (i \<noteq> slot Key d \<and> get_stop (Nodes h) k i)" for i
    using assms(4) by (simp add: d(3) get_stop_def)
  show ?thesis
  proof (cases rule: Get_cases [of h k])
    case (found e)
    note first = found(3)
    show ?thesis
    proof (cases "slot k e = slot Key d")
      case False
      then have "Get k h' = (case Nodes h' (slot k e) of None \<Rightarrow> 0 | Some (k, v) \<Rightarrow> v)"
        using Get_loop_first [of 0 e "Nodes h'" k] found stop by (simp add: Get_def slot_0)
      then show ?thesis
        using found(4) False by (simp add: d(3))
    next
      case True
      then have hole: "Nodes h (slot k e) = None"
        using d(2) found(2) assms(4,5) by (auto simp: add_stop_def get_stop_def split: option.splits)
      have "Get k h' = 0"
      proof (cases rule: Get_cases [of h' k])
        case (found c)
        show ?thesis
        proof (cases "Nodes h' (slot k c)")
          case (Some kv)
          have ne: "slot k c \<noteq> slot Key d"
            using found(2) stop by blast
          then have "e < c"
            using first [of c] found(2) stop True by (metis linorder_neqE_nat)
          moreover obtain v where "Nodes h (slot k c) = Some (k, v)"
            using found(2) Some ne by (cases kv) (auto simp: d(3) get_stop_def)
          ultimately show ?thesis
            using assms(2,5) found(1) hole unfolding chain_ok_def by blast
        qed (use found in simp)
      qed simp
      then show ?thesis
        using found hole by simp
    qed
  next
    case none
    then have "\<And>c. \<not> get_stop (Nodes h') k (slot k c)"
      using stop by blast
    then show ?thesis
      using none(2) Get_loop_never [of 0 "Nodes h'" k] by (simp add: Get_def slot_0)
  qed
qed

section \<open>What a client of the table relies on\<close>

locale table =
  fixes look :: "'k \<Rightarrow> 'm \<Rightarrow> 'v"
    and add :: "'k \<Rightarrow> 'v \<Rightarrow> 'm \<Rightarrow> 'm option"
    and good :: "'m \<Rightarrow> bool"
    and roomy :: "'m \<Rightarrow> bool"
    and valid :: "'k \<Rightarrow> bool"
  assumes add_returns: "roomy m \<Longrightarrow> \<exists>m'. add k v m = Some m'"
    and look_same: "roomy m \<Longrightarrow> add k v m = Some m' \<Longrightarrow> look k m' = v"
    and look_other: "good m \<Longrightarrow> roomy m \<Longrightarrow> add k v m = Some m' \<Longrightarrow> k' \<noteq> k \<Longrightarrow> valid k' \<Longrightarrow> look k' m' = look k' m"
    and add_good: "good m \<Longrightarrow> roomy m \<Longrightarrow> add k v m = Some m' \<Longrightarrow> good m'"
begin

text \<open>A client that inserts only where nothing is stored never loses an entry.\<close>

lemma add_if_absent:
  assumes "good m" "roomy m" "add k v m = Some m'" "look k m = z" "valid k'" "look k' m \<noteq> z"
  shows "look k' m' = look k' m"
  using look_other [OF assms(1-3) _ assms(5)] assms(4,6) by metis

end

interpretation ht: table Get AddNode chain_ok has_hole "\<lambda>k. k \<noteq> - 1"
proof
  show "\<exists>h'. AddNode k v h = Some h'" if "has_hole h" for h k v
    by (rule AddNode_place [OF that, of k v]) auto
qed (auto intro: AddNode_same AddNode_other AddNode_chain)

section \<open>Properties\<close>

text \<open>
  C18. The growable array implements a list: appending, removing, copying and reversing act on its
  contents as the list operations do. After an append and after a removal the elements fit the
  capacity and the capacity fits the allocation. An append touches nothing behind the allocation. A
  removal moves \<^verbatim>\<open>VectorSize - 1\<close> cells from the removed position on, each to the value of the next one,
  and not only the cells up to the last element; in a full array every removal but that of the first
  element so reads behind the buffer, and those from the third element on also write there.
\<close>

theorem vector_refines_list:
  assumes "vec_ok v" and "vec_room v" and "i < VectorSize v" and "unat i + unat (VectorSize v) < 2 ^ 64"
  shows "contents (Vector_push_back x fresh v) = contents v @ [x] \<and> vec_ok (Vector_push_back x fresh v) \<and>
    contents (Vector_remove zero i v) = take (unat i) (contents v) @ drop (Suc (unat i)) (contents v) \<and>
    vec_ok (Vector_remove zero i v) \<and> Vector_at v i = contents v ! unat i \<and>
    contents (Vector_reverse v) = rev (contents v) \<and> contents (Vector_copy v fresh) = contents v \<and>
    (\<forall>j \<ge> VectorAlloc (Vector_push_back x fresh v). VectorBuffer (Vector_push_back x fresh v) j =
       (if VectorSize v \<ge> VectorCapacity v then fresh j else VectorBuffer v j)) \<and>
    (\<forall>j. VectorBuffer (Vector_remove zero i v) j =
       (if unat i \<le> unat j \<and> unat j < unat i + (unat (VectorSize v) - 1) then VectorBuffer v (j + 1)
        else if j = i then zero else VectorBuffer v j))"
  using push_back_contents [OF assms(1,2)] remove_contents [OF assms(1) _ assms(4)] assms(3)
    push_back_outside [OF assms(1,2)] remove_cells [OF assms(3,4)]
  by (simp add: word_less_nat_alt reverse_contents contents_copy Vector_at_def nth_contents)

definition vector_example :: "nat Vector" where
  "vector_example = Vector_push_back 7 (\<lambda>_. 0) (Vector_push_back 3 (\<lambda>_. 0) (Vector_empty (\<lambda>_. 0)))"

lemma vector_example_ok: "vec_ok vector_example" "vec_room vector_example"
  by (simp_all add: vector_example_def Vector_push_back_def Vector_empty_def Vector_reserve_def vec_ok_def
      vec_room_def Let_def copy_elements_def)

text \<open>Removing the last of five elements, with 9 in the three cells behind the buffer: the last of them is overwritten.\<close>

definition vector_full :: "nat Vector" where
  "vector_full = \<lparr>VectorSize = 5, VectorCapacity = 5, VectorBuffer = (\<lambda>i. if i < 5 then 1 else if i < 8 then 9 else 0),
     VectorNull = False, VectorAlloc = 5\<rparr>"

theorem vector_refines_list_witness:
  "contents (Vector_push_back 9 (\<lambda>_. 0) vector_example) = contents vector_example @ [9] \<and>
   contents (Vector_remove 0 0 vector_example) = drop 1 (contents vector_example) \<and>
   contents (Vector_remove 0 4 vector_full) = take 4 (contents vector_full) \<and>
   VectorBuffer vector_full 7 = 9 \<and> VectorBuffer (Vector_remove 0 4 vector_full) 7 = 0"
proof -
  have "VectorSize vector_example = 2"
    by (simp add: vector_example_def Vector_push_back_def Vector_empty_def Vector_reserve_def Let_def)
  moreover have "vec_ok vector_full" "vec_room vector_full" "VectorSize vector_full = 5"
    by (simp_all add: vector_full_def vec_ok_def vec_room_def)
  moreover have "drop 5 (contents vector_full) = []"
    by (simp add: contents_def vector_full_def)
  ultimately show ?thesis
    using vector_refines_list [OF vector_example_ok, of 0 9 "\<lambda>_. 0" 0]
      vector_refines_list [of vector_full 4 9 "\<lambda>_. 0" 0]
    by (simp add: vector_full_def)
qed

text \<open>
  A copy of an array allocates only \<open>VectorSize\<close> elements but keeps the capacity of the
  original: when the original has spare capacity, the next append to the copy writes behind the
  copy's allocation.
\<close>

lemma vector_copy_overflows:
  assumes "vec_ok v" and "VectorSize v < VectorCapacity v"
  shows "\<not> vec_ok (Vector_copy v fresh) \<and>
    VectorBuffer (Vector_push_back x f (Vector_copy v fresh)) (VectorAlloc (Vector_copy v fresh)) = x \<and>
    VectorAlloc (Vector_push_back x f (Vector_copy v fresh)) = VectorAlloc (Vector_copy v fresh)"
  using assms by (auto simp: vec_ok_def Vector_copy_def Vector_push_back_def)

lemma vector_copy_overflows_witness:
  "\<not> vec_ok (Vector_copy vector_example (\<lambda>_. 0))"
proof -
  have "VectorSize vector_example < VectorCapacity vector_example"
    by (simp add: vector_example_def Vector_push_back_def Vector_empty_def Vector_reserve_def Let_def)
  then show ?thesis
    using vector_copy_overflows [OF vector_example_ok(1)] by simp
qed

text \<open>
  C23. The hash table finds what was inserted: while a slot is free \<^verbatim>\<open>AddNode\<close> ends, the
  key then has the new value, and every other key but the tombstone's keeps its value.
\<close>

theorem hashmap_add_get:
  assumes "chain_ok h" and "has_hole h"
  shows "\<exists>h'. AddNode Key Val h = Some h' \<and> chain_ok h' \<and> Get Key h' = Val \<and>
    (\<forall>k. k \<noteq> Key \<longrightarrow> k \<noteq> - 1 \<longrightarrow> Get k h' = Get k h)"
  using ht.add_returns [OF assms(2), of Key Val] ht.look_same [OF assms(2)] ht.look_other [OF assms]
    ht.add_good [OF assms]
  by blast

lemma HashMap_empty_ok: "chain_ok HashMap_empty" "has_hole HashMap_empty" "Get k HashMap_empty = 0"
  by (auto simp: chain_ok_def has_hole_def HashMap_empty_def Get_def Get_loop.simps intro: exI [of _ 0])

theorem hashmap_add_get_witness:
  "\<exists>h'. AddNode 21 77 HashMap_empty = Some h' \<and> Get 21 h' = 77 \<and> Get 1 h' = 0"
  using hashmap_add_get [OF HashMap_empty_ok(1,2), of 21 77] HashMap_empty_ok(3) [of 1] by auto

text \<open>
  A deleted key can come back: insertion reuses the slot of a deleted entry without looking
  for an older entry of the same key. With two ports that share a slot, a value that was
  overwritten is found again after its key was deleted.
\<close>

lemma hashmap_stale_value:
  "\<exists>h1 h2 h3 h4 h5. AddNode 1 10 HashMap_empty = Some h1 \<and> AddNode 21 20 h1 = Some h2 \<and>
     DeleteNode 1 h2 = Some (Some 10, h3) \<and> AddNode 21 30 h3 = Some h4 \<and>
     DeleteNode 21 h4 = Some (Some 30, h5) \<and> Get 21 h5 = 20"
  by (simp add: AddNode_def DeleteNode_def HashMap_empty_def HashCode_def AddNode_probe.simps
      DeleteNode_probe.simps Get_def Get_loop.simps DummyNode_def)

end
