(* ===== verification/Tasking.thy ===== *)
theory Tasking
  imports Paging Containers
begin

text \<open>
  Processes, threads and security tokens: the control blocks of
  \<^verbatim>\<open>src/kernel/include/task.h\<close>, the token table of
  \<^verbatim>\<open>src/kernel/security/Security.cpp\<close> and the creation and removal of processes and
  threads in \<^verbatim>\<open>src/kernel/proc/Multitasking.cpp\<close>. Control blocks live in two stores
  indexed by address; stacks come from the page frame allocator of the memory theories.
\<close>

section \<open>Control blocks\<close>

datatype CBElevation = UnknownElevation | Kernel | System | Idle | User

datatype CBStatus = UnknownStatus | Ready | Running | Waiting | Terminated

datatype TokenTrustLevel = UnknownTrustLevel | Untrusted | Trusted | TrustedByKernel

datatype Architecture = UnknownArchitecture | x86 | x64 | ARM | ARM64

datatype Platform = UnknownPlatform | Native | Linux | POSIX | Windows

record GeneralProcessInfo =
  SpawnTime :: u64
  UsedTime :: u64
  OldUsedTime :: u64
  OldSystemTime :: u64
  CurrentSystemTime :: u64
  Year :: u64
  Month :: u64
  Day :: u64
  Hour :: u64
  Minute :: u64
  Second :: u64
  InfoArchitecture :: Architecture
  InfoPlatform :: Platform
  Priority :: u32

record ThreadRegisters =
  reg_ds :: u64
  reg_r15 :: u64
  reg_r14 :: u64
  reg_r13 :: u64
  reg_r12 :: u64
  reg_r11 :: u64
  reg_r10 :: u64
  reg_r9 :: u64
  reg_r8 :: u64
  reg_rbp :: u64
  reg_rdi :: u64
  reg_rsi :: u64
  reg_rdx :: u64
  reg_rcx :: u64
  reg_rbx :: u64
  reg_rax :: u64
  reg_int_num :: u64
  reg_error_code :: u64
  reg_rip :: u64
  reg_cs :: u64
  reg_rflags :: u64
  reg_rsp :: u64
  reg_ss :: u64

text \<open>The values of \<^verbatim>\<open>enum Checksum\<close> and \<^verbatim>\<open>badfennec\<close>.\<close>

definition PROCESS_CHECKSUM :: u32 where "PROCESS_CHECKSUM = 0xCAFEBABE"
definition THREAD_CHECKSUM :: u32 where "THREAD_CHECKSUM = 0xDEADCAFE"
definition badfennec :: u32 where "badfennec = 0xBADFE2EC"

record TCB =
  TcbID :: u64
  TcbName :: "u8 list"
  TcbStatus :: CBStatus
  TcbExitCode :: u64
  TcbParent :: u64
  TcbStack :: u64
  FXRegion :: "u8 list"
  Registers :: ThreadRegisters
  TcbFs :: u64
  TcbGs :: u64
  TcbArgc :: u32
  TcbArgv :: u64
  TcbInfo :: GeneralProcessInfo
  TcbToken :: u64
  TcbChecksum :: u32

record PCB =
  PcbID :: u64
  PcbName :: "u8 list"
  PcbStatus :: CBStatus
  Elevation :: CBElevation
  PcbExitCode :: u64
  PcbOffset :: u64
  PcbParent :: u64
  PcbPageTable :: u64
  PcbInfo :: GeneralProcessInfo
  PcbToken :: u64
  IPCHandles :: HashMap
  Threads :: "u64 Vector"
  Children :: "u64 Vector"
  PcbChecksum :: u32

record TokenData =
  Token :: u64
  TrustLevel :: TokenTrustLevel
  OwnerID :: u64
  TokenProcess :: bool

text \<open>
  The processor as far as tasking uses it: the segment base registers, \<^verbatim>\<open>cr3\<close>, the
  floating point state, the tick counter, the clock's registers and the armed one-shot timer.
\<close>

record Machine =
  fs_base :: u64
  gs_base :: u64
  shadow_gs_base :: u64
  cr3 :: u64
  fx_state :: "u8 list"
  ticks :: u64
  cmos :: "u8 \<Rightarrow> u8"
  one_shot :: "u64 option"

record Tasking =
  Pcbs :: "u64 \<Rightarrow> PCB"
  Tcbs :: "u64 \<Rightarrow> TCB"
  ListProcess :: "u64 Vector"
  NextPID :: u64
  NextTID :: u64
  IdleProcess :: u64
  IdleThread :: u64
  CurrentProcess :: u64
  CurrentThread :: u64
  Tokens :: "TokenData Vector"
  SchedulerEnabled :: bool
  Cpu :: Machine
  TaskVM :: VirtualMemory
  TaskManager :: PageTableManager
  KernelPML4 :: u64

definition upd_pcb :: "u64 \<Rightarrow> (PCB \<Rightarrow> PCB) \<Rightarrow> Tasking \<Rightarrow> Tasking" where
  "upd_pcb p f s = s\<lparr>Pcbs := (Pcbs s)(p := f (Pcbs s p))\<rparr>"

definition upd_tcb :: "u64 \<Rightarrow> (TCB \<Rightarrow> TCB) \<Rightarrow> Tasking \<Rightarrow> Tasking" where
  "upd_tcb t f s = s\<lparr>Tcbs := (Tcbs s)(t := f (Tcbs s t))\<rparr>"

text \<open>
  What the heap and the random generator deliver to one call: the address and the raw contents of
  a new control block, the contents of grown arrays, and a random number.
\<close>

record Fresh =
  new_address :: u64
  raw_pcb :: PCB
  raw_tcb :: TCB
  raw_pointers :: "u64 \<Rightarrow> u64"
  raw_tokens :: "u64 \<Rightarrow> TokenData"
  random64 :: u64

section \<open>Security tokens\<close>

definition CreateToken :: "Fresh \<Rightarrow> Tasking \<Rightarrow> u64 \<times> Tasking" where
  "CreateToken f s =
     (let ret = random64 f
      in (ret, s\<lparr>Tokens := Vector_push_back
            \<lparr>Token = ret, TrustLevel = UnknownTrustLevel, OwnerID = 0, TokenProcess = False\<rparr>
            (raw_tokens f) (Tokens s)\<rparr>))"

text \<open>
  The loop variable of \<^verbatim>\<open>foreach (auto var in Tokens)\<close> is a copy of the element: the
  three assignments go to \<open>var\<close> and are lost at the \<^verbatim>\<open>return\<close>.
\<close>

primrec TrustToken_loop ::
    "u64 \<Rightarrow> bool \<Rightarrow> u64 \<Rightarrow> TokenTrustLevel \<Rightarrow> TokenData list \<Rightarrow> Tasking \<Rightarrow> Tasking" where
  "TrustToken_loop Tok Process ID Level [] s = s"
| "TrustToken_loop Tok Process ID Level (var # rest) s =
     (if Token var = Tok then
        let var = var\<lparr>TrustLevel := Level, OwnerID := ID, TokenProcess := Process\<rparr> in s
      else TrustToken_loop Tok Process ID Level rest s)"

definition TrustToken :: "u64 \<Rightarrow> bool \<Rightarrow> u64 \<Rightarrow> TokenTrustLevel \<Rightarrow> Tasking \<Rightarrow> Tasking" where
  "TrustToken Tok Process ID Level s = TrustToken_loop Tok Process ID Level (contents (Tokens s)) s"

text \<open>The first statement of \<^verbatim>\<open>CanSyscall\<close> is \<^verbatim>\<open>return true\<close>.\<close>

definition CanSyscall :: "ThreadRegisters \<Rightarrow> Tasking \<Rightarrow> bool" where
  "CanSyscall regs s = True"

section \<open>Times\<close>

definition bcd :: "u8 \<Rightarrow> u64" where
  "bcd v = (let t = ucast v :: u32 in ucast ((t AND 0x0F) + drop_bit 4 t * 10))"

definition SetInfo :: "Machine \<Rightarrow> GeneralProcessInfo \<Rightarrow> GeneralProcessInfo" where
  "SetInfo m Info = Info\<lparr>SpawnTime := ticks m,
     Second := bcd (cmos m 0x00), Minute := bcd (cmos m 0x02), Hour := bcd (cmos m 0x04),
     Day := bcd (cmos m 0x07), Month := bcd (cmos m 0x08), Year := bcd (cmos m 0x09)\<rparr>"

definition UpdateTimeUsed :: "Machine \<Rightarrow> GeneralProcessInfo \<Rightarrow> GeneralProcessInfo" where
  "UpdateTimeUsed m Info =
     (let now = ticks m;
          Info = (if OldUsedTime Info = 0 then Info\<lparr>OldUsedTime := SpawnTime Info\<rparr> else Info);
          Info = Info\<lparr>UsedTime := UsedTime Info + (now - OldUsedTime Info)\<rparr>;
          Info = Info\<lparr>OldUsedTime := now\<rparr>;
          Info = Info\<lparr>OldSystemTime := CurrentSystemTime Info\<rparr>
      in Info\<lparr>CurrentSystemTime := now\<rparr>)"

definition TriggerOneShot :: "u64 \<Rightarrow> Tasking \<Rightarrow> Tasking" where
  "TriggerOneShot Miliseconds s = s\<lparr>Cpu := (Cpu s)\<lparr>one_shot := Some Miliseconds\<rparr>\<rparr>"

text \<open>\<^verbatim>\<open>ThreadDoExit\<close> up to the instruction that stops the processor.\<close>

definition ThreadDoExit :: "u64 \<Rightarrow> Tasking \<Rightarrow> Tasking" where
  "ThreadDoExit Code s =
     (let s = upd_tcb (CurrentThread s) (\<lambda>t. t\<lparr>TcbStatus := Terminated\<rparr>) s;
          s = upd_tcb (CurrentThread s) (\<lambda>t. t\<lparr>TcbExitCode := Code\<rparr>) s
      in TriggerOneShot 100 s)"

section \<open>Creating processes and threads\<close>

text \<open>
  \<^verbatim>\<open>new PCB\<close> and \<^verbatim>\<open>new TCB\<close> run the constructors of the arrays and the initialisers
  of the five times; all other members keep what the memory held. The name of a process is the 256
  bytes at the caller's pointer.
\<close>

definition init_info :: "GeneralProcessInfo \<Rightarrow> GeneralProcessInfo" where
  "init_info Info = Info\<lparr>SpawnTime := 0, UsedTime := 0, OldUsedTime := 0, OldSystemTime := 0,
     CurrentSystemTime := 0\<rparr>"

definition new_PCB :: "Fresh \<Rightarrow> PCB" where
  "new_PCB f = (raw_pcb f)\<lparr>PcbInfo := init_info (PcbInfo (raw_pcb f)),
     Threads := Vector_empty (raw_pointers f), Children := Vector_empty (raw_pointers f)\<rparr>"

definition new_TCB :: "Fresh \<Rightarrow> TCB" where
  "new_TCB f = (raw_tcb f)\<lparr>TcbInfo := init_info (TcbInfo (raw_tcb f))\<rparr>"

definition CreateProcess ::
    "Fresh \<Rightarrow> u64 \<Rightarrow> u8 list \<Rightarrow> CBElevation \<Rightarrow> u32 \<Rightarrow> Tasking \<Rightarrow> u64 \<times> Tasking" where
  "CreateProcess f Parent Name Elev Prio s =
     (let process = new_address f;
          s = upd_pcb process (\<lambda>_. new_PCB f) s;
          s = upd_pcb process (\<lambda>p. p\<lparr>PcbChecksum := PROCESS_CHECKSUM\<rparr>) s;
          s = upd_pcb process (\<lambda>p. p\<lparr>PcbInfo := (SetInfo (Cpu s) (PcbInfo p))\<lparr>Priority := Prio,
                InfoArchitecture := UnknownArchitecture, InfoPlatform := UnknownPlatform\<rparr>\<rparr>) s;
          s = upd_pcb process (\<lambda>p. p\<lparr>PcbID := NextPID s\<rparr>) s;
          s = s\<lparr>NextPID := NextPID s + 1\<rparr>;
          s = upd_pcb process (\<lambda>p. p\<lparr>PcbOffset := 0\<rparr>) s;
          (tok, s) = CreateToken f s;
          s = upd_pcb process (\<lambda>p. p\<lparr>PcbToken := tok\<rparr>) s;
          s = (if Elev = Idle \<or> Elev = Kernel \<or> Elev = System
               then TrustToken tok True (PcbID (Pcbs s process)) TrustedByKernel s else s);
          s = upd_pcb process (\<lambda>p. p\<lparr>IPCHandles := HashMap_empty\<rparr>) s;
          s = upd_pcb process (\<lambda>p. p\<lparr>Elevation := Elev\<rparr>) s;
          s = upd_pcb process (\<lambda>p. p\<lparr>PcbStatus := Ready\<rparr>) s;
          s = upd_pcb process (\<lambda>p. p\<lparr>PcbName := Name\<rparr>) s;
          s = (if Parent \<noteq> 0 then
                 let s = upd_pcb process (\<lambda>p. p\<lparr>PcbParent := Parent\<rparr>) s
                 in upd_pcb Parent (\<lambda>p. p\<lparr>Children :=
                      Vector_push_back process (raw_pointers f) (Children p)\<rparr>) s
               else s);
          s = upd_pcb process (\<lambda>p. p\<lparr>PcbPageTable := CreatePageTable (KernelPML4 s) (Elev = User)\<rparr>) s;
          s = s\<lparr>ListProcess := Vector_push_back process (raw_pointers f) (ListProcess s)\<rparr>
      in (process, s))"

definition zero_registers :: ThreadRegisters where
  "zero_registers = \<lparr>reg_ds = 0, reg_r15 = 0, reg_r14 = 0, reg_r13 = 0, reg_r12 = 0, reg_r11 = 0,
     reg_r10 = 0, reg_r9 = 0, reg_r8 = 0, reg_rbp = 0, reg_rdi = 0, reg_rsi = 0, reg_rdx = 0,
     reg_rcx = 0, reg_rbx = 0, reg_rax = 0, reg_int_num = 0, reg_error_code = 0, reg_rip = 0,
     reg_cs = 0, reg_rflags = 0, reg_rsp = 0, reg_ss = 0\<rparr>"

text \<open>The selectors are the offsets in the descriptor table, for user mode with privilege level 3.\<close>

definition GDT_KERNEL_CODE :: u64 where "GDT_KERNEL_CODE = 0x08"
definition GDT_KERNEL_DATA :: u64 where "GDT_KERNEL_DATA = 0x10"
definition GDT_USER_CODE :: u64 where "GDT_USER_CODE = 0x18 OR 3"
definition GDT_USER_DATA :: u64 where "GDT_USER_DATA = 0x20 OR 3"

text \<open>\<^verbatim>\<open>rflags.always_one\<close>, \<^verbatim>\<open>rflags.IF\<close> and \<^verbatim>\<open>rflags.ID\<close> set in a zero word.\<close>

definition start_rflags :: u64 where
  "start_rflags = push_bit 1 1 OR push_bit 9 1 OR push_bit 21 1"

text \<open>
  The part of \<^verbatim>\<open>CreateThread\<close> that depends on the elevation. \<open>exit\<close> is the address of
  \<^verbatim>\<open>ThreadDoExit\<close>, which a kernel thread finds at its stack pointer.
\<close>

definition start_thread :: "bool \<Rightarrow> u64 \<Rightarrow> u64 \<Rightarrow> Tasking \<Rightarrow> stop + Tasking" where
  "start_thread user exit thread s =
     (let s = TrustToken (TcbToken (Tcbs s thread)) False (TcbID (Tcbs s thread))
                (if user then Untrusted else TrustedByKernel) s;
          s = upd_tcb thread (\<lambda>t. t\<lparr>TcbGs := (if user then 0 else thread)\<rparr>) s;
          s = upd_tcb thread (\<lambda>t. t\<lparr>TcbFs := fs_base (Cpu s)\<rparr>) s;
          s = upd_tcb thread (\<lambda>t. t\<lparr>Registers := (Registers t)\<lparr>
                reg_cs := (if user then GDT_USER_CODE else GDT_KERNEL_CODE),
                reg_ds := (if user then GDT_USER_DATA else GDT_KERNEL_DATA),
                reg_ss := (if user then GDT_USER_DATA else GDT_KERNEL_DATA),
                reg_rflags := start_rflags\<rparr>\<rparr>) s
      in and_then (AllocateStack (TaskManager s) user (TaskVM s)) (\<lambda>(stack, m).
           let s = s\<lparr>TaskVM := m\<rparr>;
               s = upd_tcb thread (\<lambda>t. t\<lparr>TcbStack := stack\<rparr>) s;
               s = upd_tcb thread (\<lambda>t. t\<lparr>Registers := (Registers t)\<lparr>reg_rsp := stack\<rparr>\<rparr>) s
           in Inr (if user then s
                   else s\<lparr>TaskVM := (TaskVM s)\<lparr>Memory := (Memory (TaskVM s))(stack := exit)\<rparr>\<rparr>)))"

text \<open>\<^verbatim>\<open>strcpy\<close> between two name fields: the bytes up to the first zero byte.\<close>

definition strcpy_name :: "u8 list \<Rightarrow> u8 list \<Rightarrow> u8 list" where
  "strcpy_name destination source =
     (let n = Suc (length (takeWhile (\<lambda>c. c \<noteq> 0) source))
      in take n source @ drop n destination)"

definition prepare_thread :: "Fresh \<Rightarrow> u64 \<Rightarrow> Tasking \<Rightarrow> Tasking" where
  "prepare_thread f Parent s =
     (let thread = new_address f;
          s = upd_tcb thread (\<lambda>_. (new_TCB f)\<lparr>TcbChecksum := THREAD_CHECKSUM\<rparr>) s;
          s = upd_tcb thread (\<lambda>t. t\<lparr>TcbID := NextTID s\<rparr>) s;
          s = s\<lparr>NextTID := NextTID s + 1\<rparr>;
          s = upd_tcb thread (\<lambda>t. t\<lparr>TcbStatus := Ready\<rparr>) s;
          (tok, s) = CreateToken f s;
          s = upd_tcb thread (\<lambda>t. t\<lparr>TcbToken := tok\<rparr>) s;
          s = upd_tcb thread (\<lambda>t. t\<lparr>TcbParent := Parent\<rparr>) s;
          s = upd_tcb thread (\<lambda>t. t\<lparr>TcbName := strcpy_name (TcbName t) (PcbName (Pcbs s Parent))\<rparr>) s
      in upd_tcb thread (\<lambda>t. t\<lparr>Registers := zero_registers\<rparr>) s)"

definition finish_thread ::
    "Fresh \<Rightarrow> u64 \<Rightarrow> u64 \<Rightarrow> u64 \<Rightarrow> u64 \<Rightarrow> u32 \<Rightarrow> Architecture \<Rightarrow> Platform \<Rightarrow> Tasking \<Rightarrow> Tasking" where
  "finish_thread f Parent InstructionPointer Arg0 Arg1 Prio Arch Plat s =
     (let thread = new_address f;
          s = upd_tcb thread (\<lambda>t. t\<lparr>Registers := (Registers t)\<lparr>
                reg_rip := InstructionPointer + PcbOffset (Pcbs s Parent),
                reg_rdi := Arg0, reg_rsi := Arg1\<rparr>\<rparr>) s;
          s = upd_tcb thread (\<lambda>t. t\<lparr>TcbArgc := ucast Arg0, TcbArgv := Arg1\<rparr>) s;
          s = upd_tcb thread (\<lambda>t. t\<lparr>TcbInfo := (SetInfo (Cpu s) (TcbInfo t))\<lparr>
                InfoArchitecture := Arch, InfoPlatform := Plat, Priority := Prio\<rparr>\<rparr>) s
      in upd_pcb Parent (\<lambda>p. p\<lparr>Threads :=
           Vector_push_back thread (raw_pointers f) (Threads p)\<rparr>) s)"

text \<open>The null pointer is the result for a bad parent and for an unknown elevation.\<close>

definition CreateThread ::
    "Fresh \<Rightarrow> u64 \<Rightarrow> u64 \<Rightarrow> u64 \<Rightarrow> u64 \<Rightarrow> u64 \<Rightarrow> u32 \<Rightarrow> Architecture \<Rightarrow> Platform \<Rightarrow> Tasking \<Rightarrow>
     stop + (u64 \<times> Tasking)" where
  "CreateThread f exit Parent InstructionPointer Arg0 Arg1 Prio Arch Plat s =
     (if Parent = 0 \<or> PcbChecksum (Pcbs s Parent) \<noteq> PROCESS_CHECKSUM then Inr (0, s)
      else
        let thread = new_address f;
            s = prepare_thread f Parent s
        in case Elevation (Pcbs s Parent) of
             UnknownElevation \<Rightarrow> Inr (0, s)
           | elev \<Rightarrow>
               and_then (start_thread (elev = User) exit thread s)
                 (\<lambda>s. Inr (thread,
                    finish_thread f Parent InstructionPointer Arg0 Arg1 Prio Arch Plat s)))"

section \<open>Validity and removal\<close>

text \<open>A control block above 256 MB counts as invalid.\<close>

definition InvalidPCB :: "Tasking \<Rightarrow> u64 \<Rightarrow> bool" where
  "InvalidPCB s pcb =
     (if pcb = 0 then True
      else if pcb \<ge> 0x10000000 then True
      else if PcbChecksum (Pcbs s pcb) \<noteq> PROCESS_CHECKSUM then True
      else if Elevation (Pcbs s pcb) = Idle then True
      else False)"

definition InvalidTCB :: "Tasking \<Rightarrow> u64 \<Rightarrow> bool" where
  "InvalidTCB s tcb =
     (if tcb = 0 then True
      else if tcb \<ge> 0x10000000 then True
      else if TcbChecksum (Tcbs s tcb) \<noteq> THREAD_CHECKSUM then True
      else if Elevation (Pcbs s (TcbParent (Tcbs s tcb))) = Idle then True
      else False)"

text \<open>The index of the first element equal to \<open>x\<close>, as the loops over an array search for it.\<close>

definition index_of :: "u64 Vector \<Rightarrow> u64 \<Rightarrow> nat option" where
  "index_of v x = find (\<lambda>i. Vector_at v (of_nat i) = x) [0..<unat (VectorSize v)]"

definition RemoveThread :: "u64 \<Rightarrow> Tasking \<Rightarrow> Tasking" where
  "RemoveThread tcb s =
     (let p = TcbParent (Tcbs s tcb)
      in case index_of (Threads (Pcbs s p)) tcb of
           None \<Rightarrow> s
         | Some i \<Rightarrow>
             let s = s\<lparr>TaskVM := FreeStack (TcbStack (Tcbs s tcb)) (TaskVM s)\<rparr>;
                 s = upd_tcb tcb (\<lambda>t. t\<lparr>TcbChecksum := badfennec\<rparr>) s
             in upd_pcb p (\<lambda>q. q\<lparr>Threads := Vector_remove 0 (of_nat i) (Threads q)\<rparr>) s)"

text \<open>
  A range loop fixes its end when it starts, while the body removes elements: round \<open>i\<close> reads
  element \<open>i\<close> of the array as it is then. The first argument bounds the nesting of children.
\<close>

primrec RemoveProcess :: "nat \<Rightarrow> u64 \<Rightarrow> Tasking \<Rightarrow> Tasking option" where
  "RemoveProcess 0 pcb s = None"
| "RemoveProcess (Suc depth) pcb s =
     (if pcb = 0 then Some s
      else if PcbStatus (Pcbs s pcb) = Terminated then
        let s = fold (\<lambda>i s. RemoveThread (Vector_at (Threads (Pcbs s pcb)) (of_nat i)) s)
                  [0..<unat (VectorSize (Threads (Pcbs s pcb)))] s
        in map_option (\<lambda>s.
             case index_of (ListProcess s) pcb of
               None \<Rightarrow> s
             | Some i \<Rightarrow>
                 let s = upd_pcb pcb (\<lambda>p. p\<lparr>PcbChecksum := badfennec\<rparr>) s
                 in s\<lparr>ListProcess := Vector_remove 0 (of_nat i) (ListProcess s)\<rparr>)
             (fold (\<lambda>i r. Option.bind r (\<lambda>s.
                RemoveProcess depth (Vector_at (Children (Pcbs s pcb)) (of_nat i)) s))
                [0..<unat (VectorSize (Children (Pcbs s pcb)))] (Some s))
      else
        Some (fold (\<lambda>i s.
            let thread = Vector_at (Threads (Pcbs s pcb)) (of_nat i)
            in if TcbStatus (Tcbs s thread) = Terminated then RemoveThread thread s else s)
          [0..<unat (VectorSize (Threads (Pcbs s pcb)))] s))"

text \<open>The destructor of the scheduler; \<open>None\<close> is a nesting of children deeper than the bound.\<close>

definition Multitasking_destroy :: "nat \<Rightarrow> Tasking \<Rightarrow> Tasking option" where
  "Multitasking_destroy depth s =
     (let s = s\<lparr>SchedulerEnabled := False\<rparr>
      in fold (\<lambda>i r. Option.bind r (\<lambda>s.
           let pcb = Vector_at (ListProcess s) (of_nat i)
           in if InvalidPCB s pcb then Some s
              else RemoveProcess depth pcb (upd_pcb pcb (\<lambda>p. p\<lparr>PcbStatus := Terminated\<rparr>) s)))
         [0..<unat (VectorSize (ListProcess s))] (Some s))"

section \<open>Updates of the stores\<close>

named_theorems task_simps

lemma upd_pcb_Pcbs [task_simps]: "Pcbs (upd_pcb p f s) q = (if q = p then f (Pcbs s p) else Pcbs s q)"
  by (simp add: upd_pcb_def)

lemma upd_tcb_Tcbs [task_simps]: "Tcbs (upd_tcb t f s) u = (if u = t then f (Tcbs s t) else Tcbs s u)"
  by (simp add: upd_tcb_def)

lemma upd_pcb_frame [task_simps]:
  "Tcbs (upd_pcb p f s) = Tcbs s" "ListProcess (upd_pcb p f s) = ListProcess s"
  "NextPID (upd_pcb p f s) = NextPID s" "NextTID (upd_pcb p f s) = NextTID s"
  "IdleProcess (upd_pcb p f s) = IdleProcess s" "IdleThread (upd_pcb p f s) = IdleThread s"
  "CurrentProcess (upd_pcb p f s) = CurrentProcess s" "CurrentThread (upd_pcb p f s) = CurrentThread s"
  "Tokens (upd_pcb p f s) = Tokens s" "SchedulerEnabled (upd_pcb p f s) = SchedulerEnabled s"
  "Cpu (upd_pcb p f s) = Cpu s" "TaskVM (upd_pcb p f s) = TaskVM s"
  "TaskManager (upd_pcb p f s) = TaskManager s" "KernelPML4 (upd_pcb p f s) = KernelPML4 s"
  by (simp_all add: upd_pcb_def)

lemma upd_tcb_frame [task_simps]:
  "Pcbs (upd_tcb t f s) = Pcbs s" "ListProcess (upd_tcb t f s) = ListProcess s"
  "NextPID (upd_tcb t f s) = NextPID s" "NextTID (upd_tcb t f s) = NextTID s"
  "IdleProcess (upd_tcb t f s) = IdleProcess s" "IdleThread (upd_tcb t f s) = IdleThread s"
  "CurrentProcess (upd_tcb t f s) = CurrentProcess s" "CurrentThread (upd_tcb t f s) = CurrentThread s"
  "Tokens (upd_tcb t f s) = Tokens s" "SchedulerEnabled (upd_tcb t f s) = SchedulerEnabled s"
  "Cpu (upd_tcb t f s) = Cpu s" "TaskVM (upd_tcb t f s) = TaskVM s"
  "TaskManager (upd_tcb t f s) = TaskManager s" "KernelPML4 (upd_tcb t f s) = KernelPML4 s"
  by (simp_all add: upd_tcb_def)

lemma TrustToken_id [task_simps]: "TrustToken Tok Process ID Level s = s"
proof -
  have "TrustToken_loop Tok Process ID Level xs s = s" for xs
    by (induction xs) simp_all
  then show ?thesis by (simp add: TrustToken_def)
qed

lemma CreateToken_eq [task_simps]:
  "fst (CreateToken f s) = random64 f"
  "snd (CreateToken f s) = s\<lparr>Tokens := Vector_push_back
     \<lparr>Token = random64 f, TrustLevel = UnknownTrustLevel, OwnerID = 0, TokenProcess = False\<rparr>
     (raw_tokens f) (Tokens s)\<rparr>"
  by (simp_all add: CreateToken_def Let_def)

text \<open>Validity depends on three members only.\<close>

lemma InvalidPCB_cong:
  assumes "PcbChecksum (Pcbs s p) = PcbChecksum (Pcbs s' p)" and "Elevation (Pcbs s p) = Elevation (Pcbs s' p)"
  shows "InvalidPCB s p = InvalidPCB s' p"
  using assms by (simp add: InvalidPCB_def)

lemma InvalidTCB_cong:
  assumes "TcbChecksum (Tcbs s t) = TcbChecksum (Tcbs s' t)" and "TcbParent (Tcbs s t) = TcbParent (Tcbs s' t)"
    and "Elevation (Pcbs s (TcbParent (Tcbs s t))) = Elevation (Pcbs s' (TcbParent (Tcbs s t)))"
  shows "InvalidTCB s t = InvalidTCB s' t"
  using assms by (simp add: InvalidTCB_def)

section \<open>What creation does\<close>

lemma and_then_Inr_cases:
  assumes "and_then r f = Inr y"
  obtains x where "r = Inr x" and "f x = Inr y"
  using assms by (auto simp: and_then_eq_Inr)

lemma prepare_thread_Tcbs:
  "Tcbs (prepare_thread f Parent s) = (Tcbs s)(new_address f := (new_TCB f)\<lparr>
     TcbChecksum := THREAD_CHECKSUM, TcbID := NextTID s, TcbStatus := Ready, TcbToken := random64 f,
     TcbParent := Parent, TcbName := strcpy_name (TcbName (new_TCB f)) (PcbName (Pcbs s Parent)),
     Registers := zero_registers\<rparr>)"
  by (simp add: prepare_thread_def Let_def CreateToken_def upd_tcb_def)

lemma prepare_thread_frame [task_simps]:
  "Pcbs (prepare_thread f Parent s) = Pcbs s" "ListProcess (prepare_thread f Parent s) = ListProcess s"
  "NextPID (prepare_thread f Parent s) = NextPID s" "NextTID (prepare_thread f Parent s) = NextTID s + 1"
  "CurrentProcess (prepare_thread f Parent s) = CurrentProcess s"
  "CurrentThread (prepare_thread f Parent s) = CurrentThread s"
  "IdleProcess (prepare_thread f Parent s) = IdleProcess s"
  "IdleThread (prepare_thread f Parent s) = IdleThread s"
  "Cpu (prepare_thread f Parent s) = Cpu s" "TaskVM (prepare_thread f Parent s) = TaskVM s"
  "TaskManager (prepare_thread f Parent s) = TaskManager s" "KernelPML4 (prepare_thread f Parent s) = KernelPML4 s"
  "SchedulerEnabled (prepare_thread f Parent s) = SchedulerEnabled s"
  by (simp_all add: prepare_thread_def Let_def CreateToken_def upd_tcb_def)

lemma start_thread_result:
  assumes "start_thread user exit thread s = Inr s'"
  obtains stack m where "AllocateStack (TaskManager s) user (TaskVM s) = Inr (stack, m)"
    and "s' = s\<lparr>Tcbs := (Tcbs s)(thread := (Tcbs s thread)\<lparr>
          TcbGs := (if user then 0 else thread), TcbFs := fs_base (Cpu s), TcbStack := stack,
          Registers := (Registers (Tcbs s thread))\<lparr>
            reg_cs := (if user then GDT_USER_CODE else GDT_KERNEL_CODE),
            reg_ds := (if user then GDT_USER_DATA else GDT_KERNEL_DATA),
            reg_ss := (if user then GDT_USER_DATA else GDT_KERNEL_DATA),
            reg_rflags := start_rflags, reg_rsp := stack\<rparr>\<rparr>),
        TaskVM := (if user then m else m\<lparr>Memory := (Memory m)(stack := exit)\<rparr>)\<rparr>"
  using assms unfolding start_thread_def Let_def
  by (elim and_then_Inr_cases) (auto simp: task_simps upd_tcb_def split: if_splits)

lemma finish_thread_eq:
  "finish_thread f Parent ip a0 a1 prio arch plat s = s\<lparr>
     Tcbs := (Tcbs s)(new_address f := (Tcbs s (new_address f))\<lparr>
       Registers := (Registers (Tcbs s (new_address f)))\<lparr>reg_rip := ip + PcbOffset (Pcbs s Parent),
         reg_rdi := a0, reg_rsi := a1\<rparr>,
       TcbArgc := ucast a0, TcbArgv := a1,
       TcbInfo := (SetInfo (Cpu s) (TcbInfo (Tcbs s (new_address f))))\<lparr>InfoArchitecture := arch,
         InfoPlatform := plat, Priority := prio\<rparr>\<rparr>),
     Pcbs := (Pcbs s)(Parent := (Pcbs s Parent)\<lparr>Threads :=
       Vector_push_back (new_address f) (raw_pointers f) (Threads (Pcbs s Parent))\<rparr>)\<rparr>"
  by (simp add: finish_thread_def Let_def upd_tcb_def upd_pcb_def)

definition started :: "bool \<Rightarrow> u64 \<Rightarrow> u64 \<Rightarrow> u64 \<Rightarrow> u64 \<Rightarrow> ThreadRegisters" where
  "started user ip stack a0 a1 = zero_registers\<lparr>
     reg_cs := (if user then GDT_USER_CODE else GDT_KERNEL_CODE),
     reg_ds := (if user then GDT_USER_DATA else GDT_KERNEL_DATA),
     reg_ss := (if user then GDT_USER_DATA else GDT_KERNEL_DATA),
     reg_rflags := start_rflags, reg_rsp := stack, reg_rip := ip, reg_rdi := a0, reg_rsi := a1\<rparr>"

lemma CreateThread_run:
  assumes ok: "Parent \<noteq> 0" "PcbChecksum (Pcbs s Parent) = PROCESS_CHECKSUM"
      "Elevation (Pcbs s Parent) \<noteq> UnknownElevation"
    and run: "CreateThread f exit Parent ip a0 a1 prio arch plat s = Inr (t, s')"
  obtains s1 where "t = new_address f"
    "start_thread (Elevation (Pcbs s Parent) = User) exit t (prepare_thread f Parent s) = Inr s1"
    "s' = finish_thread f Parent ip a0 a1 prio arch plat s1"
  using run ok
  by (auto simp: CreateThread_def Let_def prepare_thread_frame split: CBElevation.splits
      elim!: and_then_Inr_cases)

text \<open>The state after a successful call, for any elevation the code knows.\<close>

lemma CreateThread_result:
  assumes ok: "Parent \<noteq> 0" "PcbChecksum (Pcbs s Parent) = PROCESS_CHECKSUM"
      "Elevation (Pcbs s Parent) \<noteq> UnknownElevation"
    and run: "CreateThread f exit Parent ip a0 a1 prio arch plat s = Inr (t, s')"
  obtains stack m where
    "AllocateStack (TaskManager s) (Elevation (Pcbs s Parent) = User) (TaskVM s) = Inr (stack, m)"
    "t = new_address f" "\<And>u. u \<noteq> t \<Longrightarrow> Tcbs s' u = Tcbs s u"
    "TcbID (Tcbs s' t) = NextTID s" "TcbStatus (Tcbs s' t) = Ready" "TcbParent (Tcbs s' t) = Parent"
    "TcbStack (Tcbs s' t) = stack" "TcbChecksum (Tcbs s' t) = THREAD_CHECKSUM"
    "Registers (Tcbs s' t) = started (Elevation (Pcbs s Parent) = User)
       (ip + PcbOffset (Pcbs s Parent)) stack a0 a1"
    "Pcbs s' = (Pcbs s)(Parent := (Pcbs s Parent)\<lparr>Threads :=
       Vector_push_back t (raw_pointers f) (Threads (Pcbs s Parent))\<rparr>)"
    "NextTID s' = NextTID s + 1" "CurrentThread s' = CurrentThread s" "CurrentProcess s' = CurrentProcess s"
    "TaskVM s' = (if Elevation (Pcbs s Parent) = User then m else m\<lparr>Memory := (Memory m)(stack := exit)\<rparr>)"
    "Cpu s' = Cpu s" "KernelPML4 s' = KernelPML4 s" "TcbFs (Tcbs s' t) = fs_base (Cpu s)"
    "IdleProcess s' = IdleProcess s" "IdleThread s' = IdleThread s"
    "SchedulerEnabled s' = SchedulerEnabled s" "TaskManager s' = TaskManager s"
    "ListProcess s' = ListProcess s"
proof -
  obtain s1 where s1: "t = new_address f"
      "start_thread (Elevation (Pcbs s Parent) = User) exit t (prepare_thread f Parent s) = Inr s1"
      "s' = finish_thread f Parent ip a0 a1 prio arch plat s1"
    using CreateThread_run [OF ok run] .
  from s1(2) show thesis
    by (rule start_thread_result, intro that)
      (simp_all add: s1(1,3) finish_thread_eq prepare_thread_Tcbs started_def task_simps)
qed

lemma CreateProcess_result:
  fixes s f Parent Name Elev Prio
  defines "p \<equiv> new_address f" and "s' \<equiv> snd (CreateProcess f Parent Name Elev Prio s)"
  shows "fst (CreateProcess f Parent Name Elev Prio s) = p"
    "Tcbs s' = Tcbs s" "Cpu s' = Cpu s" "CurrentThread s' = CurrentThread s" "CurrentProcess s' = CurrentProcess s"
    "NextPID s' = NextPID s + 1" "NextTID s' = NextTID s" "KernelPML4 s' = KernelPML4 s"
    "SchedulerEnabled s' = SchedulerEnabled s" "TaskVM s' = TaskVM s" "TaskManager s' = TaskManager s"
    "IdleProcess s' = IdleProcess s" "IdleThread s' = IdleThread s"
    "ListProcess s' = Vector_push_back p (raw_pointers f) (ListProcess s)"
    "PcbChecksum (Pcbs s' q) = (if q = p then PROCESS_CHECKSUM else PcbChecksum (Pcbs s q))"
    "Elevation (Pcbs s' q) = (if q = p then Elev else Elevation (Pcbs s q))"
    "PcbStatus (Pcbs s' q) = (if q = p then Ready else PcbStatus (Pcbs s q))"
    "PcbID (Pcbs s' q) = (if q = p then NextPID s else PcbID (Pcbs s q))"
    "Threads (Pcbs s' q) = (if q = p then Vector_empty (raw_pointers f) else Threads (Pcbs s q))"
  unfolding p_def s'_def
  by (simp_all add: CreateProcess_def Let_def CreateToken_def task_simps new_PCB_def)

lemma CreateThread_returns:
  assumes ok: "Parent \<noteq> 0" "PcbChecksum (Pcbs s Parent) = PROCESS_CHECKSUM"
      "Elevation (Pcbs s Parent) \<noteq> UnknownElevation"
    and "AllocateStack (TaskManager s) (Elevation (Pcbs s Parent) = User) (TaskVM s) = Inr r"
  shows "\<exists>s'. CreateThread f exit Parent ip a0 a1 prio arch plat s = Inr (new_address f, s')"
proof -
  obtain s1 where "start_thread (Elevation (Pcbs s Parent) = User) exit (new_address f)
      (prepare_thread f Parent s) = Inr s1"
    using assms(4) by (cases r) (simp add: start_thread_def Let_def task_simps)
  then show ?thesis
    using ok by (auto simp: CreateThread_def Let_def task_simps split: CBElevation.splits)
qed

lemma below_page:
  assumes "page_addr p"
  shows "page_no (p - 8) \<noteq> page_no p"
proof
  assume "page_no (p - 8) = page_no p"
  then have "bit (page_no (p - 8)) 0 = bit (page_no p) 0" by simp
  moreover have "bit (page_no x) 0 = odd (unat x div 4096)" for x
  proof -
    have "bit (page_no x) 0 = bit (unat x) 12" by (simp add: page_no_def bit_simps)
    then show ?thesis by (simp add: bit_iff_odd)
  qed
  ultimately have "odd (unat (p - 8) div 4096) = odd (unat p div 4096)" by simp
  moreover have "unat p mod 4096 = 0"
    using assms unat_mod [of p 4096] by (simp add: page_addr_def take_bit_eq_mod)
  then obtain k where "unat p = 4096 * k" by auto
  ultimately show False
    using unsigned_less [of p, where ?'a = nat]
    by (cases k) (simp_all add: unat_sub_if' word_le_nat_alt split: if_splits)
qed

section \<open>A concrete system\<close>

definition blank_info :: GeneralProcessInfo where
  "blank_info = \<lparr>SpawnTime = 0, UsedTime = 0, OldUsedTime = 0, OldSystemTime = 0, CurrentSystemTime = 0,
     Year = 0, Month = 0, Day = 0, Hour = 0, Minute = 0, Second = 0,
     InfoArchitecture = x64, InfoPlatform = Native, Priority = 1\<rparr>"

definition blank_tcb :: TCB where
  "blank_tcb = \<lparr>TcbID = 0, TcbName = replicate 256 0, TcbStatus = UnknownStatus, TcbExitCode = 0,
     TcbParent = 0, TcbStack = 0, FXRegion = replicate 512 0, Registers = zero_registers, TcbFs = 0,
     TcbGs = 0, TcbArgc = 0, TcbArgv = 0, TcbInfo = blank_info, TcbToken = 0, TcbChecksum = 0\<rparr>"

definition pointers :: "u64 list \<Rightarrow> u64 Vector" where
  "pointers xs = \<lparr>VectorSize = of_nat (length xs), VectorCapacity = of_nat (length xs) + 3,
     VectorBuffer = (\<lambda>i. if unat i < length xs then xs ! unat i else 0), VectorNull = False,
     VectorAlloc = of_nat (length xs) + 3\<rparr>"

definition blank_pcb :: PCB where
  "blank_pcb = \<lparr>PcbID = 0, PcbName = replicate 256 0, PcbStatus = UnknownStatus,
     Elevation = UnknownElevation, PcbExitCode = 0, PcbOffset = 0, PcbParent = 0, PcbPageTable = 0,
     PcbInfo = blank_info, PcbToken = 0, IPCHandles = HashMap_empty, Threads = pointers [],
     Children = pointers [], PcbChecksum = 0\<rparr>"

definition fresh_example :: Fresh where
  "fresh_example = \<lparr>new_address = 0x300000, raw_pcb = blank_pcb, raw_tcb = blank_tcb,
     raw_pointers = (\<lambda>_. 0),
     raw_tokens = (\<lambda>_. \<lparr>Token = 0, TrustLevel = Untrusted, OwnerID = 0, TokenProcess = False\<rparr>),
     random64 = 42\<rparr>"

text \<open>One user process with two threads, the first of which runs.\<close>

definition task_example :: Tasking where
  "task_example = \<lparr>
     Pcbs = (\<lambda>_. blank_pcb)(0x100000 := blank_pcb\<lparr>PcbID := 1, PcbStatus := Running, Elevation := User,
       PcbPageTable := 0x2000, Threads := pointers [0x200000, 0x201000],
       PcbChecksum := PROCESS_CHECKSUM\<rparr>),
     Tcbs = (\<lambda>_. blank_tcb)(
       0x200000 := blank_tcb\<lparr>TcbID := 1, TcbStatus := Running, TcbParent := 0x100000,
         TcbChecksum := THREAD_CHECKSUM\<rparr>,
       0x201000 := blank_tcb\<lparr>TcbID := 2, TcbStatus := Ready, TcbParent := 0x100000,
         TcbChecksum := THREAD_CHECKSUM\<rparr>),
     ListProcess = pointers [0x100000], NextPID = 2, NextTID = 3, IdleProcess = 0, IdleThread = 0,
     CurrentProcess = 0x100000, CurrentThread = 0x200000,
     Tokens = Vector_empty (raw_tokens fresh_example), SchedulerEnabled = True,
     Cpu = \<lparr>fs_base = 0, gs_base = 0x200000, shadow_gs_base = 0, cr3 = 0x2000,
       fx_state = replicate 512 0, ticks = 1000, cmos = (\<lambda>_. 0), one_shot = None\<rparr>,
     TaskVM = vm_example, TaskManager = vm_example_manager, KernelPML4 = 0x2000\<rparr>"

section \<open>Properties\<close>

text \<open>
  C16. A thread of a user process starts in user mode: with frames left, \<^verbatim>\<open>CreateThread\<close>
  returns a valid ready thread with a new ID at the end of the process's array; its code, data and
  stack selectors have privilege level 3, interrupts are enabled, it starts at the given entry with
  the given arguments, and its stack is a page that was free and is now mapped to itself. The stack
  pointer, however, is the lowest address of that page, so the first word pushed lies in another page.
\<close>

theorem CreateThread_user:
  assumes parent: "Parent \<noteq> 0" "PcbChecksum (Pcbs s Parent) = PROCESS_CHECKSUM"
      "Elevation (Pcbs s Parent) = User"
    and vm: "tables_ok (TaskVM s) (PML4 (TaskManager s))" "can_serve 4 (TaskVM s)" "PML4 (TaskManager s) \<noteq> 0"
    and arr: "vec_ok (Threads (Pcbs s Parent))" "vec_room (Threads (Pcbs s Parent))"
    and new: "0 < new_address f" "new_address f < 0x10000000"
  shows "\<exists>s' stack r. CreateThread f exit Parent ip a0 a1 prio arch plat s = Inr (new_address f, s') \<and>
    \<not> InvalidTCB s' (new_address f) \<and> TcbStatus (Tcbs s' (new_address f)) = Ready \<and>
    TcbID (Tcbs s' (new_address f)) = NextTID s \<and> NextTID s' = NextTID s + 1 \<and>
    contents (Threads (Pcbs s' Parent)) = contents (Threads (Pcbs s Parent)) @ [new_address f] \<and>
    r = Registers (Tcbs s' (new_address f)) \<and>
    reg_cs r AND 3 = 3 \<and> reg_ss r AND 3 = 3 \<and> reg_ds r AND 3 = 3 \<and> bit (reg_rflags r) 9 \<and>
    reg_rip r = ip + PcbOffset (Pcbs s Parent) \<and> reg_rdi r = a0 \<and> reg_rsi r = a1 \<and>
    reg_rsp r = stack \<and> \<not> used (KernelAllocator (TaskVM s)) (stack div 4096) \<and>
    used (KernelAllocator (TaskVM s')) (stack div 4096) \<and>
    translate (TaskVM s') (PML4 (TaskManager s)) stack = Some stack \<and>
    page_no (reg_rsp r - 8) \<noteq> page_no stack"
proof -
  obtain stack m where st: "AllocateStack (TaskManager s) True (TaskVM s) = Inr (stack, m)" "page_addr stack"
      "\<not> used (KernelAllocator (TaskVM s)) (stack div 4096)" "used (KernelAllocator m) (stack div 4096)"
      "translate m (PML4 (TaskManager s)) stack = Some stack"
    using AllocateStack_user [OF vm] by auto
  have known: "Elevation (Pcbs s Parent) \<noteq> UnknownElevation"
    using parent(3) by simp
  obtain s' where s': "CreateThread f exit Parent ip a0 a1 prio arch plat s = Inr (new_address f, s')"
    using CreateThread_returns [OF parent(1,2) known, of "(stack, m)" f exit ip a0 a1 prio arch plat]
      st(1) parent(3) by auto
  have "\<not> InvalidTCB s' (new_address f) \<and> TcbStatus (Tcbs s' (new_address f)) = Ready \<and>
    TcbID (Tcbs s' (new_address f)) = NextTID s \<and> NextTID s' = NextTID s + 1 \<and>
    contents (Threads (Pcbs s' Parent)) = contents (Threads (Pcbs s Parent)) @ [new_address f] \<and>
    Registers (Tcbs s' (new_address f)) = started True (ip + PcbOffset (Pcbs s Parent)) stack a0 a1 \<and>
    TaskVM s' = m"
    by (rule CreateThread_result [OF parent(1,2) known s'])
      (use new push_back_contents(1) [OF arr] st(1) parent in
        \<open>simp_all add: InvalidTCB_def linorder_not_le\<close>)
  then show ?thesis
    using s' st below_page [OF st(2)]
    by (intro exI [of _ s'] exI [of _ stack] exI [of _ "Registers (Tcbs s' (new_address f))"])
      (simp add: started_def GDT_USER_CODE_def GDT_USER_DATA_def start_rflags_def bit_simps)
qed

theorem CreateThread_user_witness:
  "\<exists>s'. CreateThread fresh_example 0x5000 0x100000 0x400000 7 8 1 x64 Native task_example =
      Inr (0x300000, s') \<and> TcbID (Tcbs s' 0x300000) = 3 \<and> reg_cs (Registers (Tcbs s' 0x300000)) AND 3 = 3"
proof -
  have "NextTID task_example = 3" "new_address fresh_example = 0x300000"
    by (simp_all add: task_example_def fresh_example_def)
  then show ?thesis
    using CreateThread_user [of "0x100000" task_example fresh_example "0x5000" "0x400000" 7 8 1 x64 Native]
      vm_example_ok(1) vm_example_serves
    by (auto simp: task_example_def vm_example_manager_def vec_ok_def vec_room_def pointers_def)
qed

end
