(* ===== verification/Scheduler.thy ===== *)
theory Scheduler
  imports Tasking
begin

text \<open>
  The round robin scheduler of \<^verbatim>\<open>src/kernel/proc/Multitasking.cpp\<close>: the interrupt handler
  \<^verbatim>\<open>MultiTaskingSchedulerHandler\<close> with its searches for the next thread, the idle process
  and the switch of the processor state. The handler runs with interrupts off and holds the critical
  lock, so it is one step of the model. The two loops built from a label and a
  \<^verbatim>\<open>goto\<close> are partial functions: \<open>None\<close> is a handler that never returns.
\<close>

section \<open>Searching for a thread\<close>

definition UpdatePageTable :: "u64 \<Rightarrow> Tasking \<Rightarrow> Tasking" where
  "UpdatePageTable pt s =
     (if pt = 0 then s
      else if pt \<noteq> cr3 (Cpu s) then s\<lparr>Cpu := (Cpu s)\<lparr>cr3 := pt\<rparr>\<rparr>
      else s)"

text \<open>The loops over the threads of one process take the first valid thread that is ready.\<close>

primrec first_ready :: "Tasking \<Rightarrow> u64 list \<Rightarrow> u64 option" where
  "first_ready s [] = None"
| "first_ready s (tcb # rest) =
     (if InvalidTCB s tcb then first_ready s rest
      else if TcbStatus (Tcbs s tcb) \<noteq> Ready then first_ready s rest
      else Some tcb)"

primrec search_processes :: "Tasking \<Rightarrow> u64 list \<Rightarrow> (u64 \<times> u64) option" where
  "search_processes s [] = None"
| "search_processes s (pcb # rest) =
     (if InvalidPCB s pcb then search_processes s rest
      else if PcbStatus (Pcbs s pcb) \<noteq> Ready then search_processes s rest
      else case first_ready s (contents (Threads (Pcbs s pcb))) of
             Some tcb \<Rightarrow> Some (pcb, tcb)
           | None \<Rightarrow> search_processes s rest)"

text \<open>
  The label \<^verbatim>\<open>RetryAnotherThread\<close>: \<open>Some None\<close> is the \<^verbatim>\<open>break\<close>. The element read may
  lie behind the end of the array, and a valid thread that is not ready is read again.
\<close>

partial_function (option) RetryAnotherThread :: "Tasking \<Rightarrow> u64 \<Rightarrow> u64 option option" where
  "RetryAnotherThread s tmpidx =
     (let thread = Vector_at (Threads (Pcbs s (CurrentProcess s))) (tmpidx + 1)
      in if InvalidTCB s thread then
           (if tmpidx > VectorSize (Threads (Pcbs s (CurrentProcess s))) then Some None
            else RetryAnotherThread s (tmpidx + 1))
         else if TcbStatus (Tcbs s thread) \<noteq> Ready then RetryAnotherThread s tmpidx
         else Some (Some thread))"

definition next_thread :: "Tasking \<Rightarrow> u64 option option" where
  "next_thread s =
     (case index_of (Threads (Pcbs s (CurrentProcess s))) (CurrentThread s) of
        None \<Rightarrow> Some None
      | Some i \<Rightarrow> RetryAnotherThread s (of_nat i))"

partial_function (option) RetryAnotherProcess :: "Tasking \<Rightarrow> u64 \<Rightarrow> u64 option option" where
  "RetryAnotherProcess s tmpidx =
     (let pcb = Vector_at (ListProcess s) (tmpidx + 1)
      in if InvalidPCB s pcb then
           (if tmpidx > VectorSize (ListProcess s) then Some None
            else RetryAnotherProcess s (tmpidx + 1))
         else if PcbStatus (Pcbs s pcb) \<noteq> Ready then RetryAnotherProcess s tmpidx
         else Some (Some pcb))"

text \<open>
  The loop over the process list: \<^verbatim>\<open>break\<close> ends it, but a ready process without a ready
  thread lets it run on.
\<close>

primrec next_process :: "Tasking \<Rightarrow> nat list \<Rightarrow> (u64 \<times> u64) option option" where
  "next_process s [] = Some None"
| "next_process s (i # rest) =
     (if Vector_at (ListProcess s) (of_nat i) = CurrentProcess s then
        case RetryAnotherProcess s (of_nat i) of
          None \<Rightarrow> None
        | Some None \<Rightarrow> Some None
        | Some (Some pcb) \<Rightarrow>
            (case first_ready s (contents (Threads (Pcbs s pcb))) of
               Some tcb \<Rightarrow> Some (Some (pcb, tcb))
             | None \<Rightarrow> next_process s rest)
      else next_process s rest)"

section \<open>The handler\<close>

text \<open>
  What the idle branch takes from outside: two allocations, the addresses of
  \<^verbatim>\<open>IdleProcessLoop\<close> and \<^verbatim>\<open>ThreadDoExit\<close>, and the 256 bytes at the literal
  \<^verbatim>\<open>"idle"\<close>.
\<close>

record IdleEnv =
  fresh_process :: Fresh
  fresh_thread :: Fresh
  IdleProcessLoop :: u64
  ThreadDoExit_address :: u64
  idle_name :: "u8 list"

definition save_current :: "ThreadRegisters \<Rightarrow> Tasking \<Rightarrow> Tasking" where
  "save_current regs s =
     (let s = upd_tcb (CurrentThread s) (\<lambda>t. t\<lparr>Registers := regs, TcbGs := shadow_gs_base (Cpu s),
                TcbFs := fs_base (Cpu s), FXRegion := fx_state (Cpu s)\<rparr>) s;
          s = (if PcbStatus (Pcbs s (CurrentProcess s)) = Running
               then upd_pcb (CurrentProcess s) (\<lambda>p. p\<lparr>PcbStatus := Ready\<rparr>) s else s)
      in if TcbStatus (Tcbs s (CurrentThread s)) = Running
         then upd_tcb (CurrentThread s) (\<lambda>t. t\<lparr>TcbStatus := Ready\<rparr>) s else s)"

definition find_next :: "Tasking \<Rightarrow> (u64 \<times> u64) option option" where
  "find_next s =
     (case next_thread s of
        None \<Rightarrow> None
      | Some (Some thread) \<Rightarrow> Some (Some (CurrentProcess s, thread))
      | Some None \<Rightarrow>
          (case next_process s [0..<unat (VectorSize (ListProcess s))] of
             None \<Rightarrow> None
           | Some (Some pt) \<Rightarrow> Some (Some pt)
           | Some None \<Rightarrow> Some (search_processes s (contents (ListProcess s)))))"

definition make_idle :: "IdleEnv \<Rightarrow> Tasking \<Rightarrow> stop + Tasking" where
  "make_idle env s =
     (if IdleProcess s = 0 then
        let (p, s) = CreateProcess (fresh_process env) 0 (idle_name env) Idle 1 s;
            s = s\<lparr>IdleProcess := p\<rparr>
        in and_then (CreateThread (fresh_thread env) (ThreadDoExit_address env) (IdleProcess s)
                       (IdleProcessLoop env) 0 0 1 x64 Native s)
             (\<lambda>(t, s). Inr (s\<lparr>IdleThread := t\<rparr>))
      else Inr s)"

definition enter_idle :: "IdleEnv \<Rightarrow> Tasking \<Rightarrow> stop + (ThreadRegisters \<times> Tasking)" where
  "enter_idle env s =
     and_then (make_idle env s) (\<lambda>s.
       let s = s\<lparr>CurrentProcess := IdleProcess s, CurrentThread := IdleThread s\<rparr>;
           thread = Tcbs s (CurrentThread s);
           s = UpdatePageTable (PML4 (TaskManager s)) s
       in Inr (Registers thread,
               s\<lparr>Cpu := (Cpu s)\<lparr>fs_base := TcbFs thread, gs_base := CurrentThread s,
                   shadow_gs_base := CurrentThread s, fx_state := FXRegion thread\<rparr>\<rparr>))"

definition switch_to :: "u64 \<Rightarrow> u64 \<Rightarrow> Tasking \<Rightarrow> ThreadRegisters \<times> Tasking" where
  "switch_to pcb tcb s =
     (let s = s\<lparr>CurrentProcess := pcb, CurrentThread := tcb\<rparr>;
          s = upd_pcb pcb (\<lambda>p. p\<lparr>PcbStatus := Running\<rparr>) s;
          s = upd_tcb tcb (\<lambda>t. t\<lparr>TcbStatus := Running\<rparr>) s;
          process = Pcbs s pcb;
          thread = Tcbs s tcb;
          s = UpdatePageTable (PcbPageTable process) s
      in (Registers thread,
          s\<lparr>Cpu := (Cpu s)\<lparr>fs_base := TcbFs thread, gs_base := tcb,
              shadow_gs_base :=
                (case Elevation process of
                   User \<Rightarrow> TcbGs thread
                 | UnknownElevation \<Rightarrow> shadow_gs_base (Cpu s)
                 | _ \<Rightarrow> tcb),
              fx_state := FXRegion thread\<rparr>\<rparr>))"

definition end_switch :: "ThreadRegisters \<times> Tasking \<Rightarrow> ThreadRegisters \<times> Tasking" where
  "end_switch r =
     (let (regs, s) = r;
          s = upd_pcb (CurrentProcess s) (\<lambda>p. p\<lparr>PcbInfo := UpdateTimeUsed (Cpu s) (PcbInfo p)\<rparr>) s;
          s = upd_tcb (CurrentThread s) (\<lambda>t. t\<lparr>TcbInfo := UpdateTimeUsed (Cpu s) (TcbInfo t)\<rparr>) s
      in (regs, TriggerOneShot (scast (Priority (TcbInfo (Tcbs s (CurrentThread s))))) s))"

definition schedule :: "ThreadRegisters \<Rightarrow> Tasking \<Rightarrow> (Tasking \<times> (u64 \<times> u64) option) option" where
  "schedule regs s =
     (if InvalidPCB s (CurrentProcess s) \<or> InvalidTCB s (CurrentThread s)
      then Some (s, search_processes s (contents (ListProcess s)))
      else let s = save_current regs s in map_option (\<lambda>r. (s, r)) (find_next s))"

definition MultiTaskingSchedulerHandler ::
    "IdleEnv \<Rightarrow> ThreadRegisters \<Rightarrow> Tasking \<Rightarrow> (stop + (ThreadRegisters \<times> Tasking)) option" where
  "MultiTaskingSchedulerHandler env regs s =
     (if \<not> SchedulerEnabled s then Some (Inr (regs, TriggerOneShot 100 s))
      else case schedule regs s of
             None \<Rightarrow> None
           | Some (s, Some (pcb, tcb)) \<Rightarrow> Some (Inr (end_switch (switch_to pcb tcb s)))
           | Some (s, None) \<Rightarrow> Some (and_then (enter_idle env s) (\<lambda>r. Inr (end_switch r))))"

section \<open>What the searches find\<close>

definition runnable :: "Tasking \<Rightarrow> u64 \<Rightarrow> bool" where
  "runnable s t \<longleftrightarrow> \<not> InvalidTCB s t \<and> TcbStatus (Tcbs s t) = Ready"

lemma first_ready_found: "first_ready s xs = Some t \<Longrightarrow> t \<in> set xs \<and> runnable s t"
  by (induction xs) (auto simp: runnable_def split: if_splits)

lemma first_ready_none: "first_ready s xs = None \<longleftrightarrow> (\<forall>t \<in> set xs. \<not> runnable s t)"
  by (induction xs) (auto simp: runnable_def)

lemma search_processes_found:
  "search_processes s ps = Some (p, t) \<Longrightarrow>
     p \<in> set ps \<and> \<not> InvalidPCB s p \<and> t \<in> set (contents (Threads (Pcbs s p))) \<and> runnable s t"
  by (induction ps) (auto dest: first_ready_found split: if_splits option.splits)

lemma search_processes_none:
  "search_processes s ps = None \<longleftrightarrow>
     (\<forall>p \<in> set ps. \<forall>t \<in> set (contents (Threads (Pcbs s p))).
        \<not> InvalidPCB s p \<longrightarrow> PcbStatus (Pcbs s p) = Ready \<longrightarrow> \<not> runnable s t)"
  by (induction ps) (auto simp: first_ready_none split: option.splits dest: first_ready_found)

lemma RetryAnotherThread_found:
  assumes "RetryAnotherThread s i = Some r"
  shows "r = Some t \<longrightarrow> runnable s t"
  by (rule RetryAnotherThread.raw_induct [where P = "\<lambda>s i r. r = Some t \<longrightarrow> runnable s t", OF _ assms])
    (auto simp: Let_def runnable_def split: if_splits)

lemma RetryAnotherProcess_found:
  assumes "RetryAnotherProcess s i = Some r"
  shows "r = Some p \<longrightarrow> \<not> InvalidPCB s p"
  by (rule RetryAnotherProcess.raw_induct [where P = "\<lambda>s i r. r = Some p \<longrightarrow> \<not> InvalidPCB s p", OF _ assms])
    (auto simp: Let_def runnable_def split: if_splits)

lemma next_process_found:
  "next_process s is = Some (Some (p, t)) \<Longrightarrow> \<not> InvalidPCB s p \<and> runnable s t"
  by (induction "is")
    (auto dest: first_ready_found RetryAnotherProcess_found split: if_splits option.splits)

lemma find_next_found:
  assumes "find_next s = Some (Some (p, t))"
  shows "runnable s t \<and> (p = CurrentProcess s \<or> \<not> InvalidPCB s p)"
  using assms
  by (auto simp: find_next_def next_thread_def
      dest: RetryAnotherThread_found next_process_found search_processes_found split: option.splits)

section \<open>What the parts of the handler keep\<close>

text \<open>The members that decide validity.\<close>

definition same_blocks :: "Tasking \<Rightarrow> Tasking \<Rightarrow> bool" where
  "same_blocks s s' \<longleftrightarrow>
     (\<forall>t. TcbChecksum (Tcbs s' t) = TcbChecksum (Tcbs s t) \<and> TcbParent (Tcbs s' t) = TcbParent (Tcbs s t)) \<and>
     (\<forall>p. PcbChecksum (Pcbs s' p) = PcbChecksum (Pcbs s p) \<and> Elevation (Pcbs s' p) = Elevation (Pcbs s p))"

lemma same_blocks_valid:
  assumes "same_blocks s s'"
  shows "InvalidTCB s' t = InvalidTCB s t" and "InvalidPCB s' p = InvalidPCB s p"
  using assms by (auto simp: same_blocks_def InvalidTCB_def InvalidPCB_def)

lemma same_blocks_trans: "same_blocks s s' \<Longrightarrow> same_blocks s' s'' \<Longrightarrow> same_blocks s s''"
  by (simp add: same_blocks_def)

text \<open>The processor context of a thread: what a switch saves and restores.\<close>

definition context_of :: "TCB \<Rightarrow> ThreadRegisters \<times> u64 \<times> u8 list" where
  "context_of t = (Registers t, TcbFs t, FXRegion t)"

definition cpu_context :: "ThreadRegisters \<Rightarrow> Tasking \<Rightarrow> ThreadRegisters \<times> u64 \<times> u8 list" where
  "cpu_context regs s = (regs, fs_base (Cpu s), fx_state (Cpu s))"

lemma save_current_keeps:
  "same_blocks s (save_current regs s)"
  "t \<noteq> CurrentThread s \<Longrightarrow> Tcbs (save_current regs s) t = Tcbs s t"
  "context_of (Tcbs (save_current regs s) (CurrentThread s)) = cpu_context regs s"
  "TcbStatus (Tcbs (save_current regs s) (CurrentThread s)) \<noteq> Running"
  "CurrentThread (save_current regs s) = CurrentThread s"
  "CurrentProcess (save_current regs s) = CurrentProcess s"
  "IdleProcess (save_current regs s) = IdleProcess s" "IdleThread (save_current regs s) = IdleThread s"
  by (simp_all add: save_current_def Let_def task_simps same_blocks_def context_of_def cpu_context_def)

lemma UpdatePageTable_eq:
  "UpdatePageTable pt s = s\<lparr>Cpu := (Cpu s)\<lparr>cr3 := (if pt = 0 then cr3 (Cpu s) else pt)\<rparr>\<rparr>"
  by (simp add: UpdatePageTable_def)

lemma switch_to_keeps:
  "fst (switch_to p t s) = Registers (Tcbs s t)" "same_blocks s (snd (switch_to p t s))"
  "context_of (Tcbs (snd (switch_to p t s)) u) = context_of (Tcbs s u)"
  "TcbStatus (Tcbs (snd (switch_to p t s)) u) = (if u = t then Running else TcbStatus (Tcbs s u))"
  "CurrentThread (snd (switch_to p t s)) = t" "CurrentProcess (snd (switch_to p t s)) = p"
  "cpu_context x (snd (switch_to p t s)) = (x, TcbFs (Tcbs s t), FXRegion (Tcbs s t))"
  "gs_base (Cpu (snd (switch_to p t s))) = t"
  "cr3 (Cpu (snd (switch_to p t s))) =
     (if PcbPageTable (Pcbs s p) = 0 then cr3 (Cpu s) else PcbPageTable (Pcbs s p))"
  by (simp_all add: switch_to_def Let_def task_simps UpdatePageTable_eq same_blocks_def context_of_def
      cpu_context_def)

lemma end_switch_keeps:
  "fst (end_switch r) = fst r" "same_blocks (snd r) (snd (end_switch r))"
  "context_of (Tcbs (snd (end_switch r)) u) = context_of (Tcbs (snd r) u)"
  "TcbStatus (Tcbs (snd (end_switch r)) u) = TcbStatus (Tcbs (snd r) u)"
  "CurrentThread (snd (end_switch r)) = CurrentThread (snd r)"
  "CurrentProcess (snd (end_switch r)) = CurrentProcess (snd r)"
  "IdleThread (snd (end_switch r)) = IdleThread (snd r)"
  "cpu_context x (snd (end_switch r)) = cpu_context x (snd r)"
  "gs_base (Cpu (snd (end_switch r))) = gs_base (Cpu (snd r))"
  "cr3 (Cpu (snd (end_switch r))) = cr3 (Cpu (snd r))"
  by (cases r; simp add: end_switch_def Let_def task_simps same_blocks_def context_of_def
      cpu_context_def TriggerOneShot_def)+

lemma switch_blocks: "same_blocks s (snd (end_switch (switch_to p t s)))"
  by (rule same_blocks_trans [OF switch_to_keeps(2) end_switch_keeps(2)])

section \<open>Growth of the stores\<close>

text \<open>An address the heap may hand out: no live control block is there and no thread refers to it.\<close>

definition unused :: "Tasking \<Rightarrow> u64 \<Rightarrow> bool" where
  "unused s a \<longleftrightarrow> a \<noteq> 0 \<and> TcbChecksum (Tcbs s a) \<noteq> THREAD_CHECKSUM \<and>
     PcbChecksum (Pcbs s a) \<noteq> PROCESS_CHECKSUM \<and>
     (\<forall>t. TcbChecksum (Tcbs s t) = THREAD_CHECKSUM \<longrightarrow> TcbParent (Tcbs s t) \<noteq> a)"

definition env_ok :: "IdleEnv \<Rightarrow> Tasking \<Rightarrow> bool" where
  "env_ok env s \<longleftrightarrow> unused s (new_address (fresh_process env)) \<and> unused s (new_address (fresh_thread env)) \<and>
     new_address (fresh_process env) \<noteq> new_address (fresh_thread env)"

text \<open>Live blocks stay as they are and no new thread is running.\<close>

definition extends :: "Tasking \<Rightarrow> Tasking \<Rightarrow> bool" where
  "extends s s' \<longleftrightarrow>
     (\<forall>t. TcbChecksum (Tcbs s t) = THREAD_CHECKSUM \<longrightarrow> Tcbs s' t = Tcbs s t \<and>
        Elevation (Pcbs s' (TcbParent (Tcbs s t))) = Elevation (Pcbs s (TcbParent (Tcbs s t)))) \<and>
     (\<forall>t. TcbChecksum (Tcbs s t) \<noteq> THREAD_CHECKSUM \<longrightarrow> TcbChecksum (Tcbs s' t) = THREAD_CHECKSUM \<longrightarrow>
        TcbStatus (Tcbs s' t) \<noteq> Running) \<and>
     (\<forall>p. PcbChecksum (Pcbs s p) = PROCESS_CHECKSUM \<longrightarrow>
        PcbChecksum (Pcbs s' p) = PROCESS_CHECKSUM \<and> Elevation (Pcbs s' p) = Elevation (Pcbs s p))"

lemma extends_refl: "extends s s"
  by (simp add: extends_def)

lemma extends_trans: "extends s s' \<Longrightarrow> extends s' s'' \<Longrightarrow> extends s s''"
  unfolding extends_def by (intro conjI allI impI; metis)

lemma CreateProcess_extends:
  assumes "unused s (new_address f)"
  shows "extends s (snd (CreateProcess f Parent Name Elev Prio s))"
  using assms by (auto simp: extends_def unused_def CreateProcess_result)

lemma prepare_thread_extends:
  assumes "unused s (new_address f)"
  shows "extends s (prepare_thread f Parent s)"
  using assms by (auto simp: extends_def unused_def prepare_thread_Tcbs task_simps)

lemma new_thread_extends:
  assumes "unused s a" and "\<And>u. u \<noteq> a \<Longrightarrow> Tcbs s' u = Tcbs s u" and "TcbStatus (Tcbs s' a) = Ready"
    and "Pcbs s' = (Pcbs s)(q := (Pcbs s q)\<lparr>Threads := v\<rparr>)"
  shows "extends s s'"
proof -
  have "TcbStatus (Tcbs s' t) \<noteq> Running"
    if "TcbChecksum (Tcbs s t) \<noteq> THREAD_CHECKSUM" "TcbChecksum (Tcbs s' t) = THREAD_CHECKSUM" for t
    using that assms(2,3) by (cases "t = a") auto
  moreover have "Tcbs s' t = Tcbs s t" if "TcbChecksum (Tcbs s t) = THREAD_CHECKSUM" for t
    using that assms(1,2) by (cases "t = a") (auto simp: unused_def)
  ultimately show ?thesis
    using assms(4) by (simp add: extends_def)
qed

lemma CreateThread_extends:
  assumes "unused s (new_address f)" and run: "CreateThread f exit Parent ip a0 a1 prio arch plat s = Inr (t, s')"
  shows "extends s s' \<and> CurrentThread s' = CurrentThread s \<and> CurrentProcess s' = CurrentProcess s \<and>
    IdleProcess s' = IdleProcess s \<and> IdleThread s' = IdleThread s"
proof (cases "Parent \<noteq> 0 \<and> PcbChecksum (Pcbs s Parent) = PROCESS_CHECKSUM")
  case False
  then show ?thesis
    using run by (auto simp: CreateThread_def extends_refl)
next
  case known: True
  show ?thesis
  proof (cases "Elevation (Pcbs s Parent) = UnknownElevation")
    case True
    then have "s' = prepare_thread f Parent s"
      using run known by (simp add: CreateThread_def Let_def task_simps)
    then show ?thesis
      using prepare_thread_extends [OF assms(1)] by (simp add: task_simps)
  next
    case False
    show ?thesis
      by (rule CreateThread_result [OF _ _ False run])
        (use known assms(1) in \<open>simp_all add: new_thread_extends\<close>)
  qed
qed

section \<open>The idle process\<close>

definition idle_ok :: "Tasking \<Rightarrow> bool" where
  "idle_ok s \<longleftrightarrow> (IdleProcess s \<noteq> 0 \<longrightarrow> IdleThread s = 0 \<or>
     TcbChecksum (Tcbs s (IdleThread s)) = THREAD_CHECKSUM \<and>
     Elevation (Pcbs s (TcbParent (Tcbs s (IdleThread s)))) = Idle)"

lemma idle_ok_invalid: "idle_ok s \<Longrightarrow> IdleProcess s \<noteq> 0 \<Longrightarrow> InvalidTCB s (IdleThread s)"
  by (auto simp: idle_ok_def InvalidTCB_def)

lemma make_idle_result:
  assumes env: "env_ok env s" and "idle_ok s" and run: "make_idle env s = Inr s'"
  shows "extends s s' \<and> idle_ok s' \<and> IdleProcess s' \<noteq> 0"
proof (cases "IdleProcess s = 0")
  case False
  then show ?thesis
    using assms by (simp add: make_idle_def extends_refl)
next
  case True
  let ?p = "new_address (fresh_process env)" and ?t = "new_address (fresh_thread env)"
  let ?s0 = "snd (CreateProcess (fresh_process env) 0 (idle_name env) Idle 1 s)"
  let ?s1 = "?s0\<lparr>IdleProcess := ?p\<rparr>"
  obtain t s2 where t: "CreateThread (fresh_thread env) (ThreadDoExit_address env) ?p
      (IdleProcessLoop env) 0 0 1 x64 Native ?s1 = Inr (t, s2)" and s': "s' = s2\<lparr>IdleThread := t\<rparr>"
    using run True CreateProcess_result(1) [of "fresh_process env" 0 "idle_name env" Idle 1 s]
    by (auto simp: make_idle_def split_beta Let_def and_then_eq_Inr)
  have un: "unused s ?p" "unused ?s1 ?t"
    using env by (auto simp: env_ok_def unused_def CreateProcess_result)
  have "extends s ?s1"
    using CreateProcess_extends [OF un(1)] by (simp add: extends_def)
  then have "extends s s2"
    using CreateThread_extends [OF un(2) t] extends_trans by blast
  moreover have "t = ?t \<and> TcbChecksum (Tcbs s2 ?t) = THREAD_CHECKSUM \<and> IdleProcess s2 = ?p \<and>
      Elevation (Pcbs s2 (TcbParent (Tcbs s2 ?t))) = Idle"
    by (rule CreateThread_result [OF _ _ _ t])
      (use un(1) in \<open>simp_all add: CreateProcess_result unused_def\<close>)
  ultimately show ?thesis
    using un(1) by (simp add: s' extends_def idle_ok_def unused_def)
qed

lemma enter_idle_result:
  assumes "env_ok env s" "idle_ok s" "enter_idle env s = Inr r"
  shows "extends s (snd r) \<and> idle_ok (snd r) \<and> IdleProcess (snd r) \<noteq> 0 \<and>
    CurrentThread (snd r) = IdleThread (snd r) \<and> CurrentProcess (snd r) = IdleProcess (snd r) \<and>
    cpu_context (fst r) (snd r) = context_of (Tcbs (snd r) (CurrentThread (snd r)))"
proof -
  obtain s' c where s': "make_idle env s = Inr s'" and r: "r = (Registers (Tcbs s' (IdleThread s')),
      s'\<lparr>CurrentProcess := IdleProcess s', CurrentThread := IdleThread s', Cpu := c\<rparr>)"
      "fs_base c = TcbFs (Tcbs s' (IdleThread s'))" "fx_state c = FXRegion (Tcbs s' (IdleThread s'))"
    using assms(3) by (auto simp: enter_idle_def Let_def UpdatePageTable_eq and_then_eq_Inr)
  have "extends s s' \<and> idle_ok s' \<and> IdleProcess s' \<noteq> 0"
    by (rule make_idle_result [OF assms(1,2) s'])
  then show ?thesis
    by (simp add: extends_def idle_ok_def cpu_context_def context_of_def r)
qed

section \<open>The invariant\<close>

definition saved :: "ThreadRegisters \<Rightarrow> Tasking \<Rightarrow> Tasking" where
  "saved regs s = (if InvalidPCB s (CurrentProcess s) \<or> InvalidTCB s (CurrentThread s) then s
     else save_current regs s)"

lemma handler_cases:
  assumes "MultiTaskingSchedulerHandler env regs s = Some (Inr r)" and "SchedulerEnabled s"
  obtains (switch) p t where "r = end_switch (switch_to p t (saved regs s))" "runnable (saved regs s) t"
      "\<not> InvalidPCB (saved regs s) p"
    | (idle) x where "enter_idle env (saved regs s) = Inr x" "r = end_switch x"
proof -
  obtain s0 c where sch: "schedule regs s = Some (s0, c)" and
    r: "r = (case c of Some (p, t) \<Rightarrow> end_switch (switch_to p t s0) | None \<Rightarrow> r)"
       "c = None \<Longrightarrow> \<exists>x. enter_idle env s0 = Inr x \<and> r = end_switch x"
    using assms by (auto simp: MultiTaskingSchedulerHandler_def and_then_eq_Inr
        split: option.splits prod.splits)
  have s0: "s0 = saved regs s"
    using sch by (auto simp: schedule_def saved_def Let_def split: if_splits)
  show thesis
  proof (cases c)
    case None
    then show thesis using idle r(2) s0 by blast
  next
    case (Some pt)
    obtain p t where pt: "pt = (p, t)" by fastforce
    have "runnable s0 t \<and> \<not> InvalidPCB s0 p"
    proof (cases "InvalidPCB s (CurrentProcess s) \<or> InvalidTCB s (CurrentThread s)")
      case True
      then show ?thesis
        using sch Some pt by (auto simp: schedule_def dest: search_processes_found)
    next
      case False
      then have "s0 = save_current regs s" "find_next s0 = Some (Some (p, t))"
        using sch Some pt by (auto simp: schedule_def Let_def)
      then show ?thesis
        using find_next_found False same_blocks_valid(2) [OF save_current_keeps(1)]
        by (metis save_current_keeps(6))
    qed
    then show thesis using switch r(1) s0 Some pt by simp
  qed
qed

definition sched_inv :: "Tasking \<Rightarrow> bool" where
  "sched_inv s \<longleftrightarrow>
     (\<forall>t. \<not> InvalidTCB s t \<longrightarrow> TcbStatus (Tcbs s t) = Running \<longrightarrow> t = CurrentThread s) \<and>
     (\<not> InvalidTCB s (CurrentThread s) \<longrightarrow> \<not> InvalidPCB s (CurrentProcess s)) \<and>
     (CurrentThread s = 0 \<or> TcbChecksum (Tcbs s (CurrentThread s)) = THREAD_CHECKSUM) \<and> idle_ok s"

lemma sched_invD:
  assumes "sched_inv s"
  shows "\<not> InvalidTCB s t \<Longrightarrow> TcbStatus (Tcbs s t) = Running \<Longrightarrow> t = CurrentThread s"
    "\<not> InvalidTCB s (CurrentThread s) \<Longrightarrow> \<not> InvalidPCB s (CurrentProcess s)"
    "CurrentThread s = 0 \<or> TcbChecksum (Tcbs s (CurrentThread s)) = THREAD_CHECKSUM" "idle_ok s"
  using assms by (auto simp: sched_inv_def)

lemma valid_checksum: "\<not> InvalidTCB s t \<Longrightarrow> TcbChecksum (Tcbs s t) = THREAD_CHECKSUM"
  by (auto simp: InvalidTCB_def split: if_splits)

lemma extends_valid:
  assumes "extends s s'" and "TcbChecksum (Tcbs s t) = THREAD_CHECKSUM"
  shows "InvalidTCB s' t = InvalidTCB s t" "Tcbs s' t = Tcbs s t"
  using assms by (auto simp: extends_def InvalidTCB_def)

lemma extends_running:
  assumes "extends s s'" and "\<not> InvalidTCB s' t" and "TcbStatus (Tcbs s' t) = Running"
  shows "\<not> InvalidTCB s t" "TcbStatus (Tcbs s t) = Running"
proof -
  have "TcbChecksum (Tcbs s t) = THREAD_CHECKSUM"
    using assms valid_checksum [OF assms(2)] by (auto simp: extends_def)
  then show "\<not> InvalidTCB s t" "TcbStatus (Tcbs s t) = Running"
    using extends_valid [OF assms(1)] assms(2,3) by simp_all
qed

lemma extends_valid_process: "extends s s' \<Longrightarrow> \<not> InvalidPCB s p \<Longrightarrow> \<not> InvalidPCB s' p"
  by (auto simp: extends_def InvalidPCB_def split: if_splits)

lemma extends_idle_ok:
  assumes "extends s s'" "idle_ok s" "IdleProcess s' = IdleProcess s" "IdleThread s' = IdleThread s"
  shows "idle_ok s'"
  using assms by (auto simp: extends_def idle_ok_def)

lemma sched_inv_extends:
  assumes inv: "sched_inv s" and ext: "extends s s'" and same: "CurrentThread s' = CurrentThread s"
      "CurrentProcess s' = CurrentProcess s" "IdleProcess s' = IdleProcess s" "IdleThread s' = IdleThread s"
  shows "sched_inv s'"
  unfolding sched_inv_def same
proof (intro conjI allI impI)
  show "t = CurrentThread s" if "\<not> InvalidTCB s' t" "TcbStatus (Tcbs s' t) = Running" for t
    using extends_running [OF ext that] sched_invD(1) [OF inv] by blast
  show "\<not> InvalidPCB s' (CurrentProcess s)" if "\<not> InvalidTCB s' (CurrentThread s)"
  proof -
    have "TcbChecksum (Tcbs s (CurrentThread s)) = THREAD_CHECKSUM"
      using that sched_invD(3) [OF inv] by (auto simp: InvalidTCB_def)
    then show ?thesis
      using that extends_valid(1) [OF ext] sched_invD(2) [OF inv] extends_valid_process [OF ext] by blast
  qed
  show "CurrentThread s = 0 \<or> TcbChecksum (Tcbs s' (CurrentThread s)) = THREAD_CHECKSUM"
    using sched_invD(3) [OF inv] extends_valid(2) [OF ext] by auto
  show "idle_ok s'"
    by (rule extends_idle_ok [OF ext sched_invD(4) [OF inv] same(3,4)])
qed

lemma same_blocks_idle_ok:
  assumes "same_blocks s s'" "idle_ok s" "IdleProcess s' = IdleProcess s" "IdleThread s' = IdleThread s"
  shows "idle_ok s'"
  using assms by (simp add: same_blocks_def idle_ok_def)

lemma saved_keeps:
  "same_blocks s (saved regs s)" "CurrentThread (saved regs s) = CurrentThread s"
  "CurrentProcess (saved regs s) = CurrentProcess s" "IdleProcess (saved regs s) = IdleProcess s"
  "IdleThread (saved regs s) = IdleThread s"
  "t \<noteq> CurrentThread s \<Longrightarrow> Tcbs (saved regs s) t = Tcbs s t"
  by (simp_all add: saved_def save_current_keeps same_blocks_def [of s s])

lemma saved_none_running:
  assumes inv: "sched_inv s" and valid: "\<not> InvalidTCB (saved regs s) t"
  shows "TcbStatus (Tcbs (saved regs s) t) \<noteq> Running"
proof -
  have v: "\<not> InvalidTCB s t"
    using valid same_blocks_valid(1) [OF saved_keeps(1)] by simp
  show ?thesis
  proof (cases "t = CurrentThread s")
    case True
    then have "saved regs s = save_current regs s"
      using v sched_invD(2) [OF inv] by (simp add: saved_def)
    then show ?thesis
      using True save_current_keeps(4) by simp
  next
    case False
    then show ?thesis
      using saved_keeps(6) [OF False] v sched_invD(1) [OF inv] by metis
  qed
qed

lemma switch_frame:
  "IdleProcess (snd (end_switch (switch_to p t s))) = IdleProcess s"
  "IdleThread (snd (end_switch (switch_to p t s))) = IdleThread s"
  by (simp_all add: end_switch_def switch_to_def Let_def split_beta task_simps UpdatePageTable_eq
      TriggerOneShot_def)

lemma switch_inv:
  assumes none: "\<And>u. \<not> InvalidTCB s u \<Longrightarrow> TcbStatus (Tcbs s u) \<noteq> Running"
    and t: "\<not> InvalidTCB s t" and p: "\<not> InvalidPCB s p" and idle: "idle_ok s"
  shows "sched_inv (snd (end_switch (switch_to p t s)))"
proof -
  let ?s = "snd (end_switch (switch_to p t s))"
  have sb: "same_blocks s ?s"
    by (rule switch_blocks)
  note v = same_blocks_valid [OF sb]
  have "TcbChecksum (Tcbs ?s t) = THREAD_CHECKSUM"
    using valid_checksum [of ?s t] t v by simp
  moreover have "idle_ok ?s"
    by (rule same_blocks_idle_ok [OF sb idle switch_frame])
  ultimately show ?thesis
    using none p by (auto simp: sched_inv_def v end_switch_keeps switch_to_keeps split: if_splits)
qed

lemma end_switch_frame:
  "IdleProcess (snd (end_switch r)) = IdleProcess (snd r)"
  by (cases r) (simp add: end_switch_def Let_def task_simps TriggerOneShot_def)

lemma idle_inv:
  assumes none: "\<And>u. \<not> InvalidTCB s u \<Longrightarrow> TcbStatus (Tcbs s u) \<noteq> Running"
    and run: "env_ok env s" "idle_ok s" "enter_idle env s = Inr x"
  shows "sched_inv (snd (end_switch x))"
proof -
  have x: "extends s (snd x)" "idle_ok (snd x)" "IdleProcess (snd x) \<noteq> 0"
      "CurrentThread (snd x) = IdleThread (snd x)" "CurrentProcess (snd x) = IdleProcess (snd x)"
    using enter_idle_result [OF run] by auto
  have sb: "same_blocks (snd x) (snd (end_switch x))"
    by (rule end_switch_keeps)
  note v = same_blocks_valid [OF sb]
  have idle: "idle_ok (snd (end_switch x))"
    by (rule same_blocks_idle_ok [OF sb x(2)]) (simp_all add: end_switch_frame end_switch_keeps)
  have "InvalidTCB (snd x) (IdleThread (snd x))"
    by (rule idle_ok_invalid [OF x(2,3)])
  moreover have "TcbStatus (Tcbs (snd x) u) \<noteq> Running" if "\<not> InvalidTCB (snd x) u" for u
    using extends_running [OF x(1) that] none by blast
  moreover have "IdleThread (snd x) = 0 \<or> TcbChecksum (Tcbs (snd (end_switch x)) (IdleThread (snd x))) = THREAD_CHECKSUM"
    using x(2,3) sb by (auto simp: idle_ok_def same_blocks_def)
  ultimately show ?thesis
    using idle by (auto simp: sched_inv_def v end_switch_keeps x(4,5))
qed

lemma env_ok_saved: "env_ok env s \<Longrightarrow> env_ok env (saved regs s)"
  using saved_keeps(1) [of s regs] by (simp add: env_ok_def unused_def same_blocks_def)

lemma handler_inv:
  assumes inv: "sched_inv s" and env: "env_ok env s"
    and run: "MultiTaskingSchedulerHandler env regs s = Some (Inr r)"
  shows "sched_inv (snd r)"
proof (cases "SchedulerEnabled s")
  case False
  then have "r = (regs, TriggerOneShot 100 s)"
    using run by (simp add: MultiTaskingSchedulerHandler_def)
  then show ?thesis
    using sched_inv_extends [OF inv, of "snd r"] by (simp add: extends_def TriggerOneShot_def)
next
  case True
  have idle: "idle_ok (saved regs s)"
    by (rule same_blocks_idle_ok [OF saved_keeps(1) sched_invD(4) [OF inv] saved_keeps(4,5)])
  from run True show ?thesis
  proof (cases rule: handler_cases)
    case (switch p t)
    then show ?thesis
      using switch_inv [OF saved_none_running [OF inv] _ _ idle] by (simp add: runnable_def)
  next
    case (idle x)
    then show ?thesis
      using idle_inv [OF saved_none_running [OF inv] env_ok_saved [OF env]] \<open>idle_ok (saved regs s)\<close> by blast
  qed
qed

section \<open>Steps of the system\<close>

text \<open>
  The operations that change the control blocks while the system runs, in any order: a timer
  interrupt, the end of the current thread, a new process, a new thread.
\<close>

inductive task_step :: "Tasking \<Rightarrow> Tasking \<Rightarrow> bool" where
  tick: "MultiTaskingSchedulerHandler env regs s = Some (Inr (regs', s')) \<Longrightarrow> env_ok env s \<Longrightarrow> task_step s s'"
| exit: "task_step s (ThreadDoExit Code s)"
| process: "unused s (new_address f) \<Longrightarrow> CreateProcess f Parent Name Elev Prio s = (p, s') \<Longrightarrow> task_step s s'"
| thread: "unused s (new_address f) \<Longrightarrow>
    CreateThread f ex Parent ip a0 a1 prio arch plat s = Inr (t, s') \<Longrightarrow> task_step s s'"

text \<open>The system before the first process: no control block is live.\<close>

definition booted :: "Tasking \<Rightarrow> bool" where
  "booted s \<longleftrightarrow> IdleProcess s = 0 \<and> CurrentProcess s = 0 \<and> CurrentThread s = 0 \<and>
     (\<forall>t. TcbChecksum (Tcbs s t) \<noteq> THREAD_CHECKSUM)"

lemma booted_inv: "booted s \<Longrightarrow> sched_inv s"
  using valid_checksum by (auto simp: booted_def sched_inv_def idle_ok_def)

lemma ThreadDoExit_keeps:
  "same_blocks s (ThreadDoExit Code s)" "context_of (Tcbs (ThreadDoExit Code s) t) = context_of (Tcbs s t)"
  "TcbStatus (Tcbs (ThreadDoExit Code s) t) = (if t = CurrentThread s then Terminated else TcbStatus (Tcbs s t))"
  "CurrentThread (ThreadDoExit Code s) = CurrentThread s" "CurrentProcess (ThreadDoExit Code s) = CurrentProcess s"
  "IdleProcess (ThreadDoExit Code s) = IdleProcess s" "IdleThread (ThreadDoExit Code s) = IdleThread s"
  by (simp_all add: ThreadDoExit_def Let_def task_simps TriggerOneShot_def same_blocks_def context_of_def)

lemma ThreadDoExit_inv:
  assumes "sched_inv s"
  shows "sched_inv (ThreadDoExit Code s)"
proof -
  note sb = ThreadDoExit_keeps(1) [of s Code]
  have "idle_ok (ThreadDoExit Code s)"
    by (rule same_blocks_idle_ok [OF sb sched_invD(4) [OF assms]]) (simp_all add: ThreadDoExit_keeps)
  then show ?thesis
    using assms sb by (auto simp: sched_inv_def same_blocks_valid [OF sb] ThreadDoExit_keeps same_blocks_def)
qed

lemma task_step_inv: "task_step s s' \<Longrightarrow> sched_inv s \<Longrightarrow> sched_inv s'"
proof (induction rule: task_step.induct)
  case (tick env regs s regs' s')
  then show ?case using handler_inv [OF tick(3,2,1)] by simp
next
  case (exit s Code)
  then show ?case by (rule ThreadDoExit_inv)
next
  case (process s f Parent Name Elev Prio p s')
  then have "s' = snd (CreateProcess f Parent Name Elev Prio s)" by simp
  then show ?case
    using sched_inv_extends [OF process(3) CreateProcess_extends [OF process(1)]]
    by (simp add: CreateProcess_result)
next
  case (thread s f ex Parent ip a0 a1 prio arch plat t s')
  then show ?case
    using sched_inv_extends [OF thread(3), of s'] CreateThread_extends [OF thread(1,2)] by blast
qed

section \<open>Contexts\<close>

lemma saved_context:
  assumes "\<not> InvalidPCB s (CurrentProcess s)" "\<not> InvalidTCB s (CurrentThread s)"
  shows "context_of (Tcbs (saved regs s) (CurrentThread s)) = cpu_context regs s"
  using assms by (simp add: saved_def save_current_keeps)

text \<open>A live thread keeps its context and its validity through the second half of the handler.\<close>

lemma handler_context:
  assumes env: "env_ok env s" and idle: "idle_ok s" and on: "SchedulerEnabled s"
    and run: "MultiTaskingSchedulerHandler env regs s = Some (Inr r)"
  shows "TcbChecksum (Tcbs s t) = THREAD_CHECKSUM \<Longrightarrow>
      TcbChecksum (Tcbs (snd r) t) = THREAD_CHECKSUM \<and>
      context_of (Tcbs (snd r) t) = context_of (Tcbs (saved regs s) t)"
    and "cpu_context (fst r) (snd r) = context_of (Tcbs (snd r) (CurrentThread (snd r)))"
proof -
  have idle': "idle_ok (saved regs s)"
    by (rule same_blocks_idle_ok [OF saved_keeps(1) idle saved_keeps(4,5)])
  have "(TcbChecksum (Tcbs s t) = THREAD_CHECKSUM \<longrightarrow> TcbChecksum (Tcbs (snd r) t) = THREAD_CHECKSUM \<and>
      context_of (Tcbs (snd r) t) = context_of (Tcbs (saved regs s) t)) \<and>
      cpu_context (fst r) (snd r) = context_of (Tcbs (snd r) (CurrentThread (snd r)))"
    using run on
  proof (cases rule: handler_cases)
    case (switch p u)
    then show ?thesis
      using switch_to_keeps(2) end_switch_keeps(2) saved_keeps(1)
      by (simp add: end_switch_keeps switch_to_keeps same_blocks_def context_of_def [of "Tcbs (saved regs s) u"])
  next
    case (idle x)
    have ext: "extends (saved regs s) (snd x)"
      "cpu_context (fst x) (snd x) = context_of (Tcbs (snd x) (CurrentThread (snd x)))"
      using enter_idle_result [OF env_ok_saved [OF env] idle' idle(1)] by blast+
    have "TcbChecksum (Tcbs (saved regs s) t) = TcbChecksum (Tcbs s t)"
      using saved_keeps(1) by (simp add: same_blocks_def)
    then show ?thesis
      using ext end_switch_keeps(2) [of x] idle(2)
      by (simp add: end_switch_keeps extends_def same_blocks_def)
  qed
  then show "TcbChecksum (Tcbs s t) = THREAD_CHECKSUM \<Longrightarrow>
      TcbChecksum (Tcbs (snd r) t) = THREAD_CHECKSUM \<and>
      context_of (Tcbs (snd r) t) = context_of (Tcbs (saved regs s) t)"
    and "cpu_context (fst r) (snd r) = context_of (Tcbs (snd r) (CurrentThread (snd r)))"
    by blast+
qed

lemma task_step_context:
  assumes "task_step s s'" "idle_ok s" "CurrentThread s \<noteq> t" "TcbChecksum (Tcbs s t) = THREAD_CHECKSUM"
  shows "TcbChecksum (Tcbs s' t) = THREAD_CHECKSUM \<and> context_of (Tcbs s' t) = context_of (Tcbs s t)"
  using assms
proof (induction rule: task_step.induct)
  case (tick env regs s regs' s')
  then show ?case
  proof (cases "SchedulerEnabled s")
    case False
    then show ?thesis
      using tick by (auto simp: MultiTaskingSchedulerHandler_def TriggerOneShot_def)
  next
    case True
    have "Tcbs (saved regs s) t = Tcbs s t"
      by (rule saved_keeps) (use tick(4) in blast)
    then show ?thesis
      using handler_context(1) [OF tick(2,3) True tick(1,5)] by simp
  qed
next
  case (exit s Code)
  then show ?case
    using ThreadDoExit_keeps(1) [of s Code] by (simp add: ThreadDoExit_keeps(2) same_blocks_def)
next
  case (process s f Parent Name Elev Prio p s')
  then have "Tcbs s' = Tcbs s"
    using CreateProcess_result(2) [of f Parent Name Elev Prio s] by simp
  then show ?case
    using process by simp
next
  case (thread s f ex Parent ip a0 a1 prio arch plat t' s')
  then show ?case
    using CreateThread_extends [OF thread(1,2)] extends_valid(2) by metis
qed

definition step_without :: "u64 \<Rightarrow> Tasking \<Rightarrow> Tasking \<Rightarrow> bool" where
  "step_without t s s' \<longleftrightarrow> task_step s s' \<and> CurrentThread s \<noteq> t"

lemma steps_context:
  assumes "(step_without t)\<^sup>*\<^sup>* s s'" "sched_inv s" "TcbChecksum (Tcbs s t) = THREAD_CHECKSUM"
  shows "sched_inv s' \<and> TcbChecksum (Tcbs s' t) = THREAD_CHECKSUM \<and> context_of (Tcbs s' t) = context_of (Tcbs s t)"
  using assms(1)
proof (induction rule: rtranclp_induct)
  case base
  then show ?case using assms by simp
next
  case (step y z)
  then show ?case
    using task_step_inv task_step_context sched_invD(4) unfolding step_without_def by metis
qed

section \<open>Progress\<close>

lemma RetryAnotherThread_returns:
  fixes s defines "v \<equiv> Threads (Pcbs s (CurrentProcess s))"
  assumes ready: "\<And>k. unat k \<le> unat (VectorSize v) + 2 \<Longrightarrow>
      InvalidTCB s (Vector_at v k) \<or> TcbStatus (Tcbs s (Vector_at v k)) = Ready"
    and room: "unat (VectorSize v) + 3 \<le> 2 ^ 64"
  shows "unat i \<le> unat (VectorSize v) + 1 \<Longrightarrow> \<exists>r. RetryAnotherThread s i = Some r"
proof (induction "unat (VectorSize v) + 2 - unat i" arbitrary: i rule: less_induct)
  case less
  have next1: "unat (i + 1) = unat i + 1"
    using less.prems room by (simp add: unat_word_ariths)
  have again: "\<exists>r. RetryAnotherThread s (i + 1) = Some r" if "\<not> VectorSize v < i"
    using less.hyps [of "i + 1"] less.prems that next1 by (simp add: word_less_nat_alt)
  show ?case
    using ready [of "i + 1"] again less.prems next1
    by (subst RetryAnotherThread.simps) (auto simp: Let_def v_def)
qed

lemma RetryAnotherProcess_returns:
  assumes ready: "\<And>k. unat k \<le> unat (VectorSize (ListProcess s)) + 2 \<Longrightarrow>
      InvalidPCB s (Vector_at (ListProcess s) k) \<or> PcbStatus (Pcbs s (Vector_at (ListProcess s) k)) = Ready"
    and room: "unat (VectorSize (ListProcess s)) + 3 \<le> 2 ^ 64"
  shows "unat i \<le> unat (VectorSize (ListProcess s)) + 1 \<Longrightarrow> \<exists>r. RetryAnotherProcess s i = Some r"
proof (induction "unat (VectorSize (ListProcess s)) + 2 - unat i" arbitrary: i rule: less_induct)
  case less
  have next1: "unat (i + 1) = unat i + 1"
    using less.prems room by (simp add: unat_word_ariths)
  have again: "\<exists>r. RetryAnotherProcess s (i + 1) = Some r" if "\<not> VectorSize (ListProcess s) < i"
    using less.hyps [of "i + 1"] less.prems that next1 by (simp add: word_less_nat_alt)
  show ?case
    using ready [of "i + 1"] again less.prems next1
    by (subst RetryAnotherProcess.simps) (auto simp: Let_def)
qed

lemma RetryAnotherThread_stuck:
  assumes "\<not> InvalidTCB s (Vector_at (Threads (Pcbs s (CurrentProcess s))) (i + 1))"
    and "TcbStatus (Tcbs s (Vector_at (Threads (Pcbs s (CurrentProcess s))) (i + 1))) \<noteq> Ready"
  shows "RetryAnotherThread s i = None"
proof (rule ccontr)
  assume "RetryAnotherThread s i \<noteq> None"
  then obtain r where r: "RetryAnotherThread s i = Some r" by blast
  have "InvalidTCB s (Vector_at (Threads (Pcbs s (CurrentProcess s))) (i + 1)) \<or>
      TcbStatus (Tcbs s (Vector_at (Threads (Pcbs s (CurrentProcess s))) (i + 1))) = Ready"
    by (rule RetryAnotherThread.raw_induct [where P = "\<lambda>s i r.
        InvalidTCB s (Vector_at (Threads (Pcbs s (CurrentProcess s))) (i + 1)) \<or>
        TcbStatus (Tcbs s (Vector_at (Threads (Pcbs s (CurrentProcess s))) (i + 1))) = Ready", OF _ r])
      (auto simp: Let_def split: if_splits)
  with assms show False by blast
qed

lemma next_process_returns:
  assumes "\<And>i. i \<in> set is \<Longrightarrow> \<exists>r. RetryAnotherProcess s (of_nat i) = Some r"
  shows "\<exists>r. next_process s is = Some r"
  using assms by (induction "is") (force split: option.splits)+

lemma save_current_Pcbs:
  "Pcbs (save_current regs s) p = (if p = CurrentProcess s \<and> PcbStatus (Pcbs s p) = Running
     then (Pcbs s p)\<lparr>PcbStatus := Ready\<rparr> else Pcbs s p)"
  "ListProcess (save_current regs s) = ListProcess s"
  "TcbStatus (Tcbs (save_current regs s) t) =
     (if t = CurrentThread s \<and> TcbStatus (Tcbs s t) = Running then Ready else TcbStatus (Tcbs s t))"
  by (auto simp: save_current_def Let_def task_simps)

text \<open>Control blocks that are dead, ready, or current and running.\<close>

definition thread_rests :: "Tasking \<Rightarrow> u64 \<Rightarrow> bool" where
  "thread_rests s t \<longleftrightarrow> InvalidTCB s t \<or> TcbStatus (Tcbs s t) = Ready \<or>
     t = CurrentThread s \<and> TcbStatus (Tcbs s t) = Running"

definition process_rests :: "Tasking \<Rightarrow> u64 \<Rightarrow> bool" where
  "process_rests s p \<longleftrightarrow> InvalidPCB s p \<or> PcbStatus (Pcbs s p) = Ready \<or>
     p = CurrentProcess s \<and> PcbStatus (Pcbs s p) = Running"

text \<open>What the two label loops read: the array and two more elements.\<close>

definition settled :: "Tasking \<Rightarrow> bool" where
  "settled s \<longleftrightarrow>
     (let v = Threads (Pcbs s (CurrentProcess s)); l = ListProcess s in
      (\<forall>k. unat k \<le> unat (VectorSize v) + 2 \<longrightarrow> thread_rests s (Vector_at v k)) \<and>
      (\<forall>k. unat k \<le> unat (VectorSize l) + 2 \<longrightarrow> process_rests s (Vector_at l k)) \<and>
      unat (VectorSize v) + 3 \<le> 2 ^ 64 \<and> unat (VectorSize l) + 3 \<le> 2 ^ 64)"

lemma index_of_bound: "index_of v x = Some i \<Longrightarrow> i < unat (VectorSize v)"
  by (auto simp: index_of_def find_Some_iff)

lemma find_next_returns:
  assumes "settled s"
  shows "\<exists>r. find_next (save_current regs s) = Some r"
proof -
  let ?s = "save_current regs s"
  let ?v = "Threads (Pcbs s (CurrentProcess s))" and ?l = "ListProcess s"
  have same: "Threads (Pcbs ?s (CurrentProcess ?s)) = ?v" "ListProcess ?s = ?l"
    by (simp_all add: save_current_Pcbs save_current_keeps)
  have t: "InvalidTCB ?s (Vector_at ?v k) \<or> TcbStatus (Tcbs ?s (Vector_at ?v k)) = Ready"
    if "unat k \<le> unat (VectorSize ?v) + 2" for k
    using assms that same_blocks_valid(1) [OF save_current_keeps(1)]
    by (auto simp: settled_def Let_def thread_rests_def save_current_Pcbs)
  have p: "InvalidPCB ?s (Vector_at ?l k) \<or> PcbStatus (Pcbs ?s (Vector_at ?l k)) = Ready"
    if "unat k \<le> unat (VectorSize ?l) + 2" for k
    using assms that same_blocks_valid(2) [OF save_current_keeps(1)]
    by (auto simp: settled_def Let_def process_rests_def save_current_Pcbs)
  have room: "unat (VectorSize ?v) + 3 \<le> 2 ^ 64" "unat (VectorSize ?l) + 3 \<le> 2 ^ 64"
    using assms by (simp_all add: settled_def Let_def)
  have "\<exists>r. RetryAnotherThread ?s (of_nat i) = Some r" if "i < unat (VectorSize ?v)" for i
    by (rule RetryAnotherThread_returns) (use t that room in \<open>simp_all add: same of_nat_unat_less\<close>)
  then have nt: "\<exists>r. next_thread ?s = Some r"
    using index_of_bound by (fastforce simp: next_thread_def same split: option.split)
  have "\<exists>r. next_process ?s [0..<unat (VectorSize ?l)] = Some r"
    by (rule next_process_returns, rule RetryAnotherProcess_returns)
      (use p room in \<open>simp_all add: same of_nat_unat_less\<close>)
  with nt show ?thesis
    by (auto simp: find_next_def same split: option.split)
qed

lemma find_next_none:
  assumes "find_next s = Some None"
  shows "search_processes s (contents (ListProcess s)) = None"
  using assms by (auto simp: find_next_def split: option.splits)

lemma RetryAnotherThread_end:
  fixes s defines "v \<equiv> Threads (Pcbs s (CurrentProcess s))"
  assumes dead: "\<And>k. i < k \<Longrightarrow> InvalidTCB s (Vector_at v k)" and room: "unat (VectorSize v) + 3 \<le> 2 ^ 64"
  shows "unat i \<le> unat (VectorSize v) + 1 \<Longrightarrow> RetryAnotherThread s i = Some None"
  using dead
proof (induction "unat (VectorSize v) + 2 - unat i" arbitrary: i rule: less_induct)
  case less
  have next1: "unat (i + 1) = unat i + 1"
    using less.prems(1) room by (simp add: unat_word_ariths)
  have "RetryAnotherThread s (i + 1) = Some None" if "\<not> VectorSize v < i"
    using less.hyps [of "i + 1"] less.prems that next1 by (simp add: word_less_nat_alt)
  then show ?case
    using less.prems(2) [of "i + 1"] next1
    by (subst RetryAnotherThread.simps) (auto simp: Let_def v_def word_less_nat_alt)
qed

lemma RetryAnotherProcess_end:
  assumes dead: "\<And>k. i < k \<Longrightarrow> InvalidPCB s (Vector_at (ListProcess s) k)"
    and room: "unat (VectorSize (ListProcess s)) + 3 \<le> 2 ^ 64"
  shows "unat i \<le> unat (VectorSize (ListProcess s)) + 1 \<Longrightarrow> RetryAnotherProcess s i = Some None"
  using dead
proof (induction "unat (VectorSize (ListProcess s)) + 2 - unat i" arbitrary: i rule: less_induct)
  case less
  have next1: "unat (i + 1) = unat i + 1"
    using less.prems(1) room by (simp add: unat_word_ariths)
  have "RetryAnotherProcess s (i + 1) = Some None" if "\<not> VectorSize (ListProcess s) < i"
    using less.hyps [of "i + 1"] less.prems that next1 by (simp add: word_less_nat_alt)
  then show ?case
    using less.prems(2) [of "i + 1"] next1
    by (subst RetryAnotherProcess.simps) (auto simp: Let_def word_less_nat_alt)
qed

section \<open>Properties\<close>

lemma pointers_elem: "P 0 \<Longrightarrow> (\<And>x. x \<in> set xs \<Longrightarrow> P x) \<Longrightarrow> P (Vector_at (pointers xs) k)"
  by (simp add: Vector_at_def pointers_def)

lemma contents_pointers: "length xs < 2 ^ 64 \<Longrightarrow> contents (pointers xs) = xs"
  by (rule contents_eqI) (simp_all add: pointers_def unsigned_of_nat take_bit_nat_eq_self)

lemma task_example_valid:
  "\<not> InvalidPCB task_example 0x100000" "\<not> InvalidTCB task_example 0x200000"
  "\<not> InvalidTCB task_example 0x201000" "InvalidPCB task_example 0" "InvalidTCB task_example 0"
  by (simp_all add: InvalidPCB_def InvalidTCB_def task_example_def)

lemma task_example_fields:
  "SchedulerEnabled task_example" "CurrentProcess task_example = 0x100000"
  "CurrentThread task_example = 0x200000" "ListProcess task_example = pointers [0x100000]"
  "Threads (Pcbs task_example 0x100000) = pointers [0x200000, 0x201000]"
  "PcbStatus (Pcbs task_example 0x100000) = Running"
  "TcbStatus (Tcbs task_example 0x200000) = Running" "TcbStatus (Tcbs task_example 0x201000) = Ready"
  by (simp_all add: task_example_def)

definition env_example :: IdleEnv where
  "env_example = \<lparr>fresh_process = fresh_example\<lparr>new_address := 0x400000\<rparr>,
     fresh_thread = fresh_example\<lparr>new_address := 0x401000\<rparr>, IdleProcessLoop = 0x8000,
     ThreadDoExit_address = 0x9000, idle_name = replicate 256 0\<rparr>"

lemma task_example_settled: "settled task_example"
proof -
  have "thread_rests task_example (Vector_at (pointers [0x200000, 0x201000]) k)" for k
    by (rule pointers_elem) (auto simp: thread_rests_def task_example_valid task_example_fields)
  moreover have "process_rests task_example (Vector_at (pointers [0x100000]) k)" for k
    by (rule pointers_elem) (auto simp: process_rests_def task_example_valid task_example_fields)
  ultimately show ?thesis
    by (simp add: settled_def Let_def task_example_fields) (simp add: pointers_def)
qed

text \<open>
  C14. The scheduler finds work: when the current process and thread are valid, running and listed,
  and every control block the search can read (two elements behind each array included) is dead,
  ready or the current one, the handler returns and the processor runs a valid thread marked running,
  with its segment base and, when the process has one, its page table loaded.
\<close>

theorem scheduler_returns:
  assumes on: "SchedulerEnabled s"
    and valid: "\<not> InvalidPCB s (CurrentProcess s)" "\<not> InvalidTCB s (CurrentThread s)"
    and listed: "CurrentProcess s \<in> set (contents (ListProcess s))"
      "CurrentThread s \<in> set (contents (Threads (Pcbs s (CurrentProcess s))))"
    and running: "PcbStatus (Pcbs s (CurrentProcess s)) = Running" "TcbStatus (Tcbs s (CurrentThread s)) = Running"
    and rest: "settled s"
  shows "\<exists>regs' s'. MultiTaskingSchedulerHandler env regs s = Some (Inr (regs', s')) \<and>
    \<not> InvalidTCB s' (CurrentThread s') \<and> TcbStatus (Tcbs s' (CurrentThread s')) = Running \<and>
    regs' = Registers (Tcbs s' (CurrentThread s')) \<and> gs_base (Cpu s') = CurrentThread s' \<and>
    (PcbPageTable (Pcbs s (CurrentProcess s')) \<noteq> 0 \<longrightarrow> cr3 (Cpu s') = PcbPageTable (Pcbs s (CurrentProcess s')))"
proof -
  let ?s = "save_current regs s"
  have blocks: "same_blocks s ?s" by (rule save_current_keeps)
  obtain r where r: "find_next ?s = Some r"
    using find_next_returns [OF rest] by blast
  have "runnable ?s (CurrentThread s)"
    using valid running by (simp add: runnable_def same_blocks_valid [OF blocks] save_current_Pcbs)
  moreover have "PcbStatus (Pcbs ?s (CurrentProcess s)) = Ready" "\<not> InvalidPCB ?s (CurrentProcess s)"
    using running valid by (simp_all add: save_current_Pcbs same_blocks_valid [OF blocks])
  moreover have th: "Threads (Pcbs ?s (CurrentProcess s)) = Threads (Pcbs s (CurrentProcess s))"
    by (simp add: save_current_Pcbs)
  ultimately have "search_processes ?s (contents (ListProcess ?s)) \<noteq> None"
    using listed th unfolding search_processes_none save_current_Pcbs(2) by metis
  then obtain p t where pt: "r = Some (p, t)"
    using find_next_none r by (cases r) auto
  then have t: "\<not> InvalidTCB s t"
    using find_next_found r same_blocks_valid [OF blocks] by (auto simp: runnable_def)
  let ?r = "end_switch (switch_to p t ?s)"
  have "same_blocks s (snd ?r)"
    by (rule same_blocks_trans [OF blocks switch_blocks])
  moreover have "MultiTaskingSchedulerHandler env regs s = Some (Inr ?r)"
    using on valid r pt by (simp add: MultiTaskingSchedulerHandler_def schedule_def Let_def)
  moreover have "PcbPageTable (Pcbs ?s p) = PcbPageTable (Pcbs s p)"
    by (simp add: save_current_Pcbs)
  moreover have "fst ?r = Registers (Tcbs (snd ?r) t)"
    using end_switch_keeps(3) [of "switch_to p t ?s" t] switch_to_keeps(3) [of p t ?s t]
    by (simp add: context_of_def end_switch_keeps switch_to_keeps)
  ultimately show ?thesis
    using t by (intro exI [of _ "fst ?r"] exI [of _ "snd ?r"])
      (simp add: prod_eq_iff same_blocks_valid(1) end_switch_keeps(4-6,9,10) switch_to_keeps(4-6,8,9))
qed

theorem scheduler_returns_witness:
  "\<exists>regs' s'. MultiTaskingSchedulerHandler env_example zero_registers task_example = Some (Inr (regs', s')) \<and>
     TcbStatus (Tcbs s' (CurrentThread s')) = Running"
  using scheduler_returns [of task_example env_example zero_registers] task_example_settled
  by (auto simp: task_example_fields task_example_valid contents_pointers)

text \<open>
  The scheduler can hang: when the thread behind the current one in its process is valid but not
  ready (it has exited, say), the label loop reads the same element again and again, with interrupts
  off and the lock held, and the handler never returns.
\<close>

lemma scheduler_hangs:
  assumes "SchedulerEnabled s"
    and "\<not> InvalidPCB s (CurrentProcess s)" "\<not> InvalidTCB s (CurrentThread s)"
    and "index_of (Threads (Pcbs s (CurrentProcess s))) (CurrentThread s) = Some i"
    and "Vector_at (Threads (Pcbs s (CurrentProcess s))) (of_nat i + 1) = t" "t \<noteq> CurrentThread s"
    and "\<not> InvalidTCB s t" "TcbStatus (Tcbs s t) \<noteq> Ready"
  shows "MultiTaskingSchedulerHandler env regs s = None"
proof -
  let ?s = "save_current regs s"
  have same: "Threads (Pcbs ?s (CurrentProcess ?s)) = Threads (Pcbs s (CurrentProcess s))"
    by (simp add: save_current_Pcbs save_current_keeps)
  have "RetryAnotherThread ?s (of_nat i) = None"
    by (rule RetryAnotherThread_stuck)
      (use assms same_blocks_valid [OF save_current_keeps(1) [of s regs]] in
        \<open>simp_all add: same save_current_Pcbs save_current_keeps(6)\<close>)
  then have "find_next ?s = None"
    using assms(4) same by (simp add: find_next_def next_thread_def save_current_keeps(5))
  then show ?thesis
    using assms(1-3) by (simp add: MultiTaskingSchedulerHandler_def schedule_def Let_def)
qed

text \<open>The second thread exits and the first one runs on: the next interrupt does not return.\<close>

definition exited_example :: Tasking where
  "exited_example = (ThreadDoExit 0 (task_example\<lparr>CurrentThread := 0x201000\<rparr>))\<lparr>CurrentThread := 0x200000\<rparr>"

lemma exited_example_fields:
  "SchedulerEnabled exited_example" "CurrentProcess exited_example = 0x100000"
  "CurrentThread exited_example = 0x200000"
  "Threads (Pcbs exited_example 0x100000) = pointers [0x200000, 0x201000]"
  "TcbStatus (Tcbs exited_example 0x201000) = Terminated"
  "\<not> InvalidPCB exited_example 0x100000" "\<not> InvalidTCB exited_example 0x200000"
  "\<not> InvalidTCB exited_example 0x201000"
  by (simp_all add: exited_example_def ThreadDoExit_def Let_def task_simps TriggerOneShot_def task_example_def
      InvalidPCB_def InvalidTCB_def)

lemma scheduler_hangs_witness: "MultiTaskingSchedulerHandler env_example zero_registers exited_example = None"
proof -
  have "index_of (pointers [0x200000, 0x201000]) 0x200000 = Some 0"
    by (simp add: index_of_def pointers_def Vector_at_def upt_rec)
  moreover have "Vector_at (pointers [0x200000, 0x201000]) 1 = 0x201000"
    by (simp add: pointers_def Vector_at_def)
  ultimately show ?thesis
    using scheduler_hangs [of exited_example 0 "0x201000" env_example zero_registers]
    by (simp add: exited_example_fields)
qed

text \<open>
  C3. At most one valid thread is marked running, and it is the current one, in every state reached
  from a system without threads by timer interrupts, thread exits and new processes and threads in
  any order.
\<close>

theorem running_thread_is_current:
  assumes "booted s0" and "task_step\<^sup>*\<^sup>* s0 s"
    and "\<not> InvalidTCB s t" and "TcbStatus (Tcbs s t) = Running"
  shows "t = CurrentThread s \<and> \<not> InvalidPCB s (CurrentProcess s)"
proof -
  have "sched_inv s"
    using assms(2) booted_inv [OF assms(1)] task_step_inv by (induction rule: rtranclp_induct) auto
  then show ?thesis
    using assms(3,4) sched_invD by blast
qed

definition boot_example :: Tasking where
  "boot_example = task_example\<lparr>Pcbs := \<lambda>_. blank_pcb, Tcbs := \<lambda>_. blank_tcb, ListProcess := pointers [],
     CurrentProcess := 0, CurrentThread := 0\<rparr>"

text \<open>From the empty system to the first running thread: a process, a thread, an interrupt.\<close>

definition booted1 :: Tasking where
  "booted1 = snd (CreateProcess fresh_example 0 [] User 1 boot_example)"

lemma booted1_fields:
  "Tcbs booted1 t = blank_tcb" "PcbChecksum (Pcbs booted1 0x300000) = PROCESS_CHECKSUM"
  "Elevation (Pcbs booted1 0x300000) = User" "PcbStatus (Pcbs booted1 0x300000) = Ready"
  "p \<noteq> 0x300000 \<Longrightarrow> PcbChecksum (Pcbs booted1 p) \<noteq> PROCESS_CHECKSUM"
  "contents (Threads (Pcbs booted1 0x300000)) = []" "contents (ListProcess booted1) = [0x300000]"
  "vec_ok (Threads (Pcbs booted1 0x300000))" "vec_room (Threads (Pcbs booted1 0x300000))"
  "CurrentProcess booted1 = 0" "SchedulerEnabled booted1"
  "TaskVM booted1 = vm_example" "TaskManager booted1 = vm_example_manager"
proof -
  have fresh: "new_address fresh_example = 0x300000"
    by (simp add: fresh_example_def)
  have v: "vec_ok (pointers [])" "vec_room (pointers [])" "contents (pointers []) = []"
    by (simp_all add: vec_ok_def vec_room_def pointers_def contents_def)
  show "contents (ListProcess booted1) = [0x300000]"
    using push_back_contents(1) [OF v(1,2)] v(3)
    by (simp add: booted1_def CreateProcess_result fresh boot_example_def)
qed (simp_all add: booted1_def CreateProcess_result fresh_example_def boot_example_def task_example_def
      blank_pcb_def PROCESS_CHECKSUM_def Vector_empty_def vec_ok_def vec_room_def contents_def)

lemma blank_tcb_dead: "TcbChecksum blank_tcb \<noteq> THREAD_CHECKSUM"
  by (simp add: blank_tcb_def THREAD_CHECKSUM_def)

lemma booted1_step: "task_step boot_example booted1"
proof (rule task_step.process)
  show "unused boot_example (new_address fresh_example)"
    by (simp add: unused_def boot_example_def blank_tcb_def blank_pcb_def THREAD_CHECKSUM_def
        PROCESS_CHECKSUM_def fresh_example_def)
  show "CreateProcess fresh_example 0 [] User 1 boot_example =
      (fst (CreateProcess fresh_example 0 [] User 1 boot_example), booted1)"
    by (simp add: booted1_def)
qed

lemma booted2:
  obtains s where "task_step booted1 s"
    "\<not> InvalidTCB s 0x301000" "TcbStatus (Tcbs s 0x301000) = Ready" "TcbParent (Tcbs s 0x301000) = 0x300000"
    "\<forall>u. u \<noteq> 0x301000 \<longrightarrow> Tcbs s u = blank_tcb" "\<not> InvalidPCB s 0x300000"
    "PcbStatus (Pcbs s 0x300000) = Ready" "contents (Threads (Pcbs s 0x300000)) = [0x301000]"
    "\<forall>p. p \<noteq> 0x300000 \<longrightarrow> PcbChecksum (Pcbs s p) \<noteq> PROCESS_CHECKSUM"
    "contents (ListProcess s) = [0x300000]" "CurrentProcess s = 0" "SchedulerEnabled s"
proof -
  let ?f = "fresh_example\<lparr>new_address := 0x301000\<rparr>"
  obtain stack m where "AllocateStack (TaskManager booted1) True (TaskVM booted1) = Inr (stack, m)"
    using AllocateStack_user [of vm_example vm_example_manager] vm_example_ok(1) vm_example_serves
    by (auto simp: booted1_fields vm_example_manager_def)
  then obtain s where s: "CreateThread ?f 0x9000 0x300000 0x400000 0 0 1 x64 Native booted1 = Inr (0x301000, s)"
    using CreateThread_returns [of "0x300000" booted1 "(stack, m)" ?f "0x9000" "0x400000" 0 0 1 x64 Native]
    by (auto simp: booted1_fields)
  have step: "task_step booted1 s"
    by (rule task_step.thread [OF _ s])
      (simp add: unused_def booted1_fields blank_tcb_def THREAD_CHECKSUM_def)
  show thesis
    by (rule CreateThread_result [OF _ _ _ s])
      (use that [OF step] push_back_contents(1) [OF booted1_fields(8,9)] in
        \<open>simp_all add: booted1_fields InvalidTCB_def InvalidPCB_def\<close>)
qed

lemma boot_example_runs:
  "\<exists>s. task_step\<^sup>*\<^sup>* boot_example s \<and> \<not> InvalidTCB s 0x301000 \<and> TcbStatus (Tcbs s 0x301000) = Running"
proof -
  obtain s where s: "task_step booted1 s"
    "\<not> InvalidTCB s 0x301000" "TcbStatus (Tcbs s 0x301000) = Ready" "TcbParent (Tcbs s 0x301000) = 0x300000"
    "\<forall>u. u \<noteq> 0x301000 \<longrightarrow> Tcbs s u = blank_tcb" "\<not> InvalidPCB s 0x300000"
    "PcbStatus (Pcbs s 0x300000) = Ready" "contents (Threads (Pcbs s 0x300000)) = [0x301000]"
    "\<forall>p. p \<noteq> 0x300000 \<longrightarrow> PcbChecksum (Pcbs s p) \<noteq> PROCESS_CHECKSUM"
    "contents (ListProcess s) = [0x300000]" "CurrentProcess s = 0" "SchedulerEnabled s"
    using booted2 by blast
  let ?r = "end_switch (switch_to 0x300000 0x301000 s)"
  have "MultiTaskingSchedulerHandler env_example zero_registers s = Some (Inr ?r)"
    using s by (simp add: MultiTaskingSchedulerHandler_def schedule_def InvalidPCB_def [of s 0])
  moreover have "TcbParent (Tcbs s t) = 0 \<or> TcbParent (Tcbs s t) = 0x300000" for t
    using s(4,5) by (cases "t = 0x301000") (simp_all add: blank_tcb_def)
  then have "unused s a" if "a \<noteq> 0" "a \<noteq> 0x300000" "a \<noteq> 0x301000" for a
    using that s(5,9) by (metis unused_def blank_tcb_dead)
  then have "env_ok env_example s"
    by (simp add: env_ok_def env_example_def)
  ultimately have "task_step s (snd ?r)"
    by (intro task_step.tick [of env_example zero_registers s "fst ?r"]) simp_all
  moreover have "same_blocks s (snd ?r)"
    by (rule switch_blocks)
  ultimately show ?thesis
    using s(1,2) booted1_step
    by (intro exI [of _ "snd ?r"]) (auto simp: same_blocks_valid(1) end_switch_keeps switch_to_keeps)
qed

theorem running_thread_is_current_witness:
  "\<exists>s. task_step\<^sup>*\<^sup>* boot_example s \<and> TcbStatus (Tcbs s 0x301000) = Running \<and> CurrentThread s = 0x301000"
proof -
  have "booted boot_example"
    by (simp add: booted_def boot_example_def task_example_def blank_tcb_def THREAD_CHECKSUM_def)
  then show ?thesis
    using running_thread_is_current boot_example_runs by metis
qed

text \<open>
  C6. A thread resumes where it was interrupted: the general registers, the segment base and the
  floating point state it has when an interrupt takes the processor from it are loaded again by the
  first later interrupt that selects it, whatever interrupts, exits and creations happen in between.
\<close>

theorem thread_resumes:
  assumes inv: "sched_inv s" and on: "SchedulerEnabled s" "SchedulerEnabled s2"
    and cur: "CurrentThread s = t" "\<not> InvalidTCB s t"
    and out: "MultiTaskingSchedulerHandler env regs s = Some (Inr (regs1, s1))" "env_ok env s"
    and away: "(step_without t)\<^sup>*\<^sup>* s1 s2" "CurrentThread s2 \<noteq> t"
    and again: "MultiTaskingSchedulerHandler env2 regs2 s2 = Some (Inr (regs3, s3))" "env_ok env2 s2"
      "CurrentThread s3 = t"
  shows "cpu_context regs3 s3 = cpu_context regs s"
proof -
  have live: "TcbChecksum (Tcbs s t) = THREAD_CHECKSUM"
    by (rule valid_checksum [OF cur(2)])
  have "context_of (Tcbs (saved regs s) t) = cpu_context regs s"
    using saved_context [of s regs] cur sched_invD(2) [OF inv] by blast
  then have s1: "TcbChecksum (Tcbs s1 t) = THREAD_CHECKSUM" "context_of (Tcbs s1 t) = cpu_context regs s"
    using handler_context(1) [OF out(2) sched_invD(4) [OF inv] on(1) out(1) live] by simp_all
  have "sched_inv s1"
    using handler_inv [OF inv out(2,1)] by simp
  note s2 = steps_context [OF away(1) this s1(1)]
  have "Tcbs (saved regs2 s2) t = Tcbs s2 t"
    by (rule saved_keeps) (use away(2) in blast)
  then have "context_of (Tcbs s3 t) = context_of (Tcbs s2 t)"
    using handler_context(1) [OF again(2) _ on(2) again(1), of t] s2 sched_invD(4) by simp
  moreover have "cpu_context regs3 s3 = context_of (Tcbs s3 t)"
    using handler_context(2) [OF again(2) _ on(2) again(1)] s2 sched_invD(4) again(3) by simp
  ultimately show ?thesis
    using s1(2) s2 by simp
qed

text \<open>Two threads take turns.\<close>

lemma switch_arrays:
  "Threads (Pcbs (snd (end_switch (switch_to p t s))) q) = Threads (Pcbs s q)"
  "ListProcess (snd (end_switch (switch_to p t s))) = ListProcess s"
  "PcbStatus (Pcbs (snd (end_switch (switch_to p t s))) q) = (if q = p then Running else PcbStatus (Pcbs s q))"
  "SchedulerEnabled (snd (end_switch (switch_to p t s))) = SchedulerEnabled s"
  by (simp_all add: end_switch_def switch_to_def Let_def split_beta task_simps UpdatePageTable_eq
      TriggerOneShot_def)

definition turn1 :: "ThreadRegisters \<Rightarrow> ThreadRegisters \<times> Tasking" where
  "turn1 regs = end_switch (switch_to 0x100000 0x201000 (save_current regs task_example))"

definition turn2 :: "ThreadRegisters \<Rightarrow> ThreadRegisters \<Rightarrow> ThreadRegisters \<times> Tasking" where
  "turn2 regs regs2 = end_switch (switch_to 0x100000 0x200000 (save_current regs2 (snd (turn1 regs))))"

lemma two_threads:
  "Vector_at (pointers [0x200000, 0x201000]) 1 = 0x201000"
  "index_of (pointers [0x200000, 0x201000]) 0x200000 = Some 0"
  "index_of (pointers [0x200000, 0x201000]) 0x201000 = Some 1"
  "1 < k \<Longrightarrow> Vector_at (pointers [0x200000, 0x201000]) k = 0"
  "0 < k \<Longrightarrow> Vector_at (pointers [0x100000]) k = 0"
  by (auto simp: index_of_def pointers_def Vector_at_def upt_rec word_less_nat_alt)

lemma turn1_runs:
  "MultiTaskingSchedulerHandler env regs task_example = Some (Inr (turn1 regs))"
proof -
  let ?s = "save_current regs task_example"
  have b: "InvalidTCB ?s t = InvalidTCB task_example t" for t
    by (rule same_blocks_valid) (rule save_current_keeps)
  have "RetryAnotherThread ?s 0 = Some (Some 0x201000)"
    by (subst RetryAnotherThread.simps)
      (simp add: save_current_keeps save_current_Pcbs task_example_fields two_threads b task_example_valid)
  then show ?thesis
    by (simp add: MultiTaskingSchedulerHandler_def schedule_def find_next_def next_thread_def task_example_fields
        task_example_valid save_current_keeps save_current_Pcbs two_threads turn1_def)
qed

lemma turn1_blocks: "same_blocks task_example (snd (turn1 regs))"
  unfolding turn1_def by (rule same_blocks_trans [OF save_current_keeps(1) switch_blocks])

lemma turn1_state:
  fixes regs defines "s \<equiv> snd (turn1 regs)"
  shows "InvalidTCB s t = InvalidTCB task_example t" "InvalidPCB s p = InvalidPCB task_example p"
    "CurrentThread s = 0x201000" "CurrentProcess s = 0x100000" "SchedulerEnabled s"
    "ListProcess s = pointers [0x100000]" "Threads (Pcbs s 0x100000) = pointers [0x200000, 0x201000]"
    "PcbStatus (Pcbs s 0x100000) = Running" "TcbStatus (Tcbs s 0x200000) = Ready"
proof -
  have "same_blocks task_example s"
    unfolding s_def by (rule turn1_blocks)
  then show "InvalidTCB s t = InvalidTCB task_example t" "InvalidPCB s p = InvalidPCB task_example p"
    by (rule same_blocks_valid)+
  show "SchedulerEnabled s"
    by (simp add: s_def turn1_def switch_arrays) (simp add: save_current_def Let_def task_simps task_example_fields)
qed (simp_all add: s_def turn1_def switch_arrays end_switch_keeps switch_to_keeps save_current_Pcbs
      task_example_fields)

lemma turn2_runs:
  "MultiTaskingSchedulerHandler env regs2 (snd (turn1 regs)) = Some (Inr (turn2 regs regs2))"
proof -
  let ?t = "snd (turn1 regs)"
  let ?s = "save_current regs2 ?t"
  have b: "InvalidTCB ?s t = InvalidTCB task_example t" "InvalidPCB ?s p = InvalidPCB task_example p" for t p
    using same_blocks_valid [OF save_current_keeps(1) [of ?t regs2]] turn1_state(1,2) by auto
  have same: "Threads (Pcbs ?s 0x100000) = pointers [0x200000, 0x201000]" "ListProcess ?s = pointers [0x100000]"
      "CurrentProcess ?s = 0x100000" "CurrentThread ?s = 0x201000" "PcbStatus (Pcbs ?s 0x100000) = Ready"
      "TcbStatus (Tcbs ?s 0x200000) = Ready"
    by (simp_all add: save_current_keeps save_current_Pcbs turn1_state)
  have size: "VectorSize (pointers [0x200000, 0x201000]) = 2" "VectorSize (pointers [0x100000]) = 1"
    by (simp_all add: pointers_def)
  have "RetryAnotherThread ?s 1 = Some None"
    by (rule RetryAnotherThread_end) (simp_all add: same size two_threads b task_example_valid)
  moreover have "RetryAnotherProcess ?s 0 = Some None"
    by (rule RetryAnotherProcess_end) (simp_all add: same size two_threads b task_example_valid)
  moreover have "Vector_at (pointers [0x100000]) 0 = 0x100000"
    by (simp add: Vector_at_def pointers_def)
  ultimately have "find_next ?s = Some (Some (0x100000, 0x200000))"
    by (simp add: find_next_def next_thread_def same size two_threads contents_pointers b task_example_valid)
  then show ?thesis
    by (simp add: MultiTaskingSchedulerHandler_def schedule_def turn1_state task_example_valid turn2_def)
qed

lemma task_example_env: "env_ok env_example task_example" "env_ok env_example (snd (turn1 regs))"
proof -
  have un: "unused task_example 0x400000" "unused task_example 0x401000"
    by (auto simp: unused_def task_example_def blank_tcb_def blank_pcb_def THREAD_CHECKSUM_def
        PROCESS_CHECKSUM_def split: if_splits)
  then show "env_ok env_example task_example"
    by (simp add: env_ok_def env_example_def)
  moreover note turn1_blocks [of regs]
  ultimately show "env_ok env_example (snd (turn1 regs))"
    by (simp add: env_ok_def unused_def same_blocks_def)
qed

lemma task_example_inv: "sched_inv task_example"
  by (auto simp: sched_inv_def InvalidTCB_def InvalidPCB_def task_example_def blank_tcb_def idle_ok_def
      THREAD_CHECKSUM_def split: if_splits)

theorem thread_resumes_witness:
  "\<exists>s3. MultiTaskingSchedulerHandler env_example (zero_registers\<lparr>reg_rax := 2\<rparr>)
       (snd (turn1 (zero_registers\<lparr>reg_rax := 1\<rparr>))) = Some (Inr (zero_registers\<lparr>reg_rax := 1\<rparr>, s3))"
proof -
  let ?r = "zero_registers\<lparr>reg_rax := 1\<rparr>" and ?r2 = "zero_registers\<lparr>reg_rax := 2\<rparr>"
  obtain regs1 s1 regs3 s3 where r: "turn1 ?r = (regs1, s1)" "turn2 ?r ?r2 = (regs3, s3)"
    by fastforce
  have "CurrentThread s3 = 0x200000"
    using r(2) end_switch_keeps(5) switch_to_keeps(5) unfolding turn2_def by (metis snd_conv)
  then have "cpu_context regs3 s3 = cpu_context ?r task_example"
    using thread_resumes [OF task_example_inv task_example_fields(1), of s1 "0x200000" env_example ?r regs1 s1
        env_example ?r2 regs3 s3] turn1_runs [of env_example ?r] turn2_runs [of env_example ?r2 ?r]
      turn1_state [of ?r] task_example_env(1) task_example_env(2) [of ?r] r
    by (simp add: task_example_fields task_example_valid)
  then show ?thesis
    using turn2_runs [of env_example ?r2 ?r] r by (auto simp: cpu_context_def)
qed

end
