(* ===== verification/Monotasking.thy ===== *)
theory Monotasking
  imports Tasking
begin

text \<open>
  The cooperative task queue of \<^verbatim>\<open>src/kernel/proc/Monotasking.cpp\<close>: a linked queue of
  tasks, the software interrupt that picks the last ready task, and the operations that push, pop,
  create and kill tasks. Queue nodes and task blocks live in two stores indexed by address; a freed
  node keeps its contents, because the code reads some of them after the \<^verbatim>\<open>delete\<close>. Walks
  along the queue are partial functions: \<open>None\<close> is a walk that does not end.
\<close>

section \<open>State\<close>

datatype TaskState =
  TaskStateNull | TaskStateReady | TaskStateRunning | TaskStateWaiting | TaskStateTerminated
  | TaskPushed | TaskPoped

definition TASK_CHECKSUM :: u32 where "TASK_CHECKSUM = 0xDEADCAFE"

record TaskControlBlock =
  task_name :: "u8 list"
  task_regs :: ThreadRegisters
  task_fs :: u64
  task_gs :: u64
  task_id :: u64
  task_stack :: u64
  task_pml4 :: u64
  task_UserMode :: bool
  task_state :: TaskState
  task_argc :: u32
  task_argv :: u64
  task_envp :: u64
  SpawnTick :: u64
  task_Year :: u64
  task_Month :: u64
  task_Day :: u64
  task_Hour :: u64
  task_Minute :: u64
  task_Second :: u64
  task_checksum :: u32

record TaskQueue =
  QPrev :: u64
  QTask :: u64
  QNext :: u64

record Mono =
  QNodes :: "u64 \<Rightarrow> TaskQueue"
  TaskBlocks :: "u64 \<Rightarrow> TaskControlBlock"
  Queue :: u64
  CurrentTask :: u64
  TaskIDs :: u64
  MonoCpu :: Machine
  MonoVM :: VirtualMemory
  MonoManager :: PageTableManager
  MonoPML4 :: u64

definition upd_node :: "u64 \<Rightarrow> (TaskQueue \<Rightarrow> TaskQueue) \<Rightarrow> Mono \<Rightarrow> Mono" where
  "upd_node a f s = s\<lparr>QNodes := (QNodes s)(a := f (QNodes s a))\<rparr>"

definition upd_task :: "u64 \<Rightarrow> (TaskControlBlock \<Rightarrow> TaskControlBlock) \<Rightarrow> Mono \<Rightarrow> Mono" where
  "upd_task t f s = s\<lparr>TaskBlocks := (TaskBlocks s)(t := f (TaskBlocks s t))\<rparr>"

abbreviation set_state :: "u64 \<Rightarrow> TaskState \<Rightarrow> Mono \<Rightarrow> Mono" where
  "set_state t st s \<equiv> upd_task t (\<lambda>b. b\<lparr>task_state := st\<rparr>) s"

section \<open>The queue\<close>

text \<open>\<^verbatim>\<open>while (current->Next) current = current->Next\<close>.\<close>

partial_function (option) last_node :: "(u64 \<Rightarrow> TaskQueue) \<Rightarrow> u64 \<Rightarrow> u64 option" where
  "last_node N current = (if QNext (N current) \<noteq> 0 then last_node N (QNext (N current)) else Some current)"

definition FindLastTask :: "Mono \<Rightarrow> u64 option" where
  "FindLastTask s = map_option (\<lambda>current. QTask (QNodes s current)) (last_node (QNodes s) (Queue s))"

text \<open>The loop of \<^verbatim>\<open>AllocateTask\<close> dereferences \<^verbatim>\<open>current\<close> before it tests it.\<close>

partial_function (option) find_current :: "(u64 \<Rightarrow> TaskQueue) \<Rightarrow> u64 \<Rightarrow> u64 \<Rightarrow> u64 option" where
  "find_current N cur current =
     (if QTask (N current) \<noteq> cur then
        (if current = 0 then Some current else find_current N cur (QNext (N current)))
      else Some current)"

text \<open>\<open>node\<close> is the address of the \<^verbatim>\<open>new TaskQueue\<close>.\<close>

definition AllocateTask :: "u64 \<Rightarrow> u64 \<Rightarrow> bool \<Rightarrow> Mono \<Rightarrow> Mono option" where
  "AllocateTask node task AfterCurrent s =
     (if Queue s = 0 then
        Some (upd_node node (\<lambda>_. \<lparr>QPrev = 0, QTask = task, QNext = 0\<rparr>) (s\<lparr>Queue := node\<rparr>))
      else
        let s = upd_node node (\<lambda>_. \<lparr>QPrev = 0, QTask = task, QNext = 0\<rparr>) s
        in if AfterCurrent then
             map_option (\<lambda>current.
               let s = upd_node node (\<lambda>n. n\<lparr>QNext := QNext (QNodes s current)\<rparr>) s;
                   s = upd_node node (\<lambda>n. n\<lparr>QPrev := current\<rparr>) s
               in upd_node current (\<lambda>n. n\<lparr>QNext := node\<rparr>) s)
               (find_current (QNodes s) (CurrentTask s) (Queue s))
           else
             map_option (\<lambda>last.
               let s = upd_node node (\<lambda>n. n\<lparr>QPrev := last, QNext := 0\<rparr>) s
               in upd_node last (\<lambda>n. n\<lparr>QNext := node\<rparr>) s)
               (last_node (QNodes s) (Queue s)))"

text \<open>\<^verbatim>\<open>while (current)\<close>: the node that holds the task, or the null pointer.\<close>

partial_function (option) find_task :: "(u64 \<Rightarrow> TaskQueue) \<Rightarrow> u64 \<Rightarrow> u64 \<Rightarrow> u64 option" where
  "find_task N task current =
     (if current = 0 then Some 0
      else if QTask (N current) = task then Some current
      else find_task N task (QNext (N current)))"

definition unlink_node :: "u64 \<Rightarrow> Mono \<Rightarrow> Mono" where
  "unlink_node current s =
     (if QNext (QNodes s current) \<noteq> 0 then
        let nxt = QNext (QNodes s current);
            s = upd_node current (\<lambda>n. n\<lparr>QTask := QTask (QNodes s nxt)\<rparr>) s;
            s = upd_node current (\<lambda>n. n\<lparr>QNext := QNext (QNodes s nxt)\<rparr>) s
        in if QNext (QNodes s nxt) \<noteq> 0
           then upd_node (QNext (QNodes s nxt)) (\<lambda>n. n\<lparr>QPrev := current\<rparr>) s else s
      else upd_node (QPrev (QNodes s current)) (\<lambda>n. n\<lparr>QNext := 0\<rparr>) s)"

definition FreeTask :: "u64 \<Rightarrow> Mono \<Rightarrow> Mono option" where
  "FreeTask task s =
     (if Queue s = 0 then Some s
      else map_option (\<lambda>current. if current = 0 then s else unlink_node current s)
             (find_task (QNodes s) task (Queue s)))"

section \<open>The scheduler\<close>

text \<open>The first loop: tasks that were pushed or popped wait.\<close>

partial_function (option) settle :: "u64 \<Rightarrow> Mono \<Rightarrow> Mono option" where
  "settle current s =
     (let task = QTask (QNodes s current);
          s = (if task_state (TaskBlocks s task) = TaskPushed then set_state task TaskStateWaiting s
               else if task_state (TaskBlocks s task) = TaskPoped then set_state task TaskStateWaiting s
               else s)
      in if QNext (QNodes s current) \<noteq> 0 then settle (QNext (QNodes s current)) s else Some s)"

text \<open>The last loop goes back over \<^verbatim>\<open>Prev\<close>; \<open>Inr (None, _)\<close> is a pass that found nothing.\<close>

definition run_task :: "u64 \<Rightarrow> Mono \<Rightarrow> ThreadRegisters \<times> Mono" where
  "run_task task s =
     (let s = set_state task TaskStateRunning s;
          b = TaskBlocks s task
      in (task_regs b, s\<lparr>MonoCpu := (MonoCpu s)\<lparr>cr3 := task_pml4 b\<rparr>, CurrentTask := task\<rparr>))"

partial_function (option) pick :: "u64 \<Rightarrow> Mono \<Rightarrow> (stop + (ThreadRegisters option \<times> Mono)) option" where
  "pick current s =
     (let task = QTask (QNodes s current);
          state = (if task_checksum (TaskBlocks s task) = TASK_CHECKSUM
                   then task_state (TaskBlocks s task) else TaskStateNull)
      in if state = TaskStateReady then
           (let (regs, s) = run_task task s in Some (Inr (Some regs, s)))
         else
           case (if state = TaskStateTerminated then
                   Option.bind (FreeTask task s) (\<lambda>s.
                     map_option (\<lambda>l. if l = 0 then Inl Panic else Inr s) (FindLastTask s))
                 else Some (Inr s)) of
             None \<Rightarrow> None
           | Some (Inl e) \<Rightarrow> Some (Inl e)
           | Some (Inr s) \<Rightarrow>
               (if QPrev (QNodes s current) \<noteq> 0 then pick (QPrev (QNodes s current)) s
                else Some (Inr (None, s))))"

text \<open>
  A pass that found nothing ends with the software interrupt, which enters the handler again; the
  registers the inner call loads are the ones the processor continues with.
\<close>

partial_function (option) MonoSchedulerHelperHandler ::
    "Mono \<Rightarrow> (stop + (ThreadRegisters \<times> Mono)) option" where
  "MonoSchedulerHelperHandler s =
     (case settle (Queue s) s of
        None \<Rightarrow> None
      | Some s \<Rightarrow>
          (case last_node (QNodes s) (Queue s) of
             None \<Rightarrow> None
           | Some current \<Rightarrow>
               (case pick current s of
                  None \<Rightarrow> None
                | Some (Inl e) \<Rightarrow> Some (Inl e)
                | Some (Inr (Some regs, s)) \<Rightarrow> Some (Inr (regs, s))
                | Some (Inr (None, s)) \<Rightarrow> MonoSchedulerHelperHandler s)))"

definition MonoTaskingTaskExit :: "Mono \<Rightarrow> (stop + (ThreadRegisters \<times> Mono)) option" where
  "MonoTaskingTaskExit s =
     MonoSchedulerHelperHandler (set_state (CurrentTask s) TaskStateTerminated s)"

section \<open>Tasks\<close>

definition SetTaskTimeInfo :: "Machine \<Rightarrow> TaskControlBlock \<Rightarrow> TaskControlBlock" where
  "SetTaskTimeInfo m b = b\<lparr>SpawnTick := ticks m,
     task_Second := bcd (cmos m 0x00), task_Minute := bcd (cmos m 0x02), task_Hour := bcd (cmos m 0x04),
     task_Day := bcd (cmos m 0x07), task_Month := bcd (cmos m 0x08), task_Year := bcd (cmos m 0x09)\<rparr>"

text \<open>The registers a new task starts with.\<close>

definition task_start :: "bool \<Rightarrow> u64 \<Rightarrow> u64 \<Rightarrow> u64 \<Rightarrow> u64 \<Rightarrow> ThreadRegisters" where
  "task_start UserMode stack ip arg0 arg1 = zero_registers\<lparr>
     reg_cs := (if UserMode then GDT_USER_CODE else GDT_KERNEL_CODE),
     reg_ds := (if UserMode then GDT_USER_DATA else GDT_KERNEL_DATA),
     reg_ss := (if UserMode then GDT_USER_DATA else GDT_KERNEL_DATA),
     reg_rflags := start_rflags, reg_rsp := stack, reg_rip := ip, reg_rdi := arg0, reg_rsi := arg1\<rparr>"

text \<open>
  \<open>raw\<close> is what the memory of the new block held, \<open>task\<close> and \<open>node\<close> are the addresses of the
  new block and of its queue node, \<open>exit\<close> that of \<^verbatim>\<open>MonoTaskingTaskExit\<close>.
\<close>

definition CreateTask ::
    "TaskControlBlock \<Rightarrow> u64 \<Rightarrow> u64 \<Rightarrow> u64 \<Rightarrow> u64 \<Rightarrow> u64 \<Rightarrow> u64 \<Rightarrow> u8 list \<Rightarrow> bool \<Rightarrow> bool \<Rightarrow> Mono \<Rightarrow>
     (stop + (u64 \<times> Mono)) option" where
  "CreateTask raw task node exit InstructionPointer FirstArgument SecondArgument Name UserMode AfterCurrent s =
     (case AllocateStack (MonoManager s) UserMode (MonoVM s) of
        Inl e \<Rightarrow> Some (Inl e)
      | Inr (stack, m) \<Rightarrow>
          let b = raw\<lparr>task_id := TaskIDs s, task_name := strcpy_name (task_name raw) Name,
                task_checksum := TASK_CHECKSUM, task_UserMode := UserMode, task_state := TaskStateReady,
                task_stack := stack, task_pml4 := CreatePageTable (MonoPML4 s) UserMode,
                task_regs := task_start UserMode stack InstructionPointer FirstArgument SecondArgument,
                task_gs := (if UserMode then 0 else task), task_fs := fs_base (MonoCpu s),
                task_argc := ucast FirstArgument, task_argv := SecondArgument\<rparr>;
              m = (if UserMode then m else m\<lparr>Memory := (Memory m)(stack := exit)\<rparr>);
              s = s\<lparr>TaskIDs := TaskIDs s + 1, MonoVM := m,
                TaskBlocks := (TaskBlocks s)(task := SetTaskTimeInfo (MonoCpu s) b)\<rparr>
          in map_option (\<lambda>s. Inr (task, s)) (AllocateTask node task AfterCurrent s))"

text \<open>
  \<open>push_loop\<close> and \<open>pop_loop\<close> look for the node of the current task. Once a switch is requested the
  code behind the software interrupt is not reached, because the handler never saves the context of
  the task it leaves.
\<close>

datatype 'a after = Returns 'a | Switches 'a

partial_function (option) push_loop :: "u64 \<Rightarrow> Mono \<Rightarrow> Mono after option" where
  "push_loop current s =
     (if CurrentTask s = QTask (QNodes s current) then
        let s = (if task_state (TaskBlocks s (QTask (QNodes s current))) \<noteq> TaskStateTerminated
                 then set_state (QTask (QNodes s current)) TaskPushed s else s);
            s = (if QNext (QNodes s current) \<noteq> 0
                 then set_state (QTask (QNodes s (QNext (QNodes s current)))) TaskStateReady s else s)
        in Some (Switches s)
      else if QNext (QNodes s current) \<noteq> 0 then push_loop (QNext (QNodes s current)) s
      else Some (Returns s))"

definition PushTask :: "Mono \<Rightarrow> Mono after option" where
  "PushTask s =
     (case FindLastTask s of
        None \<Rightarrow> None
      | Some l \<Rightarrow> if l = CurrentTask s then Some (Returns s) else push_loop (Queue s) s)"

partial_function (option) pop_loop :: "bool \<Rightarrow> u64 \<Rightarrow> Mono \<Rightarrow> Mono after option" where
  "pop_loop Destroy current s =
     (if CurrentTask s = QTask (QNodes s current) then
        if QPrev (QNodes s current) = 0 then Some (Returns s)
        else
          let s = set_state (QTask (QNodes s (QPrev (QNodes s current)))) TaskStateReady s;
              task = QTask (QNodes s current)
          in if Destroy then map_option Returns (FreeTask task s)
             else if task_state (TaskBlocks s task) \<noteq> TaskStateTerminated
             then Some (Switches (set_state task TaskPoped s))
             else Some (Returns s)
      else if QNext (QNodes s current) \<noteq> 0 then pop_loop Destroy (QNext (QNodes s current)) s
      else Some (Returns s))"

definition PopTask :: "bool \<Rightarrow> Mono \<Rightarrow> Mono after option" where
  "PopTask Destroy s =
     (if QTask (QNodes s (Queue s)) = CurrentTask s then Some (Returns s)
      else pop_loop Destroy (Queue s) s)"

definition KillMe :: "Mono \<Rightarrow> (stop + (ThreadRegisters \<times> Mono)) option" where
  "KillMe s =
     (case PopTask True (set_state (CurrentTask s) TaskStateTerminated s) of
        None \<Rightarrow> None
      | Some (Returns s) \<Rightarrow> MonoSchedulerHelperHandler s
      | Some (Switches s) \<Rightarrow> MonoSchedulerHelperHandler s)"

definition MonoTasking_init ::
    "TaskControlBlock \<Rightarrow> u64 \<Rightarrow> u64 \<Rightarrow> u64 \<Rightarrow> u8 list \<Rightarrow> u64 \<Rightarrow> Mono \<Rightarrow>
     (stop + (ThreadRegisters \<times> Mono)) option" where
  "MonoTasking_init raw task node exit Name FirstTask s =
     (case CreateTask raw task node exit FirstTask 0 0 Name False True s of
        None \<Rightarrow> None
      | Some (Inl e) \<Rightarrow> Some (Inl e)
      | Some (Inr (_, s)) \<Rightarrow> MonoSchedulerHelperHandler s)"

text \<open>The destructor: the \<^verbatim>\<open>continue\<close> for the current task does not advance.\<close>

partial_function (option) MonoTasking_destroy :: "u64 \<Rightarrow> Mono \<Rightarrow> Mono option" where
  "MonoTasking_destroy current s =
     (if current = 0 then Some s
      else if QTask (QNodes s current) = CurrentTask s then MonoTasking_destroy current s
      else
        case FreeTask (QTask (QNodes s current)) s of
          None \<Rightarrow> None
        | Some s \<Rightarrow> MonoTasking_destroy (QNext (QNodes s current)) s)"

section \<open>Chains of nodes\<close>

text \<open>The nodes met forwards and backwards from an address.\<close>

fun path :: "(u64 \<Rightarrow> TaskQueue) \<Rightarrow> u64 \<Rightarrow> u64 list \<Rightarrow> bool" where
  "path N p [] \<longleftrightarrow> p = 0"
| "path N p (a # as) \<longleftrightarrow> p = a \<and> a \<noteq> 0 \<and> path N (QNext (N a)) as"

fun rpath :: "(u64 \<Rightarrow> TaskQueue) \<Rightarrow> u64 \<Rightarrow> u64 list \<Rightarrow> bool" where
  "rpath N p [] \<longleftrightarrow> p = 0"
| "rpath N p (a # as) \<longleftrightarrow> p = a \<and> a \<noteq> 0 \<and> rpath N (QPrev (N a)) as"

lemma path_not_null: "path N p ns \<Longrightarrow> 0 \<notin> set ns"
  by (induction ns arbitrary: p) auto

lemma path_upd_other: "a \<notin> set ns \<Longrightarrow> path (N(a := n)) p ns = path N p ns"
  by (induction ns arbitrary: p) auto

lemma rpath_upd_other: "a \<notin> set ns \<Longrightarrow> rpath (N(a := n)) p ns = rpath N p ns"
  by (induction ns arbitrary: p) auto

lemma last_node_path:
  assumes "path N p ns" "ns \<noteq> []"
  shows "last_node N p = Some (last ns)"
  using assms
proof (induction ns arbitrary: p)
  case (Cons a as)
  then show ?case
    by (subst last_node.simps) (cases as; auto)
qed simp

lemma find_current_path:
  assumes "path N p (xs @ a # ys)" "QTask (N a) = t" "\<And>x. x \<in> set xs \<Longrightarrow> QTask (N x) \<noteq> t"
  shows "find_current N t p = Some a"
  using assms
proof (induction xs arbitrary: p)
  case Nil
  then show ?case by (subst find_current.simps) simp
next
  case (Cons x xs)
  then show ?case by (subst find_current.simps) auto
qed

lemma find_task_path:
  assumes "path N p (xs @ a # ys)" "QTask (N a) = t" "\<And>x. x \<in> set xs \<Longrightarrow> QTask (N x) \<noteq> t"
  shows "find_task N t p = Some a"
  using assms
proof (induction xs arbitrary: p)
  case Nil
  then show ?case by (subst find_task.simps) simp
next
  case (Cons x xs)
  then show ?case by (subst find_task.simps) auto
qed

lemma find_task_absent:
  assumes "path N p ns" "\<And>x. x \<in> set ns \<Longrightarrow> QTask (N x) \<noteq> t"
  shows "find_task N t p = Some 0"
  using assms by (induction ns arbitrary: p) (subst find_task.simps; auto)+

section \<open>Passes over the queue\<close>

definition settled_block :: "TaskControlBlock \<Rightarrow> TaskControlBlock" where
  "settled_block b = (if task_state b = TaskPushed \<or> task_state b = TaskPoped
     then b\<lparr>task_state := TaskStateWaiting\<rparr> else b)"

definition settle_tasks :: "u64 set \<Rightarrow> Mono \<Rightarrow> Mono" where
  "settle_tasks T s = s\<lparr>TaskBlocks := (\<lambda>t. if t \<in> T then settled_block (TaskBlocks s t) else TaskBlocks s t)\<rparr>"

lemma settle_step:
  "(if task_state (TaskBlocks s t) = TaskPushed then set_state t TaskStateWaiting s
    else if task_state (TaskBlocks s t) = TaskPoped then set_state t TaskStateWaiting s else s) =
   settle_tasks {t} s"
  by (cases s) (auto simp: settle_tasks_def settled_block_def upd_task_def fun_eq_iff)

lemma settle_tasks_union: "settle_tasks T (settle_tasks U s) = settle_tasks (T \<union> U) s"
  by (auto simp: settle_tasks_def settled_block_def fun_eq_iff)

lemma settle_path:
  assumes "path (QNodes s) p ns" "ns \<noteq> []"
  shows "settle p s = Some (settle_tasks ((\<lambda>a. QTask (QNodes s a)) ` set ns) s)"
  using assms
proof (induction ns arbitrary: p s)
  case (Cons a as)
  have keep: "QNodes (settle_tasks T s) = QNodes s" for T
    by (simp add: settle_tasks_def)
  show ?case
    using Cons
    by (subst settle.simps, unfold settle_step Let_def)
      (cases as; simp add: keep settle_tasks_union insert_commute)
qed simp

text \<open>The state a task counts with: only a good checksum counts.\<close>

definition live_state :: "Mono \<Rightarrow> u64 \<Rightarrow> TaskState" where
  "live_state s t = (if task_checksum (TaskBlocks s t) = TASK_CHECKSUM
     then task_state (TaskBlocks s t) else TaskStateNull)"

lemma pick_rpath:
  assumes "rpath (QNodes s) p bs" "bs \<noteq> []"
    and "\<And>b. b \<in> set bs \<Longrightarrow> live_state s (QTask (QNodes s b)) \<noteq> TaskStateTerminated"
  shows "pick p s = Some (Inr (case find (\<lambda>b. live_state s (QTask (QNodes s b)) = TaskStateReady) bs of
      Some b \<Rightarrow> (let (regs, s') = run_task (QTask (QNodes s b)) s in (Some regs, s'))
    | None \<Rightarrow> (None, s)))"
  using assms
proof (induction bs arbitrary: p)
  case (Cons b bs)
  then have p: "p = b" "b \<noteq> 0" "rpath (QNodes s) (QPrev (QNodes s b)) bs"
    and st: "live_state s (QTask (QNodes s b)) \<noteq> TaskStateTerminated"
    by auto
  show ?case
  proof (cases "live_state s (QTask (QNodes s b)) = TaskStateReady")
    case True
    then show ?thesis
      by (subst pick.simps) (simp add: p live_state_def Let_def split_beta)
  next
    case False
    then have "pick p s = (if QPrev (QNodes s b) \<noteq> 0 then pick (QPrev (QNodes s b)) s else Some (Inr (None, s)))"
      using st by (subst pick.simps) (simp add: p live_state_def Let_def)
    then show ?thesis
      using Cons p False by (cases bs) auto
  qed
qed simp

lemma settle_tasks_frame [simp]:
  "QNodes (settle_tasks T s) = QNodes s" "Queue (settle_tasks T s) = Queue s"
  "task_regs (TaskBlocks (settle_tasks T s) t) = task_regs (TaskBlocks s t)"
  "task_pml4 (TaskBlocks (settle_tasks T s) t) = task_pml4 (TaskBlocks s t)"
  by (simp_all add: settle_tasks_def settled_block_def)

lemma live_state_settled:
  "live_state (settle_tasks T s) t = TaskStateReady \<longleftrightarrow> live_state s t = TaskStateReady"
  "live_state (settle_tasks T s) t = TaskStateTerminated \<longleftrightarrow> live_state s t = TaskStateTerminated"
  by (simp_all add: live_state_def settle_tasks_def settled_block_def)

abbreviation ready_node :: "Mono \<Rightarrow> u64 \<Rightarrow> bool" where
  "ready_node s b \<equiv> live_state s (QTask (QNodes s b)) = TaskStateReady"

abbreviation node_tasks :: "Mono \<Rightarrow> u64 list \<Rightarrow> u64 set" where
  "node_tasks s ns \<equiv> (\<lambda>a. QTask (QNodes s a)) ` set ns"

lemma handler_pass:
  assumes "path (QNodes s) (Queue s) ns" "ns \<noteq> []" "rpath (QNodes s) (last ns) bs" "bs \<noteq> []"
    and "\<And>b. b \<in> set bs \<Longrightarrow> live_state s (QTask (QNodes s b)) \<noteq> TaskStateTerminated"
  shows "MonoSchedulerHelperHandler s =
    (case find (ready_node s) bs of
       Some b \<Rightarrow> Some (Inr (run_task (QTask (QNodes s b)) (settle_tasks (node_tasks s ns) s)))
     | None \<Rightarrow> MonoSchedulerHelperHandler (settle_tasks (node_tasks s ns) s))"
proof -
  let ?s = "settle_tasks (node_tasks s ns) s"
  have "pick (last ns) ?s = Some (Inr (case find (ready_node s) bs of
      Some b \<Rightarrow> (let (regs, s') = run_task (QTask (QNodes s b)) ?s in (Some regs, s')) | None \<Rightarrow> (None, ?s)))"
    using pick_rpath [of ?s "last ns" bs] assms(3-5) by (simp add: live_state_settled split: option.split)
  moreover have "last_node (QNodes ?s) (Queue ?s) = Some (last ns)"
    using last_node_path [OF assms(1,2)] by simp
  ultimately show ?thesis
    by (subst MonoSchedulerHelperHandler.simps)
      (simp add: settle_path [OF assms(1,2)] split_beta Let_def split: option.split)
qed

text \<open>A pass that changes nothing repeats for ever.\<close>

lemma handler_stuck:
  assumes "settle (Queue s) s = Some s" "last_node (QNodes s) (Queue s) = Some l" "pick l s = Some (Inr (None, s))"
  shows "MonoSchedulerHelperHandler s = None"
proof (rule ccontr)
  assume "MonoSchedulerHelperHandler s \<noteq> None"
  then obtain r where r: "MonoSchedulerHelperHandler s = Some r" by blast
  have "\<not> (settle (Queue s) s = Some s \<and> last_node (QNodes s) (Queue s) = Some l \<and> pick l s = Some (Inr (None, s)))"
    by (rule MonoSchedulerHelperHandler.raw_induct [where P = "\<lambda>s r. \<not> (settle (Queue s) s = Some s \<and>
        last_node (QNodes s) (Queue s) = Some l \<and> pick l s = Some (Inr (None, s)))", OF _ r])
      (auto split: option.splits)
  with assms show False by blast
qed

lemma handler_none_ready:
  assumes "path (QNodes s) (Queue s) ns" "ns \<noteq> []" "rpath (QNodes s) (last ns) bs" "bs \<noteq> []"
    and "\<And>b. b \<in> set bs \<Longrightarrow> live_state s (QTask (QNodes s b)) \<noteq> TaskStateTerminated"
    and "find (ready_node s) bs = None"
  shows "MonoSchedulerHelperHandler s = None"
proof -
  let ?s = "settle_tasks (node_tasks s ns) s"
  have "settle (Queue ?s) ?s = Some ?s"
    using settle_path [of ?s "Queue s" ns] assms(1,2) by (simp add: settle_tasks_union)
  moreover have "last_node (QNodes ?s) (Queue ?s) = Some (last ns)"
    using last_node_path [OF assms(1,2)] by simp
  moreover have "pick (last ns) ?s = Some (Inr (None, ?s))"
    using pick_rpath [of ?s "last ns" bs] assms(3-6) by (simp add: live_state_settled)
  ultimately have "MonoSchedulerHelperHandler ?s = None"
    by (rule handler_stuck)
  then show ?thesis
    using handler_pass [OF assms(1-5)] assms(6) by simp
qed

section \<open>Operations on chains\<close>

lemma path_insert:
  assumes "path N p (xs @ a # ys)" "distinct (xs @ a # ys)" "n \<notin> set (xs @ a # ys)" "n \<noteq> 0"
    and "QNext v = QNext (N a)"
  shows "path (N(n := v, a := (N a)\<lparr>QNext := n\<rparr>)) p (xs @ a # n # ys)"
  using assms
proof (induction xs arbitrary: p)
  case Nil
  then show ?case by (simp add: path_upd_other fun_upd_same fun_upd_other del: fun_upd_apply)
next
  case (Cons x xs)
  then show ?case by auto
qed

lemma path_delete_next:
  assumes "path N p (xs @ a # b # ys)" "distinct (xs @ a # b # ys)"
  shows "path (N(a := (N a)\<lparr>QTask := t, QNext := QNext (N b)\<rparr>)) p (xs @ a # ys)"
  using assms
proof (induction xs arbitrary: p)
  case Nil
  then show ?case by (simp add: path_upd_other fun_upd_same fun_upd_other del: fun_upd_apply)
next
  case (Cons x xs)
  then show ?case by auto
qed

lemma path_cut:
  assumes "path N p (xs @ z # zs)" "distinct (xs @ z # zs)"
  shows "path (N(z := (N z)\<lparr>QNext := 0\<rparr>)) p (xs @ [z])"
  using assms by (induction xs arbitrary: p) auto

lemma path_next_cong: "(\<And>x. x \<in> set ns \<Longrightarrow> QNext (N x) = QNext (M x)) \<Longrightarrow> path N p ns = path M p ns"
  by (induction ns arbitrary: p) auto

lemma rpath_prev_cong: "(\<And>x. x \<in> set ns \<Longrightarrow> QPrev (N x) = QPrev (M x)) \<Longrightarrow> rpath N p ns = rpath M p ns"
  by (induction ns arbitrary: p) auto

definition tasks_of :: "Mono \<Rightarrow> u64 list \<Rightarrow> u64 list" where
  "tasks_of s ns = map (\<lambda>a. QTask (QNodes s a)) ns"

lemma tasks_of_simps [simp]:
  "tasks_of s [] = []" "tasks_of s (a # ns) = QTask (QNodes s a) # tasks_of s ns"
  "tasks_of s (xs @ ys) = tasks_of s xs @ tasks_of s ys"
  by (simp_all add: tasks_of_def)

lemma tasks_of_cong: "(\<And>a. a \<in> set ns \<Longrightarrow> QTask (QNodes s a) = QTask (QNodes s' a)) \<Longrightarrow> tasks_of s ns = tasks_of s' ns"
  by (simp add: tasks_of_def)

lemma tasks_of_notin: "t \<notin> set (tasks_of s xs) \<longleftrightarrow> (\<forall>x \<in> set xs. QTask (QNodes s x) \<noteq> t)"
  by (auto simp: tasks_of_def)

lemma AllocateTask_after:
  assumes "path (QNodes s) (Queue s) (xs @ a # ys)" "distinct (xs @ a # ys)" "n \<notin> set (xs @ a # ys)" "n \<noteq> 0"
    and "CurrentTask s = QTask (QNodes s a)" "CurrentTask s \<notin> set (tasks_of s xs)"
  shows "AllocateTask n task True s = Some (s\<lparr>QNodes := (QNodes s)(
      n := \<lparr>QPrev = a, QTask = task, QNext = QNext (QNodes s a)\<rparr>, a := (QNodes s a)\<lparr>QNext := n\<rparr>)\<rparr>)"
proof -
  have q: "Queue s \<noteq> 0"
    using assms(1) by (cases xs) auto
  let ?N = "(QNodes s)(n := \<lparr>QPrev = 0, QTask = task, QNext = 0\<rparr>)"
  have same: "x \<in> set (xs @ a # ys) \<Longrightarrow> ?N x = QNodes s x" for x
    using assms(3) by auto
  have "find_current ?N (CurrentTask s) (Queue s) = Some a"
    by (rule find_current_path [where xs = xs and ys = ys])
      (use assms same in \<open>auto simp: path_upd_other tasks_of_notin simp del: fun_upd_apply\<close>)
  then show ?thesis
    using q assms(3) by (auto simp: AllocateTask_def Let_def upd_node_def)
qed

lemma AllocateTask_end:
  assumes "path (QNodes s) (Queue s) ns" "ns \<noteq> []" "n \<notin> set ns" "n \<noteq> 0"
  shows "AllocateTask n task False s = Some (s\<lparr>QNodes := (QNodes s)(
      n := \<lparr>QPrev = last ns, QTask = task, QNext = 0\<rparr>, last ns := (QNodes s (last ns))\<lparr>QNext := n\<rparr>)\<rparr>)"
proof -
  have q: "Queue s \<noteq> 0"
    using assms(1,2) by (cases ns) auto
  let ?N = "(QNodes s)(n := \<lparr>QPrev = 0, QTask = task, QNext = 0\<rparr>)"
  have "last_node ?N (Queue s) = Some (last ns)"
    by (rule last_node_path) (use assms in \<open>simp_all add: path_upd_other del: fun_upd_apply\<close>)
  moreover have "last ns \<noteq> n"
    using assms(2,3) by auto
  ultimately show ?thesis
    using q by (simp add: AllocateTask_def Let_def upd_node_def)
qed

lemma path_suffix: "path N p (xs @ ys) \<Longrightarrow> ys \<noteq> [] \<Longrightarrow> path N (hd ys) ys"
  by (induction xs arbitrary: p) (auto simp: neq_Nil_conv)

lemma AllocateTask_appends:
  assumes "path (QNodes s) (Queue s) ns" "ns \<noteq> []" "distinct ns" "n \<notin> set ns" "n \<noteq> 0"
  shows "\<exists>s'. AllocateTask n task False s = Some s' \<and> path (QNodes s') (Queue s') (ns @ [n]) \<and>
    tasks_of s' (ns @ [n]) = tasks_of s ns @ [task]"
proof -
  obtain zs l where ns: "ns = zs @ [l]"
    using assms(2) rev_exhaust by blast
  have "path (QNodes s) l [l]"
    using path_suffix [of "QNodes s" "Queue s" zs "[l]"] assms(1) ns by simp
  then have "path ((QNodes s)(n := \<lparr>QPrev = l, QTask = task, QNext = 0\<rparr>, l := (QNodes s l)\<lparr>QNext := n\<rparr>))
      (Queue s) (zs @ l # n # [])"
    using assms ns by (intro path_insert) auto
  moreover have "tasks_of (s\<lparr>QNodes := (QNodes s)(n := \<lparr>QPrev = l, QTask = task, QNext = 0\<rparr>,
      l := (QNodes s l)\<lparr>QNext := n\<rparr>)\<rparr>) (ns @ [n]) = tasks_of s ns @ [task]"
    using assms(3,4) ns by (auto simp: tasks_of_def)
  ultimately show ?thesis
    using AllocateTask_end [OF assms(1,2,4,5), of task] ns by simp
qed

lemma FreeTask_found:
  assumes "path (QNodes s) (Queue s) (xs @ a # ys)" "QTask (QNodes s a) \<notin> set (tasks_of s xs)"
  shows "FreeTask (QTask (QNodes s a)) s = Some (unlink_node a s)"
proof -
  have q: "Queue s \<noteq> 0" "a \<noteq> 0"
    using assms(1) path_not_null by (cases xs; fastforce)+
  have "find_task (QNodes s) (QTask (QNodes s a)) (Queue s) = Some a"
    by (rule find_task_path [OF assms(1)]) (use assms(2) in \<open>auto simp: tasks_of_notin\<close>)
  then show ?thesis
    using q by (simp add: FreeTask_def)
qed

lemma unlink_middle:
  assumes "path (QNodes s) (Queue s) (xs @ a # b # ys)" "distinct (xs @ a # b # ys)"
  shows "path (QNodes (unlink_node a s)) (Queue (unlink_node a s)) (xs @ a # ys)"
    "tasks_of (unlink_node a s) (xs @ a # ys) = tasks_of s xs @ tasks_of s (b # ys)"
proof -
  have "path (QNodes s) a (a # b # ys)"
    using path_suffix [OF assms(1)] by simp
  then have b: "QNext (QNodes s a) = b" "b \<noteq> 0" "a \<noteq> b"
    using assms(2) by auto
  let ?M = "(QNodes s)(a := (QNodes s a)\<lparr>QTask := QTask (QNodes s b), QNext := QNext (QNodes s b)\<rparr>)"
  have next_eq: "QNext (QNodes (unlink_node a s) x) = QNext (?M x)" for x
    using b by (simp add: unlink_node_def Let_def upd_node_def)
  have task_eq: "QTask (QNodes (unlink_node a s) x) = QTask (?M x)" for x
    using b by (simp add: unlink_node_def Let_def upd_node_def)
  have "Queue (unlink_node a s) = Queue s"
    by (simp add: unlink_node_def Let_def upd_node_def)
  then show "path (QNodes (unlink_node a s)) (Queue (unlink_node a s)) (xs @ a # ys)"
    using path_next_cong [of _ "QNodes (unlink_node a s)" ?M] next_eq path_delete_next [OF assms] by simp
  show "tasks_of (unlink_node a s) (xs @ a # ys) = tasks_of s xs @ tasks_of s (b # ys)"
    using assms(2) by (simp add: tasks_of_def task_eq)
qed

text \<open>The last node cuts the queue behind the node its backward link names.\<close>

lemma unlink_last:
  assumes "path (QNodes s) (Queue s) (xs @ z # zs @ [a])" "distinct (xs @ z # zs @ [a])" "QPrev (QNodes s a) = z"
  shows "path (QNodes (unlink_node a s)) (Queue (unlink_node a s)) (xs @ [z])"
    "tasks_of (unlink_node a s) (xs @ [z]) = tasks_of s (xs @ [z])"
proof -
  have "path (QNodes s) a [a]"
    using path_suffix [of "QNodes s" "Queue s" "xs @ z # zs" "[a]"] assms(1) by simp
  then have eq: "unlink_node a s = s\<lparr>QNodes := (QNodes s)(z := (QNodes s z)\<lparr>QNext := 0\<rparr>)\<rparr>"
    using assms(3) by (simp add: unlink_node_def upd_node_def)
  show "path (QNodes (unlink_node a s)) (Queue (unlink_node a s)) (xs @ [z])"
    unfolding eq using path_cut [OF assms(1,2)] by simp
  show "tasks_of (unlink_node a s) (xs @ [z]) = tasks_of s (xs @ [z])"
    by (simp add: eq tasks_of_def)
qed

section \<open>A concrete queue\<close>

definition blank_task :: TaskControlBlock where
  "blank_task = \<lparr>task_name = replicate 256 0, task_regs = zero_registers, task_fs = 0, task_gs = 0, task_id = 0,
     task_stack = 0, task_pml4 = 0x2000, task_UserMode = False, task_state = TaskStateWaiting, task_argc = 0,
     task_argv = 0, task_envp = 0, SpawnTick = 0, task_Year = 0, task_Month = 0, task_Day = 0, task_Hour = 0,
     task_Minute = 0, task_Second = 0, task_checksum = TASK_CHECKSUM\<rparr>"

text \<open>Tasks 0x11 (current) and 0x12, both waiting, and a ready task 0x13 that is not queued yet.\<close>

definition mono_example :: Mono where
  "mono_example = \<lparr>
     QNodes = (\<lambda>_. \<lparr>QPrev = 0, QTask = 0, QNext = 0\<rparr>)(1 := \<lparr>QPrev = 0, QTask = 0x11, QNext = 2\<rparr>,
       2 := \<lparr>QPrev = 1, QTask = 0x12, QNext = 0\<rparr>),
     TaskBlocks = (\<lambda>_. blank_task)(0x13 := blank_task\<lparr>task_state := TaskStateReady\<rparr>),
     Queue = 1, CurrentTask = 0x11, TaskIDs = 3,
     MonoCpu = \<lparr>fs_base = 0, gs_base = 0, shadow_gs_base = 0, cr3 = 0x2000, fx_state = [], ticks = 0,
       cmos = (\<lambda>_. 0), one_shot = None\<rparr>,
     MonoVM = vm_example, MonoManager = vm_example_manager, MonoPML4 = 0x2000\<rparr>"

section \<open>Properties\<close>

text \<open>A queue whose links in both directions agree.\<close>

definition mono_queue :: "Mono \<Rightarrow> u64 list \<Rightarrow> bool" where
  "mono_queue s ns \<longleftrightarrow> ns \<noteq> [] \<and> distinct ns \<and> path (QNodes s) (Queue s) ns \<and>
     rpath (QNodes s) (last ns) (rev ns)"

text \<open>
  C21. The cooperative scheduler ends exactly when it can: on a queue with agreeing links and without
  terminated tasks it returns if and only if some task is ready, and then it runs the last ready task
  of the queue, with that task's registers and page tables, marks it running and makes it current.
\<close>

theorem mono_scheduler_ends:
  assumes q: "mono_queue s ns"
    and live: "\<forall>a \<in> set ns. live_state s (QTask (QNodes s a)) \<noteq> TaskStateTerminated"
  shows "(MonoSchedulerHelperHandler s \<noteq> None \<longleftrightarrow> (\<exists>a \<in> set ns. ready_node s a)) \<and>
    (\<forall>xs a ys. ns = xs @ a # ys \<and> ready_node s a \<and> (\<forall>y \<in> set ys. \<not> ready_node s y) \<longrightarrow>
       (\<exists>s'. MonoSchedulerHelperHandler s = Some (Inr (task_regs (TaskBlocks s (QTask (QNodes s a))), s')) \<and>
          CurrentTask s' = QTask (QNodes s a) \<and> task_state (TaskBlocks s' (CurrentTask s')) = TaskStateRunning \<and>
          cr3 (MonoCpu s') = task_pml4 (TaskBlocks s (QTask (QNodes s a)))))"
proof -
  have p: "path (QNodes s) (Queue s) ns" "ns \<noteq> []" "rpath (QNodes s) (last ns) (rev ns)" "rev ns \<noteq> []"
    using q by (simp_all add: mono_queue_def)
  have ok: "\<And>b. b \<in> set (rev ns) \<Longrightarrow> live_state s (QTask (QNodes s b)) \<noteq> TaskStateTerminated"
    using live by simp
  note run = handler_pass [OF p ok]
  have "MonoSchedulerHelperHandler s \<noteq> None \<longleftrightarrow> (\<exists>a \<in> set ns. ready_node s a)"
  proof (cases "find (ready_node s) (rev ns)")
    case None
    then show ?thesis
      using handler_none_ready [OF p ok] by (simp add: find_None_iff)
  next
    case (Some b)
    then have "b \<in> set ns" "ready_node s b"
      by (auto simp: find_Some_iff) (metis nth_mem set_rev length_rev)
    then show ?thesis using run Some by auto
  qed
  moreover have "\<exists>s'. MonoSchedulerHelperHandler s = Some (Inr (task_regs (TaskBlocks s (QTask (QNodes s a))), s')) \<and>
      CurrentTask s' = QTask (QNodes s a) \<and> task_state (TaskBlocks s' (CurrentTask s')) = TaskStateRunning \<and>
      cr3 (MonoCpu s') = task_pml4 (TaskBlocks s (QTask (QNodes s a)))"
    if "ns = xs @ a # ys" "ready_node s a" "\<forall>y \<in> set ys. \<not> ready_node s y" for xs a ys
  proof -
    have "find (ready_node s) (rev ys) = None"
      using that(3) by (simp add: find_None_iff)
    then have "find (ready_node s) (rev ns) = Some a"
      using that(1,2) by simp
    then show ?thesis
      using run by (simp add: run_task_def Let_def upd_task_def)
  qed
  ultimately show ?thesis by blast
qed

theorem mono_scheduler_ends_witness:
  "MonoSchedulerHelperHandler mono_example = None \<and>
   (\<exists>s'. MonoSchedulerHelperHandler (mono_example\<lparr>TaskBlocks := \<lambda>_. blank_task\<lparr>task_state := TaskStateReady\<rparr>\<rparr>) =
      Some (Inr (zero_registers, s')) \<and> CurrentTask s' = 0x12)"
proof -
  have "mono_queue mono_example [1, 2]" "mono_queue (mono_example\<lparr>TaskBlocks := B\<rparr>) [1, 2]" for B
    by (simp_all add: mono_queue_def mono_example_def)
  then show ?thesis
    using mono_scheduler_ends [of mono_example "[1, 2]"]
      mono_scheduler_ends [of "mono_example\<lparr>TaskBlocks := \<lambda>_. blank_task\<lparr>task_state := TaskStateReady\<rparr>\<rparr>" "[1, 2]"]
    by (auto simp: live_state_def mono_example_def blank_task_def elim!: allE [where x = "[1]"] allE [where x = 2] allE [where x = "[]"])
qed

text \<open>
  C26. The task queue implements a list: a new task goes right behind the current one or to the end,
  and freeing a task that is not the last of the queue leaves the others in their order. Freeing the
  last task cuts the queue behind the node that its backward link names. That is the node before it
  when the link is right; after an insertion behind the current task the link of the following node is
  stale, and the tasks between are lost as well.
\<close>

theorem mono_queue_refines_list:
  assumes q: "path (QNodes s) (Queue s) (xs @ a # ys)" "distinct (xs @ a # ys)" "distinct (tasks_of s (xs @ a # ys))"
    and n: "n \<notin> set (xs @ a # ys)" "n \<noteq> 0" and cur: "CurrentTask s = QTask (QNodes s a)"
  shows "(\<exists>s'. AllocateTask n task True s = Some s' \<and> path (QNodes s') (Queue s') (xs @ a # n # ys) \<and>
      tasks_of s' (xs @ a # n # ys) = tasks_of s xs @ [CurrentTask s, task] @ tasks_of s ys) \<and>
    (\<exists>s'. AllocateTask n task False s = Some s' \<and> path (QNodes s') (Queue s') (xs @ a # ys @ [n]) \<and>
      tasks_of s' (xs @ a # ys @ [n]) = tasks_of s (xs @ a # ys) @ [task]) \<and>
    (\<forall>us b vs. xs @ a # ys = us @ b # vs \<and> vs \<noteq> [] \<longrightarrow>
      (\<exists>s' ms. FreeTask (QTask (QNodes s b)) s = Some s' \<and> path (QNodes s') (Queue s') ms \<and>
         tasks_of s' ms = tasks_of s us @ tasks_of s vs)) \<and>
    (\<forall>us vs b. xs @ a # ys = us @ QPrev (QNodes s b) # vs @ [b] \<longrightarrow>
      (\<exists>s' ms. FreeTask (QTask (QNodes s b)) s = Some s' \<and> path (QNodes s') (Queue s') ms \<and>
         tasks_of s' ms = tasks_of s (us @ [QPrev (QNodes s b)])))"
proof (intro conjI impI allI)
  have notin: "CurrentTask s \<notin> set (tasks_of s xs)"
    using q(3) cur by simp
  show "\<exists>s'. AllocateTask n task True s = Some s' \<and> path (QNodes s') (Queue s') (xs @ a # n # ys) \<and>
      tasks_of s' (xs @ a # n # ys) = tasks_of s xs @ [CurrentTask s, task] @ tasks_of s ys"
    using AllocateTask_after [OF q(1,2) n cur notin] path_insert [OF q(1,2) n] q(2) n cur
    by (auto simp: tasks_of_def)
  show "\<exists>s'. AllocateTask n task False s = Some s' \<and> path (QNodes s') (Queue s') (xs @ a # ys @ [n]) \<and>
      tasks_of s' (xs @ a # ys @ [n]) = tasks_of s (xs @ a # ys) @ [task]"
    using AllocateTask_appends [OF q(1) _ q(2) n, of task] by simp
next
  fix us b vs
  assume "xs @ a # ys = us @ b # vs \<and> vs \<noteq> []"
  then obtain c ws where eq: "xs @ a # ys = us @ b # c # ws" "vs = c # ws"
    by (cases vs) auto
  note q' = q [unfolded eq(1)]
  have "FreeTask (QTask (QNodes s b)) s = Some (unlink_node b s)"
    by (rule FreeTask_found [OF q'(1)]) (use q'(3) in simp)
  then show "\<exists>s' ms. FreeTask (QTask (QNodes s b)) s = Some s' \<and> path (QNodes s') (Queue s') ms \<and>
      tasks_of s' ms = tasks_of s us @ tasks_of s vs"
    using unlink_middle [OF q'(1,2)] unfolding eq(2) by blast
next
  fix us vs b
  assume eq: "xs @ a # ys = us @ QPrev (QNodes s b) # vs @ [b]"
  note q' = q [unfolded eq]
  have "FreeTask (QTask (QNodes s b)) s = Some (unlink_node b s)"
    by (rule FreeTask_found [of _ "us @ QPrev (QNodes s b) # vs" _ "[]"]) (use q'(1,3) in auto)
  then show "\<exists>s' ms. FreeTask (QTask (QNodes s b)) s = Some s' \<and> path (QNodes s') (Queue s') ms \<and>
      tasks_of s' ms = tasks_of s (us @ [QPrev (QNodes s b)])"
    using unlink_last [OF q'(1,2) refl] by blast
qed

text \<open>The example queue with a task inserted behind the current one: freeing the last task loses that one.\<close>

definition mono_stale :: Mono where
  "mono_stale = mono_example\<lparr>QNodes := (QNodes mono_example)(3 := \<lparr>QPrev = 1, QTask = 0x13, QNext = 2\<rparr>,
     1 := \<lparr>QPrev = 0, QTask = 0x11, QNext = 3\<rparr>)\<rparr>"

lemma mono_stale_inserted: "AllocateTask 3 0x13 True mono_example = Some mono_stale"
  by (simp add: AllocateTask_def find_current.simps mono_stale_def mono_example_def upd_node_def Let_def fun_upd_twist)

theorem mono_queue_refines_list_witness:
  "AllocateTask 3 0x13 True mono_example = Some mono_stale \<and> tasks_of mono_stale [1, 3, 2] = [0x11, 0x13, 0x12] \<and>
   (\<exists>s' ms. FreeTask 0x11 mono_example = Some s' \<and> path (QNodes s') (Queue s') ms \<and> tasks_of s' ms = [0x12]) \<and>
   (\<exists>s' ms. FreeTask 0x12 mono_stale = Some s' \<and> path (QNodes s') (Queue s') ms \<and> tasks_of s' ms = [0x11])"
proof -
  note defs = mono_example_def mono_stale_def
  have e: "path (QNodes mono_example) (Queue mono_example) ([] @ 1 # [2])" "distinct ([] @ 1 # [2 :: u64])"
    "distinct (tasks_of mono_example ([] @ 1 # [2]))" "CurrentTask mono_example = QTask (QNodes mono_example 1)"
    and f: "path (QNodes mono_stale) (Queue mono_stale) ([] @ 1 # [3, 2])" "distinct ([] @ 1 # [3, 2 :: u64])"
    "distinct (tasks_of mono_stale ([] @ 1 # [3, 2]))" "CurrentTask mono_stale = QTask (QNodes mono_stale 1)"
    by (simp_all add: defs)
  have "\<exists>s' ms. FreeTask (QTask (QNodes mono_stale 2)) mono_stale = Some s' \<and> path (QNodes s') (Queue s') ms \<and>
      tasks_of s' ms = tasks_of mono_stale ([] @ [QPrev (QNodes mono_stale 2)])"
    by (rule mono_queue_refines_list [OF f(1-3) _ _ f(4), of 4, THEN conjunct2, THEN conjunct2, THEN conjunct2,
          rule_format, of "[]" 2 "[3]"]) (simp_all add: defs)
  moreover have "\<exists>s' ms. FreeTask (QTask (QNodes mono_example 1)) mono_example = Some s' \<and> path (QNodes s') (Queue s') ms \<and>
      tasks_of s' ms = tasks_of mono_example [] @ tasks_of mono_example [2]"
    by (rule mono_queue_refines_list [OF e(1-3) _ _ e(4), of 4, THEN conjunct2, THEN conjunct2, THEN conjunct1,
          rule_format, of "[]" 1 "[2]"]) simp_all
  ultimately show ?thesis
    using mono_stale_inserted by (simp add: defs)
qed

text \<open>
  A task can be lost: the task created behind the current one is linked forwards but not into
  the backward chain of its successor. If no other task is ready, the scheduler, which walks
  backwards, never reaches the ready task and never returns.
\<close>

lemma mono_task_lost:
  assumes q: "mono_queue s (xs @ a # y # ys)" and cur: "CurrentTask s = QTask (QNodes s a)"
    and uniq: "CurrentTask s \<notin> set (tasks_of s xs)"
    and n: "n \<notin> set (xs @ a # y # ys)" "n \<noteq> 0"
    and rest: "\<forall>b \<in> set (xs @ a # y # ys). live_state s (QTask (QNodes s b)) = TaskStateWaiting"
    and new: "live_state s task = TaskStateReady"
  shows "\<exists>s'. AllocateTask n task True s = Some s' \<and> path (QNodes s') (Queue s') (xs @ a # n # y # ys) \<and>
    ready_node s' n \<and> MonoSchedulerHelperHandler s' = None"
proof -
  let ?ns = "xs @ a # y # ys"
  let ?s = "s\<lparr>QNodes := (QNodes s)(n := \<lparr>QPrev = a, QTask = task, QNext = QNext (QNodes s a)\<rparr>,
      a := (QNodes s a)\<lparr>QNext := n\<rparr>)\<rparr>"
  have p: "path (QNodes s) (Queue s) ?ns" "distinct ?ns" "rpath (QNodes s) (last ?ns) (rev ?ns)"
    using q by (simp_all add: mono_queue_def)
  have alloc: "AllocateTask n task True s = Some ?s"
    by (rule AllocateTask_after [OF p(1,2) n cur uniq])
  have path: "path (QNodes ?s) (Queue ?s) (xs @ a # n # y # ys)"
    using path_insert [OF p(1,2) n] by simp
  have "rpath (QNodes ?s) (last ?ns) (rev ?ns) = rpath (QNodes s) (last ?ns) (rev ?ns)"
    by (rule rpath_prev_cong) (use n in auto)
  then have rp: "rpath (QNodes ?s) (last (xs @ a # n # y # ys)) (rev ?ns)"
    using p(3) by simp
  have node: "QTask (QNodes ?s b) = QTask (QNodes s b)" if "b \<in> set ?ns" for b
    using that n by auto
  have live: "live_state ?s t = live_state s t" for t
    by (simp add: live_state_def)
  have waits: "live_state ?s (QTask (QNodes ?s b)) = TaskStateWaiting" if "b \<in> set (rev ?ns)" for b
  proof -
    have b: "b \<in> set ?ns" using that by auto
    show ?thesis unfolding node [OF b] live using rest b by blast
  qed
  then have "find (ready_node ?s) (rev ?ns) = None"
    unfolding find_None_iff by fastforce
  then have "MonoSchedulerHelperHandler ?s = None"
    using handler_none_ready [OF path _ rp] waits by simp
  moreover have "ready_node ?s n"
    using new n by (auto simp: live_state_def split: if_splits)
  ultimately show ?thesis
    using alloc path by (intro exI [of _ ?s]) (simp del: fun_upd_apply)
qed

lemma mono_task_lost_witness:
  "\<exists>s'. AllocateTask 3 0x13 True mono_example = Some s' \<and> ready_node s' 3 \<and> MonoSchedulerHelperHandler s' = None"
proof -
  have "mono_queue mono_example [1, 2]" "live_state mono_example 0x11 = TaskStateWaiting"
    "live_state mono_example 0x12 = TaskStateWaiting" "live_state mono_example 0x13 = TaskStateReady"
    "QTask (QNodes mono_example 1) = 0x11" "QTask (QNodes mono_example 2) = 0x12" "CurrentTask mono_example = 0x11"
    by (simp_all add: mono_queue_def mono_example_def live_state_def blank_task_def)
  then show ?thesis
    using mono_task_lost [of mono_example "[]" 1 2 "[]" 3 "0x13"] by auto
qed

end
