(* ===== verification/Process_API.thy ===== *)
theory Process_API
  imports Scheduler Monotasking
begin

text \<open>
  The process interface of the kernel: \<^verbatim>\<open>src/kernel/proc/ProcessAPI.cpp\<close>, which answers
  from the multitasking or from the cooperative scheduler, the start of either in
  \<^verbatim>\<open>src/kernel/proc/Task.cpp\<close>, and the port registration of
  \<^verbatim>\<open>src/kernel/proc/InterProcessCommunication.cpp\<close>.
\<close>

section \<open>State\<close>

datatype TaskingMode = NoTasking | MonoMode | MultiMode

text \<open>
  What a call that returns a pointer delivers: nothing, a control block of the store, or the
  function's own static block with its contents. The static blocks are created by the first call
  and live on in the state.
\<close>

datatype 'b pointer = Null | Block u64 | Static 'b

record Api =
  CurrentTaskingMode :: TaskingMode
  multi :: Tasking
  mono :: Mono
  static_converted_pcb :: "PCB option"
  static_converted_tcb :: "TCB option"
  static_pid_pcb :: "PCB option"
  static_tid_tcb :: "TCB option"
  static_new_pcb :: "PCB option"
  static_new_tcb :: "TCB option"

definition zero_info :: GeneralProcessInfo where
  "zero_info = \<lparr>SpawnTime = 0, UsedTime = 0, OldUsedTime = 0, OldSystemTime = 0, CurrentSystemTime = 0,
     Year = 0, Month = 0, Day = 0, Hour = 0, Minute = 0, Second = 0,
     InfoArchitecture = UnknownArchitecture, InfoPlatform = UnknownPlatform, Priority = 0\<rparr>"

text \<open>The aggregate initialisers. A null \<^verbatim>\<open>IPCHandles\<close> pointer is an empty table here.\<close>

definition static_pcb :: "u64 \<Rightarrow> CBElevation \<Rightarrow> u64 \<Rightarrow> PCB" where
  "static_pcb ID elevation pml4 = \<lparr>PcbID = ID, PcbName = replicate 256 0, PcbStatus = UnknownStatus,
     Elevation = elevation, PcbExitCode = 0, PcbOffset = 0, PcbParent = 0, PcbPageTable = pml4,
     PcbInfo = zero_info, PcbToken = 0, IPCHandles = HashMap_empty, Threads = Vector_empty (\<lambda>_. 0),
     Children = Vector_empty (\<lambda>_. 0), PcbChecksum = PROCESS_CHECKSUM\<rparr>"

definition static_tcb :: "u64 \<Rightarrow> u32 \<Rightarrow> u64 \<Rightarrow> TCB" where
  "static_tcb ID argc argv = \<lparr>TcbID = ID, TcbName = replicate 256 0, TcbStatus = UnknownStatus,
     TcbExitCode = 0, TcbParent = 0, TcbStack = 0, FXRegion = replicate 512 0, Registers = zero_registers,
     TcbFs = 0, TcbGs = 0, TcbArgc = argc, TcbArgv = argv, TcbInfo = zero_info, TcbToken = 0,
     TcbChecksum = THREAD_CHECKSUM\<rparr>"

text \<open>The value of a static block: its initialiser the first time, what it held afterwards.\<close>

definition static_init :: "'b \<Rightarrow> 'b option \<Rightarrow> 'b" where
  "static_init initial stored = (case stored of None \<Rightarrow> initial | Some b \<Rightarrow> b)"

section \<open>Conversion of tasks\<close>

definition ConvertTaskCBToPCB :: "u64 \<Rightarrow> Api \<Rightarrow> PCB \<times> Api" where
  "ConvertTaskCBToPCB task a =
     (let b = TaskBlocks (mono a) task;
          pcb = static_init (static_pcb (task_id b) (if task_UserMode b then User else Kernel) (task_pml4 b))
                  (static_converted_pcb a);
          pcb = pcb\<lparr>PcbName := task_name b\<rparr>
      in (pcb, a\<lparr>static_converted_pcb := Some pcb\<rparr>))"

definition ConvertTaskCBToTCB :: "u64 \<Rightarrow> Api \<Rightarrow> TCB \<times> Api" where
  "ConvertTaskCBToTCB task a =
     (let b = TaskBlocks (mono a) task;
          tcb = static_init (static_tcb (task_id b) (task_argc b) (task_argv b)) (static_converted_tcb a);
          tcb = tcb\<lparr>TcbName := task_name b\<rparr>
      in (tcb, a\<lparr>static_converted_tcb := Some tcb\<rparr>))"

section \<open>Queries\<close>

text \<open>\<open>unknown\<close> are the 256 bytes at the literal \<^verbatim>\<open>"Unknown Task"\<close>.\<close>

definition listed :: "Tasking \<Rightarrow> u64 \<Rightarrow> bool" where
  "listed s pcb \<longleftrightarrow> \<not> (pcb = 0 \<or> PcbChecksum (Pcbs s pcb) \<noteq> PROCESS_CHECKSUM \<or> Elevation (Pcbs s pcb) = Idle)"

primrec find_pid :: "Tasking \<Rightarrow> u64 \<Rightarrow> u64 list \<Rightarrow> PCB pointer" where
  "find_pid s ID [] = Null"
| "find_pid s ID (pcb # rest) =
     (if \<not> listed s pcb then find_pid s ID rest
      else if PcbID (Pcbs s pcb) = ID then Block pcb
      else find_pid s ID rest)"

definition SysGetProcessByPID :: "u8 list \<Rightarrow> u64 \<Rightarrow> Api \<Rightarrow> PCB pointer \<times> Api" where
  "SysGetProcessByPID unknown ID a =
     (case CurrentTaskingMode a of
        MonoMode \<Rightarrow>
          let pcb = (static_init (static_pcb 0 UnknownElevation 0) (static_pid_pcb a))\<lparr>PcbName := unknown\<rparr>
          in (Static pcb, a\<lparr>static_pid_pcb := Some pcb\<rparr>)
      | MultiMode \<Rightarrow> (find_pid (multi a) ID (contents (ListProcess (multi a))), a)
      | NoTasking \<Rightarrow> (Null, a))"

primrec find_tid :: "Tasking \<Rightarrow> u64 \<Rightarrow> u64 list \<Rightarrow> TCB pointer" where
  "find_tid s ID [] = Null"
| "find_tid s ID (pcb # rest) =
     (if \<not> listed s pcb then find_tid s ID rest
      else case find (\<lambda>tcb. TcbID (Tcbs s tcb) = ID) (contents (Threads (Pcbs s pcb))) of
             Some tcb \<Rightarrow> Block tcb
           | None \<Rightarrow> find_tid s ID rest)"

definition SysGetThreadByTID :: "u8 list \<Rightarrow> u64 \<Rightarrow> Api \<Rightarrow> TCB pointer \<times> Api" where
  "SysGetThreadByTID unknown ID a =
     (case CurrentTaskingMode a of
        MonoMode \<Rightarrow>
          let tcb = (static_init (static_tcb 0 0 0) (static_tid_tcb a))\<lparr>TcbName := unknown\<rparr>
          in (Static tcb, a\<lparr>static_tid_tcb := Some tcb\<rparr>)
      | MultiMode \<Rightarrow> (find_tid (multi a) ID (contents (ListProcess (multi a))), a)
      | NoTasking \<Rightarrow> (Null, a))"

definition SysGetCurrentProcess :: "Api \<Rightarrow> PCB pointer \<times> Api" where
  "SysGetCurrentProcess a =
     (case CurrentTaskingMode a of
        MonoMode \<Rightarrow> map_prod Static id (ConvertTaskCBToPCB (CurrentTask (mono a)) a)
      | MultiMode \<Rightarrow> (Block (CurrentProcess (multi a)), a)
      | NoTasking \<Rightarrow> (Null, a))"

definition SysGetCurrentThread :: "Api \<Rightarrow> TCB pointer \<times> Api" where
  "SysGetCurrentThread a =
     (case CurrentTaskingMode a of
        MonoMode \<Rightarrow> map_prod Static id (ConvertTaskCBToTCB (CurrentTask (mono a)) a)
      | MultiMode \<Rightarrow> (Block (CurrentThread (multi a)), a)
      | NoTasking \<Rightarrow> (Null, a))"

section \<open>Priorities\<close>

definition SysSetProcessPriority :: "u32 \<Rightarrow> Api \<Rightarrow> Api" where
  "SysSetProcessPriority prio a =
     (case CurrentTaskingMode a of
        MultiMode \<Rightarrow> a\<lparr>multi := upd_pcb (CurrentProcess (multi a))
          (\<lambda>p. p\<lparr>PcbInfo := (PcbInfo p)\<lparr>Priority := prio\<rparr>\<rparr>) (multi a)\<rparr>
      | _ \<Rightarrow> a)"

definition SysGetProcessPriority :: "Api \<Rightarrow> u32" where
  "SysGetProcessPriority a =
     (case CurrentTaskingMode a of
        MultiMode \<Rightarrow> Priority (PcbInfo (Pcbs (multi a) (CurrentProcess (multi a))))
      | _ \<Rightarrow> 0)"

definition SysSetThreadPriority :: "u32 \<Rightarrow> Api \<Rightarrow> Api" where
  "SysSetThreadPriority prio a =
     (case CurrentTaskingMode a of
        MultiMode \<Rightarrow> a\<lparr>multi := upd_tcb (CurrentThread (multi a))
          (\<lambda>t. t\<lparr>TcbInfo := (TcbInfo t)\<lparr>Priority := prio\<rparr>\<rparr>) (multi a)\<rparr>
      | _ \<Rightarrow> a)"

definition SysGetThreadPriority :: "Api \<Rightarrow> u32" where
  "SysGetThreadPriority a =
     (case CurrentTaskingMode a of
        MultiMode \<Rightarrow> Priority (TcbInfo (Tcbs (multi a) (CurrentThread (multi a))))
      | _ \<Rightarrow> 0)"

section \<open>Creation\<close>

definition SysCreateProcess :: "Fresh \<Rightarrow> u8 list \<Rightarrow> u8 list \<Rightarrow> CBElevation \<Rightarrow> Api \<Rightarrow> PCB pointer \<times> Api" where
  "SysCreateProcess f unknown Name Elev a =
     (case CurrentTaskingMode a of
        MonoMode \<Rightarrow>
          let pcb = (static_init (static_pcb 0 UnknownElevation 0) (static_new_pcb a))\<lparr>PcbName := unknown\<rparr>
          in (Static pcb, a\<lparr>static_new_pcb := Some pcb\<rparr>)
      | MultiMode \<Rightarrow>
          let (p, s) = CreateProcess f (CurrentProcess (multi a)) Name Elev 1 (multi a)
          in (Block p, a\<lparr>multi := s\<rparr>)
      | NoTasking \<Rightarrow> (Null, a))"

definition SysCreateThread ::
    "Fresh \<Rightarrow> u64 \<Rightarrow> u8 list \<Rightarrow> u64 \<Rightarrow> u64 \<Rightarrow> u64 \<Rightarrow> u64 \<Rightarrow> Api \<Rightarrow> stop + (TCB pointer \<times> Api)" where
  "SysCreateThread f exit unknown Parent InstructionPointer arg0 arg1 a =
     (case CurrentTaskingMode a of
        MonoMode \<Rightarrow>
          let tcb = (static_init (static_tcb 0 0 0) (static_new_tcb a))\<lparr>TcbName := unknown\<rparr>
          in Inr (Static tcb, a\<lparr>static_new_tcb := Some tcb\<rparr>)
      | MultiMode \<Rightarrow>
          and_then (CreateThread f exit Parent InstructionPointer arg0 arg1 1 x64 Native (multi a))
            (\<lambda>(t, s). Inr (if t = 0 then Null else Block t, a\<lparr>multi := s\<rparr>))
      | NoTasking \<Rightarrow> Inr (Null, a))"

section \<open>Start\<close>

text \<open>\<^verbatim>\<open>new Multitasking\<close>: the members' initialisers and the constructor.\<close>

definition new_Multitasking :: "(u64 \<Rightarrow> u64) \<Rightarrow> Tasking \<Rightarrow> Tasking" where
  "new_Multitasking null s = TriggerOneShot 100
     (s\<lparr>ListProcess := Vector_empty null, NextPID := 0, NextTID := 0, IdleProcess := 0, IdleThread := 0\<rparr>)"

text \<open>The branch of \<^verbatim>\<open>StartTasking\<close> for several tasks; \<open>Name\<close> are the bytes at \<^verbatim>\<open>"kernel"\<close>.\<close>

definition StartMulti :: "Fresh \<Rightarrow> Fresh \<Rightarrow> u64 \<Rightarrow> u8 list \<Rightarrow> u64 \<Rightarrow> Tasking \<Rightarrow> stop + Tasking" where
  "StartMulti fp ft exit Name Address s =
     (let s = new_Multitasking (raw_pointers fp) s;
          (p, s) = CreateProcess fp 0 Name Kernel 1 s
      in and_then (CreateThread ft exit p Address 0 0 1 x64 Native s)
           (\<lambda>(t, s). Inr (s\<lparr>SchedulerEnabled := True\<rparr>)))"

section \<open>Ports\<close>

datatype IPCOperationType = IPCOperationNone | IPCOperationWrite | IPCOperationRead

datatype IPCErrorCode =
  IPCUnknown | IPCSuccess | IPCNotListening | IPCTimeout | IPCInvalidPort | IPCPortInUse
  | IPCPortNotRegistered

record IPCHandle =
  HandleID :: int
  HandleLength :: int
  HandleBuffer :: u64
  HandleListening :: bool
  HandleType :: IPCOperationType
  HandleError :: IPCErrorCode

definition new_handle :: IPCHandle where
  "new_handle = \<lparr>HandleID = - 1, HandleLength = 0, HandleBuffer = 0, HandleListening = False,
     HandleType = IPCOperationNone, HandleError = IPCUnknown\<rparr>"

text \<open>
  \<open>handle\<close> is the address of the new handle and \<open>H\<close> the store of handles. The current process is the
  one of the multitasking mode; insertion into a full table does not end.
\<close>

definition RegisterHandle ::
    "u64 \<Rightarrow> u32 \<Rightarrow> Tasking \<times> (u64 \<Rightarrow> IPCHandle) \<Rightarrow> (u64 \<times> Tasking \<times> (u64 \<Rightarrow> IPCHandle)) option" where
  "RegisterHandle handle Port sH =
     (let (s, H) = sH;
          pcb = CurrentProcess s
      in if Port = 0 then Some (0, s, H)
         else if Get Port (IPCHandles (Pcbs s pcb)) \<noteq> 0 then Some (0, s, H)
         else map_option (\<lambda>h. (handle, upd_pcb pcb (\<lambda>p. p\<lparr>IPCHandles := h\<rparr>) s, H(handle := new_handle)))
                (AddNode Port handle (IPCHandles (Pcbs s pcb))))"

text \<open>The remaining operations are stubs.\<close>

definition IPC_Wait :: "u32 \<Rightarrow> u64" where "IPC_Wait port = 0"
definition IPC_Read :: "int \<Rightarrow> u32 \<Rightarrow> u64 \<Rightarrow> int \<Rightarrow> IPCErrorCode" where "IPC_Read PID port buf sz = IPCUnknown"
definition IPC_Write :: "int \<Rightarrow> u32 \<Rightarrow> u64 \<Rightarrow> int \<Rightarrow> IPCErrorCode" where "IPC_Write PID port buf sz = IPCUnknown"

section \<open>Lookups\<close>

lemma find_pid_append:
  "find_pid s ID (xs @ ys) = (case find_pid s ID xs of Null \<Rightarrow> find_pid s ID ys | r \<Rightarrow> r)"
  by (induction xs) auto

lemma find_pid_cong:
  assumes "\<And>p. p \<in> set xs \<Longrightarrow> listed s' p = listed s p \<and> PcbID (Pcbs s' p) = PcbID (Pcbs s p)"
  shows "find_pid s' ID xs = find_pid s ID xs"
  using assms by (induction xs) auto

lemma find_pid_absent:
  assumes "\<And>p. p \<in> set xs \<Longrightarrow> listed s p \<Longrightarrow> PcbID (Pcbs s p) \<noteq> ID"
  shows "find_pid s ID xs = Null"
  using assms by (induction xs) auto

lemma find_pid_found:
  "find_pid s ID xs = Block p \<Longrightarrow> p \<in> set xs \<and> listed s p \<and> PcbID (Pcbs s p) = ID"
  by (induction xs) (auto split: if_splits)

section \<open>Properties\<close>

text \<open>
  Creating a process and looking it up agree: \<^verbatim>\<open>SysCreateProcess\<close> takes the next
  identifier, \<^verbatim>\<open>SysGetProcessByPID\<close> with that identifier then returns the new process, and
  for every other identifier it returns what it returned before.
\<close>

lemma pid_roundtrip:
  assumes mode: "CurrentTaskingMode a = MultiMode"
    and arr: "vec_ok (ListProcess (multi a))" "vec_room (ListProcess (multi a))"
    and new: "new_address f \<noteq> 0" "new_address f \<notin> set (contents (ListProcess (multi a)))" "Elev \<noteq> Idle"
    and ids: "\<forall>p. p \<in> set (contents (ListProcess (multi a))) \<longrightarrow> listed (multi a) p \<longrightarrow>
      PcbID (Pcbs (multi a) p) \<noteq> NextPID (multi a)"
  shows "\<exists>p a'. SysCreateProcess f unknown Name Elev a = (Block p, a') \<and>
    SysGetProcessByPID unknown (NextPID (multi a)) a' = (Block p, a') \<and>
    PcbID (Pcbs (multi a') p) = NextPID (multi a) \<and> NextPID (multi a') = NextPID (multi a) + 1 \<and>
    (\<forall>ID. ID \<noteq> NextPID (multi a) \<longrightarrow>
       fst (SysGetProcessByPID unknown ID a') = fst (SysGetProcessByPID unknown ID a))"
proof -
  let ?p = "new_address f" and ?xs = "contents (ListProcess (multi a))"
  let ?s = "snd (CreateProcess f (CurrentProcess (multi a)) Name Elev 1 (multi a))"
  note cp = CreateProcess_result [of f "CurrentProcess (multi a)" Name Elev 1 "multi a"]
  have xs: "contents (ListProcess ?s) = ?xs @ [?p]"
    using push_back_contents(1) [OF arr] by (simp add: cp)
  have old: "listed ?s p = listed (multi a) p \<and> PcbID (Pcbs ?s p) = PcbID (Pcbs (multi a) p)"
    if "p \<in> set ?xs" for p
    using that new(2) by (auto simp: listed_def cp)
  have here: "listed ?s ?p" "PcbID (Pcbs ?s ?p) = NextPID (multi a)"
    using new by (simp_all add: listed_def cp)
  have "find_pid ?s ID (?xs @ [?p]) =
      (if ID = NextPID (multi a) then Block ?p else find_pid (multi a) ID ?xs)" for ID
    using find_pid_cong [of ?xs ?s "multi a" ID] old find_pid_absent [of ?xs "multi a" "NextPID (multi a)"] ids here
    by (auto simp: find_pid_append split: pointer.split)
  moreover have "SysCreateProcess f unknown Name Elev a = (Block ?p, a\<lparr>multi := ?s\<rparr>)"
    using mode by (simp add: SysCreateProcess_def split_beta cp)
  ultimately show ?thesis
    using mode here by (simp add: SysGetProcessByPID_def xs cp(6))
qed

definition api_example :: Api where
  "api_example = \<lparr>CurrentTaskingMode = MultiMode, multi = task_example, mono = mono_example,
     static_converted_pcb = None, static_converted_tcb = None, static_pid_pcb = None, static_tid_tcb = None,
     static_new_pcb = None, static_new_tcb = None\<rparr>"

lemma pid_roundtrip_witness:
  "\<exists>p a'. SysCreateProcess fresh_example [] [] User api_example = (Block p, a') \<and>
     SysGetProcessByPID [] 2 a' = (Block p, a') \<and> fst (SysGetProcessByPID [] 1 a') = Block 0x100000"
proof -
  have c: "multi api_example = task_example" "contents (ListProcess task_example) = [0x100000]"
      "CurrentTaskingMode api_example = MultiMode"
    by (simp_all add: api_example_def task_example_fields contents_pointers)
  have l: "listed task_example 0x100000" "PcbID (Pcbs task_example 0x100000) = 1" "NextPID task_example = 2"
    by (simp_all add: listed_def task_example_def)
  have "fst (SysGetProcessByPID [] 1 api_example) = Block 0x100000"
    by (simp add: SysGetProcessByPID_def c l)
  moreover have "vec_ok (pointers [0x100000])" "vec_room (pointers [0x100000])"
    by (simp_all add: vec_ok_def vec_room_def pointers_def)
  ultimately show ?thesis
    using pid_roundtrip [of api_example fresh_example User "[]" "[]"] c l
    by (auto simp: fresh_example_def task_example_fields)
qed

text \<open>
  A port is registered once: on a process whose table is sound and has a free slot, the first
  registration of a free port returns a new handle that the table then holds, every other port keeps
  its handle, and a second registration of the port returns the null pointer and changes nothing.
\<close>

lemma RegisterHandle_once:
  assumes tab: "chain_ok (IPCHandles (Pcbs s (CurrentProcess s)))" "has_hole (IPCHandles (Pcbs s (CurrentProcess s)))"
    and port: "Port \<noteq> 0" "Get Port (IPCHandles (Pcbs s (CurrentProcess s))) = 0" and "handle \<noteq> 0"
  shows "\<exists>s' H'. RegisterHandle handle Port (s, H) = Some (handle, s', H') \<and>
    Get Port (IPCHandles (Pcbs s' (CurrentProcess s'))) = handle \<and> H' handle = new_handle \<and>
    chain_ok (IPCHandles (Pcbs s' (CurrentProcess s'))) \<and>
    (\<forall>k. k \<noteq> Port \<longrightarrow> k \<noteq> - 1 \<longrightarrow>
       Get k (IPCHandles (Pcbs s' (CurrentProcess s'))) = Get k (IPCHandles (Pcbs s (CurrentProcess s)))) \<and>
    RegisterHandle handle2 Port (s', H') = Some (0, s', H')"
proof -
  obtain h where h: "AddNode Port handle (IPCHandles (Pcbs s (CurrentProcess s))) = Some h"
    using ht.add_returns [OF tab(2)] by blast
  then show ?thesis
    using ht.look_same [OF tab(2) h] ht.look_other [OF tab h] ht.add_good [OF tab h] assms(3-)
    by (auto simp: RegisterHandle_def task_simps)
qed

lemma RegisterHandle_once_witness:
  "\<exists>s' H'. RegisterHandle 0x5000 80 (task_example, \<lambda>_. new_handle) = Some (0x5000, s', H') \<and>
     RegisterHandle 0x6000 80 (s', H') = Some (0, s', H')"
proof -
  have "IPCHandles (Pcbs task_example (CurrentProcess task_example)) = HashMap_empty"
    by (simp add: task_example_def blank_pcb_def)
  then show ?thesis
    using RegisterHandle_once [of task_example 80 "0x5000" "\<lambda>_. new_handle" "0x6000"] HashMap_empty_ok by auto
qed

text \<open>A frame is enough for the stack of a kernel thread.\<close>

lemma AllocateStack_kernel:
  assumes "can_serve 1 m"
  obtains stack m' where "AllocateStack mgr False m = Inr (stack, m')"
proof -
  have "cursor_ok (KernelAllocator m)" "pages_ok (KernelAllocator m)" "0 < free_frames (KernelAllocator m)"
    using assms phys_ok_pages_ok by (auto simp: can_serve_def)
  then obtain p a where "RequestPage (KernelAllocator m) = Inr (p, a)"
    by (rule RequestPage_returns)
  then show thesis
    using that by (simp add: AllocateStack_def)
qed

text \<open>
  C17. The system starts: after \<^verbatim>\<open>StartTasking\<close> in the multitasking mode, with one free frame,
  the first timer interrupt runs the kernel's first thread in kernel mode at the given address, on
  whatever processor state the interrupt found.
\<close>

theorem start_runs_kernel:
  assumes cur: "CurrentProcess s = 0" and vm: "can_serve 1 (TaskVM s)"
    and p: "new_address fp \<noteq> 0" "new_address fp < 0x10000000"
    and t: "new_address ft \<noteq> 0" "new_address ft < 0x10000000"
  shows "\<exists>s1 regs' s2. StartMulti fp ft exit Name Address s = Inr s1 \<and>
    MultiTaskingSchedulerHandler env regs s1 = Some (Inr (regs', s2)) \<and>
    reg_rip regs' = Address \<and> reg_cs regs' = GDT_KERNEL_CODE \<and> bit (reg_rflags regs') 9 \<and>
    CurrentProcess s2 = new_address fp \<and> CurrentThread s2 = new_address ft \<and>
    TcbStatus (Tcbs s2 (CurrentThread s2)) = Running \<and> SchedulerEnabled s1"
proof -
  let ?p = "new_address fp" and ?t = "new_address ft"
  let ?s0 = "new_Multitasking (raw_pointers fp) s"
  let ?c = "snd (CreateProcess fp 0 Name Kernel 1 ?s0)"
  note cp = CreateProcess_result [of fp 0 Name Kernel 1 ?s0]
  have ve: "vec_ok (Vector_empty z)" "vec_room (Vector_empty z)" "contents (Vector_empty z) = []" for z :: "u64 \<Rightarrow> u64"
    by (simp_all add: Vector_empty_def vec_ok_def vec_room_def contents_def)
  have s0: "ListProcess ?s0 = Vector_empty (raw_pointers fp)" "TaskVM ?s0 = TaskVM s" "CurrentProcess ?s0 = 0"
    using cur by (simp_all add: new_Multitasking_def TriggerOneShot_def)
  obtain stack m where st: "AllocateStack (TaskManager ?c) False (TaskVM ?c) = Inr (stack, m)"
    using AllocateStack_kernel [OF vm] by (auto simp: cp s0)
  then obtain s1 where s1: "CreateThread ft exit ?p Address 0 0 1 x64 Native ?c = Inr (?t, s1)"
    using CreateThread_returns [of ?p ?c "(stack, m)" ft exit Address 0 0 1 x64 Native] p by (auto simp: cp)
  let ?s1 = "s1\<lparr>SchedulerEnabled := True\<rparr>"
  have off: "PcbOffset (Pcbs ?c ?p) = 0"
    by (simp add: CreateProcess_def Let_def CreateToken_def task_simps)
  have f: "TcbStatus (Tcbs s1 ?t) = Ready \<and> \<not> InvalidTCB ?s1 ?t \<and> \<not> InvalidPCB ?s1 ?p \<and>
      PcbStatus (Pcbs s1 ?p) = Ready \<and> contents (Threads (Pcbs s1 ?p)) = [?t] \<and>
      contents (ListProcess s1) = [?p] \<and> CurrentProcess s1 = 0 \<and>
      Registers (Tcbs s1 ?t) = started False Address stack 0 0"
    by (rule CreateThread_result [OF _ _ _ s1])
      (use p t push_back_contents(1) [OF ve(1,2)] ve(3) st off in
        \<open>simp_all add: cp s0 InvalidTCB_def InvalidPCB_def linorder_not_le\<close>)
  let ?r = "end_switch (switch_to ?p ?t ?s1)"
  have "search_processes ?s1 (contents (ListProcess ?s1)) = Some (?p, ?t)"
    using f by simp
  then have "MultiTaskingSchedulerHandler env regs ?s1 = Some (Inr (fst ?r, snd ?r))"
    using f by (simp add: MultiTaskingSchedulerHandler_def schedule_def InvalidPCB_def [of _ 0])
  moreover have "StartMulti fp ft exit Name Address s = Inr ?s1"
    using s1 by (simp add: StartMulti_def Let_def split_beta cp(1))
  moreover have "fst ?r = started False Address stack 0 0"
    using f by (simp add: end_switch_keeps switch_to_keeps)
  ultimately show ?thesis
    by (intro exI [of _ ?s1] exI [of _ "fst ?r"] exI [of _ "snd ?r"])
      (simp add: end_switch_keeps(4-6) switch_to_keeps(4-6) started_def start_rflags_def bit_simps)
qed

theorem start_runs_kernel_witness:
  "\<exists>s1 regs' s2. StartMulti fresh_example (fresh_example\<lparr>new_address := 0x301000\<rparr>) 0x9000 [] 0x8000 boot_example = Inr s1 \<and>
     MultiTaskingSchedulerHandler env_example zero_registers s1 = Some (Inr (regs', s2)) \<and> reg_rip regs' = 0x8000"
proof -
  have "can_serve 1 (TaskVM boot_example)" "CurrentProcess boot_example = 0"
    using vm_example_serves by (simp_all add: boot_example_def task_example_def can_serve_def)
  then show ?thesis
    using start_runs_kernel [of boot_example fresh_example "fresh_example\<lparr>new_address := 0x301000\<rparr>" "0x9000" "[]"
        "0x8000" env_example zero_registers]
    by (auto simp: fresh_example_def)
qed

end
