(* ===== verification/Net_Packet.thy ===== *)
theory Net_Packet
  imports Kernel_Prelude
begin

text \<open>
  The vocabulary of the network stack in \<^verbatim>\<open>src/kernel/network/NetworkController.hpp\<close>: the byte
  swapping macros, hardware and internet addresses with their conversions, and the internet checksum.
  A pointer to a packet is the memory from its first byte on (\<open>mem\<close>), since the code casts such
  pointers to header structures without looking at the length first; integers are stored low byte
  first, as on the processors the kernel supports.
\<close>

section \<open>Integers in memory\<close>

type_synonym mem = "nat \<Rightarrow> u8"

definition load16 :: "mem \<Rightarrow> nat \<Rightarrow> u16" where
  "load16 m i = ucast (m i) OR push_bit 8 (ucast (m (i + 1)))"

definition load32 :: "mem \<Rightarrow> nat \<Rightarrow> u32" where
  "load32 m i = ucast (m i) OR push_bit 8 (ucast (m (i + 1))) OR push_bit 16 (ucast (m (i + 2)))
     OR push_bit 24 (ucast (m (i + 3)))"

definition load48 :: "mem \<Rightarrow> nat \<Rightarrow> u64" where
  "load48 m i = ucast (m i) OR push_bit 8 (ucast (m (i + 1))) OR push_bit 16 (ucast (m (i + 2)))
     OR push_bit 24 (ucast (m (i + 3))) OR push_bit 32 (ucast (m (i + 4))) OR push_bit 40 (ucast (m (i + 5)))"

definition bytes16 :: "u16 \<Rightarrow> u8 list" where
  "bytes16 x = [ucast x, ucast (drop_bit 8 x)]"

definition bytes32 :: "u32 \<Rightarrow> u8 list" where
  "bytes32 x = [ucast x, ucast (drop_bit 8 x), ucast (drop_bit 16 x), ucast (drop_bit 24 x)]"

definition bytes48 :: "u64 \<Rightarrow> u8 list" where
  "bytes48 x = [ucast x, ucast (drop_bit 8 x), ucast (drop_bit 16 x), ucast (drop_bit 24 x),
     ucast (drop_bit 32 x), ucast (drop_bit 40 x)]"

text \<open>The memory holds the bytes \<open>xs\<close> from offset \<open>i\<close> on; \<open>put\<close> writes them there.\<close>

fun holds :: "mem \<Rightarrow> nat \<Rightarrow> u8 list \<Rightarrow> bool" where
  "holds m i [] = True"
| "holds m i (x # xs) = (m i = x \<and> holds m (Suc i) xs)"

fun put :: "nat \<Rightarrow> u8 list \<Rightarrow> mem \<Rightarrow> mem" where
  "put i [] m = m"
| "put i (x # xs) m = put (Suc i) xs (m(i := x))"

section \<open>Byte swapping\<close>

definition b8 :: "u8 \<Rightarrow> u8" where
  "b8 x = x AND 0xFF"

definition b16 :: "u16 \<Rightarrow> u16" where
  "b16 x = push_bit 8 x OR drop_bit 8 x"

definition b32 :: "u32 \<Rightarrow> u32" where
  "b32 x = push_bit 24 (x AND 0xFF) OR push_bit 8 (x AND 0xFF00) OR drop_bit 8 (x AND 0xFF0000)
     OR drop_bit 24 x"

definition b48 :: "u64 \<Rightarrow> u64" where
  "b48 x = push_bit 40 (x AND 0x0000000000ff) OR push_bit 24 (x AND 0x00000000ff00)
     OR push_bit 8 (x AND 0x000000ff0000) OR drop_bit 8 (x AND 0x0000ff000000)
     OR drop_bit 24 (x AND 0x00ff00000000) OR drop_bit 40 (x AND 0xff0000000000)"

section \<open>Addresses\<close>

datatype MediaAccessControl = MAC u8 u8 u8 u8 u8 u8

definition MAC_ToHex :: "MediaAccessControl \<Rightarrow> u64" where
  "MAC_ToHex this = (case this of MAC a b c d e f \<Rightarrow>
     push_bit 40 (ucast a) OR push_bit 32 (ucast b) OR push_bit 24 (ucast c)
     OR push_bit 16 (ucast d) OR push_bit 8 (ucast e) OR ucast f)"

definition MAC_FromHex :: "u64 \<Rightarrow> MediaAccessControl" where
  "MAC_FromHex Hex = MAC (ucast (drop_bit 40 Hex AND 0xFF)) (ucast (drop_bit 32 Hex AND 0xFF))
     (ucast (drop_bit 24 Hex AND 0xFF)) (ucast (drop_bit 16 Hex AND 0xFF))
     (ucast (drop_bit 8 Hex AND 0xFF)) (ucast (Hex AND 0xFF))"

definition MAC_eq :: "MediaAccessControl \<Rightarrow> MediaAccessControl \<Rightarrow> bool" where
  "MAC_eq this lhs = (case (this, lhs) of (MAC a b c d e f, MAC a' b' c' d' e' f') \<Rightarrow>
     a' = a \<and> b' = b \<and> c' = c \<and> d' = d \<and> e' = e \<and> f' = f)"

definition MAC_eq_hex :: "MediaAccessControl \<Rightarrow> u64 \<Rightarrow> bool" where
  "MAC_eq_hex this lhs = MAC_eq this (MAC_FromHex lhs)"

definition MAC_Valid :: "MediaAccessControl \<Rightarrow> bool" where
  "MAC_Valid this = (case this of MAC a b c d e f \<Rightarrow>
     (a \<noteq> 0 \<or> b \<noteq> 0 \<or> c \<noteq> 0 \<or> d \<noteq> 0 \<or> e \<noteq> 0 \<or> f \<noteq> 0) \<and>
     (a \<noteq> 0xFF \<or> b \<noteq> 0xFF \<or> c \<noteq> 0xFF \<or> d \<noteq> 0xFF \<or> e \<noteq> 0xFF \<or> f \<noteq> 0xFF))"

datatype InternetProtocol4 = IP4 u8 u8 u8 u8

definition IP_ToHex :: "InternetProtocol4 \<Rightarrow> u32" where
  "IP_ToHex this = (case this of IP4 a b c d \<Rightarrow>
     ucast (push_bit 24 (ucast a) OR push_bit 16 (ucast b) OR push_bit 8 (ucast c) OR (ucast d :: u64)))"

definition IP_FromHex :: "u32 \<Rightarrow> InternetProtocol4" where
  "IP_FromHex Hex = IP4 (ucast (drop_bit 24 Hex AND 0xFF)) (ucast (drop_bit 16 Hex AND 0xFF))
     (ucast (drop_bit 8 Hex AND 0xFF)) (ucast (Hex AND 0xFF))"

definition IP_eq :: "InternetProtocol4 \<Rightarrow> InternetProtocol4 \<Rightarrow> bool" where
  "IP_eq this lhs = (case (this, lhs) of (IP4 a b c d, IP4 a' b' c' d') \<Rightarrow>
     a' = a \<and> b' = b \<and> c' = c \<and> d' = d)"

definition IP_eq_hex :: "InternetProtocol4 \<Rightarrow> u32 \<Rightarrow> bool" where
  "IP_eq_hex this lhs = IP_eq this (IP_FromHex lhs)"

section \<open>The internet checksum\<close>

text \<open>One step of the summing loop: the 16-bit word of the packet in network order.\<close>

definition swap_word :: "u16 \<Rightarrow> u64" where
  "swap_word d = drop_bit 8 (ucast d AND 0xFF00) OR push_bit 8 (ucast d AND 0x00FF)"

definition checksum_words :: "mem \<Rightarrow> nat \<Rightarrow> u64" where
  "checksum_words m n = fold (\<lambda>i c. c + swap_word (load16 m (2 * i))) [0..<n] 0"

text \<open>The last byte of an odd length goes through \<^verbatim>\<open>char\<close>, which is signed.\<close>

definition checksum_tail :: "mem \<Rightarrow> nat \<Rightarrow> u64" where
  "checksum_tail m Length = (if odd Length then push_bit 8 (ucast (scast (m (Length - 1)) :: u16)) else 0)"

function checksum_fold :: "u64 \<Rightarrow> u64" where
  "checksum_fold c =
     (if c AND 0xFFFF0000 \<noteq> 0 then checksum_fold ((c AND 0xFFFF) + drop_bit 16 c) else c)"
  by pat_completeness auto

text \<open>The loop of the carries ends: every round makes the sum smaller.\<close>

lemma and_FFFF: "unat ((c :: u64) AND 0xFFFF) = unat c mod 65536"
proof -
  have "c AND 0xFFFF = take_bit 16 c"
    by (simp add: take_bit_eq_mask mask_eq_exp_minus_1)
  then show ?thesis
    by (simp add: unsigned_take_bit_eq take_bit_nat_def)
qed

lemma unat_drop_bit_u64: "unat (drop_bit n (c :: u64)) = unat c div 2 ^ n"
  using unsigned_less [of c, where ?'a = nat]
  by (simp only: unsigned_drop_bit_eq) (simp add: drop_bit_eq_div take_bit_nat_eq_self)

lemma checksum_round:
  "unat ((c AND 0xFFFF) + drop_bit 16 (c :: u64)) = unat c mod 65536 + unat c div 65536"
proof -
  have "unat c < 2 ^ 64"
    using unsigned_less [of c, where ?'a = nat] by simp
  then have "unat c div 65536 < 2 ^ 48"
    by (simp add: less_mult_imp_div_less)
  moreover have "unat c mod 65536 < 65536"
    by simp
  ultimately show ?thesis
    by (simp add: unat_word_ariths(1) and_FFFF unat_drop_bit_u64)
qed

lemma and_FFFF0000: "c AND 0xFFFF0000 \<noteq> 0 \<Longrightarrow> 65536 \<le> unat (c :: u64)"
proof (rule ccontr)
  assume nz: "c AND 0xFFFF0000 \<noteq> 0" and "\<not> 65536 \<le> unat c"
  then have "unat (take_bit 16 c) = unat c"
    by (simp add: unsigned_take_bit_eq take_bit_nat_def)
  then have "c = c AND 0xFFFF"
    using \<open>\<not> 65536 \<le> unat c\<close> by (simp add: word_unat_eq_iff and_FFFF)
  then have "c AND 0xFFFF0000 = (c AND 0xFFFF) AND 0xFFFF0000"
    by (rule arg_cong)
  then have "c AND 0xFFFF0000 = c AND (0xFFFF AND 0xFFFF0000)"
    by (simp only: and.assoc)
  with nz show False
    by simp
qed

termination checksum_fold
proof (relation "measure unat", simp, simp only: in_measure)
  fix c :: u64
  assume "c AND 0xFFFF0000 \<noteq> 0"
  then have "65536 \<le> unat c"
    by (rule and_FFFF0000)
  then have "unat c mod 65536 + unat c div 65536 < unat c"
    using div_mult_mod_eq [of "unat c" 65536] by linarith
  then show "unat ((c AND 0xFFFF) + drop_bit 16 c) < unat c"
    by (simp only: checksum_round)
qed

declare checksum_fold.simps [simp del]

definition CalculateChecksum :: "mem \<Rightarrow> nat \<Rightarrow> u16" where
  "CalculateChecksum Data Length =
     (let Checksum = checksum_words Data (Length div 2) + checksum_tail Data Length;
          Checksum = checksum_fold Checksum
      in ucast (drop_bit 8 (NOT Checksum AND 0xFF00) OR push_bit 8 (NOT Checksum AND 0x00FF)))"

section \<open>Conversions of addresses\<close>

text \<open>Words as their bytes: byte \<open>k\<close> is the one that starts at bit \<open>k\<close>.\<close>

definition byte :: "nat \<Rightarrow> 'a::len word \<Rightarrow> u8" where
  "byte k x = ucast (drop_bit k x)"

lemma byte_or [simp]: "byte k (x OR y) = byte k x OR byte k y"
  by (rule bit_word_eqI) (simp add: byte_def bit_simps)

lemma bit_u8_less: "bit (a :: u8) n \<Longrightarrow> n < 8"
  using bit_imp_le_length [of a n] by simp

lemma byte_push:
  "k + 8 \<le> LENGTH('a) \<Longrightarrow> byte k (push_bit k (ucast a :: 'a::len word)) = a"
  "j + 8 \<le> k \<or> k + 8 \<le> j \<Longrightarrow> byte k (push_bit j (ucast a :: 'a::len word)) = 0"
  by (rule bit_word_eqI; force simp: byte_def bit_simps dest: bit_u8_less)+

lemma byte_ucast:
  "8 \<le> LENGTH('a) \<Longrightarrow> byte 0 (ucast a :: 'a::len word) = a"
  "8 \<le> k \<Longrightarrow> byte k (ucast a :: 'a::len word) = 0"
  by (rule bit_word_eqI; force simp: byte_def bit_simps dest: bit_u8_less)+

lemma drop_push_byte:
  "n \<le> j \<Longrightarrow> j + 8 \<le> LENGTH('a) \<Longrightarrow>
     drop_bit n (push_bit j (ucast (a :: u8) :: 'a::len word)) = push_bit (j - n) (ucast a)"
  by (rule bit_word_eqI) (auto simp: bit_simps add.commute dest: bit_u8_less)

lemma ucast_and_FF: "8 \<le> LENGTH('a) \<Longrightarrow> ucast (drop_bit k x AND 0xFF) = byte k (x :: 'a::len word)"
proof -
  assume "8 \<le> LENGTH('a)"
  have "drop_bit k x AND 0xFF = take_bit 8 (drop_bit k x)"
    by (simp add: take_bit_eq_mask mask_eq_exp_minus_1)
  then show ?thesis
    by (intro bit_word_eqI) (simp add: byte_def bit_simps)
qed

lemma mask_bytes:
  "(x :: 'a::len word) AND 0xFF = ucast (byte 0 x)"
  "x AND 0xFF00 = push_bit 8 (ucast (byte 8 x))"
  "x AND 0xFF0000 = push_bit 16 (ucast (byte 16 x))"
  "x AND 0xFF000000 = push_bit 24 (ucast (byte 24 x))"
  "x AND 0xFF00000000 = push_bit 32 (ucast (byte 32 x))"
  "x AND 0xFF0000000000 = push_bit 40 (ucast (byte 40 x))"
proof -
  have m: "(x AND push_bit n (mask 8)) = push_bit n (ucast (byte n x))" for n
    by (rule bit_word_eqI) (auto simp: byte_def bit_simps)
  show "(x :: 'a::len word) AND 0xFF = ucast (byte 0 x)"
    using m [of 0] by (simp add: mask_eq_exp_minus_1)
  show "x AND 0xFF00 = push_bit 8 (ucast (byte 8 x))"
    using m [of 8] by (simp add: mask_eq_exp_minus_1 push_bit_eq_mult)
  show "x AND 0xFF0000 = push_bit 16 (ucast (byte 16 x))"
    using m [of 16] by (simp add: mask_eq_exp_minus_1 push_bit_eq_mult)
  show "x AND 0xFF000000 = push_bit 24 (ucast (byte 24 x))"
    using m [of 24] by (simp add: mask_eq_exp_minus_1 push_bit_eq_mult)
  show "x AND 0xFF00000000 = push_bit 32 (ucast (byte 32 x))"
    using m [of 32] by (simp add: mask_eq_exp_minus_1 push_bit_eq_mult)
  show "x AND 0xFF0000000000 = push_bit 40 (ucast (byte 40 x))"
    using m [of 40] by (simp add: mask_eq_exp_minus_1 push_bit_eq_mult)
qed

lemmas byte_simps = byte_push byte_ucast drop_push_byte mask_bytes

text \<open>A word is given by its bytes.\<close>

lemma bytes_eqI:
  assumes "\<And>i. 8 * i < LENGTH('a) \<Longrightarrow> byte (8 * i) x = byte (8 * i) y"
  shows "x = (y :: 'a::len word)"
proof (rule bit_word_eqI)
  fix n
  assume n: "n < LENGTH('a)"
  have "bit z n = bit (byte (8 * (n div 8)) z) (n mod 8)" for z :: "'a word"
    by (simp add: byte_def bit_simps)
  with assms [of "n div 8"] n show "bit x n = bit y n"
    by simp
qed

lemma u16_eqI: "byte 0 x = byte 0 y \<Longrightarrow> byte 8 x = byte 8 y \<Longrightarrow> x = (y :: u16)"
proof (rule bytes_eqI)
  fix i :: nat
  assume b: "byte 0 x = byte 0 y" "byte 8 x = byte 8 y" "8 * i < LENGTH(16)"
  then have "i = 0 \<or> i = 1"
    by auto
  with b show "byte (8 * i) x = byte (8 * i) y"
    by auto
qed

lemma u32_eqI:
  "byte 0 x = byte 0 y \<Longrightarrow> byte 8 x = byte 8 y \<Longrightarrow> byte 16 x = byte 16 y \<Longrightarrow> byte 24 x = byte 24 y \<Longrightarrow> x = (y :: u32)"
proof (rule bytes_eqI)
  fix i :: nat
  assume b: "byte 0 x = byte 0 y" "byte 8 x = byte 8 y" "byte 16 x = byte 16 y" "byte 24 x = byte 24 y"
    "8 * i < LENGTH(32)"
  then have "i = 0 \<or> i = 1 \<or> i = 2 \<or> i = 3"
    by auto
  with b show "byte (8 * i) x = byte (8 * i) y"
    by auto
qed

lemma byte_take_bit48:
  "byte 0 (take_bit 48 x) = byte 0 (x :: u64)" "byte 8 (take_bit 48 x) = byte 8 x"
  "byte 16 (take_bit 48 x) = byte 16 x" "byte 24 (take_bit 48 x) = byte 24 x"
  "byte 32 (take_bit 48 x) = byte 32 x" "byte 40 (take_bit 48 x) = byte 40 x"
  "48 \<le> k \<Longrightarrow> byte k (take_bit 48 x) = 0"
  by (rule bit_word_eqI; force simp: byte_def bit_simps)+

lemma u48_eqI:
  assumes "byte 0 x = byte 0 (y :: u64)" "byte 8 x = byte 8 y" "byte 16 x = byte 16 y"
    "byte 24 x = byte 24 y" "byte 32 x = byte 32 y" "byte 40 x = byte 40 y"
  shows "take_bit 48 x = take_bit 48 y"
proof (rule bytes_eqI)
  fix i :: nat
  have "i = 0 \<or> i = 1 \<or> i = 2 \<or> i = 3 \<or> i = 4 \<or> i = 5 \<or> 48 \<le> 8 * i"
    by auto
  with assms show "byte (8 * i) (take_bit 48 x) = byte (8 * i) (take_bit 48 y)"
    by (auto simp: byte_take_bit48)
qed

text \<open>The swaps and the conversions, byte by byte.\<close>

lemma byte_b16: "byte 0 (b16 x) = byte 8 x" "byte 8 (b16 x) = byte 0 x"
  by (rule bit_word_eqI; force simp: b16_def byte_def bit_simps)+

lemma b32_bytes:
  "b32 x = push_bit 24 (ucast (byte 0 x)) OR push_bit 16 (ucast (byte 8 x))
     OR push_bit 8 (ucast (byte 16 x)) OR ucast (byte 24 x)"
proof -
  have "drop_bit 24 x = ucast (byte 24 x)"
    by (rule bit_word_eqI) (auto simp: byte_def bit_simps dest: bit_imp_le_length)
  then show ?thesis
    by (simp add: b32_def byte_simps)
qed

lemma b48_bytes:
  "b48 x = push_bit 40 (ucast (byte 0 x)) OR push_bit 32 (ucast (byte 8 x))
     OR push_bit 24 (ucast (byte 16 x)) OR push_bit 16 (ucast (byte 24 x))
     OR push_bit 8 (ucast (byte 32 x)) OR ucast (byte 40 x)"
  by (simp add: b48_def byte_simps)

lemma MAC_FromHex_bytes: "MAC_FromHex x = MAC (byte 40 x) (byte 32 x) (byte 24 x) (byte 16 x) (byte 8 x) (byte 0 x)"
  using ucast_and_FF [of 0 x] by (simp add: MAC_FromHex_def ucast_and_FF)

lemma IP_FromHex_bytes: "IP_FromHex x = IP4 (byte 24 x) (byte 16 x) (byte 8 x) (byte 0 x)"
  using ucast_and_FF [of 0 x] by (simp add: IP_FromHex_def ucast_and_FF)

lemma IP_ToHex_bytes:
  "IP_ToHex (IP4 a b c d) = push_bit 24 (ucast a) OR push_bit 16 (ucast b) OR push_bit 8 (ucast c) OR ucast d"
  by (rule bit_word_eqI) (auto simp: IP_ToHex_def bit_simps dest: bit_u8_less)

lemma b16_b16 [simp]: "b16 (b16 x) = x"
  by (rule u16_eqI) (simp_all add: byte_b16)

lemma b32_b32 [simp]: "b32 (b32 x) = x"
  by (rule u32_eqI) (simp_all add: b32_bytes byte_simps)

lemma take_bit_b48 [simp]: "take_bit 48 (b48 x) = b48 x"
proof (rule bytes_eqI)
  fix i :: nat
  have "i = 0 \<or> i = 1 \<or> i = 2 \<or> i = 3 \<or> i = 4 \<or> i = 5 \<or> 48 \<le> 8 * i"
    by auto
  then show "byte (8 * i) (take_bit 48 (b48 x)) = byte (8 * i) (b48 x)"
    by (auto simp: byte_take_bit48) (simp add: b48_bytes byte_simps)
qed

lemma b48_b48 [simp]: "b48 (b48 x) = take_bit 48 x"
proof -
  have "take_bit 48 (b48 (b48 x)) = take_bit 48 x"
    by (rule u48_eqI) (simp_all add: b48_bytes byte_simps)
  then show ?thesis
    by simp
qed

lemma MAC_FromHex_ToHex [simp]: "MAC_FromHex (MAC_ToHex a) = a"
  by (cases a) (simp add: MAC_FromHex_bytes MAC_ToHex_def byte_simps)

lemma IP_FromHex_ToHex [simp]: "IP_FromHex (IP_ToHex a) = a"
  by (cases a) (simp add: IP_FromHex_bytes IP_ToHex_bytes byte_simps)

lemma IP_ToHex_FromHex [simp]: "IP_ToHex (IP_FromHex x) = x"
  by (rule u32_eqI) (simp_all add: IP_FromHex_bytes IP_ToHex_bytes byte_simps)

text \<open>An address stored through the swap stands in memory in the order of its bytes; stored without
  it, in the reverse order.\<close>

lemma bytes16_byte: "bytes16 x = [byte 0 x, byte 8 x]"
  by (simp add: bytes16_def byte_def)

lemma bytes32_byte: "bytes32 x = [byte 0 x, byte 8 x, byte 16 x, byte 24 x]"
  by (simp add: bytes32_def byte_def)

lemma bytes48_byte: "bytes48 x = [byte 0 x, byte 8 x, byte 16 x, byte 24 x, byte 32 x, byte 40 x]"
  by (simp add: bytes48_def byte_def)

lemma bytes48_MAC: "bytes48 (b48 (MAC_ToHex (MAC a b c d e f))) = [a, b, c, d, e, f]"
  by (simp add: bytes48_byte b48_bytes MAC_ToHex_def byte_simps)

lemma bytes48_raw: "bytes48 (MAC_ToHex (MAC a b c d e f)) = [f, e, d, c, b, a]"
  by (simp add: bytes48_byte MAC_ToHex_def byte_simps)

lemma bytes32_IP: "bytes32 (b32 (IP_ToHex (IP4 a b c d))) = [a, b, c, d]"
  by (simp add: bytes32_byte b32_bytes IP_ToHex_bytes byte_simps)

lemma bytes16_b16: "bytes16 (b16 x) = [byte 8 x, byte 0 x]"
  by (simp add: bytes16_byte byte_b16)

text \<open>Reading back what was stored.\<close>

lemma byte_load16: "byte 0 (load16 m i) = m i" "byte 8 (load16 m i) = m (i + 1)"
  by (simp_all add: load16_def byte_simps)

lemma byte_load32:
  "byte 0 (load32 m i) = m i" "byte 8 (load32 m i) = m (i + 1)" "byte 16 (load32 m i) = m (i + 2)"
  "byte 24 (load32 m i) = m (i + 3)"
  by (simp_all add: load32_def byte_simps)

lemma byte_load48:
  "byte 0 (load48 m i) = m i" "byte 8 (load48 m i) = m (i + 1)" "byte 16 (load48 m i) = m (i + 2)"
  "byte 24 (load48 m i) = m (i + 3)" "byte 32 (load48 m i) = m (i + 4)" "byte 40 (load48 m i) = m (i + 5)"
  by (simp_all add: load48_def byte_simps)

lemma add_small:
  "i + 3 = Suc (Suc (Suc i))" "i + 4 = Suc (Suc (Suc (Suc i)))" "i + 5 = Suc (Suc (Suc (Suc (Suc i))))"
  for i :: nat
  by simp_all

lemma load16_holds: "holds m i (bytes16 x) \<Longrightarrow> load16 m i = x"
  by (rule u16_eqI) (simp_all add: byte_load16 bytes16_byte)

lemma load32_holds: "holds m i (bytes32 x) \<Longrightarrow> load32 m i = x"
  by (rule u32_eqI) (simp_all add: byte_load32 bytes32_byte add_small)

lemma take_bit_load48 [simp]: "take_bit 48 (load48 m i) = load48 m i"
proof (rule bytes_eqI)
  fix j :: nat
  have "j = 0 \<or> j = 1 \<or> j = 2 \<or> j = 3 \<or> j = 4 \<or> j = 5 \<or> 48 \<le> 8 * j"
    by auto
  then show "byte (8 * j) (take_bit 48 (load48 m i)) = byte (8 * j) (load48 m i)"
    by (auto simp: byte_take_bit48) (simp add: load48_def byte_simps)
qed

lemma load48_holds: "holds m i (bytes48 x) \<Longrightarrow> load48 m i = take_bit 48 x"
proof -
  assume "holds m i (bytes48 x)"
  then have "take_bit 48 (load48 m i) = take_bit 48 x"
    by (intro u48_eqI) (simp_all add: byte_load48 bytes48_byte add_small)
  then show ?thesis
    by simp
qed

lemma holds_append [simp]: "holds m i (xs @ ys) \<longleftrightarrow> holds m i xs \<and> holds m (i + length xs) ys"
  by (induction xs arbitrary: i) auto

lemma holds_nth: "holds m i xs \<longleftrightarrow> (\<forall>j < length xs. m (i + j) = xs ! j)"
  by (induction xs arbitrary: i) (auto simp: All_less_Suc2)

lemma put_at: "put i xs m j = (if i \<le> j \<and> j < i + length xs then xs ! (j - i) else m j)"
  by (induction xs arbitrary: i m) (auto simp: nth_Cons')

section \<open>What the checksum is\<close>

text \<open>The words of the packet in network order, and their sum without a bound on the digits.\<close>

definition be16 :: "mem \<Rightarrow> nat \<Rightarrow> nat" where
  "be16 m i = 256 * unat (m i) + unat (m (i + 1))"

definition be_sum :: "mem \<Rightarrow> nat \<Rightarrow> nat" where
  "be_sum m n = (\<Sum>i < n. be16 m (2 * i))"

text \<open>The sum in one's complement arithmetic: 0 only for 0, otherwise in 1 .. 65535.\<close>

definition ones_sum :: "nat \<Rightarrow> nat" where
  "ones_sum s = (if s = 0 then 0 else (s - 1) mod 65535 + 1)"

lemma be16_le: "be16 m i \<le> 65535"
  using unsigned_less [of "m i", where ?'a = nat] unsigned_less [of "m (i + 1)", where ?'a = nat]
  by (simp add: be16_def)

lemma be_sum_le: "be_sum m n \<le> n * 65535"
  unfolding be_sum_def using sum_bounded_above [of "{..<n}" "\<lambda>i. be16 m (2 * i)" 65535]
  by (simp add: be16_le)

lemma unat_two_bytes:
  "unat (push_bit 8 (ucast (a :: u8)) OR ucast (b :: u8) :: u64) = 256 * unat a + unat b"
proof -
  have "push_bit 8 (ucast a) AND ucast b = (0 :: u64)"
    by (rule bit_word_eqI) (auto simp: bit_simps dest: bit_u8_less)
  then have "push_bit 8 (ucast a) OR ucast b = push_bit 8 (ucast a) + (ucast b :: u64)"
    by (simp add: disjunctive_add_eq_or)
  moreover have "unat a < 256" "unat b < 256"
    using unsigned_less [of a, where ?'a = nat] unsigned_less [of b, where ?'a = nat] by simp_all
  ultimately show ?thesis
    by (simp add: push_bit_eq_mult unat_word_ariths unsigned_ucast_eq take_bit_nat_eq_self)
qed

lemma unat_swap_word: "unat (swap_word (load16 m i)) = be16 m i"
proof -
  have "byte 0 (ucast d :: u64) = byte 0 d" "byte 8 (ucast d :: u64) = byte 8 d" for d :: u16
    by (rule bit_word_eqI; force simp: byte_def bit_simps)+
  then have "swap_word (load16 m i) = push_bit 8 (ucast (m i)) OR ucast (m (i + 1))"
    by (simp add: swap_word_def byte_simps byte_load16 or.commute)
  then show ?thesis
    by (simp only: unat_two_bytes be16_def)
qed

lemma unat_checksum_words: "n \<le> 65536 \<Longrightarrow> unat (checksum_words m n) = be_sum m n"
proof (induction n)
  case 0
  show ?case
    by (simp add: checksum_words_def be_sum_def)
next
  case (Suc n)
  have "be_sum m (Suc n) < 2 ^ 64"
    using be_sum_le [of m "Suc n"] Suc.prems by simp
  moreover have "checksum_words m (Suc n) = checksum_words m n + swap_word (load16 m (2 * n))"
    by (simp add: checksum_words_def)
  ultimately show ?case
    using Suc by (simp add: unat_word_ariths(1) unat_swap_word be_sum_def)
qed

lemma and_FFFF0000_small: "65536 \<le> unat c \<Longrightarrow> unat c < 2 ^ 32 \<Longrightarrow> (c :: u64) AND 0xFFFF0000 \<noteq> 0"
proof
  assume c: "65536 \<le> unat c" "unat c < 2 ^ 32" and z: "c AND 0xFFFF0000 = 0"
  have "c = take_bit 32 c"
    using c(2) by (simp add: word_unat_eq_iff unsigned_take_bit_eq take_bit_nat_eq_self)
  also have "take_bit 32 c = c AND 0xFFFFFFFF"
    by (simp add: take_bit_eq_mask mask_eq_exp_minus_1)
  also have "\<dots> = c AND (0xFFFF0000 OR 0xFFFF)"
    by simp
  also have "\<dots> = c AND 0xFFFF"
    by (simp only: bit.conj_disj_distrib z or.left_neutral)
  finally have "unat c = unat c mod 65536"
    using and_FFFF by metis
  with c(1) show False
    by simp
qed

lemma ones_sum_round: "s \<noteq> 0 \<Longrightarrow> ones_sum (s mod 65536 + s div 65536) = ones_sum s"
proof -
  assume s: "s \<noteq> 0"
  define r where "r = s mod 65536 + s div 65536"
  have e: "s = r + 65535 * (s div 65536)"
    using div_mult_mod_eq [of s 65536] by (simp add: r_def)
  then have "r \<noteq> 0"
    using s by (cases "r = 0") (auto simp: r_def)
  then have "s - 1 = (r - 1) + 65535 * (s div 65536)"
    using e by linarith
  then have "(s - 1) mod 65535 = (r - 1) mod 65535"
    by simp
  then show ?thesis
    using s \<open>r \<noteq> 0\<close> by (simp add: ones_sum_def r_def)
qed

lemma checksum_fold_value: "unat c < 2 ^ 32 \<Longrightarrow> unat (checksum_fold c) = ones_sum (unat c)"
proof (induction c rule: checksum_fold.induct)
  case (1 c)
  show ?case
  proof (cases "65536 \<le> unat c")
    case True
    have "c AND 0xFFFF0000 \<noteq> 0"
      using True 1(2) by (rule and_FFFF0000_small)
    moreover have "unat c mod 65536 + unat c div 65536 < 2 ^ 32"
      using 1(2) mod_less_divisor [of 65536 "unat c"] by (simp add: div_less_iff_less_mult)
    moreover have "ones_sum (unat c mod 65536 + unat c div 65536) = ones_sum (unat c)"
      using True by (intro ones_sum_round) simp
    ultimately show ?thesis
      using 1(1) by (simp add: checksum_fold.simps [of c] checksum_round)
  next
    case False
    then have "c AND 0xFFFF0000 = 0"
      using and_FFFF0000 by blast
    then show ?thesis
      using False by (simp add: checksum_fold.simps [of c] ones_sum_def)
  qed
qed

lemma unat_NOT_byte: "unat (byte k (NOT c :: u64)) = 255 - unat (byte k c)" if "k + 8 \<le> 64"
proof -
  have n: "unat (NOT x) = 255 - unat x" for x :: u8
  proof -
    have "NOT x = 255 - x"
      by (simp add: not_eq_complement)
    moreover have "unat x \<le> 255"
      using unsigned_less [of x, where ?'a = nat] by simp
    ultimately show ?thesis
      by (simp add: unat_sub_if')
  qed
  have "byte k (NOT c) = NOT (byte k c)"
    using that by (intro bit_word_eqI) (auto simp: byte_def bit_simps)
  then show ?thesis
    by (simp only: n)
qed

text \<open>The value that is stored, read in network order, is the complement of the sum.\<close>

lemma checksum_stored:
  fixes m :: mem
  assumes "even Length" "Length \<le> 131072"
  defines "r \<equiv> CalculateChecksum m Length"
  shows "256 * unat (byte 0 r) + unat (byte 8 r) = 65535 - ones_sum (be_sum m (Length div 2))"
proof -
  define c where "c = checksum_fold (checksum_words m (Length div 2))"
  have w: "unat (checksum_words m (Length div 2)) = be_sum m (Length div 2)"
    using assms(2) by (intro unat_checksum_words) simp
  then have "unat (checksum_words m (Length div 2)) < 2 ^ 32"
    using be_sum_le [of m "Length div 2"] assms(2) by simp
  then have c: "unat c = ones_sum (be_sum m (Length div 2))"
    by (simp add: c_def checksum_fold_value w)
  have "ones_sum s < 65536" for s
    by (simp add: ones_sum_def)
  then have small: "unat c < 65536"
    by (simp add: c)
  have lo: "unat (byte 0 c) = unat c mod 256"
    by (simp add: byte_def unsigned_ucast_eq take_bit_nat_def)
  have hi: "unat (byte 8 c) = unat c div 256"
    using small by (simp add: byte_def unsigned_ucast_eq unat_drop_bit_u64 take_bit_nat_def)
  have "byte 0 (ucast x :: u16) = byte 0 x" "byte 8 (ucast x :: u16) = byte 8 x" for x :: u64
    by (rule bit_word_eqI; force simp: byte_def bit_simps)+
  then have "byte 0 r = byte 8 (NOT c)" "byte 8 r = byte 0 (NOT c)"
    using assms(1) by (simp_all add: r_def CalculateChecksum_def Let_def checksum_tail_def c_def byte_simps)
  then have "256 * unat (byte 0 r) + unat (byte 8 r) = 256 * (255 - unat c div 256) + (255 - unat c mod 256)"
    by (simp add: unat_NOT_byte lo hi)
  moreover have "unat c div 256 \<le> 255" "unat c mod 256 \<le> 255"
    using small by (simp_all add: div_less_iff_less_mult flip: less_Suc_eq_le)
  ultimately show ?thesis
    unfolding c [symmetric] using div_mult_mod_eq [of "unat c" 256] by linarith
qed

lemma checksum_zero_iff:
  assumes "even Length" "Length \<le> 131072"
  shows "CalculateChecksum m Length = 0 \<longleftrightarrow>
     be_sum m (Length div 2) \<noteq> 0 \<and> be_sum m (Length div 2) mod 65535 = 0"
proof -
  define s where "s = be_sum m (Length div 2)"
  define r where "r = CalculateChecksum m Length"
  have v: "256 * unat (byte 0 r) + unat (byte 8 r) = 65535 - ones_sum s"
    using checksum_stored [OF assms] by (simp add: r_def s_def)
  have "r = 0 \<longleftrightarrow> byte 0 r = 0 \<and> byte 8 r = 0"
    using u16_eqI [of r 0] by (auto simp: byte_def)
  also have "\<dots> \<longleftrightarrow> 256 * unat (byte 0 r) + unat (byte 8 r) = 0"
    by (simp add: unsigned_eq_0_iff)
  also have "\<dots> \<longleftrightarrow> 65535 \<le> ones_sum s"
    by (simp add: v)
  also have "\<dots> \<longleftrightarrow> s \<noteq> 0 \<and> (s - 1) mod 65535 = 65534"
    using mod_less_divisor [of 65535 "s - 1"] by (auto simp: ones_sum_def)
  also have "\<dots> \<longleftrightarrow> s \<noteq> 0 \<and> s mod 65535 = 0"
    by (cases s) (auto simp: mod_Suc)
  finally show ?thesis
    by (simp add: r_def s_def)
qed

text \<open>Replacing one word of the packet.\<close>

lemma be_sum_word:
  assumes "k < n" "\<And>i. i \<noteq> 2 * k \<Longrightarrow> i \<noteq> 2 * k + 1 \<Longrightarrow> m' i = m i"
  shows "be_sum m' n + be16 m (2 * k) = be_sum m n + be16 m' (2 * k)"
proof -
  have "be16 m' (2 * i) = be16 m (2 * i)" if "i \<noteq> k" for i
  proof -
    have "2 * i \<noteq> 2 * k" "2 * i \<noteq> 2 * k + 1" "2 * i + 1 \<noteq> 2 * k" "2 * i + 1 \<noteq> 2 * k + 1"
      using that by presburger+
    then show ?thesis
      unfolding be16_def by (metis assms(2))
  qed
  then have "(\<Sum>i \<in> {..<n} - {k}. be16 m' (2 * i)) = (\<Sum>i \<in> {..<n} - {k}. be16 m (2 * i))"
    by (intro sum.cong) auto
  then show ?thesis
    using assms(1) by (simp add: be_sum_def sum.remove [of "{..<n}" k])
qed

lemma ones_sum_complement: "s + (65535 - ones_sum s) \<noteq> 0 \<and> (s + (65535 - ones_sum s)) mod 65535 = 0"
proof (cases "s = 0")
  case False
  define q where "q = (s - 1) div 65535"
  have "s - 1 = 65535 * q + (s - 1) mod 65535"
    by (simp add: q_def)
  moreover have "(s - 1) mod 65535 < 65535"
    by simp
  ultimately have "s + (65535 - ones_sum s) = 65535 * (q + 1)"
    using False by (simp add: ones_sum_def) 
  then show ?thesis
    using False by simp
qed (simp add: ones_sum_def)

lemma checksum_inserted:
  fixes m :: mem
  assumes L: "even Length" "Length \<le> 131072"
    and p: "even p" "p + 1 < Length" "m p = 0" "m (p + 1) = 0"
    and m': "m' = put p (bytes16 (CalculateChecksum m Length)) m"
  shows "be_sum m' (Length div 2) \<noteq> 0 \<and> be_sum m' (Length div 2) mod 65535 = 0"
proof -
  obtain k where k: "p = 2 * k"
    using p(1) by blast
  have "m' i = m i" if "i \<noteq> 2 * k" "i \<noteq> 2 * k + 1" for i
    using that by (auto simp: m' k put_at bytes16_byte)
  moreover have "k < Length div 2"
    using p(2) k by simp
  ultimately have "be_sum m' (Length div 2) + be16 m p = be_sum m (Length div 2) + be16 m' p"
    unfolding k by (intro be_sum_word)
  moreover have "be16 m p = 0"
    using p(3,4) by (simp add: be16_def)
  moreover have "be16 m' p = 65535 - ones_sum (be_sum m (Length div 2))"
    using checksum_stored [OF L, of m] by (simp add: be16_def m' put_at bytes16_byte)
  ultimately show ?thesis
    using ones_sum_complement [of "be_sum m (Length div 2)"] by simp
qed

lemma CalculateChecksum_cong:
  assumes "\<And>i. i < Length \<Longrightarrow> m i = m' i"
  shows "CalculateChecksum m Length = CalculateChecksum m' Length"
proof -
  have "checksum_words m (Length div 2) = checksum_words m' (Length div 2)"
    unfolding checksum_words_def
  proof (rule fold_cong)
    fix i
    assume "i \<in> set [0..<Length div 2]"
    then have "m (2 * i) = m' (2 * i)" "m (2 * i + 1) = m' (2 * i + 1)"
      by (auto intro!: assms)
    then show "(\<lambda>c. c + swap_word (load16 m (2 * i))) = (\<lambda>c. c + swap_word (load16 m' (2 * i)))"
      by (simp add: load16_def)
  qed simp_all
  moreover have "checksum_tail m Length = checksum_tail m' Length"
    using assms [of "Length - 1"] by (cases "Length = 0") (auto simp: checksum_tail_def)
  ultimately show ?thesis
    by (simp add: CalculateChecksum_def)
qed

text \<open>
  C13. The internet checksum does its work. When the checksum field of a packet of even length (up to
  128 KiB, so that no carry is lost) is 0 and the result of \<^verbatim>\<open>CalculateChecksum\<close> is stored into it,
  the checksum of the complete packet is 0. A later change of any single 16-bit word is noticed,
  except for the two representations of zero in one's complement arithmetic.
\<close>

theorem checksum_verifies:
  assumes "even Length" "Length \<le> 131072" "even p" "p + 1 < Length" "m p = 0" "m (p + 1) = 0"
    and "m' = put p (bytes16 (CalculateChecksum m Length)) m"
  shows "CalculateChecksum m' Length = 0 \<and>
    (\<forall>q x y. even q \<longrightarrow> q + 1 < Length \<longrightarrow> (256 * unat x + unat y) mod 65535 \<noteq> be16 m' q mod 65535 \<longrightarrow>
       CalculateChecksum (m'(q := x, q + 1 := y)) Length \<noteq> 0)"
proof (intro conjI allI impI)
  note s = checksum_inserted [OF assms]
  show "CalculateChecksum m' Length = 0"
    using s by (simp add: checksum_zero_iff assms(1,2))
  fix q and x y :: u8
  assume q: "even q" "q + 1 < Length"
    and d: "(256 * unat x + unat y) mod 65535 \<noteq> be16 m' q mod 65535"
  let ?n = "m'(q := x, q + 1 := y)"
  obtain k where k: "q = 2 * k"
    using q(1) by blast
  have "be_sum ?n (Length div 2) + be16 m' q = be_sum m' (Length div 2) + be16 ?n q"
    unfolding k using q(2) k by (intro be_sum_word) auto
  moreover have "be16 ?n q = 256 * unat x + unat y"
    by (simp add: be16_def)
  ultimately have "(be_sum ?n (Length div 2) + be16 m' q) mod 65535 = (256 * unat x + unat y) mod 65535"
    using s by (simp add: mod_add_left_eq [of "be_sum m' (Length div 2)", symmetric])
  then have "be_sum ?n (Length div 2) mod 65535 \<noteq> 0"
    using d mod_add_left_eq [of "be_sum ?n (Length div 2)" 65535 "be16 m' q"] by (metis add_0)
  then show "CalculateChecksum ?n Length \<noteq> 0"
    by (simp add: checksum_zero_iff assms(1,2))
qed

text \<open>The header of a DHCP discovery as the kernel sends it, with the field at offset 10.\<close>

definition example_header :: mem where
  "example_header = put 0 [0x45, 0, 1, 0x4C, 0, 0, 0, 0, 0x40, 0x11, 0, 0, 0, 0, 0, 0, 0xFF, 0xFF, 0xFF, 0xFF] (\<lambda>_. 0)"

theorem checksum_verifies_witness:
  "CalculateChecksum (put 10 (bytes16 (CalculateChecksum example_header 20)) example_header) 20 = 0 \<and>
   CalculateChecksum ((put 10 (bytes16 (CalculateChecksum example_header 20)) example_header)(2 := 1, 3 := 0x4D)) 20 \<noteq> 0"
proof -
  let ?m = "put 10 (bytes16 (CalculateChecksum example_header 20)) example_header"
  have z: "example_header 10 = 0" "example_header (10 + 1) = 0"
    by (simp_all add: example_header_def put_at)
  have t: "CalculateChecksum ?m 20 = 0 \<and> (\<forall>q x y. even q \<longrightarrow> q + 1 < 20 \<longrightarrow>
      (256 * unat x + unat y) mod 65535 \<noteq> be16 ?m q mod 65535 \<longrightarrow>
      CalculateChecksum (?m(q := x, q + 1 := y)) 20 \<noteq> 0)"
    by (rule checksum_verifies [OF _ _ _ _ z refl]) simp_all
  have "be16 ?m 2 = 332"
    by (simp add: be16_def put_at bytes16_byte example_header_def)
  then show ?thesis
    using t [THEN conjunct1] t [THEN conjunct2, rule_format, of 2 1 "0x4D"] by simp
qed

end
