(* ===== verification/Network.thy ===== *)
theory Network
  imports Net_Packet Containers "HOL-Library.Monad_Syntax"
begin

text \<open>
  The network stack of \<^verbatim>\<open>src/kernel/network\<close>: Ethernet framing, the address resolution protocol,
  IPv4, UDP and the DHCP client, and their start. The stack is one record; the frames handed to the
  driver are a component of it. Three things come from outside: \<open>env\<close> is what the interrupts that
  arrive during a \<^verbatim>\<open>sleep\<close> do to the state (its argument is the number of polls that are left),
  \<open>null\<close> is the memory at address 0, which is mapped, and a packet that is received is the memory its
  pointer refers to. A handler that does not come back (an option list without an end, a call through
  a null handler) is the value \<open>None\<close>. The lists are the contents of the \<^verbatim>\<open>Vector\<close>s of the code.
\<close>

section \<open>Headers\<close>

record EthernetHeader =
  DestinationMAC :: u64
  SourceMAC :: u64
  FType :: u16

record ARPHeader =
  HardwareType :: u16
  ProtocolType :: u16
  HardwareSize :: u8
  ProtocolSize :: u8
  Operation :: u16
  SenderMAC :: u64
  SenderIP :: u32
  TargetMAC :: u64
  TargetIP :: u32

record IPv4Header =
  IHL :: u8
  Version :: u8
  TypeOfService :: u8
  TotalLength :: u16
  Identification :: u16
  FlagsAndFragmentOffset :: u16
  TimeToLive :: u8
  Protocol :: u8
  HeaderChecksum :: u16
  SourceIP :: u32
  DestinationIP :: u32

record UDPHeader =
  SourcePort :: u16
  DestinationPort :: u16
  UDPLength :: u16
  UDPChecksum :: u16

text \<open>The structures as the compiler lays them out, and a cast of a pointer to them.\<close>

definition EthernetHeader_bytes :: "EthernetHeader \<Rightarrow> u8 list" where
  "EthernetHeader_bytes h = bytes48 (DestinationMAC h) @ bytes48 (SourceMAC h) @ bytes16 (FType h)"

definition EthernetHeader_at :: "mem \<Rightarrow> EthernetHeader" where
  "EthernetHeader_at m = \<lparr>DestinationMAC = load48 m 0, SourceMAC = load48 m 6, FType = load16 m 12\<rparr>"

definition ARPHeader_bytes :: "ARPHeader \<Rightarrow> u8 list" where
  "ARPHeader_bytes h = bytes16 (HardwareType h) @ bytes16 (ProtocolType h) @
     [HardwareSize h, ProtocolSize h] @ bytes16 (Operation h) @ bytes48 (SenderMAC h) @
     bytes32 (SenderIP h) @ bytes48 (TargetMAC h) @ bytes32 (TargetIP h)"

definition ARPHeader_at :: "mem \<Rightarrow> ARPHeader" where
  "ARPHeader_at m = \<lparr>HardwareType = load16 m 0, ProtocolType = load16 m 2, HardwareSize = m 4,
     ProtocolSize = m 5, Operation = load16 m 6, SenderMAC = load48 m 8, SenderIP = load32 m 14,
     TargetMAC = load48 m 18, TargetIP = load32 m 24\<rparr>"

definition IPv4Header_bytes :: "IPv4Header \<Rightarrow> u8 list" where
  "IPv4Header_bytes h = [take_bit 4 (IHL h) OR push_bit 4 (Version h), TypeOfService h] @
     bytes16 (TotalLength h) @ bytes16 (Identification h) @ bytes16 (FlagsAndFragmentOffset h) @
     [TimeToLive h, Protocol h] @ bytes16 (HeaderChecksum h) @ bytes32 (SourceIP h) @
     bytes32 (DestinationIP h)"

definition IPv4Header_at :: "mem \<Rightarrow> IPv4Header" where
  "IPv4Header_at m = \<lparr>IHL = take_bit 4 (m 0), Version = drop_bit 4 (m 0), TypeOfService = m 1,
     TotalLength = load16 m 2, Identification = load16 m 4, FlagsAndFragmentOffset = load16 m 6,
     TimeToLive = m 8, Protocol = m 9, HeaderChecksum = load16 m 10, SourceIP = load32 m 12,
     DestinationIP = load32 m 16\<rparr>"

definition UDPHeader_bytes :: "UDPHeader \<Rightarrow> u8 list" where
  "UDPHeader_bytes h = bytes16 (SourcePort h) @ bytes16 (DestinationPort h) @ bytes16 (UDPLength h) @
     bytes16 (UDPChecksum h)"

definition UDPHeader_at :: "mem \<Rightarrow> UDPHeader" where
  "UDPHeader_at m = \<lparr>SourcePort = load16 m 0, DestinationPort = load16 m 2, UDPLength = load16 m 4,
     UDPChecksum = load16 m 6\<rparr>"

text \<open>A pointer advanced by \<open>n\<close> bytes, and the memory that starts with given bytes.\<close>

definition advance :: "nat \<Rightarrow> mem \<Rightarrow> mem" where
  "advance n m = (\<lambda>i. m (n + i))"

definition block :: "u8 list \<Rightarrow> mem" where
  "block xs = put 0 xs (\<lambda>_. 0)"

section \<open>State of the stack\<close>

record DeviceInterface =
  ID :: u64
  IfMAC :: MediaAccessControl
  IfIP :: InternetProtocol4

record DiscoveredAddress =
  DA_MAC :: MediaAccessControl
  DA_IP :: InternetProtocol4

text \<open>The classes that override the handlers of the three event classes.\<close>

datatype EthernetEvents = ARP_Events | IPv4_Events
datatype IPv4Events = UDP_Events
datatype UDPEvents = DHCP_Events | NTP_Events

record Socket =
  LocalIP :: InternetProtocol4
  LocalPort :: u16
  RemoteIP :: InternetProtocol4
  RemotePort :: u16
  Listening :: bool
  EventHandler :: "UDPEvents option"

record DHCP =
  dhcp_IP :: InternetProtocol4
  dhcp_Gateway :: InternetProtocol4
  dhcp_SubnetworkMask :: InternetProtocol4
  dhcp_DomainNameSystem :: InternetProtocol4
  dhcp_Received :: bool
  dhcp_Socket :: nat

record net =
  Interface :: DeviceInterface
  Sent :: "u8 list list"
  EthernetRegistered :: "(EthernetEvents \<times> u16) list"
  DiscoveredAddresses :: "DiscoveredAddress list"
  GatewayIP :: InternetProtocol4
  SubnetworkMaskIP :: InternetProtocol4
  IPv4Registered :: "(IPv4Events \<times> u8) list"
  Sockets :: "nat \<Rightarrow> Socket"
  UDPRegistered :: "(nat \<times> u16) list"
  UsuablePort :: u16
  Dhcp :: DHCP

type_synonym env = "nat \<Rightarrow> net \<Rightarrow> net"

section \<open>Sending a frame\<close>

text \<open>
  \<open>Interface_Send\<close> is the driver's \<^verbatim>\<open>Send\<close>; \<^verbatim>\<open>NetworkInterface::Send\<close> passes it a copy of the
  data, and no class overrides \<^verbatim>\<open>OnInterfaceSent\<close>.
\<close>

definition Interface_Send :: "u8 list \<Rightarrow> net \<Rightarrow> net" where
  "Interface_Send Data s = s\<lparr>Sent := Sent s @ [Data]\<rparr>"

definition NetworkInterface_Send :: "u8 list \<Rightarrow> net \<Rightarrow> net" where
  "NetworkInterface_Send Data s = Interface_Send Data s"

definition TYPE_IPV4 :: u16 where "TYPE_IPV4 = 0x0800"
definition TYPE_ARP :: u16 where "TYPE_ARP = 0x0806"
definition TYPE_RARP :: u16 where "TYPE_RARP = 0x8035"
definition TYPE_IPV6 :: u16 where "TYPE_IPV6 = 0x86DD"

definition Ethernet_Send :: "MediaAccessControl \<Rightarrow> u16 \<Rightarrow> u8 list \<Rightarrow> net \<Rightarrow> net" where
  "Ethernet_Send mac Type Data s =
     (let Header = \<lparr>DestinationMAC = b48 (MAC_ToHex mac), SourceMAC = b48 (MAC_ToHex (IfMAC (Interface s))),
            FType = b16 Type\<rparr>
      in NetworkInterface_Send (EthernetHeader_bytes Header @ Data) s)"

section \<open>The address resolution protocol\<close>

datatype DAType = DA_ADD | DA_DEL | DA_SEARCH | DA_UPDATE

text \<open>The loops over the table: the first entry for the address.\<close>

fun da_search :: "InternetProtocol4 \<Rightarrow> DiscoveredAddress list \<Rightarrow> DiscoveredAddress option" where
  "da_search IP [] = None"
| "da_search IP (d # ds) = (if IP_eq (DA_IP d) IP then Some d else da_search IP ds)"

fun da_update :: "InternetProtocol4 \<Rightarrow> MediaAccessControl \<Rightarrow> DiscoveredAddress list \<Rightarrow> DiscoveredAddress list" where
  "da_update IP mac [] = []"
| "da_update IP mac (d # ds) = (if IP_eq (DA_IP d) IP then d\<lparr>DA_MAC := mac\<rparr> # ds else d # da_update IP mac ds)"

fun da_remove :: "InternetProtocol4 \<Rightarrow> DiscoveredAddress list \<Rightarrow> DiscoveredAddress list" where
  "da_remove IP [] = []"
| "da_remove IP (d # ds) = (if IP_eq (DA_IP d) IP then ds else d # da_remove IP ds)"

definition ManageDA ::
  "DAType \<Rightarrow> InternetProtocol4 \<Rightarrow> MediaAccessControl \<Rightarrow> DiscoveredAddress list \<Rightarrow>
     DiscoveredAddress option \<times> DiscoveredAddress list" where
  "ManageDA Type IP mac ds =
     (case Type of
        DA_ADD \<Rightarrow> let tmp = \<lparr>DA_MAC = mac, DA_IP = IP\<rparr> in (Some tmp, ds @ [tmp])
      | DA_DEL \<Rightarrow> (da_search IP ds, da_remove IP ds)
      | DA_SEARCH \<Rightarrow> (da_search IP ds, ds)
      | DA_UPDATE \<Rightarrow> (da_search IP (da_update IP mac ds), da_update IP mac ds))"

definition InvalidMAC :: MediaAccessControl where
  "InvalidMAC = MAC 0xFF 0xFF 0xFF 0xFF 0xFF 0xFF"

definition InvalidRet :: DiscoveredAddress where
  "InvalidRet = \<lparr>DA_MAC = InvalidMAC, DA_IP = IP4 0xFF 0xFF 0xFF 0xFF\<rparr>"

definition Search :: "InternetProtocol4 \<Rightarrow> DiscoveredAddress list \<Rightarrow> DiscoveredAddress" where
  "Search IP ds = (case fst (ManageDA DA_SEARCH IP (MAC 0 0 0 0 0 0) ds) of Some r \<Rightarrow> r | None \<Rightarrow> InvalidRet)"

definition Update ::
  "InternetProtocol4 \<Rightarrow> MediaAccessControl \<Rightarrow> DiscoveredAddress list \<Rightarrow> DiscoveredAddress \<times> DiscoveredAddress list" where
  "Update IP mac ds =
     (let (ret, ds) = ManageDA DA_UPDATE IP mac ds
      in (case ret of Some r \<Rightarrow> r | None \<Rightarrow> InvalidRet, ds))"

definition resolve_header :: "InternetProtocol4 \<Rightarrow> net \<Rightarrow> ARPHeader" where
  "resolve_header IP s = \<lparr>HardwareType = 1, ProtocolType = TYPE_IPV4, HardwareSize = 6, ProtocolSize = 4,
     Operation = 1, SenderMAC = MAC_ToHex (IfMAC (Interface s)), SenderIP = IP_ToHex (IfIP (Interface s)),
     TargetMAC = 0xFFFFFFFFFFFF, TargetIP = IP_ToHex IP\<rparr>"

text \<open>The waiting loop with \<open>RequestTimeout\<close> rounds left; it is entered with 10.\<close>

fun Resolve_wait :: "env \<Rightarrow> InternetProtocol4 \<Rightarrow> nat \<Rightarrow> u64 \<Rightarrow> net \<Rightarrow> u64 \<times> net" where
  "Resolve_wait env IP 0 ret s = (ret, s)"
| "Resolve_wait env IP (Suc RequestTimeout) ret s =
     (if ret = 0xFFFFFFFFFFFF then
        let ret = MAC_ToHex (DA_MAC (Search IP (DiscoveredAddresses s))) in
        if RequestTimeout = 0 then (0, s)
        else Resolve_wait env IP RequestTimeout ret (env RequestTimeout s)
      else (ret, s))"

definition Resolve :: "env \<Rightarrow> InternetProtocol4 \<Rightarrow> net \<Rightarrow> u64 \<times> net" where
  "Resolve env IP s =
     (if IP_eq_hex IP 0xFFFFFFFF then (0xFFFFFFFFFFFF, s)
      else
        let ret = MAC_ToHex (DA_MAC (Search IP (DiscoveredAddresses s)));
            s = (if ret = 0xFFFFFFFFFFFF
                 then Ethernet_Send InvalidMAC TYPE_ARP (ARPHeader_bytes (resolve_header IP s)) s else s)
        in Resolve_wait env IP 10 ret s)"

definition ARP_Broadcast :: "env \<Rightarrow> InternetProtocol4 \<Rightarrow> net \<Rightarrow> net" where
  "ARP_Broadcast env IP s =
     (let (ResolvedMAC, s) = Resolve env IP s;
          Header = \<lparr>HardwareType = b16 1, ProtocolType = b16 TYPE_IPV4, HardwareSize = b8 6,
            ProtocolSize = b8 4, Operation = b16 1, SenderMAC = b48 (MAC_ToHex (IfMAC (Interface s))),
            SenderIP = b32 (IP_ToHex (IfIP (Interface s))), TargetMAC = ResolvedMAC, TargetIP = IP_ToHex IP\<rparr>
      in Ethernet_Send (MAC_FromHex ResolvedMAC) TYPE_ARP (ARPHeader_bytes Header) s)"

text \<open>What a packet does to the table: the sender is added or its entry replaced.\<close>

definition arp_learn :: "InternetProtocol4 \<Rightarrow> MediaAccessControl \<Rightarrow> DiscoveredAddress list \<Rightarrow> DiscoveredAddress list" where
  "arp_learn IP mac ds =
     (if fst (ManageDA DA_SEARCH IP mac ds) = None then snd (ManageDA DA_ADD IP mac ds)
      else snd (ManageDA DA_UPDATE IP mac ds))"

definition arp_reply :: "ARPHeader \<Rightarrow> net \<Rightarrow> ARPHeader" where
  "arp_reply Header s = Header\<lparr>TargetMAC := SenderMAC Header, TargetIP := SenderIP Header,
     SenderMAC := b48 (MAC_ToHex (IfMAC (Interface s))), SenderIP := b32 (IP_ToHex (IfIP (Interface s))),
     Operation := b16 2\<rparr>"

definition ARP_OnEthernetPacketReceived :: "mem \<Rightarrow> net \<Rightarrow> bool \<times> mem \<times> net" where
  "ARP_OnEthernetPacketReceived Data s =
     (let Header = ARPHeader_at Data in
      if b16 (HardwareType Header) \<noteq> 1 \<or> b16 (ProtocolType Header) \<noteq> TYPE_IPV4 then (False, Data, s)
      else
        let s = s\<lparr>DiscoveredAddresses := arp_learn (IP_FromHex (SenderIP Header))
                    (MAC_FromHex (SenderMAC Header)) (DiscoveredAddresses s)\<rparr>
        in if b16 (Operation Header) = 1 then
             let Header = arp_reply Header s
             in (False, put 0 (ARPHeader_bytes Header) Data,
                 Ethernet_Send (MAC_FromHex (TargetMAC Header)) TYPE_ARP (ARPHeader_bytes Header) s)
           else (False, Data, s))"

section \<open>IPv4\<close>

definition ipv4_fields :: "nat \<Rightarrow> u8 \<Rightarrow> InternetProtocol4 \<Rightarrow> net \<Rightarrow> IPv4Header" where
  "ipv4_fields Length Proto Destination s =
     (let Total = of_nat (Length + 20) :: u16
      in \<lparr>IHL = 20 div 4, Version = 4, TypeOfService = 0,
          TotalLength = drop_bit 8 (Total AND 0xFF00) OR push_bit 8 (Total AND 0x00FF),
          Identification = 0, FlagsAndFragmentOffset = 0, TimeToLive = 64, Protocol = Proto,
          HeaderChecksum = 0, SourceIP = b32 (IP_ToHex (IfIP (Interface s))),
          DestinationIP = b32 (IP_ToHex Destination)\<rparr>)"

definition ipv4_header :: "nat \<Rightarrow> u8 \<Rightarrow> InternetProtocol4 \<Rightarrow> net \<Rightarrow> IPv4Header" where
  "ipv4_header Length Proto Destination s =
     (let Header = ipv4_fields Length Proto Destination s
      in Header\<lparr>HeaderChecksum := CalculateChecksum (block (IPv4Header_bytes Header)) 20\<rparr>)"

definition ipv4_route :: "InternetProtocol4 \<Rightarrow> net \<Rightarrow> InternetProtocol4" where
  "ipv4_route Destination s =
     (if b32 (IP_ToHex Destination) AND IP_ToHex (SubnetworkMaskIP s)
           \<noteq> b32 (IP_ToHex (IfIP (Interface s))) AND IP_ToHex (SubnetworkMaskIP s)
      then SubnetworkMaskIP s else Destination)"

definition IPv4_Send :: "env \<Rightarrow> u8 list \<Rightarrow> u8 \<Rightarrow> InternetProtocol4 \<Rightarrow> net \<Rightarrow> net" where
  "IPv4_Send env Data Proto Destination s =
     (let Packet = IPv4Header_bytes (ipv4_header (length Data) Proto Destination s) @ Data;
          (mac, s) = Resolve env (ipv4_route Destination s) s
      in Ethernet_Send (MAC_FromHex mac) TYPE_IPV4 Packet s)"

section \<open>UDP\<close>

definition UDP_Connect :: "nat \<Rightarrow> InternetProtocol4 \<Rightarrow> u16 \<Rightarrow> net \<Rightarrow> net" where
  "UDP_Connect sk IP Port s =
     (let so = \<lparr>LocalIP = IfIP (Interface s), LocalPort = b16 (UsuablePort s), RemoteIP = IP,
            RemotePort = b16 Port, Listening = False, EventHandler = None\<rparr>
      in s\<lparr>Sockets := (Sockets s)(sk := so), UsuablePort := UsuablePort s + 1,
           UDPRegistered := UDPRegistered s @ [(sk, LocalPort so)]\<rparr>)"

definition UDP_Bind :: "nat \<Rightarrow> UDPEvents \<Rightarrow> net \<Rightarrow> net" where
  "UDP_Bind sk h s = s\<lparr>Sockets := (Sockets s)(sk := (Sockets s sk)\<lparr>EventHandler := Some h\<rparr>)\<rparr>"

text \<open>The length is kept in 16 bits; only that much of the packet is sent.\<close>

definition UDP_Send :: "env \<Rightarrow> nat \<Rightarrow> u8 list \<Rightarrow> net \<Rightarrow> net" where
  "UDP_Send env sk Data s =
     (let Total = of_nat (length Data + 8) :: u16;
          Header = \<lparr>SourcePort = LocalPort (Sockets s sk), DestinationPort = RemotePort (Sockets s sk),
            UDPLength = b16 Total, UDPChecksum = 0\<rparr>
      in IPv4_Send env (take (unat Total) (UDPHeader_bytes Header @ Data)) 0x11 (RemoteIP (Sockets s sk)) s)"

section \<open>The DHCP client\<close>

definition bytes64 :: "u64 \<Rightarrow> u8 list" where
  "bytes64 x = bytes48 x @ [ucast (drop_bit 48 x), ucast (drop_bit 56 x)]"

text \<open>
  The packet is 300 bytes with the options from offset 236 on; \<open>HostName\<close> is the name the build
  configures. The pointer into the options is written out as the offset it has.
\<close>

definition dhcp_fixed :: "u64 \<Rightarrow> mem \<Rightarrow> mem" where
  "dhcp_fixed InterfaceMAC m =
     put 28 (bytes64 InterfaceMAC) (put 10 (bytes16 (b16 0x40)) (put 4 (bytes32 (b32 0xFE2EC005))
       (put 3 [b8 0] (put 2 [b8 6] (put 1 [b8 1] (put 0 [b8 1] m))))))"

definition CreatePacket :: "u8 list \<Rightarrow> u8 \<Rightarrow> u32 \<Rightarrow> net \<Rightarrow> mem \<Rightarrow> mem" where
  "CreatePacket HostName MessageType RequestIP s m =
     (let InterfaceMAC = b48 (MAC_ToHex (IfMAC (Interface s)));
          m = dhcp_fixed InterfaceMAC m;
          m = put 236 (bytes32 (b32 0x63825363)) m;
          m = put 240 [53, 1, MessageType] m;
          m = put 243 [61, 0x07, 0x01] m;
          m = put 246 (bytes64 InterfaceMAC) m;
          m = put 252 [50, 0x04] m;
          m = put 254 (bytes32 (b32 0x0a00020e)) m;
          m = put 254 (bytes32 RequestIP) m;
          m = put 258 [12, of_nat (1 + length HostName)] m;
          m = put 260 HostName m;
          Ptr = 260 + length HostName;
          m = put Ptr [0] m;
          m = put (Ptr + 1) [55, 8, 1, 3, 6, 15, 44, 46, 47, 57] m
      in put (Ptr + 11) [255] m)"

definition dhcp_message :: "u8 list \<Rightarrow> u8 \<Rightarrow> u32 \<Rightarrow> net \<Rightarrow> u8 list" where
  "dhcp_message HostName MessageType RequestIP s =
     map (CreatePacket HostName MessageType RequestIP s (\<lambda>_. 0)) [0..<300]"

fun Request_wait :: "env \<Rightarrow> nat \<Rightarrow> net \<Rightarrow> net" where
  "Request_wait env 0 s = s"
| "Request_wait env (Suc RequestTimeout) s =
     (if dhcp_Received (Dhcp s) \<or> RequestTimeout = 0 then s
      else Request_wait env RequestTimeout (env RequestTimeout s))"

definition DHCP_Request :: "env \<Rightarrow> u8 list \<Rightarrow> net \<Rightarrow> net" where
  "DHCP_Request env HostName s =
     Request_wait env 10 (UDP_Send env (dhcp_Socket (Dhcp s)) (dhcp_message HostName 1 0 s) s)"

definition DHCP_Request_IP :: "env \<Rightarrow> u8 list \<Rightarrow> InternetProtocol4 \<Rightarrow> net \<Rightarrow> net" where
  "DHCP_Request_IP env HostName IP s =
     UDP_Send env (dhcp_Socket (Dhcp s)) (dhcp_message HostName 3 (IP_ToHex IP) s) s"

partial_function (option) GetOption_loop :: "mem \<Rightarrow> u8 \<Rightarrow> nat \<Rightarrow> nat option option" where
  "GetOption_loop m Type Option =
     (if m Option = 0xff then Some None
      else if m Option = Type then Some (Some (Option + 2))
      else GetOption_loop m Type (Option + (2 + unat (m (Option + 1)))))"

definition GetOption :: "mem \<Rightarrow> u8 \<Rightarrow> nat option option" where
  "GetOption m Type = GetOption_loop m Type (236 + 4)"

text \<open>What the pointer that \<^verbatim>\<open>GetOption\<close> returns refers to: inside the packet, or at address 0.\<close>

definition option_data :: "mem \<Rightarrow> mem \<Rightarrow> u8 \<Rightarrow> mem option" where
  "option_data null m Type =
     map_option (\<lambda>p. case p of Some i \<Rightarrow> advance i m | None \<Rightarrow> null) (GetOption m Type)"

definition DHCP_OnUDPPacketReceived :: "env \<Rightarrow> u8 list \<Rightarrow> mem \<Rightarrow> mem \<Rightarrow> net \<Rightarrow> net option" where
  "DHCP_OnUDPPacketReceived env HostName null m s =
     do {
       MessageType \<leftarrow> option_data null m 53;
       if MessageType 0 = 2 then Some (DHCP_Request_IP env HostName (IP_FromHex (load32 m 16)) s)
       else if MessageType 0 = 5 then
         do {
           router \<leftarrow> option_data null m 3;
           dns \<leftarrow> option_data null m 6;
           mask \<leftarrow> option_data null m 1;
           Some (s\<lparr>Dhcp := (Dhcp s)\<lparr>dhcp_IP := IP_FromHex (load32 m 16),
             dhcp_Gateway := IP_FromHex (load32 router 0), dhcp_DomainNameSystem := IP_FromHex (load32 dns 0),
             dhcp_SubnetworkMask := IP_FromHex (load32 mask 0), dhcp_Received := True\<rparr>\<rparr>)
         }
       else Some s
     }"

section \<open>Receiving\<close>

text \<open>The virtual call of \<^verbatim>\<open>OnUDPPacketReceived\<close>; the base class only prints a warning.\<close>

definition OnUDPPacketReceived :: "env \<Rightarrow> u8 list \<Rightarrow> mem \<Rightarrow> UDPEvents option \<Rightarrow> mem \<Rightarrow> net \<Rightarrow> net option" where
  "OnUDPPacketReceived env HostName null h m s =
     (case h of
        None \<Rightarrow> None
      | Some DHCP_Events \<Rightarrow> DHCP_OnUDPPacketReceived env HostName null m s
      | Some NTP_Events \<Rightarrow> Some s)"

text \<open>The loop over the sockets: \<open>Inl\<close> is the early return, \<open>Inr\<close> the last socket seen.\<close>

fun udp_scan :: "InternetProtocol4 \<Rightarrow> InternetProtocol4 \<Rightarrow> UDPHeader \<Rightarrow> nat option \<Rightarrow> (nat \<times> u16) list \<Rightarrow> net \<Rightarrow> net + nat option" where
  "udp_scan Source Destination udp GoodSocket [] s = Inr GoodSocket"
| "udp_scan Source Destination udp GoodSocket ((sk, Port) # rest) s =
     (if LocalPort (Sockets s sk) = DestinationPort udp \<and> IP_eq (LocalIP (Sockets s sk)) Destination \<and>
         Listening (Sockets s sk)
      then Inl (s\<lparr>Sockets := (Sockets s)(sk := (Sockets s sk)\<lparr>Listening := False,
                   RemotePort := b16 (SourcePort udp), RemoteIP := Source\<rparr>)\<rparr>)
      else udp_scan Source Destination udp (Some sk) rest s)"

definition UDP_OnIPv4PacketReceived ::
  "env \<Rightarrow> u8 list \<Rightarrow> mem \<Rightarrow> InternetProtocol4 \<Rightarrow> InternetProtocol4 \<Rightarrow> mem \<Rightarrow> u64 \<Rightarrow> net \<Rightarrow> (bool \<times> net) option" where
  "UDP_OnIPv4PacketReceived env HostName null Source Destination Data Length s =
     (if Length < 8 then Some (False, s)
      else case udp_scan Source Destination (UDPHeader_at Data) None (UDPRegistered s) s of
        Inl s' \<Rightarrow> Some (True, s')
      | Inr None \<Rightarrow> Some (False, s)
      | Inr (Some sk) \<Rightarrow>
          map_option (Pair False)
            (OnUDPPacketReceived env HostName null (EventHandler (Sockets s sk)) (advance 8 Data) s))"

text \<open>The loop over the handlers of a protocol.\<close>

fun ipv4_deliver ::
  "env \<Rightarrow> u8 list \<Rightarrow> mem \<Rightarrow> IPv4Header \<Rightarrow> mem \<Rightarrow> u64 \<Rightarrow> (IPv4Events \<times> u8) list \<Rightarrow> bool \<Rightarrow> net \<Rightarrow> (bool \<times> net) option" where
  "ipv4_deliver env HostName null h Data Length [] Reply s = Some (Reply, s)"
| "ipv4_deliver env HostName null h Data Length ((UDP_Events, p) # rest) Reply s =
     (if Protocol h = p then
        do {
          (r, s) \<leftarrow> UDP_OnIPv4PacketReceived env HostName null (IP_FromHex (b32 (SourceIP h)))
                     (IP_FromHex (b32 (DestinationIP h))) (advance (4 * unat (IHL h)) Data)
                     (Length - 4 * ucast (IHL h)) s;
          ipv4_deliver env HostName null h Data Length rest (Reply \<or> r) s
        }
      else ipv4_deliver env HostName null h Data Length rest Reply s)"

definition ipv4_accepts :: "IPv4Header \<Rightarrow> net \<Rightarrow> bool" where
  "ipv4_accepts h s \<longleftrightarrow> DestinationIP h = IP_ToHex (IfIP (Interface s)) \<or> DestinationIP h = 0xFFFFFFFF \<or>
     IP_ToHex (IfIP (Interface s)) = 0"

definition ipv4_reply :: "IPv4Header \<Rightarrow> mem \<Rightarrow> mem" where
  "ipv4_reply h Data =
     (let h = h\<lparr>DestinationIP := SourceIP h, SourceIP := DestinationIP h, TimeToLive := 0x40,
            HeaderChecksum := 0\<rparr>;
          Data = put 0 (IPv4Header_bytes h) Data;
          h = h\<lparr>HeaderChecksum := CalculateChecksum Data (4 * unat (TotalLength h))\<rparr>
      in put 0 (IPv4Header_bytes h) Data)"

definition IPv4_OnEthernetPacketReceived ::
  "env \<Rightarrow> u8 list \<Rightarrow> mem \<Rightarrow> mem \<Rightarrow> u64 \<Rightarrow> net \<Rightarrow> (bool \<times> mem \<times> net) option" where
  "IPv4_OnEthernetPacketReceived env HostName null Data Length s =
     (let h = IPv4Header_at Data in
      if Length < 20 then Some (False, Data, s)
      else
        do {
          (Reply, s) \<leftarrow>
            (if ipv4_accepts h s then
               ipv4_deliver env HostName null h Data (min (ucast (TotalLength h)) Length) (IPv4Registered s) False s
             else Some (False, s));
          if Reply then
            let Data = ipv4_reply h Data
            in Some (True, Data, Interface_Send (map Data [0..<unat Length]) s)
          else Some (False, Data, s)
        })"

text \<open>The loop of \<^verbatim>\<open>Ethernet::Receive\<close> over the handlers of one frame type.\<close>

fun ethernet_deliver ::
  "(EthernetEvents \<Rightarrow> mem \<Rightarrow> net \<Rightarrow> (bool \<times> mem \<times> net) option) \<Rightarrow> u16 \<Rightarrow> (EthernetEvents \<times> u16) list \<Rightarrow>
     bool \<Rightarrow> mem \<Rightarrow> net \<Rightarrow> (bool \<times> mem \<times> net) option" where
  "ethernet_deliver on Type [] Reply Data s = Some (Reply, Data, s)"
| "ethernet_deliver on Type ((h, t) # rest) Reply Data s =
     (if t = Type then
        do { (Reply, Data, s) \<leftarrow> on h Data s; ethernet_deliver on Type rest Reply Data s }
      else ethernet_deliver on Type rest Reply Data s)"

definition OnEthernetPacketReceived ::
  "env \<Rightarrow> u8 list \<Rightarrow> mem \<Rightarrow> u64 \<Rightarrow> EthernetEvents \<Rightarrow> mem \<Rightarrow> net \<Rightarrow> (bool \<times> mem \<times> net) option" where
  "OnEthernetPacketReceived env HostName null Length h Data s =
     (case h of
        ARP_Events \<Rightarrow> Some (ARP_OnEthernetPacketReceived Data s)
      | IPv4_Events \<Rightarrow> IPv4_OnEthernetPacketReceived env HostName null Data Length s)"

text \<open>A handler sees, and may change, the packet behind the 14 bytes of the frame header.\<close>

definition behind :: "nat \<Rightarrow> mem \<Rightarrow> mem \<Rightarrow> mem" where
  "behind n inner m = (\<lambda>i. if i < n then m i else inner (i - n))"

definition Ethernet_Receive :: "env \<Rightarrow> u8 list \<Rightarrow> mem \<Rightarrow> mem \<Rightarrow> u64 \<Rightarrow> net \<Rightarrow> (mem \<times> net) option" where
  "Ethernet_Receive env HostName null m Length s =
     (let Header = EthernetHeader_at m; Type = b16 (FType Header) in
      if b48 (DestinationMAC Header) = 0xFFFFFFFFFFFF \<or>
         MAC_eq_hex (IfMAC (Interface s)) (b48 (DestinationMAC Header))
      then
        do {
          (Reply, Data, s) \<leftarrow>
            (if Type \<in> {TYPE_IPV4, TYPE_ARP, TYPE_RARP, TYPE_IPV6} then
               ethernet_deliver (OnEthernetPacketReceived env HostName null Length) Type
                 (EthernetRegistered s) False (advance 14 m) s
             else Some (False, advance 14 m, s));
          let m = behind 14 Data m in
          if Reply then
            Some (put 0 (EthernetHeader_bytes (Header\<lparr>DestinationMAC := SourceMAC Header,
                    SourceMAC := b48 (MAC_ToHex (IfMAC (Interface s)))\<rparr>)) m, s)
          else Some (m, s)
        }
      else Some (m, s))"

definition OnInterfaceReceived ::
  "env \<Rightarrow> u8 list \<Rightarrow> mem \<Rightarrow> u64 \<Rightarrow> mem \<Rightarrow> u64 \<Rightarrow> net \<Rightarrow> (mem \<times> net) option" where
  "OnInterfaceReceived env HostName null device m Length s =
     (if device = ID (Interface s) then Ethernet_Receive env HostName null m Length s else Some (m, s))"

section \<open>Starting the stack\<close>

text \<open>The constructors of the classes on the first device, in the order of \<^verbatim>\<open>StartNetworkStack\<close>.\<close>

definition new_stack :: "DeviceInterface \<Rightarrow> (nat \<Rightarrow> Socket) \<Rightarrow> nat \<Rightarrow> net" where
  "new_stack device sockets sk = \<lparr>Interface = device, Sent = [],
     EthernetRegistered = [(ARP_Events, TYPE_ARP), (IPv4_Events, TYPE_IPV4)], DiscoveredAddresses = [],
     GatewayIP = IP4 0xFF 0xFF 0xFF 0xFF, SubnetworkMaskIP = IP4 0xFF 0xFF 0xFF 0xFF,
     IPv4Registered = [(UDP_Events, 17)], Sockets = sockets, UDPRegistered = [], UsuablePort = 0x200,
     Dhcp = \<lparr>dhcp_IP = IP4 0 0 0 0, dhcp_Gateway = IP4 0 0 0 0, dhcp_SubnetworkMask = IP4 0 0 0 0,
       dhcp_DomainNameSystem = IP4 0 0 0 0, dhcp_Received = False, dhcp_Socket = sk\<rparr>\<rparr>"

text \<open>The \<^verbatim>\<open>DHCP\<close> constructor sets the local port of its socket.\<close>

definition new_DHCP :: "nat \<Rightarrow> net \<Rightarrow> net" where
  "new_DHCP sk s = s\<lparr>Sockets := (Sockets s)(sk := (Sockets s sk)\<lparr>LocalPort := b16 68\<rparr>),
     Dhcp := (Dhcp s)\<lparr>dhcp_Socket := sk\<rparr>\<rparr>"

definition open_DHCP :: "DeviceInterface \<Rightarrow> (nat \<Rightarrow> Socket) \<Rightarrow> nat \<Rightarrow> net" where
  "open_DHCP device sockets sk =
     UDP_Bind sk DHCP_Events (new_DHCP sk
       (UDP_Connect sk (IP4 0xFF 0xFF 0xFF 0xFF) 67 (new_stack device sockets sk)))"

definition configure :: "env \<Rightarrow> net \<Rightarrow> net" where
  "configure env s =
     (let d = Dhcp s;
          s = s\<lparr>Interface := (Interface s)\<lparr>IfIP := IP_FromHex (b32 (IP_ToHex (dhcp_IP d)))\<rparr>,
                SubnetworkMaskIP := dhcp_SubnetworkMask d, GatewayIP := dhcp_Gateway d\<rparr>
      in ARP_Broadcast env (dhcp_Gateway d) s)"

fun default_device :: "DeviceInterface option list \<Rightarrow> DeviceInterface option" where
  "default_device [] = None"
| "default_device (var # rest) = (case var of Some d \<Rightarrow> Some d | None \<Rightarrow> default_device rest)"

text \<open>The state in which the network thread enters its idle loop.\<close>

definition StartNetworkStack :: "env \<Rightarrow> env \<Rightarrow> u8 list \<Rightarrow> DeviceInterface option list \<Rightarrow> (nat \<Rightarrow> Socket) \<Rightarrow> nat \<Rightarrow> net option" where
  "StartNetworkStack env env' HostName Devices sockets sk =
     map_option (\<lambda>device. configure env' (DHCP_Request env HostName (open_DHCP device sockets sk)))
       (default_device Devices)"

section \<open>Headers in memory\<close>

fun mac_octets :: "MediaAccessControl \<Rightarrow> u8 list" where
  "mac_octets (MAC a b c d e f) = [a, b, c, d, e, f]"

fun ip_octets :: "InternetProtocol4 \<Rightarrow> u8 list" where
  "ip_octets (IP4 a b c d) = [a, b, c, d]"

lemma bytes48_octets [simp]: "bytes48 (b48 (MAC_ToHex mac)) = mac_octets mac"
  by (cases mac) (simp add: bytes48_MAC)

lemma bytes32_octets [simp]: "bytes32 (b32 (IP_ToHex ip)) = ip_octets ip"
  by (cases ip) (simp add: bytes32_IP)

lemma length_octets [simp]: "length (mac_octets mac) = 6" "length (ip_octets ip) = 4"
  by (cases mac; simp) (cases ip; simp)

lemma length_bytes [simp]: "length (bytes16 x) = 2" "length (bytes32 y) = 4" "length (bytes48 z) = 6"
  by (simp_all add: bytes16_def bytes32_def bytes48_def)

lemma length_headers [simp]:
  "length (EthernetHeader_bytes e) = 14" "length (ARPHeader_bytes a) = 28"
  "length (IPv4Header_bytes h) = 20" "length (UDPHeader_bytes u) = 8"
  by (simp_all add: EthernetHeader_bytes_def ARPHeader_bytes_def IPv4Header_bytes_def UDPHeader_bytes_def)

lemma MAC_ToHex_inject [simp]: "MAC_ToHex a = MAC_ToHex b \<longleftrightarrow> a = b"
  by (metis MAC_FromHex_ToHex)

lemma IP_ToHex_inject [simp]: "IP_ToHex a = IP_ToHex b \<longleftrightarrow> a = b"
  by (metis IP_FromHex_ToHex)

lemma MAC_eq_iff [simp]: "MAC_eq a b \<longleftrightarrow> a = b"
  by (cases a; cases b) (auto simp: MAC_eq_def)

lemma IP_eq_iff [simp]: "IP_eq a b \<longleftrightarrow> a = b"
  by (cases a; cases b) (auto simp: IP_eq_def)

lemma hex_of_broadcast: "MAC_ToHex InvalidMAC = 0xFFFFFFFFFFFF" "IP_ToHex (IP4 0xFF 0xFF 0xFF 0xFF) = 0xFFFFFFFF"
  by (simp_all add: MAC_ToHex_def IP_ToHex_def InvalidMAC_def push_bit_eq_mult)

lemma MAC_ToHex_48 [simp]: "take_bit 48 (MAC_ToHex mac) = MAC_ToHex mac"
proof (rule bytes_eqI)
  fix j :: nat
  have "j = 0 \<or> j = 1 \<or> j = 2 \<or> j = 3 \<or> j = 4 \<or> j = 5 \<or> 48 \<le> 8 * j"
    by auto
  then show "byte (8 * j) (take_bit 48 (MAC_ToHex mac)) = byte (8 * j) (MAC_ToHex mac)"
    by (cases mac; auto simp: byte_take_bit48) (simp add: MAC_ToHex_def byte_simps)
qed

text \<open>A cast reads the header that was stored.\<close>

lemma EthernetHeader_cast:
  "holds m 0 (EthernetHeader_bytes h) \<Longrightarrow> EthernetHeader_at m =
     \<lparr>DestinationMAC = take_bit 48 (DestinationMAC h), SourceMAC = take_bit 48 (SourceMAC h), FType = FType h\<rparr>"
  by (simp add: EthernetHeader_at_def EthernetHeader_bytes_def load48_holds load16_holds)

lemma UDPHeader_cast: "holds m 0 (UDPHeader_bytes h) \<Longrightarrow> UDPHeader_at m = h"
  by (cases h) (simp add: UDPHeader_at_def UDPHeader_bytes_def load16_holds
      del: add_2_eq_Suc add_2_eq_Suc')

lemma ARPHeader_cast:
  "holds m 0 (ARPHeader_bytes h) \<Longrightarrow> ARPHeader_at m =
     h\<lparr>SenderMAC := take_bit 48 (SenderMAC h), TargetMAC := take_bit 48 (TargetMAC h)\<rparr>"
  by (cases h) (simp add: ARPHeader_at_def ARPHeader_bytes_def load48_holds load32_holds load16_holds
      del: add_2_eq_Suc add_2_eq_Suc')

lemma header_nibbles: "take_bit 4 (take_bit 4 x OR push_bit 4 (y :: u8)) = take_bit 4 x"
  "drop_bit 4 (take_bit 4 x OR push_bit 4 y) = take_bit 4 y"
  by (rule bit_word_eqI; auto simp: bit_simps)+

lemma IPv4Header_cast:
  "holds m 0 (IPv4Header_bytes h) \<Longrightarrow> IPv4Header_at m =
     h\<lparr>IHL := take_bit 4 (IHL h), Version := take_bit 4 (Version h)\<rparr>"
  by (cases h) (simp add: IPv4Header_at_def IPv4Header_bytes_def load32_holds load16_holds header_nibbles
      numeral_2_eq_2 [symmetric] del: add_2_eq_Suc add_2_eq_Suc' take_bit_or drop_bit_or)

section \<open>Packets on the wire\<close>

lemma header_with_checksum:
  "IPv4Header_bytes (h\<lparr>HeaderChecksum := c\<rparr>) =
     take 10 (IPv4Header_bytes h) @ bytes16 c @ drop 12 (IPv4Header_bytes h)"
  by (simp add: IPv4Header_bytes_def bytes16_def bytes32_def)

lemma holds_inserted:
  assumes "holds m 0 (take p xs @ ys @ drop (p + length ys) xs)" "p + length ys \<le> length xs" "i < length xs"
  shows "m i = put p ys (block xs) i"
proof -
  have "m i = (take p xs @ ys @ drop (p + length ys) xs) ! i"
    using assms unfolding holds_nth by simp
  then show ?thesis
    using assms(2,3) by (auto simp: put_at block_def nth_append min_def)
qed

text \<open>The checksum of a header that carries its checksum is 0.\<close>

lemma header_checksum_ok:
  assumes "HeaderChecksum h = 0"
    and "holds m 0 (IPv4Header_bytes (h\<lparr>HeaderChecksum := CalculateChecksum (block (IPv4Header_bytes h)) 20\<rparr>))"
  shows "CalculateChecksum m 20 = 0"
proof -
  let ?b = "block (IPv4Header_bytes h)"
  let ?m = "put 10 (bytes16 (CalculateChecksum ?b 20)) ?b"
  have "CalculateChecksum m 20 = CalculateChecksum ?m 20"
    using assms(2) holds_inserted [of m 10 "IPv4Header_bytes h" "bytes16 (CalculateChecksum ?b 20)"]
    by (intro CalculateChecksum_cong) (simp add: header_with_checksum)
  moreover have z: "?b 10 = 0" "?b (10 + 1) = 0"
    using assms(1) by (simp_all add: block_def put_at IPv4Header_bytes_def bytes16_def bytes32_def)
  have "CalculateChecksum ?m 20 = 0"
    using checksum_inserted [of 20 10 ?b, OF _ _ _ _ z refl] by (simp add: checksum_zero_iff)
  ultimately show ?thesis
    by simp
qed

lemma Ethernet_Send_frame:
  "Ethernet_Send mac Type Data s =
     s\<lparr>Sent := Sent s @ [mac_octets mac @ mac_octets (IfMAC (Interface s)) @ [byte 8 Type, byte 0 Type] @ Data]\<rparr>"
  by (simp add: Ethernet_Send_def NetworkInterface_Send_def Interface_Send_def EthernetHeader_bytes_def
      bytes16_b16)

lemma unat_u16_bytes: "unat (x :: u16) = 256 * unat (byte 8 x) + unat (byte 0 x)"
proof -
  have "unat x < 65536"
    using unsigned_less [of x, where ?'a = nat] by simp
  moreover from this have "unat (byte 8 x) = unat x div 256"
    by (simp only: byte_def unsigned_ucast_eq unsigned_drop_bit_eq)
      (simp add: drop_bit_eq_div take_bit_nat_eq_self)
  moreover have "unat (byte 0 x) = unat x mod 256"
    by (simp add: byte_def unsigned_ucast_eq take_bit_nat_def)
  ultimately show ?thesis
    by simp
qed

text \<open>A packet of \<open>n\<close> bytes that a receiver accepts as IPv4 without options.\<close>

definition ipv4_wf :: "mem \<Rightarrow> nat \<Rightarrow> bool" where
  "ipv4_wf m n \<longleftrightarrow> m 0 = 0x45 \<and> be16 m 2 = n \<and> 20 \<le> n \<and> m 8 \<noteq> 0 \<and> CalculateChecksum m 20 = 0"

lemma ipv4_header_bytes:
  "\<exists>c. IPv4Header_bytes (ipv4_header n Proto D s) =
     [0x45, 0, byte 8 (of_nat (n + 20) :: u16), byte 0 (of_nat (n + 20) :: u16), 0, 0, 0, 0, 64, Proto] @ bytes16 c @
     ip_octets (IfIP (Interface s)) @ ip_octets D"
proof -
  define h where "h = ipv4_fields n Proto D s"
  have t: "bytes16 (drop_bit 8 (x AND 0xFF00) OR push_bit 8 (x AND 0xFF)) = [byte 8 x, byte 0 x]" for x
    by (simp add: bytes16_byte byte_simps)
  have "take_bit 4 (IHL h) OR push_bit 4 (Version h) = 0x45"
    by (simp add: h_def ipv4_fields_def Let_def push_bit_eq_mult take_bit_eq_mod)
  moreover have "bytes16 (TotalLength h) = [byte 8 (of_nat (n + 20) :: u16), byte 0 (of_nat (n + 20) :: u16)]"
    unfolding h_def ipv4_fields_def Let_def by (simp only: IPv4Header.simps t)
  moreover have "bytes16 (Identification h) = [0, 0]" "bytes16 (FlagsAndFragmentOffset h) = [0, 0]"
    "TypeOfService h = 0" "TimeToLive h = 64" "Protocol h = Proto"
    "SourceIP h = b32 (IP_ToHex (IfIP (Interface s)))" "DestinationIP h = b32 (IP_ToHex D)"
    by (simp_all add: h_def ipv4_fields_def Let_def bytes16_def)
  ultimately show ?thesis
    unfolding ipv4_header_def h_def [symmetric] Let_def
    by (simp add: IPv4Header_bytes_def [of "h\<lparr>HeaderChecksum := c\<rparr>" for c] del: of_nat_add) blast
qed

lemma ipv4_header_wf:
  assumes "n + 20 < 65536" "holds m 0 (IPv4Header_bytes (ipv4_header n Proto D s))"
  shows "ipv4_wf m (20 + n) \<and> m 9 = Proto \<and> holds m 12 (ip_octets (IfIP (Interface s)) @ ip_octets D)"
proof -
  obtain c where c: "IPv4Header_bytes (ipv4_header n Proto D s) =
     [0x45, 0, byte 8 (of_nat (n + 20) :: u16), byte 0 (of_nat (n + 20) :: u16), 0, 0, 0, 0, 64, Proto] @ bytes16 c @
     ip_octets (IfIP (Interface s)) @ ip_octets D"
    using ipv4_header_bytes by blast
  have "CalculateChecksum m 20 = 0"
    using assms(2) unfolding ipv4_header_def Let_def
    by (rule header_checksum_ok [rotated]) (simp add: ipv4_fields_def Let_def)
  moreover have "be16 m 2 = 256 * unat (byte 8 (of_nat (n + 20) :: u16)) + unat (byte 0 (of_nat (n + 20) :: u16))"
    using assms(2) unfolding c by (simp add: be16_def numeral_2_eq_2 numeral_3_eq_3)
  then have "be16 m 2 = 20 + n"
    using assms(1) by (simp only: unat_u16_bytes [symmetric] unsigned_of_nat) (simp add: take_bit_nat_eq_self)
  ultimately show ?thesis
    using assms(2) unfolding c
    by (simp add: ipv4_wf_def numeral_2_eq_2 [symmetric] del: add_2_eq_Suc add_2_eq_Suc')
qed

text \<open>
  C22. What \<^verbatim>\<open>IPv4::Send\<close> hands to the driver, after whatever address resolution sent, is one frame:
  the resolved hardware address, the address of the interface, the type 0800 and a well-formed packet
  with the given payload. Well-formed means version 4 without options, a total length in network
  order that counts header and payload, and a header checksum that verifies; the addresses are
  those of the interface and of the destination in network order.
\<close>

theorem IPv4_Send_wellformed:
  assumes "length Data + 20 < 65536"
    and "Resolve env (ipv4_route D s) s = (mac, s')"
  shows "\<exists>h. length h = 20 \<and>
    Sent (IPv4_Send env Data Proto D s) = Sent s' @
      [mac_octets (MAC_FromHex mac) @ mac_octets (IfMAC (Interface s')) @ [0x08, 0x00] @ h @ Data] \<and>
    (\<forall>m. holds m 0 (h @ Data) \<longrightarrow> ipv4_wf m (20 + length Data) \<and> m 9 = Proto \<and>
       holds m 12 (ip_octets (IfIP (Interface s)) @ ip_octets D @ Data))"
proof (intro exI conjI allI impI)
  let ?h = "IPv4Header_bytes (ipv4_header (length Data) Proto D s)"
  show "length ?h = 20"
    by simp
  have "[byte 8 TYPE_IPV4, byte 0 TYPE_IPV4] = [0x08, 0x00]"
    by (simp add: byte_def TYPE_IPV4_def drop_bit_eq_div)
  then show "Sent (IPv4_Send env Data Proto D s) = Sent s' @
      [mac_octets (MAC_FromHex mac) @ mac_octets (IfMAC (Interface s')) @ [0x08, 0x00] @ ?h @ Data]"
    by (simp add: IPv4_Send_def assms(2) Ethernet_Send_frame)
  fix m
  assume "holds m 0 (?h @ Data)"
  then have h: "holds m 0 ?h" "holds m 20 Data"
    by simp_all
  note w = ipv4_header_wf [OF assms(1) h(1)]
  show "ipv4_wf m (20 + length Data)" "m 9 = Proto"
    "holds m 12 (ip_octets (IfIP (Interface s)) @ ip_octets D @ Data)"
    using w h(2) by simp_all
qed

definition example_device :: DeviceInterface where
  "example_device = \<lparr>ID = 0, IfMAC = MAC 0x52 0x54 0 0x12 0x34 0x56, IfIP = IP4 10 0 2 15\<rparr>"

definition example_net :: net where
  "example_net = open_DHCP example_device
     (\<lambda>_. \<lparr>LocalIP = IP4 0 0 0 0, LocalPort = 0, RemoteIP = IP4 0 0 0 0, RemotePort = 0, Listening = False,
        EventHandler = None\<rparr>) 8"

lemma example_net_simps:
  "Interface example_net = example_device" "Sent example_net = []"
  "SubnetworkMaskIP example_net = IP4 0xFF 0xFF 0xFF 0xFF"
  by (simp_all add: example_net_def open_DHCP_def UDP_Bind_def new_DHCP_def UDP_Connect_def new_stack_def Let_def)

lemma Resolve_broadcast [simp]: "Resolve env (IP4 0xFF 0xFF 0xFF 0xFF) s = (0xFFFFFFFFFFFF, s)"
proof -
  have "IP_FromHex 0xFFFFFFFF = IP4 0xFF 0xFF 0xFF 0xFF"
    using IP_FromHex_ToHex [of "IP4 0xFF 0xFF 0xFF 0xFF"] by (simp only: hex_of_broadcast)
  then show ?thesis
    by (simp add: Resolve_def IP_eq_hex_def)
qed

lemma route_of_broadcast:
  "SubnetworkMaskIP s = IP4 0xFF 0xFF 0xFF 0xFF \<Longrightarrow>
     ipv4_route (IP4 0xFF 0xFF 0xFF 0xFF) s = IP4 0xFF 0xFF 0xFF 0xFF"
  by (simp add: ipv4_route_def)

lemma MAC_FromHex_broadcast [simp]: "MAC_FromHex 0xFFFFFFFFFFFF = InvalidMAC"
  using MAC_FromHex_ToHex [of InvalidMAC] by (simp only: hex_of_broadcast)

lemma holds_block [simp]: "holds (block xs) 0 xs"
  by (simp add: holds_nth block_def put_at)

lemma all_holds_block: "\<forall>m. holds m 0 xs \<longrightarrow> P m \<Longrightarrow> P (block xs)"
  using holds_block by blast

theorem IPv4_Send_wellformed_witness:
  "\<exists>h. length h = 20 \<and>
    Sent (IPv4_Send (\<lambda>_. id) [1, 2, 3, 4] 17 (IP4 0xFF 0xFF 0xFF 0xFF) example_net) =
      [[0xFF, 0xFF, 0xFF, 0xFF, 0xFF, 0xFF, 0x52, 0x54, 0, 0x12, 0x34, 0x56, 0x08, 0x00] @ h @ [1, 2, 3, 4]] \<and>
    ipv4_wf (block (h @ [1, 2, 3, 4])) 24"
proof -
  have r: "Resolve (\<lambda>_. id) (ipv4_route (IP4 0xFF 0xFF 0xFF 0xFF) example_net) example_net = (0xFFFFFFFFFFFF, example_net)"
    by (simp add: route_of_broadcast example_net_simps)
  have l: "length [1, 2, 3, 4 :: u8] + 20 < 65536"
    by simp
  show ?thesis
    by (rule ex_forward [OF IPv4_Send_wellformed [OF l r, where Proto = 17]], elim conjE,
        drule all_holds_block) (simp add: example_net_simps example_device_def InvalidMAC_def)
qed

section \<open>A datagram from end to end\<close>

lemma holds_advance [simp]: "holds (advance n m) i xs \<longleftrightarrow> holds m (n + i) xs"
  by (simp add: holds_nth advance_def add.assoc)

lemma advance_advance [simp]: "advance i (advance j m) = advance (j + i) m"
  by (simp add: advance_def add.assoc)

lemma udp_scan_last:
  "(\<And>q. q \<in> fst ` set es \<Longrightarrow> \<not> Listening (Sockets s q)) \<Longrightarrow> \<not> Listening (Sockets s sk) \<Longrightarrow>
     udp_scan Src D udp g (es @ [(sk, p)]) s = Inr (Some sk)"
proof (induction es arbitrary: g)
  case (Cons e es)
  then show ?case
    by (cases e) (auto simp: image_iff)
qed simp

lemma UDP_receive_last:
  assumes "\<not> Length < 8" "UDPRegistered s = es @ [(sk, p)]"
    and "\<forall>q \<in> fst ` set (UDPRegistered s). \<not> Listening (Sockets s q)"
  shows "UDP_OnIPv4PacketReceived env HN null Src D m Length s =
    map_option (Pair False) (OnUDPPacketReceived env HN null (EventHandler (Sockets s sk)) (advance 8 m) s)"
proof -
  have "udp_scan Src D (UDPHeader_at m) None (UDPRegistered s) s = Inr (Some sk)"
    unfolding assms(2) by (rule udp_scan_last) (use assms(2,3) in auto)
  then show ?thesis
    using assms(1) by (simp add: UDP_OnIPv4PacketReceived_def)
qed

text \<open>
  The receiver reads the total length without swapping its bytes. For packets up to the length of an
  Ethernet frame the number that comes out still lets the datagram pass.
\<close>

lemma udp_length_ok:
  assumes "28 \<le> t" "t \<le> 1500"
  shows "\<not> min (ucast (b16 (of_nat t))) (of_nat (t + 14)) - 20 < (8 :: u64)"
proof -
  define r where "r = unat (b16 (of_nat t))"
  have t: "unat (of_nat t :: u16) = t" "unat (of_nat (t + 14) :: u64) = t + 14"
    using assms(2) by (simp_all only: unsigned_of_nat) (simp_all add: take_bit_nat_eq_self)
  have "unat (byte 0 (of_nat t :: u16)) = t mod 256"
    by (simp add: byte_def unsigned_ucast_eq unsigned_of_nat take_bit_nat_def mod_mod_cancel)
  then have r: "r = 256 * (t mod 256) + (t - t mod 256) div 256"
    using t(1) unat_u16_bytes [of "of_nat t"] unat_u16_bytes [of "b16 (of_nat t)"]
    by (simp add: r_def byte_b16)
  have r16: "r < 65536"
    using unsigned_less [of "b16 (of_nat t)", where ?'a = nat] by (simp add: r_def)
  have u: "unat (ucast (b16 (of_nat t)) :: u64) = r"
    using r16 by (simp add: unsigned_ucast_eq r_def take_bit_nat_eq_self)
  have m: "unat (min (ucast (b16 (of_nat t))) (of_nat (t + 14)) :: u64) = min r (t + 14)"
    using u t(2) by (simp add: min_def word_le_nat_alt)
  have "min r (t + 14) < 20 \<or> 28 \<le> min r (t + 14)"
  proof (cases "t mod 256 = 0")
    case True
    then have "r \<le> 5"
      using r assms(2) by simp
    then show ?thesis
      by simp
  next
    case False
    then have "256 \<le> r"
      using r by linarith
    then show ?thesis
      using assms(1) by simp
  qed
  then show ?thesis
    unfolding word_less_nat_alt using m by (auto simp: unat_sub_if')
qed

text \<open>
  When the receiver takes a packet: its destination is the limited broadcast address, the receiver
  has no address yet, or the destination read backwards is the address of the receiver, since the
  comparison misses the swap with which the sender stored it.
\<close>

definition ip_taken :: "InternetProtocol4 \<Rightarrow> InternetProtocol4 \<Rightarrow> bool" where
  "ip_taken Destination ip \<longleftrightarrow>
     Destination = IP4 0xFF 0xFF 0xFF 0xFF \<or> ip = IP4 0 0 0 0 \<or> rev (ip_octets Destination) = ip_octets ip"

lemma ipv4_accepts_iff:
  assumes "DestinationIP h = b32 (IP_ToHex D)"
  shows "ipv4_accepts h s \<longleftrightarrow> ip_taken D (IfIP (Interface s))"
proof -
  let ?ip = "IfIP (Interface s)"
  obtain x where x: "b32 (IP_ToHex D) = IP_ToHex x" "ip_octets x = rev (ip_octets D)"
    by (rule that [of "IP_FromHex (b32 (IP_ToHex D))"])
      (simp, cases D, simp add: IP_FromHex_bytes b32_bytes IP_ToHex_bytes byte_simps)
  have inj: "ip_octets y = ip_octets z \<longleftrightarrow> y = z" for y z
    by (cases y; cases z) simp
  have z: "IP_ToHex (IP4 0 0 0 0) = 0"
    by (simp add: IP_ToHex_def)
  have "x = IP4 0xFF 0xFF 0xFF 0xFF \<longleftrightarrow> D = IP4 0xFF 0xFF 0xFF 0xFF"
    using x(2) by (cases D; cases x) auto
  then have "IP_ToHex x = 0xFFFFFFFF \<longleftrightarrow> D = IP4 0xFF 0xFF 0xFF 0xFF"
    by (simp flip: hex_of_broadcast)
  moreover have "IP_ToHex ?ip = 0 \<longleftrightarrow> ?ip = IP4 0 0 0 0"
    unfolding z [symmetric] by (rule IP_ToHex_inject)
  moreover have "IP_ToHex x = IP_ToHex ?ip \<longleftrightarrow> rev (ip_octets D) = ip_octets ?ip"
    by (simp flip: x(2) inj)
  ultimately show ?thesis
    by (auto simp: ipv4_accepts_def ip_taken_def assms x(1))
qed

text \<open>A packet with a datagram in it that the host takes reaches the handler of the last socket.\<close>

lemma IPv4_receive_datagram:
  assumes h: "holds m 0 (IPv4Header_bytes (ipv4_header n 17 D a))" and n: "8 \<le> n" "n \<le> 1480"
    and reg: "IPv4Registered s = [(UDP_Events, 17)]" "UDPRegistered s = es @ [(sk, p)]"
    and quiet: "\<forall>q \<in> fst ` set (UDPRegistered s). \<not> Listening (Sockets s q)"
  shows "IPv4_OnEthernetPacketReceived env HN null m (of_nat (n + 34)) s =
    map_option (\<lambda>s. (False, m, s))
      (if ip_taken D (IfIP (Interface s))
       then OnUDPPacketReceived env HN null (EventHandler (Sockets s sk)) (advance 28 m) s else Some s)"
proof -
  let ?h = "IPv4Header_at m"
  have f: "IHL ?h = 5" "Protocol ?h = 17" and D: "DestinationIP ?h = b32 (IP_ToHex D)"
    using IPv4Header_cast [OF h] by (simp_all add: ipv4_header_def ipv4_fields_def Let_def take_bit_eq_mod)
  have "TotalLength ?h = b16 (of_nat (n + 20))"
  proof (rule u16_eqI)
    show "byte 0 (TotalLength ?h) = byte 0 (b16 (of_nat (n + 20)))" "byte 8 (TotalLength ?h) = byte 8 (b16 (of_nat (n + 20)))"
      using IPv4Header_cast [OF h]
      by (simp_all only: byte_b16) (simp_all add: ipv4_header_def ipv4_fields_def Let_def byte_simps)
  qed
  then have l: "\<not> min (ucast (TotalLength ?h)) (of_nat (n + 34)) - 20 < (8 :: u64)"
    using udp_length_ok [of "n + 20"] n by (simp add: add.assoc)
  have "\<not> (of_nat (n + 34) :: u64) < 20"
    using n(2) by (simp add: word_less_nat_alt unsigned_of_nat take_bit_nat_eq_self del: of_nat_add)
  then show ?thesis
    unfolding IPv4_OnEthernetPacketReceived_def Let_def
    by (simp add: ipv4_accepts_iff [OF D] reg(1) f UDP_receive_last [OF l reg(2) quiet] del: of_nat_add)
       (cases "OnUDPPacketReceived env HN null (EventHandler (Sockets s sk)) (advance 28 m) s"; simp)
qed

lemma behind_advance [simp]: "behind n (advance n m) m = m"
  by (auto simp: behind_def advance_def fun_eq_iff)

text \<open>A frame of type 0800 for this host goes to IPv4.\<close>

lemma Ethernet_receive_ipv4:
  assumes "holds m 0 (EthernetHeader_bytes \<lparr>DestinationMAC = b48 (MAC_ToHex mac), SourceMAC = src, FType = b16 TYPE_IPV4\<rparr>)"
    and "mac = InvalidMAC \<or> mac = IfMAC (Interface s)"
    and "EthernetRegistered s = [(ARP_Events, TYPE_ARP), (IPv4_Events, TYPE_IPV4)]"
    and "IPv4_OnEthernetPacketReceived env HN null (advance 14 m) L s = map_option (\<lambda>s. (False, advance 14 m, s)) r"
  shows "Ethernet_Receive env HN null m L s = map_option (Pair m) r"
proof -
  have h: "DestinationMAC (EthernetHeader_at m) = b48 (MAC_ToHex mac)" "FType (EthernetHeader_at m) = b16 TYPE_IPV4"
    by (simp_all add: EthernetHeader_cast [OF assms(1)])
  have t: "TYPE_ARP \<noteq> TYPE_IPV4"
    by (simp add: TYPE_ARP_def TYPE_IPV4_def)
  have "MAC_ToHex mac = 0xFFFFFFFFFFFF \<or> MAC_eq_hex (IfMAC (Interface s)) (MAC_ToHex mac)"
    using assms(2) by (auto simp: hex_of_broadcast MAC_eq_hex_def)
  then show ?thesis
    unfolding Ethernet_Receive_def Let_def
    by (simp add: h assms(3,4) t OnEthernetPacketReceived_def) (cases r; simp)
qed

lemma UDP_Send_frame:
  assumes "length Data \<le> 1472" "Resolve env (ipv4_route (RemoteIP (Sockets a sk)) a) a = (mac, a')"
  shows "\<exists>u src. length u = 8 \<and> Sent (UDP_Send env sk Data a) = Sent a' @
    [EthernetHeader_bytes \<lparr>DestinationMAC = b48 (MAC_ToHex (MAC_FromHex mac)), SourceMAC = src, FType = b16 TYPE_IPV4\<rparr> @
     IPv4Header_bytes (ipv4_header (8 + length Data) 17 (RemoteIP (Sockets a sk)) a) @ u @ Data]"
proof -
  let ?u = "UDPHeader_bytes \<lparr>SourcePort = LocalPort (Sockets a sk), DestinationPort = RemotePort (Sockets a sk),
      UDPLength = b16 (of_nat (length Data + 8)), UDPChecksum = 0\<rparr>"
  have "unat (of_nat (length Data + 8) :: u16) = length Data + 8"
    using assms(1) by (simp only: unsigned_of_nat) (simp add: take_bit_nat_eq_self)
  then have "take (unat (of_nat (length Data + 8) :: u16)) (?u @ Data) = ?u @ Data"
    by simp
  then have "UDP_Send env sk Data a = IPv4_Send env (?u @ Data) 17 (RemoteIP (Sockets a sk)) a"
    unfolding UDP_Send_def Let_def by (simp only:)
  then show ?thesis
    by (intro exI [of _ ?u] exI [of _ "b48 (MAC_ToHex (IfMAC (Interface a')))"])
      (simp add: IPv4_Send_def assms(2) Ethernet_Send_def NetworkInterface_Send_def Interface_Send_def)
qed

text \<open>
  C15. What becomes of a datagram. Take the frame that \<^verbatim>\<open>UDP::Send\<close> of one host hands to its driver
  for a datagram that fits an Ethernet frame, and a host to whose hardware address, or to all, it goes
  and that has no listening socket. If the destination is the limited broadcast address, if the
  receiver has no address yet, or if the destination read backwards is its address, the frame passes
  Ethernet, IPv4 and UDP and has exactly the effect of calling the handler of the last registered
  socket with the payload. Otherwise it has no effect at all: a host with a configured address drops
  the packets sent to that address, unless it reads the same in both directions.
\<close>

theorem udp_end_to_end:
  assumes "length Data \<le> 1472"
    and "Resolve env (ipv4_route (RemoteIP (Sockets a sk)) a) a = (mac, a')"
    and "MAC_FromHex mac = InvalidMAC \<or> MAC_FromHex mac = IfMAC (Interface b)"
    and "EthernetRegistered b = [(ARP_Events, TYPE_ARP), (IPv4_Events, TYPE_IPV4)]"
    and "IPv4Registered b = [(UDP_Events, 17)]" "UDPRegistered b = es @ [(so, p)]"
    and "\<forall>q \<in> fst ` set (UDPRegistered b). \<not> Listening (Sockets b q)"
  shows "\<exists>frame. Sent (UDP_Send env sk Data a) = Sent a' @ [frame] \<and>
    (\<forall>m. holds m 0 frame \<longrightarrow> (\<exists>d. holds d 0 Data \<and>
       Ethernet_Receive env' HN null m (of_nat (length frame)) b =
         (if ip_taken (RemoteIP (Sockets a sk)) (IfIP (Interface b))
          then map_option (Pair m) (OnUDPPacketReceived env' HN null (EventHandler (Sockets b so)) d b)
          else Some (m, b))))"
proof -
  let ?n = "8 + length Data"
  let ?ip = "IPv4Header_bytes (ipv4_header ?n 17 (RemoteIP (Sockets a sk)) a)"
  obtain u src where u: "length u = 8" and s: "Sent (UDP_Send env sk Data a) = Sent a' @
    [EthernetHeader_bytes \<lparr>DestinationMAC = b48 (MAC_ToHex (MAC_FromHex mac)), SourceMAC = src, FType = b16 TYPE_IPV4\<rparr> @
     ?ip @ u @ Data]" (is "_ = _ @ [?eth @ _]")
    using UDP_Send_frame [OF assms(1,2)] by (elim exE conjE)
  have len: "length (?eth @ ?ip @ u @ Data) = ?n + 34"
    using u by simp
  show ?thesis
  proof (intro exI conjI allI impI, rule s)
    fix m
    assume "holds m 0 (?eth @ ?ip @ u @ Data)"
    then have h: "holds m 0 ?eth" "holds (advance 14 m) 0 ?ip" and d: "holds (advance 42 m) 0 Data"
      using u by simp_all
    show "holds (advance 42 m) 0 Data"
      by (rule d)
    let ?r = "if ip_taken (RemoteIP (Sockets a sk)) (IfIP (Interface b))
      then OnUDPPacketReceived env' HN null (EventHandler (Sockets b so)) (advance 42 m) b else Some b"
    have "IPv4_OnEthernetPacketReceived env' HN null (advance 14 m) (of_nat (?n + 34)) b =
      map_option (\<lambda>s. (False, advance 14 m, s)) ?r"
      using IPv4_receive_datagram [OF h(2) _ _ assms(5-7), of env' HN null] assms(1) by simp
    then have "Ethernet_Receive env' HN null m (of_nat (length (?eth @ ?ip @ u @ Data))) b = map_option (Pair m) ?r"
      unfolding len by (rule Ethernet_receive_ipv4 [OF h(1) assms(3,4)])
    then show "Ethernet_Receive env' HN null m (of_nat (length (?eth @ ?ip @ u @ Data))) b =
        (if ip_taken (RemoteIP (Sockets a sk)) (IfIP (Interface b))
         then map_option (Pair m) (OnUDPPacketReceived env' HN null (EventHandler (Sockets b so)) (advance 42 m) b)
         else Some (m, b))"
      by simp
  qed
qed

section \<open>Options of a DHCP message\<close>

text \<open>The list of options as the protocol defines it: a type, the length of the data, the data.\<close>

fun encode_options :: "(u8 \<times> u8 list) list \<Rightarrow> u8 list" where
  "encode_options [] = [255]"
| "encode_options ((t, d) # opts) = t # of_nat (length d) # d @ encode_options opts"

definition options_ok :: "(u8 \<times> u8 list) list \<Rightarrow> bool" where
  "options_ok opts \<longleftrightarrow> (\<forall>(t, d) \<in> set opts. t \<noteq> 255 \<and> length d < 256)"

lemma GetOption_loop_options:
  "options_ok opts \<Longrightarrow> holds m p (encode_options opts) \<Longrightarrow>
     \<exists>r. GetOption_loop m T p = Some r \<and>
       (case map_of opts T of None \<Rightarrow> r = None | Some d \<Rightarrow> \<exists>i. r = Some i \<and> holds m i d)"
proof (induction opts arbitrary: p)
  case Nil
  then show ?case
    by (simp add: GetOption_loop.simps)
next
  case (Cons o' opts)
  obtain t d where o': "o' = (t, d)"
    by (cases o')
  have t: "t \<noteq> 255" "length d < 256" "options_ok opts"
    using Cons.prems(1) by (auto simp: options_ok_def o')
  have m: "m p = t" "m (p + 1) = of_nat (length d)" "holds m (p + 2) d"
    "holds m (p + (2 + length d)) (encode_options opts)"
    using Cons.prems(2) by (simp_all add: o' add.commute add.left_commute)
  have "unat (of_nat (length d) :: u8) = length d"
    using t(2) by (simp add: unsigned_of_nat take_bit_nat_eq_self)
  then have step: "GetOption_loop m T p =
      (if t = T then Some (Some (p + 2)) else GetOption_loop m T (p + (2 + length d)))"
    using t(1) m(1,2) by (simp add: GetOption_loop.simps [of m T p])
  show ?case
  proof (cases "t = T")
    case True
    then show ?thesis
      using step m(3) by (simp add: o')
  next
    case False
    then show ?thesis
      using step Cons.IH [OF t(3) m(4)] by (simp add: o')
  qed
qed

lemma holds_put_same [simp]: "holds (put i xs m) i xs"
  by (simp add: holds_nth put_at)

lemma holds_put_other:
  "i + length xs \<le> j \<or> j + length ys \<le> i \<Longrightarrow> holds (put i xs m) j ys \<longleftrightarrow> holds m j ys"
proof -
  assume d: "i + length xs \<le> j \<or> j + length ys \<le> i"
  have "put i xs m (j + k) = m (j + k)" if "k < length ys" for k
    unfolding put_at using d that by (intro if_not_P) linarith
  then show ?thesis
    by (simp add: holds_nth)
qed

text \<open>The options the client sends.\<close>

definition sent_options :: "u8 list \<Rightarrow> u8 \<Rightarrow> u32 \<Rightarrow> net \<Rightarrow> (u8 \<times> u8 list) list" where
  "sent_options HostName MessageType RequestIP s =
     [(53, [MessageType]), (61, 1 # mac_octets (IfMAC (Interface s))), (50, bytes32 RequestIP),
      (12, HostName @ [0]), (55, [1, 3, 6, 15, 44, 46, 47, 57])]"

lemma encode_sent_options:
  "encode_options (sent_options HN MT RIP s) =
     [53, 1, MT] @ [61, 7, 1] @ mac_octets (IfMAC (Interface s)) @ [50, 4] @ bytes32 RIP @
     [12, of_nat (1 + length HN)] @ HN @ [0] @ [55, 8, 1, 3, 6, 15, 44, 46, 47, 57] @ [255]"
  by (simp add: sent_options_def)

lemma holds_put_prefix: "xs = ys @ zs \<Longrightarrow> holds (put i xs m) i ys"
  using holds_put_same [of i xs m] by simp

lemma CreatePacket_options:
  "holds (CreatePacket HN MT RIP s m) 240 (encode_options (sent_options HN MT RIP s))"
proof -
  have mac: "holds (put 246 (bytes64 (b48 (MAC_ToHex (IfMAC (Interface s))))) m) 246 (mac_octets (IfMAC (Interface s)))" for m
    by (rule holds_put_prefix) (simp add: bytes64_def)
  show ?thesis
    unfolding encode_sent_options CreatePacket_def Let_def holds_append
    by (intro conjI) (simp_all add: holds_put_other mac del: holds.simps put.simps of_nat_add)
qed

lemma CreatePacket_bounds:
  assumes "length HN \<le> 28" "300 \<le> j"
  shows "CreatePacket HN MT RIP s m j = m j"
proof -
  have p: "put i xs m' j = m' j" if "i + length xs \<le> 300" for i xs m'
    using that assms(2) by (simp add: put_at)
  show ?thesis
    unfolding CreatePacket_def dhcp_fixed_def Let_def
    using assms(1) by (simp add: p bytes64_def del: put.simps)
qed

text \<open>
  C27. The options of a DHCP request are written so that the parser of the client reads them back.
  For every option type \<^verbatim>\<open>GetOption\<close> ends on the packet \<^verbatim>\<open>CreatePacket\<close> builds: it finds the
  data of the message type, the client identifier, the requested address, the host name and the
  parameter list, and reports every other type as missing. With a host name of at most 28 bytes
  nothing is written behind the 300 bytes of the packet.
\<close>

theorem dhcp_options_roundtrip:
  assumes "length HN \<le> 28"
  shows "(\<exists>r. GetOption (CreatePacket HN MT RIP s m) T = Some r \<and>
      (case map_of (sent_options HN MT RIP s) T of
         None \<Rightarrow> r = None
       | Some d \<Rightarrow> \<exists>i. r = Some i \<and> holds (CreatePacket HN MT RIP s m) i d)) \<and>
    (\<forall>j. 300 \<le> j \<longrightarrow> CreatePacket HN MT RIP s m j = m j)"
proof -
  have ok: "options_ok (sent_options HN MT RIP s)"
    using assms by (simp add: options_ok_def sent_options_def)
  show ?thesis
    using GetOption_loop_options [OF ok CreatePacket_options, where T = T] CreatePacket_bounds [OF assms]
    by (auto simp: GetOption_def)
qed

theorem dhcp_options_roundtrip_witness:
  "(\<exists>i. GetOption (CreatePacket [70, 101, 110] 3 0x0F02000A example_net (\<lambda>_. 0)) 50 = Some (Some i) \<and>
      holds (CreatePacket [70, 101, 110] 3 0x0F02000A example_net (\<lambda>_. 0)) i [10, 0, 2, 15]) \<and>
   GetOption (CreatePacket [70, 101, 110] 3 0x0F02000A example_net (\<lambda>_. 0)) 51 = Some None"
proof -
  have l: "length [70, 101, 110 :: u8] \<le> 28"
    by simp
  have b: "bytes32 0x0F02000A = [10, 0, 2, 15]"
    by (simp add: bytes32_def drop_bit_eq_div)
  show ?thesis
    using dhcp_options_roundtrip [OF l, of 3 "0x0F02000A" example_net "\<lambda>_. 0" 50]
      dhcp_options_roundtrip [OF l, of 3 "0x0F02000A" example_net "\<lambda>_. 0" 51]
    by (auto simp: sent_options_def b)
qed

section \<open>Configuration by DHCP\<close>

lemma option_data_present:
  assumes "options_ok opts" "holds m 240 (encode_options opts)" "map_of opts T = Some d"
  shows "\<exists>x. option_data null m T = Some x \<and> holds x 0 d"
  using GetOption_loop_options [OF assms(1,2), of T] assms(3) by (auto simp: option_data_def GetOption_def)

lemma IP_FromHex_load32: "holds m i (ip_octets ip) \<Longrightarrow> ip_octets (IP_FromHex (load32 m i)) = rev (ip_octets ip)"
  by (cases ip) (simp add: IP_FromHex_bytes byte_load32 add_small)

text \<open>A client's record after an acknowledgement: the addresses with their bytes reversed.\<close>

lemma DHCP_acknowledged:
  assumes "options_ok opts" "holds d 240 (encode_options opts)" "map_of opts 53 = Some [5]"
    and "map_of opts 3 = Some (ip_octets gw)" "map_of opts 6 = Some (ip_octets dns)"
    and "map_of opts 1 = Some (ip_octets sub)" "holds d 16 (ip_octets ip)"
    and "DHCP_OnUDPPacketReceived env HN null d s = Some s'"
  shows "\<exists>D. s' = s\<lparr>Dhcp := D\<rparr> \<and> dhcp_Received D \<and> ip_octets (dhcp_IP D) = rev (ip_octets ip) \<and>
    ip_octets (dhcp_Gateway D) = rev (ip_octets gw) \<and> ip_octets (dhcp_SubnetworkMask D) = rev (ip_octets sub)"
proof -
  obtain t x y z where o: "option_data null d 53 = Some t" "option_data null d 3 = Some x"
    "option_data null d 6 = Some y" "option_data null d 1 = Some z" "t 0 = 5"
    and h: "holds x 0 (ip_octets gw)" "holds z 0 (ip_octets sub)"
    using option_data_present [OF assms(1,2,3), of null] option_data_present [OF assms(1,2,4), of null]
      option_data_present [OF assms(1,2,5), of null] option_data_present [OF assms(1,2,6), of null]
    by auto
  show ?thesis
    using assms(8) unfolding DHCP_OnUDPPacketReceived_def
    by (auto simp: o IP_FromHex_load32 [OF h(1)] IP_FromHex_load32 [OF h(2)] IP_FromHex_load32 [OF assms(7)])
qed

text \<open>What waiting does not change: a part of the state that neither sending nor the interrupts touch.\<close>

lemma Resolve_wait_keeps:
  assumes "\<And>k s. f (env k s) = f s"
  shows "f (snd (Resolve_wait env IP n ret s)) = f s"
  by (induction n arbitrary: ret s) (simp_all add: Let_def assms)

lemma Resolve_keeps:
  assumes "\<And>k s. f (env k s) = f s" "\<And>s x. f (s\<lparr>Sent := x\<rparr>) = f s"
  shows "f (snd (Resolve env IP s)) = f s"
  by (simp add: Resolve_def Let_def Resolve_wait_keeps [of f, OF assms(1)] Ethernet_Send_frame assms(2))

lemma ARP_Broadcast_keeps:
  assumes "\<And>k s. f (env k s) = f s" "\<And>s x. f (s\<lparr>Sent := x\<rparr>) = f s"
  shows "f (ARP_Broadcast env IP s) = f s"
  using Resolve_keeps [of f env IP s, OF assms]
  by (auto simp: ARP_Broadcast_def Let_def Ethernet_Send_frame assms(2) split: prod.split)

text \<open>The discovery goes to the broadcast addresses, so nothing has to be resolved.\<close>

lemma DHCP_discover_sends:
  assumes "RemoteIP (Sockets s sk) = IP4 0xFF 0xFF 0xFF 0xFF" "SubnetworkMaskIP s = IP4 0xFF 0xFF 0xFF 0xFF"
  shows "\<exists>frame. UDP_Send env sk Data s = s\<lparr>Sent := Sent s @ [frame]\<rparr>"
  unfolding UDP_Send_def IPv4_Send_def Let_def assms(1) route_of_broadcast [OF assms(2)]
  by (simp add: Ethernet_Send_frame) (rule exI, rule refl)

lemma reverse_ip: "ip_octets x = rev (ip_octets ip) \<Longrightarrow> IP_FromHex (b32 (IP_ToHex x)) = ip"
  by (cases x; cases ip) (simp add: IP_FromHex_bytes b32_bytes IP_ToHex_bytes byte_simps)

text \<open>
  The start of the network configures the interface. Let the first thing to arrive after the
  discovery be an acknowledgement whose options name a router, a name server and a subnet mask. Then
  \<^verbatim>\<open>StartNetworkStack\<close> reaches its idle loop with the address of the message as the address of the
  interface, in the order in which its bytes stand in the message, and with the mask and the gateway
  in the reverse order, as the comments on those members say.
\<close>

lemma dhcp_configures:
  assumes "options_ok opts" "holds d 240 (encode_options opts)" "map_of opts 53 = Some [5]"
    and "map_of opts 3 = Some (ip_octets gw)" "map_of opts 6 = Some (ip_octets dns)"
    and "map_of opts 1 = Some (ip_octets sub)" "holds d 16 (ip_octets ip)"
    and arrives: "\<And>s. DHCP_OnUDPPacketReceived env HN null d s = Some (env 9 s)"
    and later: "\<And>k s. Interface (env' k s) = Interface s \<and> GatewayIP (env' k s) = GatewayIP s \<and>
      SubnetworkMaskIP (env' k s) = SubnetworkMaskIP s"
    and "default_device Devices = Some device"
  shows "\<exists>s. StartNetworkStack env env' HN Devices sockets sk = Some s \<and>
    Interface s = device\<lparr>IfIP := ip\<rparr> \<and> ip_octets (GatewayIP s) = rev (ip_octets gw) \<and>
    ip_octets (SubnetworkMaskIP s) = rev (ip_octets sub)"
proof -
  let ?s = "open_DHCP device sockets sk"
  have o: "RemoteIP (Sockets ?s sk) = IP4 0xFF 0xFF 0xFF 0xFF" "SubnetworkMaskIP ?s = IP4 0xFF 0xFF 0xFF 0xFF"
    "dhcp_Socket (Dhcp ?s) = sk" "\<not> dhcp_Received (Dhcp ?s)" "Interface ?s = device"
    by (simp_all add: open_DHCP_def UDP_Bind_def new_DHCP_def UDP_Connect_def new_stack_def Let_def)
  obtain frame where f: "UDP_Send env sk (dhcp_message HN 1 0 ?s) ?s = ?s\<lparr>Sent := Sent ?s @ [frame]\<rparr>"
    using DHCP_discover_sends [OF o(1,2)] by blast
  let ?t = "?s\<lparr>Sent := Sent ?s @ [frame]\<rparr>"
  obtain D where D: "env 9 ?t = ?t\<lparr>Dhcp := D\<rparr>" "dhcp_Received D" "ip_octets (dhcp_IP D) = rev (ip_octets ip)"
    "ip_octets (dhcp_Gateway D) = rev (ip_octets gw)" "ip_octets (dhcp_SubnetworkMask D) = rev (ip_octets sub)"
    using DHCP_acknowledged [OF assms(1-7) arrives] by blast
  have "Request_wait env 10 ?t = ?t\<lparr>Dhcp := D\<rparr>"
    using D(1,2) o(4) by (simp add: numeral_eq_Suc)
  then have r: "DHCP_Request env HN ?s = ?t\<lparr>Dhcp := D\<rparr>"
    by (simp add: DHCP_Request_def o(3) f)
  let ?c = "configure env' (?t\<lparr>Dhcp := D\<rparr>)"
  have "Interface ?c = device\<lparr>IfIP := ip\<rparr>" "GatewayIP ?c = dhcp_Gateway D" "SubnetworkMaskIP ?c = dhcp_SubnetworkMask D"
    using later
    by (simp_all add: configure_def Let_def ARP_Broadcast_keeps [of Interface] ARP_Broadcast_keeps [of GatewayIP]
        ARP_Broadcast_keeps [of SubnetworkMaskIP] reverse_ip [OF D(3)] o(5))
  then show ?thesis
    using D(4,5) assms(10) by (simp add: StartNetworkStack_def r)
qed

text \<open>An acknowledgement of 10.0.2.15 with the router 10.0.2.2.\<close>

definition example_options :: "(u8 \<times> u8 list) list" where
  "example_options = [(53, [5]), (1, [255, 255, 255, 0]), (3, [10, 0, 2, 2]), (6, [10, 0, 2, 3])]"

definition example_ack :: mem where
  "example_ack = put 240 (encode_options example_options) (put 16 [10, 0, 2, 15] (\<lambda>_. 0))"

lemma DHCP_ack_env:
  assumes "options_ok opts" "holds d 240 (encode_options opts)" "map_of opts 53 = Some [5]"
    and "map_of opts 3 = Some g" "map_of opts 6 = Some n" "map_of opts 1 = Some sub"
  shows "DHCP_OnUDPPacketReceived env HN null d s = Some (the (DHCP_OnUDPPacketReceived env' HN null d s))"
proof -
  obtain t x y z where "option_data null d 53 = Some t" "option_data null d 3 = Some x"
    "option_data null d 6 = Some y" "option_data null d 1 = Some z" "t 0 = 5"
    using option_data_present [OF assms(1,2,3), of null] option_data_present [OF assms(1,2,4), of null]
      option_data_present [OF assms(1,2,5), of null] option_data_present [OF assms(1,2,6), of null]
    by auto
  then show ?thesis
    by (simp add: DHCP_OnUDPPacketReceived_def)
qed

text \<open>The acknowledgement, sent to the broadcast address, arrives at a client and fills in its record.\<close>

lemma holds_bytes: "holds d 0 (map m [0..<n]) \<Longrightarrow> holds m i xs \<Longrightarrow> i + length xs \<le> n \<Longrightarrow> holds d i xs"
  by (auto simp: holds_nth)

theorem udp_end_to_end_witness:
  "\<exists>frame s. Sent (UDP_Send (\<lambda>_. id) 8 (map example_ack [0..<262]) example_net) = [frame] \<and>
    Ethernet_Receive (\<lambda>_. id) [] (\<lambda>_. 0) (block frame) (of_nat (length frame)) example_net = Some (block frame, s) \<and>
    dhcp_Received (Dhcp s) \<and> ip_octets (dhcp_IP (Dhcp s)) = [15, 2, 0, 10]"
proof -
  note defs = example_net_def open_DHCP_def UDP_Bind_def new_DHCP_def UDP_Connect_def new_stack_def Let_def
  have s: "RemoteIP (Sockets example_net 8) = IP4 0xFF 0xFF 0xFF 0xFF" "\<not> Listening (Sockets example_net 8)"
    "EventHandler (Sockets example_net 8) = Some DHCP_Events"
    by (simp_all add: defs)
  have r: "Resolve (\<lambda>_. id) (ipv4_route (RemoteIP (Sockets example_net 8)) example_net) example_net =
      (0xFFFFFFFFFFFF, example_net)"
    by (simp add: s route_of_broadcast example_net_simps)
  have reg: "EthernetRegistered example_net = [(ARP_Events, TYPE_ARP), (IPv4_Events, TYPE_IPV4)]"
    "IPv4Registered example_net = [(UDP_Events, 17)]" "UDPRegistered example_net = [] @ [(8, b16 0x200)]"
    by (simp_all add: defs)
  have q: "\<forall>q \<in> fst ` set (UDPRegistered example_net). \<not> Listening (Sockets example_net q)"
    by (simp add: reg s)
  have l: "length (map example_ack [0..<262]) \<le> 1472"
    by simp
  obtain frame d where f: "Sent (UDP_Send (\<lambda>_. id) 8 (map example_ack [0..<262]) example_net) = [frame]"
    and d: "holds d 0 (map example_ack [0..<262])"
    and e: "Ethernet_Receive (\<lambda>_. id) [] (\<lambda>_. 0) (block frame) (of_nat (length frame)) example_net =
      map_option (Pair (block frame)) (DHCP_OnUDPPacketReceived (\<lambda>_. id) [] (\<lambda>_. 0) d example_net)"
    using udp_end_to_end [OF l r _ reg q, where env' = "\<lambda>_. id" and HN = "[]" and null = "\<lambda>_. 0"] s example_net_simps
    by (auto dest!: all_holds_block simp: ip_taken_def OnUDPPacketReceived_def)
  have ok: "options_ok example_options" "length (encode_options example_options) = 22"
    by (simp_all add: options_ok_def example_options_def)
  have h: "holds d 240 (encode_options example_options)" "holds d 16 (ip_octets (IP4 10 0 2 15))"
    by (rule holds_bytes [OF d], simp_all add: ok example_ack_def holds_put_other del: put.simps holds.simps)+
  have o: "map_of example_options 53 = Some [5]" "map_of example_options 3 = Some (ip_octets (IP4 10 0 2 2))"
    "map_of example_options 6 = Some (ip_octets (IP4 10 0 2 3))" "map_of example_options 1 = Some (ip_octets (IP4 255 255 255 0))"
    by (simp_all add: example_options_def)
  note a = DHCP_ack_env [OF ok(1) h(1) o, of "\<lambda>_. id" "[]" "\<lambda>_. 0" example_net "\<lambda>_. id"]
  obtain D where D: "the (DHCP_OnUDPPacketReceived (\<lambda>_. id) [] (\<lambda>_. 0) d example_net) = example_net\<lparr>Dhcp := D\<rparr>"
    "dhcp_Received D" "ip_octets (dhcp_IP D) = rev (ip_octets (IP4 10 0 2 15))"
    using DHCP_acknowledged [OF ok(1) h(1) o h(2) a] by auto
  show ?thesis
    by (rule exI [of _ frame], rule exI [of _ "example_net\<lparr>Dhcp := D\<rparr>"])
      (simp add: f e a [unfolded D(1)] D(2,3) del: upt.simps)
qed

lemma dhcp_configures_witness:
  "\<exists>s. StartNetworkStack (\<lambda>_ s. the (DHCP_OnUDPPacketReceived (\<lambda>_. id) [] (\<lambda>_. 0) example_ack s)) (\<lambda>_. id) []
       [None, Some example_device] (Sockets example_net) 8 = Some s \<and>
     IfIP (Interface s) = IP4 10 0 2 15 \<and> GatewayIP s = IP4 2 2 0 10 \<and> SubnetworkMaskIP s = IP4 0 255 255 255"
proof -
  have ok: "options_ok example_options"
    by (simp add: options_ok_def example_options_def)
  have h: "holds example_ack 240 (encode_options example_options)" "holds example_ack 16 (ip_octets (IP4 10 0 2 15))"
    by (simp_all add: example_ack_def holds_put_other del: put.simps holds.simps)
  have o: "map_of example_options 53 = Some [5]" "map_of example_options 3 = Some (ip_octets (IP4 10 0 2 2))"
    "map_of example_options 6 = Some (ip_octets (IP4 10 0 2 3))" "map_of example_options 1 = Some (ip_octets (IP4 255 255 255 0))"
    by (simp_all add: example_options_def)
  have rev1: "ip_octets x = rev (ip_octets (IP4 a b c e)) \<longleftrightarrow> x = IP4 e c b a" for x a b c e
    by (cases x) auto
  let ?env = "\<lambda>_ s. the (DHCP_OnUDPPacketReceived (\<lambda>_. id) [] (\<lambda>_. 0) example_ack s)"
  have "\<exists>s. StartNetworkStack ?env (\<lambda>_. id) [] [None, Some example_device] (Sockets example_net) 8 = Some s \<and>
    Interface s = example_device\<lparr>IfIP := IP4 10 0 2 15\<rparr> \<and>
    ip_octets (GatewayIP s) = rev (ip_octets (IP4 10 0 2 2)) \<and>
    ip_octets (SubnetworkMaskIP s) = rev (ip_octets (IP4 255 255 255 0))"
    by (rule dhcp_configures [OF ok h(1) o h(2), where null = "\<lambda>_. 0"])
      (simp_all add: DHCP_ack_env [OF ok h(1) o])
  then show ?thesis
    unfolding rev1 by (rule ex_forward) simp
qed

section \<open>The table of hardware addresses\<close>

lemma da_search_IP: "da_search IP ds = Some d \<Longrightarrow> DA_IP d = IP \<and> d \<in> set ds"
  by (induction ds) (auto split: if_splits)

lemma da_search_None: "da_search IP ds = None \<longleftrightarrow> IP \<notin> DA_IP ` set ds"
  by (induction ds) auto

lemma da_search_append:
  "da_search IP (ds @ es) = (case da_search IP ds of Some d \<Rightarrow> Some d | None \<Rightarrow> da_search IP es)"
  by (induction ds) auto

lemma da_search_update:
  "da_search IP' (da_update IP mac ds) =
     (if IP' = IP then map_option (DA_MAC_update (\<lambda>_. mac)) (da_search IP ds) else da_search IP' ds)"
  by (induction ds) auto

lemma da_update_IPs [simp]: "map DA_IP (da_update IP mac ds) = map DA_IP ds"
  by (induction ds) auto

text \<open>What the table says about an address; the broadcast address stands for no entry.\<close>

definition known_MAC :: "InternetProtocol4 \<Rightarrow> DiscoveredAddress list \<Rightarrow> MediaAccessControl" where
  "known_MAC IP ds = DA_MAC (Search IP ds)"

definition one_entry_each :: "DiscoveredAddress list \<Rightarrow> bool" where
  "one_entry_each ds \<longleftrightarrow> distinct (map DA_IP ds)"

lemma arp_learn_cases:
  "arp_learn IP mac ds =
     (if da_search IP ds = None then ds @ [\<lparr>DA_MAC = mac, DA_IP = IP\<rparr>] else da_update IP mac ds)"
  by (simp add: arp_learn_def ManageDA_def Let_def)

lemma known_arp_learn: "known_MAC IP' (arp_learn IP mac ds) = (if IP' = IP then mac else known_MAC IP' ds)"
  by (auto simp: known_MAC_def Search_def ManageDA_def arp_learn_cases da_search_append da_search_update
      split: option.splits)

lemma arp_learn_distinct: "one_entry_each ds \<Longrightarrow> one_entry_each (arp_learn IP mac ds)"
  by (auto simp: one_entry_each_def arp_learn_cases da_search_None)

text \<open>The table keeps the contract of a lookup table.\<close>

interpretation arp: table known_MAC "\<lambda>IP mac ds. Some (arp_learn IP mac ds)" one_entry_each "\<lambda>_. True" "\<lambda>_. True"
  by unfold_locales (auto simp: known_arp_learn arp_learn_distinct)

lemma Resolve_known:
  assumes "known_MAC IP (DiscoveredAddresses s) \<noteq> InvalidMAC" "IP \<noteq> IP4 0xFF 0xFF 0xFF 0xFF"
  shows "Resolve env IP s = (MAC_ToHex (known_MAC IP (DiscoveredAddresses s)), s)"
proof -
  have "MAC_ToHex (known_MAC IP (DiscoveredAddresses s)) \<noteq> 0xFFFFFFFFFFFF"
    using assms(1) by (simp flip: hex_of_broadcast)
  moreover have "\<not> IP_eq_hex IP 0xFFFFFFFF"
    using assms(2) IP_FromHex_ToHex [of "IP4 0xFF 0xFF 0xFF 0xFF"] by (simp add: IP_eq_hex_def hex_of_broadcast)
  ultimately show ?thesis
    by (simp add: Resolve_def known_MAC_def numeral_eq_Suc)
qed

lemma ARP_received_table:
  assumes "b16 (HardwareType (ARPHeader_at m)) = 1" "b16 (ProtocolType (ARPHeader_at m)) = TYPE_IPV4"
    and "ARP_OnEthernetPacketReceived m s = (r, m', s')"
  shows "DiscoveredAddresses s' = arp_learn (IP_FromHex (SenderIP (ARPHeader_at m)))
    (MAC_FromHex (SenderMAC (ARPHeader_at m))) (DiscoveredAddresses s)"
  using assms by (auto simp: ARP_OnEthernetPacketReceived_def Let_def Ethernet_Send_frame split: if_splits)

text \<open>
  C29. Address resolution learns from every ARP packet for Ethernet and IPv4. After one, the table
  still has at most one entry per address; it gives the sender's hardware address for the sender and
  its old answer for everyone else; and resolving the sender's address then gives that hardware
  address at once, without a request and without waiting, unless one of the two is the broadcast
  address. The addresses are those the code reads, without swapping bytes: the packet of 10.0.2.2 is
  learnt for 2.2.0.10.
\<close>

theorem arp_learns:
  assumes "one_entry_each (DiscoveredAddresses s)"
    and "b16 (HardwareType (ARPHeader_at m)) = 1" "b16 (ProtocolType (ARPHeader_at m)) = TYPE_IPV4"
    and "ARP_OnEthernetPacketReceived m s = (r, m', s')"
    and "IP = IP_FromHex (SenderIP (ARPHeader_at m))" "mac = MAC_FromHex (SenderMAC (ARPHeader_at m))"
  shows "one_entry_each (DiscoveredAddresses s') \<and>
    known_MAC IP (DiscoveredAddresses s') = mac \<and>
    (\<forall>IP'. IP' \<noteq> IP \<longrightarrow> known_MAC IP' (DiscoveredAddresses s') = known_MAC IP' (DiscoveredAddresses s)) \<and>
    (mac \<noteq> InvalidMAC \<longrightarrow> IP \<noteq> IP4 0xFF 0xFF 0xFF 0xFF \<longrightarrow> Resolve env IP s' = (MAC_ToHex mac, s'))"
proof -
  have t: "Some (arp_learn IP mac (DiscoveredAddresses s)) = Some (DiscoveredAddresses s')"
    by (simp add: ARP_received_table [OF assms(2,3,4)] assms(5,6))
  note same = arp.look_same [OF _ t] and other = arp.look_other [OF assms(1) _ t]
  show ?thesis
    using arp.add_good [OF assms(1) _ t] same other Resolve_known [of IP s' env] by simp
qed

text \<open>A request of 10.0.2.2 at the address 52:55:0a:00:02:02.\<close>

definition example_arp :: mem where
  "example_arp = block [0, 1, 8, 0, 6, 4, 0, 1, 0x52, 0x55, 10, 0, 2, 2, 10, 0, 2, 2,
     0, 0, 0, 0, 0, 0, 10, 0, 2, 15]"

lemma example_arp_header:
  "HardwareType (ARPHeader_at example_arp) = 0x0100" "ProtocolType (ARPHeader_at example_arp) = 0x0008"
  "SenderIP (ARPHeader_at example_arp) = 0x0202000A" "SenderMAC (ARPHeader_at example_arp) = 0x0202000A5552"
  by (simp_all add: ARPHeader_at_def example_arp_def block_def put_at load16_def load32_def load48_def push_bit_eq_mult)

theorem arp_learns_witness:
  "Resolve (\<lambda>_. id) (IP4 2 2 0 10) (snd (snd (ARP_OnEthernetPacketReceived example_arp example_net))) =
     (0x0202000A5552, snd (snd (ARP_OnEthernetPacketReceived example_arp example_net)))"
proof -
  obtain r m' s' where a: "ARP_OnEthernetPacketReceived example_arp example_net = (r, m', s')"
    by (cases "ARP_OnEthernetPacketReceived example_arp example_net")
  have e: "one_entry_each (DiscoveredAddresses example_net)"
    by (simp add: one_entry_each_def example_net_def open_DHCP_def UDP_Bind_def new_DHCP_def UDP_Connect_def
        new_stack_def Let_def)
  have t: "b16 (HardwareType (ARPHeader_at example_arp)) = 1" "b16 (ProtocolType (ARPHeader_at example_arp)) = TYPE_IPV4"
    by (simp_all add: example_arp_header b16_def TYPE_IPV4_def push_bit_eq_mult drop_bit_eq_div)
  have c: "IP_FromHex (SenderIP (ARPHeader_at example_arp)) = IP4 2 2 0 10"
    "MAC_FromHex (SenderMAC (ARPHeader_at example_arp)) = MAC 2 2 0 10 0x55 0x52"
    by (simp_all add: example_arp_header IP_FromHex_def MAC_FromHex_def drop_bit_eq_div)
  have "MAC_ToHex (MAC 2 2 0 10 0x55 0x52) = 0x0202000A5552"
    by (simp add: MAC_ToHex_def push_bit_eq_mult)
  then show ?thesis
    using arp_learns [OF e t a refl refl, of "\<lambda>_. id"] by (simp add: c a InvalidMAC_def)
qed

section \<open>Waiting for an answer\<close>

text \<open>The states in which the loop looks at the table: \<open>n\<close> sleeps are left.\<close>

fun polled :: "env \<Rightarrow> nat \<Rightarrow> net \<Rightarrow> nat \<Rightarrow> net" where
  "polled env n s 0 = s"
| "polled env n s (Suc i) = polled env (n - 1) (env n s) i"

abbreviation knows :: "InternetProtocol4 \<Rightarrow> net \<Rightarrow> bool" where
  "knows IP s \<equiv> known_MAC IP (DiscoveredAddresses s) \<noteq> InvalidMAC"

lemma hex_unknown: "MAC_ToHex mac = 0xFFFFFFFFFFFF \<longleftrightarrow> mac = InvalidMAC"
  by (simp flip: hex_of_broadcast)

lemma Resolve_wait_step:
  "Resolve_wait env IP (Suc (Suc n)) 0xFFFFFFFFFFFF s =
     (if knows IP s then (MAC_ToHex (known_MAC IP (DiscoveredAddresses s)), env (Suc n) s)
      else Resolve_wait env IP (Suc n) 0xFFFFFFFFFFFF (env (Suc n) s))"
  using hex_unknown [of "known_MAC IP (DiscoveredAddresses s)"] by (auto simp: known_MAC_def)

lemma Resolve_wait_timeout:
  "(\<forall>i < n. \<not> knows IP (polled env n s i)) \<Longrightarrow>
     Resolve_wait env IP (Suc n) 0xFFFFFFFFFFFF s = (0, polled env n s n)"
proof (induction n arbitrary: s)
  case (Suc n)
  have "\<not> knows IP s" "\<forall>i < n. \<not> knows IP (polled env n (env (Suc n) s) i)"
    using Suc.prems by (auto simp: All_less_Suc2)
  then show ?case
    using Suc.IH by (simp only: Resolve_wait_step) simp
qed simp

lemma Resolve_wait_answer:
  "i < n \<Longrightarrow> (\<forall>j < i. \<not> knows IP (polled env n s j)) \<Longrightarrow> knows IP (polled env n s i) \<Longrightarrow>
     Resolve_wait env IP (Suc n) 0xFFFFFFFFFFFF s =
       (MAC_ToHex (known_MAC IP (DiscoveredAddresses (polled env n s i))), polled env n s (Suc i))"
proof (induction n arbitrary: s i)
  case (Suc n)
  show ?case
  proof (cases i)
    case 0
    then show ?thesis
      using Suc.prems(3) by (simp only: Resolve_wait_step) simp
  next
    case (Suc k)
    have "\<not> knows IP s" "\<forall>j < k. \<not> knows IP (polled env n (env (Suc n) s) j)"
      using Suc.prems(2) by (auto simp: Suc All_less_Suc2)
    moreover have "k < n" "knows IP (polled env n (env (Suc n) s) k)"
      using Suc.prems(1,3) by (simp_all add: Suc)
    ultimately show ?thesis
      using Suc.IH [of k "env (Suc n) s"] by (simp only: Resolve_wait_step) (simp add: Suc)
  qed
qed simp

text \<open>
  Resolving an unknown address sends one request and comes back after at most nine sleeps. The
  result is the hardware address of the first look at the table that finds one, with the state after
  the sleep that follows it; when none of the looks before the nine sleeps finds one, the result is 0,
  even if the answer arrived during the last sleep.
\<close>

lemma Resolve_bounded:
  assumes "IP \<noteq> IP4 0xFF 0xFF 0xFF 0xFF" "known_MAC IP (DiscoveredAddresses s) = InvalidMAC"
    and "t = Ethernet_Send InvalidMAC TYPE_ARP (ARPHeader_bytes (resolve_header IP s)) s"
  shows "((\<forall>i < 9. \<not> knows IP (polled env 9 t i)) \<longrightarrow> Resolve env IP s = (0, polled env 9 t 9)) \<and>
    (\<forall>i < 9. (\<forall>j < i. \<not> knows IP (polled env 9 t j)) \<longrightarrow> knows IP (polled env 9 t i) \<longrightarrow>
       Resolve env IP s = (MAC_ToHex (known_MAC IP (DiscoveredAddresses (polled env 9 t i))), polled env 9 t (Suc i)))"
proof -
  have "\<not> IP_eq_hex IP 0xFFFFFFFF"
    using assms(1) IP_FromHex_ToHex [of "IP4 0xFF 0xFF 0xFF 0xFF"] by (simp add: IP_eq_hex_def hex_of_broadcast)
  moreover have "MAC_ToHex (DA_MAC (Search IP (DiscoveredAddresses s))) = 0xFFFFFFFFFFFF"
    using assms(2) by (simp add: known_MAC_def hex_of_broadcast)
  moreover have "(10 :: nat) = Suc 9"
    by simp
  ultimately have "Resolve env IP s = Resolve_wait env IP (Suc 9) 0xFFFFFFFFFFFF t"
    by (simp only: Resolve_def Let_def assms(3) if_False if_True simp_thms)
  then show ?thesis
    using Resolve_wait_timeout [of 9 IP env t] Resolve_wait_answer [of _ 9 IP env t] by presburger
qed

lemma Resolve_bounded_witness:
  "fst (Resolve (\<lambda>_. id) (IP4 10 0 2 2) example_net) = 0"
proof -
  let ?t = "Ethernet_Send InvalidMAC TYPE_ARP (ARPHeader_bytes (resolve_header (IP4 10 0 2 2) example_net)) example_net"
  have e: "DiscoveredAddresses example_net = []"
    by (simp add: example_net_def open_DHCP_def UDP_Bind_def new_DHCP_def UDP_Connect_def new_stack_def Let_def)
  have u: "known_MAC (IP4 10 0 2 2) [] = InvalidMAC"
    by (simp add: known_MAC_def Search_def ManageDA_def InvalidRet_def)
  have p: "polled (\<lambda>_. id) n ?t i = ?t" for n i
    by (induction i arbitrary: n) simp_all
  have "DiscoveredAddresses ?t = []"
    by (simp add: Ethernet_Send_frame e)
  then show ?thesis
    using Resolve_bounded [of "IP4 10 0 2 2" example_net, OF _ _ refl, of "\<lambda>_. id"] by (simp add: p e u)
qed

section \<open>Where the byte orders disagree\<close>

text \<open>
  The sender of an ARP request is answered at the reverse of its hardware address: the header field
  is converted without the swap that \<^verbatim>\<open>Ethernet::Send\<close> undoes.
\<close>

lemma arp_reply_reversed:
  assumes "b16 (HardwareType (ARPHeader_at m)) = 1" "b16 (ProtocolType (ARPHeader_at m)) = TYPE_IPV4"
    and "b16 (Operation (ARPHeader_at m)) = 1" "holds m 8 (mac_octets mac)"
  shows "\<exists>rest. Sent (snd (snd (ARP_OnEthernetPacketReceived m s))) = Sent s @ [rev (mac_octets mac) @ rest]"
proof -
  have "mac_octets (MAC_FromHex (load48 m 8)) = rev (mac_octets mac)"
    using assms(4) by (cases mac) (simp add: MAC_FromHex_bytes byte_load48)
  then show ?thesis
    using assms(1-3)
    by (simp add: ARP_OnEthernetPacketReceived_def Let_def Ethernet_Send_frame arp_reply_def)
      (simp add: ARPHeader_at_def)
qed

end
