(* ===== verification/Path_Walk.thy ===== *)
theory Path_Walk
  imports Kernel_Prelude
begin

text \<open>
  The path library \<^verbatim>\<open>src/kernel/libs/cwalk.c\<close> that the virtual file system uses, in the Unix style the
  kernel selects: segments of a path, segments of several joined paths, and normalisation. A path is
  the list of the characters of a string without its terminator, and a pointer into it an offset, a
  natural number like the positions and sizes of the output. The counter of segments is an integer
  without bounds; the 32-bit counter of the code agrees with it for paths of less than \<open>2 ^ 31\<close>
  segments. The output buffer is memory of its own; the callers in the kernel never let it overlap a
  path.
\<close>

section \<open>Characters\<close>

type_synonym path = "u8 list"

definition ch :: "path \<Rightarrow> nat \<Rightarrow> u8" where
  "ch p i = (if i < length p then p ! i else 0)"

definition cwk_path_is_separator :: "path \<Rightarrow> nat \<Rightarrow> bool" where
  "cwk_path_is_separator p c \<longleftrightarrow> ch p c = 47"

function cwk_path_find_next_stop :: "path \<Rightarrow> nat \<Rightarrow> nat" where
  "cwk_path_find_next_stop p c =
     (if ch p c \<noteq> 0 \<and> \<not> cwk_path_is_separator p c then cwk_path_find_next_stop p (c + 1) else c)"
  by pat_completeness auto
termination
  by (relation "measure (\<lambda>(p, c). length p - c)") (auto simp: ch_def split: if_splits)

fun previous_stop_loop :: "path \<Rightarrow> nat \<Rightarrow> nat \<Rightarrow> nat" where
  "previous_stop_loop p start 0 = 0"
| "previous_stop_loop p start (Suc c) =
     (if Suc c > start \<and> \<not> cwk_path_is_separator p (Suc c) then previous_stop_loop p start c else Suc c)"

definition cwk_path_find_previous_stop :: "path \<Rightarrow> nat \<Rightarrow> nat \<Rightarrow> nat" where
  "cwk_path_find_previous_stop p start c =
     (let c = previous_stop_loop p start c in if cwk_path_is_separator p c then c + 1 else c)"

section \<open>Segments of one path\<close>

record cwk_segment =
  seg_path :: path
  seg_segments :: nat
  seg_begin :: nat
  seg_end :: nat
  seg_size :: nat

text \<open>\<^verbatim>\<open>while (is_separator(segments)) { ++segments; if (*segments == 0) return false; }\<close>\<close>

function skip_separators :: "path \<Rightarrow> nat \<Rightarrow> nat option" where
  "skip_separators p c =
     (if cwk_path_is_separator p c then
        if ch p (c + 1) = 0 then None else skip_separators p (c + 1)
      else Some c)"
  by pat_completeness auto
termination
  by (relation "measure (\<lambda>(p, c). length p - c)") (auto simp: ch_def cwk_path_is_separator_def split: if_splits)

definition cwk_path_get_first_segment_without_root :: "path \<Rightarrow> nat \<Rightarrow> bool \<times> cwk_segment" where
  "cwk_path_get_first_segment_without_root p segments =
     (let segment = \<lparr>seg_path = p, seg_segments = segments, seg_begin = segments, seg_end = segments, seg_size = 0\<rparr> in
      if ch p segments = 0 then (False, segment)
      else case skip_separators p segments of
        None \<Rightarrow> (False, segment)
      | Some b \<Rightarrow>
          let e = cwk_path_find_next_stop p b
          in (True, segment\<lparr>seg_begin := b, seg_size := e - b, seg_end := e\<rparr>))"

definition cwk_path_get_root :: "path \<Rightarrow> nat" where
  "cwk_path_get_root p = (if cwk_path_is_separator p 0 then 1 else 0)"

definition cwk_path_is_root_absolute :: "path \<Rightarrow> nat \<Rightarrow> bool" where
  "cwk_path_is_root_absolute p n = (if n = 0 then False else cwk_path_is_separator p (n - 1))"

definition cwk_path_is_absolute :: "path \<Rightarrow> bool" where
  "cwk_path_is_absolute p = cwk_path_is_root_absolute p (cwk_path_get_root p)"

definition cwk_path_is_relative :: "path \<Rightarrow> bool" where
  "cwk_path_is_relative p = (\<not> cwk_path_is_absolute p)"

definition cwk_path_get_first_segment :: "path \<Rightarrow> bool \<times> cwk_segment" where
  "cwk_path_get_first_segment p = cwk_path_get_first_segment_without_root p (cwk_path_get_root p)"

text \<open>\<^verbatim>\<open>do { ++c; } while (is_separator(c));\<close>\<close>

function leave_separators :: "path \<Rightarrow> nat \<Rightarrow> nat" where
  "leave_separators p c = (if cwk_path_is_separator p (c + 1) then leave_separators p (c + 1) else c + 1)"
  by pat_completeness auto
termination
  by (relation "measure (\<lambda>(p, c). length p - c)") (auto simp: ch_def cwk_path_is_separator_def split: if_splits)

definition cwk_path_get_next_segment :: "cwk_segment \<Rightarrow> bool \<times> cwk_segment" where
  "cwk_path_get_next_segment segment =
     (let p = seg_path segment; c = seg_begin segment + seg_size segment in
      if ch p c = 0 then (False, segment)
      else
        let c = leave_separators p c in
        if ch p c = 0 then (False, segment)
        else
          let e = cwk_path_find_next_stop p c
          in (True, segment\<lparr>seg_begin := c, seg_end := e, seg_size := e - c\<rparr>))"

text \<open>
  \<^verbatim>\<open>do { --c; if (c < segments) return false; } while (is_separator(c));\<close> The pointer may step in front
  of the path, so the comparison is made before the step.
\<close>

fun back_over_separators :: "path \<Rightarrow> nat \<Rightarrow> nat \<Rightarrow> nat option" where
  "back_over_separators p segments 0 = None"
| "back_over_separators p segments (Suc c) =
     (if c < segments then None
      else if cwk_path_is_separator p c then back_over_separators p segments c else Some c)"

definition cwk_path_get_previous_segment :: "cwk_segment \<Rightarrow> bool \<times> cwk_segment" where
  "cwk_path_get_previous_segment segment =
     (let p = seg_path segment; c = seg_begin segment in
      if c \<le> seg_segments segment then (False, segment)
      else case back_over_separators p (seg_segments segment) c of
        None \<Rightarrow> (False, segment)
      | Some c \<Rightarrow>
          let b = cwk_path_find_previous_stop p (seg_segments segment) c
          in (True, segment\<lparr>seg_end := c + 1, seg_begin := b, seg_size := c + 1 - b\<rparr>))"

declare cwk_path_find_next_stop.simps [simp del] skip_separators.simps [simp del] leave_separators.simps [simp del]

lemma leave_separators_gt: "c < leave_separators p c"
proof (induction p c rule: leave_separators.induct)
  case (1 p c)
  then show ?case
    by (cases "cwk_path_is_separator p (c + 1)") (simp_all add: leave_separators.simps [of p c])
qed

lemma next_segment_advances:
  assumes "cwk_path_get_next_segment s = (True, s')"
  shows "seg_path s' = seg_path s" "seg_segments s' = seg_segments s" "seg_begin s < seg_begin s'"
    "seg_begin s' < length (seg_path s)"
  using assms leave_separators_gt [of "seg_begin s + seg_size s" "seg_path s"]
  by (auto simp: cwk_path_get_next_segment_def Let_def ch_def split: if_splits)

function last_segment_loop :: "cwk_segment \<Rightarrow> cwk_segment" where
  "last_segment_loop segment =
     (case cwk_path_get_next_segment segment of
        (True, segment') \<Rightarrow> last_segment_loop segment'
      | (False, segment') \<Rightarrow> segment')"
  by pat_completeness auto
termination
proof (relation "measure (\<lambda>s. length (seg_path s) - seg_begin s)", simp)
  fix s b s'
  assume "(b, s') = cwk_path_get_next_segment s" "b = True"
  then have "cwk_path_get_next_segment s = (True, s')"
    by simp
  from next_segment_advances [OF this] show "(s', s) \<in> measure (\<lambda>s. length (seg_path s) - seg_begin s)"
    by auto
qed

declare last_segment_loop.simps [simp del]

definition cwk_path_get_last_segment_without_root :: "path \<Rightarrow> bool \<times> cwk_segment" where
  "cwk_path_get_last_segment_without_root p =
     (case cwk_path_get_first_segment_without_root p 0 of
        (False, segment) \<Rightarrow> (False, segment)
      | (True, segment) \<Rightarrow> (True, last_segment_loop segment))"

definition cwk_path_get_last_segment :: "path \<Rightarrow> bool \<times> cwk_segment" where
  "cwk_path_get_last_segment p =
     (case cwk_path_get_first_segment p of
        (False, segment) \<Rightarrow> (False, segment)
      | (True, segment) \<Rightarrow> (True, last_segment_loop segment))"

text \<open>The base name is returned as offset and length; \<open>None\<close> is the null pointer.\<close>

definition cwk_path_get_basename :: "path \<Rightarrow> (nat \<times> nat) option" where
  "cwk_path_get_basename p =
     (case cwk_path_get_last_segment p of
        (False, segment) \<Rightarrow> None
      | (True, segment) \<Rightarrow> Some (seg_begin segment, seg_size segment))"

definition cwk_path_get_dirname :: "path \<Rightarrow> nat" where
  "cwk_path_get_dirname p =
     (case cwk_path_get_last_segment p of (False, segment) \<Rightarrow> 0 | (True, segment) \<Rightarrow> seg_begin segment)"

text \<open>\<^verbatim>\<open>for (c = segment.end; c >= segment.begin; --c)\<close>, the offset of the last dot.\<close>

fun extension_loop :: "path \<Rightarrow> nat \<Rightarrow> nat \<Rightarrow> nat option" where
  "extension_loop p b 0 = (if b = 0 \<and> ch p 0 = 46 then Some 0 else None)"
| "extension_loop p b (Suc c) =
     (if Suc c < b then None else if ch p (Suc c) = 46 then Some (Suc c) else extension_loop p b c)"

definition cwk_path_get_extension :: "path \<Rightarrow> (nat \<times> nat) option" where
  "cwk_path_get_extension p =
     (case cwk_path_get_last_segment p of
        (False, segment) \<Rightarrow> None
      | (True, segment) \<Rightarrow>
          map_option (\<lambda>c. (c, seg_end segment - c)) (extension_loop p (seg_begin segment) (seg_end segment)))"

definition cwk_path_has_extension :: "path \<Rightarrow> bool" where
  "cwk_path_has_extension p = (cwk_path_get_extension p \<noteq> None)"

text \<open>\<^verbatim>\<open>strncmp(segment->begin, s, n) == 0\<close> for a literal \<open>s\<close>.\<close>

fun equal_upto :: "nat \<Rightarrow> path \<Rightarrow> nat \<Rightarrow> path \<Rightarrow> nat \<Rightarrow> bool" where
  "equal_upto 0 p i s j = True"
| "equal_upto (Suc n) p i s j =
     (if ch p i \<noteq> ch s j then False else if ch p i = 0 then True else equal_upto n p (i + 1) s (j + 1))"

datatype cwk_segment_type = CWK_NORMAL | CWK_CURRENT | CWK_BACK

definition cwk_path_get_segment_type :: "cwk_segment \<Rightarrow> cwk_segment_type" where
  "cwk_path_get_segment_type segment =
     (if equal_upto (seg_size segment) (seg_path segment) (seg_begin segment) [46] 0 then CWK_CURRENT
      else if equal_upto (seg_size segment) (seg_path segment) (seg_begin segment) [46, 46] 0 then CWK_BACK
      else CWK_NORMAL)"

section \<open>Segments of joined paths\<close>

text \<open>\<open>sj_paths\<close> holds the paths in front of the null pointer that ends the array.\<close>

record cwk_segment_joined =
  sj_segment :: cwk_segment
  sj_paths :: "path list"
  sj_path_index :: nat

text \<open>The loops over the paths that follow, and over those in front.\<close>

function first_joined_loop :: "cwk_segment_joined \<Rightarrow> bool \<times> cwk_segment_joined" where
  "first_joined_loop sj =
     (if sj_path_index sj < length (sj_paths sj) then
        case cwk_path_get_first_segment (sj_paths sj ! sj_path_index sj) of
          (True, segment) \<Rightarrow> (True, sj\<lparr>sj_segment := segment\<rparr>)
        | (False, segment) \<Rightarrow> first_joined_loop (sj\<lparr>sj_segment := segment, sj_path_index := sj_path_index sj + 1\<rparr>)
      else (False, sj))"
  by pat_completeness auto
termination
  by (relation "measure (\<lambda>sj. length (sj_paths sj) - sj_path_index sj)") auto

declare first_joined_loop.simps [simp del]

text \<open>The segment of the caller's structure is not initialised when there are no paths.\<close>

definition cwk_path_get_first_segment_joined :: "cwk_segment \<Rightarrow> path list \<Rightarrow> bool \<times> cwk_segment_joined" where
  "cwk_path_get_first_segment_joined segment paths =
     first_joined_loop \<lparr>sj_segment = segment, sj_paths = paths, sj_path_index = 0\<rparr>"

function next_path_loop :: "cwk_segment_joined \<Rightarrow> bool \<times> cwk_segment_joined" where
  "next_path_loop sj =
     (let i = sj_path_index sj + 1; sj = sj\<lparr>sj_path_index := i\<rparr> in
      if i < length (sj_paths sj) then
        case cwk_path_get_first_segment_without_root (sj_paths sj ! i) 0 of
          (True, segment) \<Rightarrow> (True, sj\<lparr>sj_segment := segment\<rparr>)
        | (False, segment) \<Rightarrow> next_path_loop (sj\<lparr>sj_segment := segment\<rparr>)
      else (False, sj))"
  by pat_completeness auto
termination
  by (relation "measure (\<lambda>sj. length (sj_paths sj) - sj_path_index sj)") auto

declare next_path_loop.simps [simp del]

definition cwk_path_get_next_segment_joined :: "cwk_segment_joined \<Rightarrow> bool \<times> cwk_segment_joined" where
  "cwk_path_get_next_segment_joined sj =
     (if sj_path_index sj \<ge> length (sj_paths sj) then (False, sj)
      else case cwk_path_get_next_segment (sj_segment sj) of
        (True, segment) \<Rightarrow> (True, sj\<lparr>sj_segment := segment\<rparr>)
      | (False, segment) \<Rightarrow> next_path_loop (sj\<lparr>sj_segment := segment\<rparr>))"

fun previous_path_loop :: "nat \<Rightarrow> cwk_segment_joined \<Rightarrow> bool \<times> cwk_segment_joined" where
  "previous_path_loop 0 sj = (False, sj)"
| "previous_path_loop (Suc i) sj =
     (let sj = sj\<lparr>sj_path_index := i\<rparr> in
      case (if i = 0 then cwk_path_get_last_segment (sj_paths sj ! i)
            else cwk_path_get_last_segment_without_root (sj_paths sj ! i)) of
        (True, segment) \<Rightarrow> (True, sj\<lparr>sj_segment := segment\<rparr>)
      | (False, segment) \<Rightarrow> previous_path_loop i (sj\<lparr>sj_segment := segment\<rparr>))"

definition cwk_path_get_previous_segment_joined :: "cwk_segment_joined \<Rightarrow> bool \<times> cwk_segment_joined" where
  "cwk_path_get_previous_segment_joined sj =
     (if sj_paths sj = [] then (False, sj)
      else case cwk_path_get_previous_segment (sj_segment sj) of
        (True, segment) \<Rightarrow> (True, sj\<lparr>sj_segment := segment\<rparr>)
      | (False, segment) \<Rightarrow> previous_path_loop (sj_path_index sj) (sj\<lparr>sj_segment := segment\<rparr>))"

text \<open>Every step forward or back is one on the position, so that the loops below end.\<close>

lemma next_path_loop_advances:
  "next_path_loop sj = (True, sj') \<Longrightarrow>
     sj_paths sj' = sj_paths sj \<and> sj_path_index sj < sj_path_index sj' \<and> sj_path_index sj' < length (sj_paths sj)"
proof (induction "length (sj_paths sj) - sj_path_index sj" arbitrary: sj rule: less_induct)
  case less
  let ?i = "Suc (sj_path_index sj)"
  obtain r seg where f: "cwk_path_get_first_segment_without_root (sj_paths sj ! ?i) 0 = (r, seg)"
    by fastforce
  show ?case
    using less.prems less.hyps [of "sj\<lparr>sj_path_index := ?i, sj_segment := seg\<rparr>"] f
    unfolding next_path_loop.simps [of sj] by (cases r) (fastforce simp: Let_def diff_less_mono2 split: if_splits)+
qed

lemma next_joined_advances:
  assumes "cwk_path_get_next_segment_joined sj = (True, sj')"
  shows "sj_paths sj' = sj_paths sj \<and> sj_path_index sj < length (sj_paths sj) \<and>
    (sj_path_index sj' = sj_path_index sj \<and> seg_path (sj_segment sj') = seg_path (sj_segment sj) \<and>
       seg_begin (sj_segment sj) < seg_begin (sj_segment sj') \<and>
       seg_begin (sj_segment sj') < length (seg_path (sj_segment sj)) \<or>
     sj_path_index sj < sj_path_index sj')"
  using assms unfolding cwk_path_get_next_segment_joined_def
  by (auto split: if_splits prod.splits bool.splits dest: next_segment_advances next_path_loop_advances)

lemma previous_stop_le: "previous_stop_loop p start c \<le> c"
  by (induction c) auto

lemma back_over_separators_Some:
  "back_over_separators p s c = Some d \<Longrightarrow> s \<le> d \<and> d < c \<and> \<not> cwk_path_is_separator p d \<and>
     (\<forall>i. d < i \<and> i < c \<longrightarrow> cwk_path_is_separator p i)"
proof (induction c)
  case (Suc c)
  then show ?case
    by (auto split: if_splits) (metis less_SucE)
qed simp

lemma find_previous_stop_le:
  "\<not> cwk_path_is_separator p c \<Longrightarrow> cwk_path_find_previous_stop p s c \<le> c"
  using previous_stop_le [of p s c] unfolding cwk_path_find_previous_stop_def Let_def
  by (metis Suc_eq_plus1 le_neq_implies_less Suc_leI)

lemma previous_segment_retreats:
  assumes "cwk_path_get_previous_segment s = (True, s')"
  shows "seg_path s' = seg_path s" "seg_begin s' < seg_begin s"
proof -
  obtain c where c: "back_over_separators (seg_path s) (seg_segments s) (seg_begin s) = Some c"
    and s': "s' = s\<lparr>seg_end := c + 1, seg_begin := cwk_path_find_previous_stop (seg_path s) (seg_segments s) c,
      seg_size := c + 1 - cwk_path_find_previous_stop (seg_path s) (seg_segments s) c\<rparr>"
    using assms by (auto simp: cwk_path_get_previous_segment_def Let_def split: if_splits option.splits)
  show "seg_path s' = seg_path s"
    by (simp add: s')
  have "c < seg_begin s" "\<not> cwk_path_is_separator (seg_path s) c"
    using back_over_separators_Some [OF c] by auto
  then show "seg_begin s' < seg_begin s"
    using find_previous_stop_le [of "seg_path s" c "seg_segments s"] by (simp add: s')
qed

lemma previous_path_loop_retreats:
  "previous_path_loop i sj = (True, sj') \<Longrightarrow> sj_paths sj' = sj_paths sj \<and> sj_path_index sj' < i"
proof (induction i arbitrary: sj)
  case (Suc i)
  show ?case
    using Suc.prems by (auto simp: Let_def split: prod.splits bool.splits if_splits dest!: Suc.IH)
qed simp

lemma previous_joined_retreats:
  assumes "cwk_path_get_previous_segment_joined sj = (True, sj')"
  shows "sj_path_index sj' = sj_path_index sj \<and> seg_begin (sj_segment sj') < seg_begin (sj_segment sj) \<or>
    sj_path_index sj' < sj_path_index sj"
  using assms unfolding cwk_path_get_previous_segment_joined_def
  by (auto split: if_splits prod.splits bool.splits dest: previous_segment_retreats previous_path_loop_retreats)

section \<open>Which segments a normalised path drops\<close>

function back_loop :: "cwk_segment_joined \<Rightarrow> int \<Rightarrow> bool" where
  "back_loop sj counter =
     (case cwk_path_get_previous_segment_joined sj of
        (False, _) \<Rightarrow> False
      | (True, sj) \<Rightarrow>
          (case cwk_path_get_segment_type (sj_segment sj) of
             CWK_NORMAL \<Rightarrow> if counter + 1 > 0 then True else back_loop sj (counter + 1)
           | CWK_BACK \<Rightarrow> back_loop sj (counter - 1)
           | CWK_CURRENT \<Rightarrow> back_loop sj counter))"
  by pat_completeness auto
termination
proof (relation "measures [\<lambda>(sj, _). sj_path_index sj, \<lambda>(sj, _). seg_begin (sj_segment sj)]", simp)
qed (use previous_joined_retreats in \<open>auto dest!: previous_joined_retreats sym [of "(_, _)"]\<close>)

declare back_loop.simps [simp del]

definition cwk_path_segment_back_will_be_removed :: "cwk_segment_joined \<Rightarrow> bool" where
  "cwk_path_segment_back_will_be_removed sj = back_loop sj 0"

function normal_loop :: "cwk_segment_joined \<Rightarrow> int \<Rightarrow> bool" where
  "normal_loop sj counter =
     (case cwk_path_get_next_segment_joined sj of
        (False, _) \<Rightarrow> False
      | (True, sj) \<Rightarrow>
          (case cwk_path_get_segment_type (sj_segment sj) of
             CWK_NORMAL \<Rightarrow> normal_loop sj (counter + 1)
           | CWK_BACK \<Rightarrow> if counter - 1 < 0 then True else normal_loop sj (counter - 1)
           | CWK_CURRENT \<Rightarrow> normal_loop sj counter))"
  by pat_completeness auto
termination
proof (relation "measures [\<lambda>(sj, _). length (sj_paths sj) - sj_path_index sj,
    \<lambda>(sj, _). length (seg_path (sj_segment sj)) - seg_begin (sj_segment sj)]", simp)
qed (auto dest!: sym [of "(_, _)"] next_joined_advances)

declare normal_loop.simps [simp del]

definition cwk_path_segment_normal_will_be_removed :: "cwk_segment_joined \<Rightarrow> bool" where
  "cwk_path_segment_normal_will_be_removed sj = normal_loop sj 0"

definition cwk_path_segment_will_be_removed :: "cwk_segment_joined \<Rightarrow> bool \<Rightarrow> bool" where
  "cwk_path_segment_will_be_removed sj absolute =
     (let type = cwk_path_get_segment_type (sj_segment sj) in
      if type = CWK_CURRENT \<or> (type = CWK_BACK \<and> absolute) then True
      else if type = CWK_BACK then cwk_path_segment_back_will_be_removed sj
      else cwk_path_segment_normal_will_be_removed sj)"

section \<open>Output\<close>

text \<open>Only as much as fits is written, but the whole length is counted.\<close>

definition cwk_path_output_sized :: "(nat \<Rightarrow> u8) \<Rightarrow> nat \<Rightarrow> nat \<Rightarrow> path \<Rightarrow> nat \<times> (nat \<Rightarrow> u8)" where
  "cwk_path_output_sized buffer buffer_size position str =
     (let amount_written =
            (if buffer_size > position + length str then length str
             else if buffer_size > position then buffer_size - position else 0)
      in (length str, \<lambda>i. if position \<le> i \<and> i < position + amount_written then str ! (i - position) else buffer i))"

definition cwk_path_terminate_output :: "(nat \<Rightarrow> u8) \<Rightarrow> nat \<Rightarrow> nat \<Rightarrow> nat \<Rightarrow> u8" where
  "cwk_path_terminate_output buffer buffer_size pos =
     (if buffer_size > 0 then
        if pos \<ge> buffer_size then buffer(buffer_size - 1 := 0) else buffer(pos := 0)
      else buffer)"

definition segment_text :: "cwk_segment \<Rightarrow> path" where
  "segment_text segment = take (seg_size segment) (drop (seg_begin segment) (seg_path segment))"

text \<open>The loop of the normalisation; \<^verbatim>\<open>continue\<close> goes to the condition at its end.\<close>

definition output_segment ::
  "(nat \<Rightarrow> u8) \<Rightarrow> nat \<Rightarrow> nat \<Rightarrow> bool \<Rightarrow> cwk_segment \<Rightarrow> nat \<times> (nat \<Rightarrow> u8)" where
  "output_segment buffer buffer_size pos has_segment_output segment =
     (let (n, buffer) = (if has_segment_output then cwk_path_output_sized buffer buffer_size pos [47] else (0, buffer));
          pos = pos + n;
          (n, buffer) = cwk_path_output_sized buffer buffer_size pos (segment_text segment)
      in (pos + n, buffer))"

function normalize_loop ::
  "bool \<Rightarrow> cwk_segment_joined \<Rightarrow> (nat \<Rightarrow> u8) \<Rightarrow> nat \<Rightarrow> nat \<Rightarrow> bool \<Rightarrow> nat \<times> (nat \<Rightarrow> u8) \<times> bool" where
  "normalize_loop absolute sj buffer buffer_size pos has_segment_output =
     (let (pos, buffer, has_segment_output) =
            (if cwk_path_segment_will_be_removed sj absolute then (pos, buffer, has_segment_output)
             else let (pos, buffer) = output_segment buffer buffer_size pos has_segment_output (sj_segment sj)
                  in (pos, buffer, True))
      in case cwk_path_get_next_segment_joined sj of
           (True, sj) \<Rightarrow> normalize_loop absolute sj buffer buffer_size pos has_segment_output
         | (False, _) \<Rightarrow> (pos, buffer, has_segment_output))"
  by pat_completeness auto
termination
proof (relation "measures [\<lambda>(_, sj, _). length (sj_paths sj) - sj_path_index sj,
    \<lambda>(_, sj, _). length (seg_path (sj_segment sj)) - seg_begin (sj_segment sj)]", simp)
qed (auto dest!: sym [of "(_, _)" "cwk_path_get_next_segment_joined _"] next_joined_advances)

declare normalize_loop.simps [simp del]

definition cwk_path_join_and_normalize_multiple ::
  "cwk_segment \<Rightarrow> path list \<Rightarrow> (nat \<Rightarrow> u8) \<Rightarrow> nat \<Rightarrow> nat \<times> (nat \<Rightarrow> u8)" where
  "cwk_path_join_and_normalize_multiple segment paths buffer buffer_size =
     (let pos = cwk_path_get_root (hd paths);
          absolute = cwk_path_is_root_absolute (hd paths) pos;
          buffer = snd (cwk_path_output_sized buffer buffer_size 0 (take pos (hd paths)))
      in case cwk_path_get_first_segment_joined segment paths of
           (False, _) \<Rightarrow> (pos, cwk_path_terminate_output buffer buffer_size pos)
         | (True, sj) \<Rightarrow>
             let (pos, buffer, has_segment_output) = normalize_loop absolute sj buffer buffer_size pos False;
                 (n, buffer) = (if \<not> has_segment_output \<and> pos = 0
                                then cwk_path_output_sized buffer buffer_size pos [46] else (0, buffer));
                 pos = pos + n
             in (pos, cwk_path_terminate_output buffer buffer_size pos))"

definition cwk_path_normalize :: "cwk_segment \<Rightarrow> path \<Rightarrow> (nat \<Rightarrow> u8) \<Rightarrow> nat \<Rightarrow> nat \<times> (nat \<Rightarrow> u8)" where
  "cwk_path_normalize segment p = cwk_path_join_and_normalize_multiple segment [p]"

definition cwk_path_join :: "cwk_segment \<Rightarrow> path \<Rightarrow> path \<Rightarrow> (nat \<Rightarrow> u8) \<Rightarrow> nat \<Rightarrow> nat \<times> (nat \<Rightarrow> u8)" where
  "cwk_path_join segment path_a path_b = cwk_path_join_and_normalize_multiple segment [path_a, path_b]"

definition cwk_path_get_absolute ::
  "cwk_segment \<Rightarrow> path \<Rightarrow> path \<Rightarrow> (nat \<Rightarrow> u8) \<Rightarrow> nat \<Rightarrow> nat \<times> (nat \<Rightarrow> u8)" where
  "cwk_path_get_absolute segment base p =
     (let root = (if cwk_path_is_absolute base then [] else [[47]]);
          paths = (if cwk_path_is_absolute p then root @ [p] else root @ [base, p])
      in cwk_path_join_and_normalize_multiple segment paths)"

section \<open>The segments of a path\<close>

text \<open>The specification: the longest runs of characters that are no separators.\<close>

function segments_of :: "path \<Rightarrow> path list" where
  "segments_of p =
     (let q = dropWhile (\<lambda>x. x = 47) p in
      if q = [] then [] else takeWhile (\<lambda>x. x \<noteq> 47) q # segments_of (dropWhile (\<lambda>x. x \<noteq> 47) q))"
  by pat_completeness auto
termination
proof (relation "measure length", simp)
  fix p q :: path
  assume q: "q = dropWhile (\<lambda>x. x = 47) p" "q \<noteq> []"
  then have "hd q \<noteq> 47"
    using hd_dropWhile [of "\<lambda>x. x = 47" p] by simp
  with q(2) have "length (dropWhile (\<lambda>x. x \<noteq> 47) q) < length q"
    by (cases q) (simp_all add: length_dropWhile_le less_Suc_eq_le)
  also have "length q \<le> length p"
    unfolding q(1) by (rule length_dropWhile_le)
  finally show "(dropWhile (\<lambda>x. x \<noteq> 47) q, p) \<in> measure length"
    by simp
qed

declare segments_of.simps [simp del]

lemma segments_of_Nil [simp]: "segments_of [] = []"
  by (simp add: segments_of.simps)

lemma segments_of_sep [simp]: "segments_of (47 # p) = segments_of p"
  by (subst segments_of.simps, subst (2) segments_of.simps) simp

lemma segments_of_text:
  assumes "x \<noteq> []" "47 \<notin> set x" "B = [] \<or> hd B = 47"
  shows "segments_of (x @ B) = x # segments_of B"
proof -
  have d: "dropWhile (\<lambda>c. c = 47) (x @ B) = x @ B"
    using assms(1,2) by (cases x) auto
  have "takeWhile (\<lambda>c. c \<noteq> 47) (x @ B) = x" "dropWhile (\<lambda>c. c \<noteq> 47) (x @ B) = B"
    using assms(2,3) by (cases B; auto simp: takeWhile_append dropWhile_append takeWhile_eq_all_conv)+
  then show ?thesis
    using assms(1) d by (simp add: segments_of.simps [of "x @ B"])
qed

lemma text_before_sep:
  "takeWhile (\<lambda>x. x \<noteq> 47) (q @ 47 # B) = takeWhile (\<lambda>x. x \<noteq> 47) (q :: path)"
  "dropWhile (\<lambda>x. x \<noteq> 47) (q @ 47 # B) = dropWhile (\<lambda>x. x \<noteq> 47) q @ 47 # B"
  by (induction q) auto

lemma segments_of_split:
  "segments_of (A @ 47 # B) = segments_of A @ segments_of B"
proof (induction A rule: segments_of.induct)
  case (1 A)
  let ?q = "dropWhile (\<lambda>x. x = 47) A"
  show ?case
  proof (cases "?q = []")
    case True
    then have "segments_of A = []" "dropWhile (\<lambda>x. x = 47) (A @ 47 # B) = dropWhile (\<lambda>x. x = 47) B"
      by (auto simp: segments_of.simps [of A] dropWhile_append)
    then show ?thesis
      by (subst segments_of.simps, subst (3) segments_of.simps) simp
  next
    case False
    then have "dropWhile (\<lambda>x. x = 47) (A @ 47 # B) = ?q @ 47 # B"
      by (auto simp: dropWhile_append dropWhile_eq_Nil_conv)
    then show ?thesis
      using False 1 text_before_sep [of ?q B]
      by (auto simp: segments_of.simps [of "A @ 47 # B"] segments_of.simps [of A] Let_def)
  qed
qed

lemma segments_of_ends:
  "A = [] \<or> last A = 47 \<Longrightarrow> segments_of (A @ B) = segments_of A @ segments_of B"
proof (cases "A = []")
  case False
  assume "A = [] \<or> last A = 47"
  then obtain A' where "A = A' @ [47]"
    using False by (metis append_butlast_last_id)
  then show ?thesis
    using segments_of_split [of A' B] segments_of_split [of A' "[]"] by simp
qed simp

lemma segments_of_starts:
  "B = [] \<or> hd B = 47 \<Longrightarrow> segments_of (A @ B) = segments_of A @ segments_of B"
  using segments_of_split [of A "tl B"] by (cases B) auto

lemma segments_of_separators: "set A \<subseteq> {47} \<Longrightarrow> segments_of A = []"
  by (induction A) auto

lemma segments_of_Nil_iff: "segments_of p = [] \<longleftrightarrow> set p \<subseteq> {47}"
  by (auto simp: segments_of_separators)
    (auto simp: segments_of.simps [of p] Let_def dropWhile_eq_Nil_conv split: if_splits)

text \<open>The loops of the code on the text that follows the offset.\<close>

lemma ch_drop: "drop c p = B \<Longrightarrow> ch p c = (if B = [] then 0 else hd B)"
  by (auto simp: ch_def hd_drop_conv_nth)

lemma drop_Suc_tl: "drop c p = B \<Longrightarrow> drop (Suc c) p = tl B"
  by (simp add: drop_Suc flip: tl_drop)

lemma next_stop_value:
  "0 \<notin> set p \<Longrightarrow> drop c p = x @ B \<Longrightarrow> 47 \<notin> set x \<Longrightarrow> B = [] \<or> hd B = 47 \<Longrightarrow>
     cwk_path_find_next_stop p c = c + length x"
proof (induction x arbitrary: c)
  case Nil
  then have "ch p c = 0 \<or> ch p c = 47"
    using ch_drop [of c p B] by auto
  then show ?case
    by (auto simp: cwk_path_find_next_stop.simps [of p c] cwk_path_is_separator_def)
next
  case (Cons a x)
  have "a \<in> set p"
    using Cons.prems(2) by (metis append_Cons list.set_intros(1) in_set_dropD)
  then have "ch p c \<noteq> 0" "ch p c \<noteq> 47"
    using Cons.prems ch_drop [of c p "a # x @ B"] by auto
  moreover have "drop (c + 1) p = x @ B"
    using drop_Suc_tl [OF Cons.prems(2)] by simp
  ultimately show ?case
    using Cons.IH [of "c + 1"] Cons.prems by (simp add: cwk_path_find_next_stop.simps [of p c] cwk_path_is_separator_def)
qed

lemma leave_separators_value:
  "drop (c + 1) p = z @ B \<Longrightarrow> set z \<subseteq> {47} \<Longrightarrow> B = [] \<or> hd B \<noteq> 47 \<Longrightarrow>
     leave_separators p c = c + 1 + length z"
proof (induction z arbitrary: c)
  case Nil
  then have "ch p (c + 1) \<noteq> 47"
    using ch_drop [of "c + 1" p B] by auto
  then show ?case
    by (simp add: leave_separators.simps [of p c] cwk_path_is_separator_def)
next
  case (Cons a z)
  have "ch p (c + 1) = 47" "drop (c + 1 + 1) p = z @ B"
    using Cons.prems ch_drop [of "c + 1" p "a # z @ B"] drop_Suc_tl [of "c + 1" p "a # z @ B"] by auto
  then show ?case
    using Cons.IH [of "c + 1"] Cons.prems by (simp add: leave_separators.simps [of p c] cwk_path_is_separator_def)
qed

lemma skip_separators_value:
  "drop c p = z @ B \<Longrightarrow> set z \<subseteq> {47} \<Longrightarrow> B = [] \<or> hd B \<noteq> 47 \<Longrightarrow> 0 \<notin> set p \<Longrightarrow> z @ B \<noteq> [] \<Longrightarrow>
     skip_separators p c = (if B = [] then None else Some (c + length z))"
proof (induction z arbitrary: c)
  case Nil
  then show ?case
    using ch_drop [of c p B] by (simp add: skip_separators.simps [of p c] cwk_path_is_separator_def)
next
  case (Cons a z)
  have c: "ch p c = 47" "drop (c + 1) p = z @ B"
    using Cons.prems ch_drop [of c p "a # z @ B"] drop_Suc_tl [of c p "a # z @ B"] by auto
  show ?case
  proof (cases "z @ B = []")
    case True
    then show ?thesis
      using c ch_drop [OF c(2)] by (simp add: skip_separators.simps [of p c] cwk_path_is_separator_def)
  next
    case False
    have "hd (z @ B) \<in> set p"
      using False c(2) by (metis hd_in_set in_set_dropD)
    then have "ch p (c + 1) \<noteq> 0"
      using False ch_drop [OF c(2)] Cons.prems(4) by auto
    then show ?thesis
      using Cons.IH [OF c(2)] Cons.prems False c(1)
      by (simp add: skip_separators.simps [of p c] cwk_path_is_separator_def)
  qed
qed

lemma ch_in: "take (length A) (drop o' p) = A \<Longrightarrow> i < length A \<Longrightarrow> ch p (o' + i) = A ! i"
proof -
  assume t: "take (length A) (drop o' p) = A" and i: "i < length A"
  have "length A \<le> length p - o'"
    using arg_cong [OF t, of length] by simp
  then have "o' + i < length p"
    using i by linarith
  moreover have "A ! i = p ! (o' + i)"
    using i \<open>length A \<le> length p - o'\<close> by (subst t [symmetric]) simp
  ultimately show ?thesis
    by (simp add: ch_def)
qed

lemma ch_last:
  "take (length (A @ x)) (drop o' p) = A @ x \<Longrightarrow> A \<noteq> [] \<Longrightarrow> ch p (o' + (length A - 1)) = last A"
  using ch_in [of "A @ x" o' p "length A - 1"] by (cases A rule: rev_cases) (simp_all add: nth_append)

text \<open>Going back: in front of the offset there are the text \<open>A\<close> and separators \<open>z\<close>.\<close>

lemma back_over_separators_value:
  "n = o' + length A + length z \<Longrightarrow> take (length A + length z) (drop o' p) = A @ z \<Longrightarrow> set z \<subseteq> {47} \<Longrightarrow>
     A = [] \<or> last A \<noteq> 47 \<Longrightarrow>
     back_over_separators p o' n = (if A = [] then None else Some (o' + length A - 1))"
proof (induction z arbitrary: n rule: rev_induct)
  case Nil
  show ?case
  proof (cases "A = []")
    case True
    then show ?thesis
      using Nil.prems(1) by (cases o') simp_all
  next
    case False
    then obtain m where n: "n = Suc m" and m: "m = o' + length A - 1"
      using Nil.prems(1) by (cases n) auto
    have "ch p m = last A"
      using ch_last [of A "[]" o' p] Nil.prems(2) False by (cases A) (simp_all add: m)
    then have "\<not> cwk_path_is_separator p m"
      using False Nil.prems(4) by (simp only: cwk_path_is_separator_def) simp
    moreover have "o' \<le> m"
      using False by (cases A) (simp_all add: m)
    ultimately have "back_over_separators p o' (Suc m) = Some m"
      by simp
    then show ?thesis
      using False by (simp only: n m if_False)
  qed
next
  case (snoc a z)
  obtain m where n: "n = Suc m" and m: "m = o' + length A + length z"
    using snoc.prems(1) by (cases n) auto
  have l: "Suc (length A + length z) \<le> length (drop o' p)"
    using arg_cong [OF snoc.prems(2), of length] by simp
  have "A @ z @ [a] = take (Suc (length A + length z)) (drop o' p)"
    using snoc.prems(2) by simp
  also have "\<dots> = take (length A + length z) (drop o' p) @ [p ! m]"
    using l by (simp add: take_Suc_conv_app_nth m add.assoc)
  finally have t: "take (length A + length z) (drop o' p) = A @ z" "p ! m = a"
    by (simp_all flip: append_assoc)
  have "ch p m = 47"
    using t(2) snoc.prems(3) l by (auto simp: ch_def m)
  then show ?case
    using snoc.IH [OF m t(1) _ snoc.prems(4)] snoc.prems(3) m by (simp add: n cwk_path_is_separator_def)
qed

lemma previous_stop_value:
  assumes t: "take (length (A @ x)) (drop o' p) = A @ x" and x: "47 \<notin> set x" and A: "A = [] \<or> last A = 47"
  shows "k < length x \<Longrightarrow> previous_stop_loop p o' (o' + length A + k) =
    (if A = [] then o' else o' + length A - 1)"
proof (induction k)
  case 0
  have n: "\<not> cwk_path_is_separator p (o' + length A)"
    using ch_in [OF t, of "length A"] x 0 by (cases x) (auto simp: cwk_path_is_separator_def nth_append)
  show ?case
  proof (cases "A = []")
    case True
    then show ?thesis
      by (cases o') simp_all
  next
    case False
    then have "ch p (o' + (length A - 1)) = 47"
      using ch_last [OF t] A by simp
    moreover obtain c where c: "o' + length A = Suc c" "c = o' + (length A - 1)"
      using False by (cases A) auto
    ultimately have "cwk_path_is_separator p c"
      by (simp only: cwk_path_is_separator_def)
    then have "previous_stop_loop p o' c = c"
      by (cases c) simp_all
    moreover have "o' < Suc c"
      unfolding c(1) [symmetric] using False by (cases A) simp_all
    ultimately have "previous_stop_loop p o' (Suc c) = c"
      using n unfolding c(1) by simp
    then show ?thesis
      using False unfolding add_0_right c(1) by (simp only: if_False diff_Suc_1)
  qed
next
  case (Suc k)
  have "ch p (Suc (o' + length A + k)) = x ! Suc k"
    using ch_in [OF t, of "length A + Suc k"] Suc.prems by (simp add: nth_append add.assoc)
  then have "\<not> cwk_path_is_separator p (Suc (o' + length A + k))"
    using x Suc.prems by (metis nth_mem cwk_path_is_separator_def)
  then show ?case
    using Suc by simp
qed

lemma find_previous_stop_value:
  assumes t: "take (length (A @ x)) (drop o' p) = A @ x" and x: "47 \<notin> set x" "x \<noteq> []" and A: "A = [] \<or> last A = 47"
  shows "cwk_path_find_previous_stop p o' (o' + length (A @ x) - 1) = o' + length A"
proof -
  have "o' + length (A @ x) - 1 = o' + length A + (length x - 1)"
    using x(2) by (cases x) simp_all
  then have l: "previous_stop_loop p o' (o' + length (A @ x) - 1) = (if A = [] then o' else o' + length A - 1)"
    using previous_stop_value [OF t x(1) A, of "length x - 1"] x(2) by simp
  show ?thesis
  proof (cases "A = []")
    case True
    then have "ch p o' = x ! 0"
      using ch_in [OF t, of 0] x(2) by simp
    then have "\<not> cwk_path_is_separator p o'"
      using x by (cases x) (auto simp: cwk_path_is_separator_def)
    then show ?thesis
      using l True by (simp add: cwk_path_find_previous_stop_def)
  next
    case False
    then have "ch p (o' + (length A - 1)) = 47"
      using ch_last [OF t] A by simp
    then show ?thesis
      using l False by (cases A) (simp_all add: cwk_path_find_previous_stop_def cwk_path_is_separator_def)
  qed
qed

section \<open>Walking over the segments\<close>

text \<open>
  A segment structure stands on the text \<open>x\<close>: behind the offset \<open>o'\<close> the path is \<open>A @ x @ B\<close> with a
  boundary on each side.
\<close>

definition stands :: "path \<Rightarrow> nat \<Rightarrow> cwk_segment \<Rightarrow> path list \<Rightarrow> path \<Rightarrow> path list \<Rightarrow> bool" where
  "stands p o' s pre x post \<longleftrightarrow> 0 \<notin> set p \<and> seg_path s = p \<and> seg_segments s = o' \<and>
     (\<exists>A B. drop o' p = A @ x @ B \<and> (A = [] \<or> last A = 47) \<and> (B = [] \<or> hd B = 47) \<and>
        pre = segments_of A \<and> post = segments_of B \<and> x \<noteq> [] \<and> 47 \<notin> set x \<and>
        seg_begin s = o' + length A \<and> seg_size s = length x)"

lemma standsI:
  assumes "0 \<notin> set p" "seg_path s = p" "seg_segments s = o'" "drop o' p = A @ x @ B" "A = [] \<or> last A = 47"
    "B = [] \<or> hd B = 47" "x \<noteq> []" "47 \<notin> set x" "seg_begin s = o' + length A" "seg_size s = length x"
    "pre = segments_of A" "post = segments_of B"
  shows "stands p o' s pre x post"
  using assms unfolding stands_def by blast

lemma stands_text: "stands p o' s pre x post \<Longrightarrow> segment_text s = x"
proof -
  assume "stands p o' s pre x post"
  then obtain A B where a: "drop o' p = A @ x @ B" "seg_begin s = o' + length A" "seg_size s = length x" "seg_path s = p"
    by (auto simp: stands_def)
  have "drop (o' + length A) p = x @ B"
    using arg_cong [OF a(1), of "drop (length A)"] by (simp add: add.commute)
  then show ?thesis
    by (simp add: segment_text_def a)
qed

lemma separators_then_text:
  fixes B :: path
  obtains z x C where "B = z @ x @ C" "set z \<subseteq> {47}" "47 \<notin> set x" "C = [] \<or> hd C = 47"
    "x = [] \<longrightarrow> C = []"
proof (rule that)
  let ?z = "takeWhile (\<lambda>c. c = 47) B" and ?r = "dropWhile (\<lambda>c. c = 47) B"
  let ?x = "takeWhile (\<lambda>c. c \<noteq> 47) ?r" and ?C = "dropWhile (\<lambda>c. c \<noteq> 47) ?r"
  show "B = ?z @ ?x @ ?C"
    by simp
  show "set ?z \<subseteq> {47}" "47 \<notin> set ?x"
    by (auto dest: set_takeWhileD)
  have r: "?r = [] \<or> hd ?r \<noteq> 47"
    using hd_dropWhile [of "\<lambda>c. c = 47" B] by blast
  show "?C = [] \<or> hd ?C = 47"
    using hd_dropWhile [of "\<lambda>c. c \<noteq> 47" ?r] by blast
  have "takeWhile (\<lambda>c. c \<noteq> 47) r = [] \<longrightarrow> dropWhile (\<lambda>c. c \<noteq> 47) r = []" if "r = [] \<or> hd r \<noteq> 47" for r :: path
    using that by (cases r) auto
  then show "?x = [] \<longrightarrow> ?C = []"
    using r by blast
qed

lemma segments_of_skip: "set z \<subseteq> {47} \<Longrightarrow> segments_of (z @ w) = segments_of w"
  by (induction z) auto

lemma drop_split: "drop o' p = A @ R \<Longrightarrow> drop (o' + length A) p = R"
  by (metis add.commute append_eq_conv_conj drop_drop)

lemma next_stands:
  assumes "stands p o' s pre x post"
  shows "case post of [] \<Rightarrow> cwk_path_get_next_segment s = (False, s)
    | y # ys \<Rightarrow> \<exists>s'. cwk_path_get_next_segment s = (True, s') \<and> stands p o' s' (pre @ [x]) y ys"
proof -
  obtain A B where s: "0 \<notin> set p" "seg_path s = p" "seg_segments s = o'" "drop o' p = A @ x @ B" "A = [] \<or> last A = 47"
    "B = [] \<or> hd B = 47" "pre = segments_of A" "post = segments_of B" "x \<noteq> []" "47 \<notin> set x"
    "seg_begin s = o' + length A" "seg_size s = length x"
    using assms by (auto simp: stands_def)
  let ?c = "o' + length A + length x"
  have c: "drop ?c p = B"
    using drop_split [OF s(4)] drop_split [of "o' + length A" p x B] by simp
  show ?thesis
  proof (cases B)
    case Nil
    then show ?thesis
      using ch_drop [OF c] s by (simp add: cwk_path_get_next_segment_def)
  next
    case (Cons b B')
    then have b: "b = 47" "ch p ?c = 47" "drop (?c + 1) p = B'"
      using s(6) ch_drop [OF c] drop_Suc_tl [OF c] by auto
    obtain z y C where z: "B' = z @ y @ C" "set z \<subseteq> {47}" "47 \<notin> set y" "C = [] \<or> hd C = 47" "y = [] \<longrightarrow> C = []"
      by (rule separators_then_text [of B'])
    let ?d = "?c + 1 + length z"
    have h: "y @ C = [] \<or> hd (y @ C) \<noteq> 47"
      using z(3,5) by (cases y) simp_all
    have bz: "drop (?c + 1) p = z @ y @ C"
      using b(3) z(1) by (rule trans)
    have d: "leave_separators p ?c = ?d"
      by (rule leave_separators_value [OF bz z(2) h])
    have dd: "drop ?d p = y @ C"
      by (rule drop_split [OF bz])
    have post: "post = segments_of (y @ C)"
      by (simp add: s(8) Cons b(1) z(1) segments_of_skip [OF z(2)])
    show ?thesis
    proof (cases "y = []")
      case True
      then show ?thesis
        using ch_drop [OF dd] d b(2) z(5) post s(2,11,12) by (simp add: cwk_path_get_next_segment_def)
    next
      case False
      have "hd y \<in> set p"
        using dd False by (metis append_is_Nil_conv hd_append2 hd_in_set in_set_dropD)
      then have nz: "ch p ?d \<noteq> 0"
        using ch_drop [OF dd] False s(1) by auto
      have e: "cwk_path_find_next_stop p ?d = ?d + length y"
        using dd z(3,4) s(1) by (intro next_stop_value)
      let ?s = "s\<lparr>seg_begin := ?d, seg_end := ?d + length y, seg_size := length y\<rparr>"
      have "cwk_path_get_next_segment s = (True, ?s)"
        using d e nz b(2) s(2,11,12) by (simp add: cwk_path_get_next_segment_def Let_def)
      moreover have "stands p o' ?s (pre @ [x]) y (segments_of C)"
      proof (rule standsI [where A = "A @ x @ 47 # z" and B = C])
        show "A @ x @ 47 # z = [] \<or> last (A @ x @ 47 # z) = 47"
          using z(2) by (cases z rule: rev_cases) auto
        show "pre @ [x] = segments_of (A @ x @ 47 # z)"
          using segments_of_ends [OF s(5), of "x @ 47 # z"] segments_of_text [OF s(9,10), of "47 # z"] z(2)
          by (simp add: s(7) segments_of_separators)
      qed (use s z False Cons b(1) in simp_all)
      moreover have "post = y # segments_of C"
        using segments_of_text [OF False z(3,4)] post by simp
      ultimately show ?thesis
        by auto
    qed
  qed
qed

lemma text_then_separators:
  fixes A :: path
  assumes "A = [] \<or> last A = 47"
  obtains D y z where "A = D @ y @ z" "set z \<subseteq> {47}" "47 \<notin> set y" "D = [] \<or> last D = 47" "y = [] \<longrightarrow> D = []"
    "y \<noteq> [] \<longrightarrow> z \<noteq> []"
proof -
  obtain z x C where a: "rev A = z @ x @ C" "set z \<subseteq> {47}" "47 \<notin> set x" "C = [] \<or> hd C = 47" "x = [] \<longrightarrow> C = []"
    by (rule separators_then_text [of "rev A"])
  have "z \<noteq> []" if "x \<noteq> []"
  proof
    assume "z = []"
    then have "last A = hd x" "A \<noteq> []"
      using a(1) that by (cases x; simp add: last_rev flip: hd_rev)+
    then show False
      using assms a(3) that by (cases x) auto
  qed
  moreover have "A = rev C @ rev x @ rev z"
    using arg_cong [OF a(1), of rev] by simp
  ultimately show ?thesis
    using a by (intro that [of "rev C" "rev x" "rev z"]) (auto simp: last_rev)
qed

lemma previous_stands:
  assumes "stands p o' s pre x post"
  shows "(pre = [] \<longrightarrow> cwk_path_get_previous_segment s = (False, s)) \<and>
    (\<forall>ys y. pre = ys @ [y] \<longrightarrow>
      (\<exists>s'. cwk_path_get_previous_segment s = (True, s') \<and> stands p o' s' ys y (x # post)))"
proof -
  obtain A B where s: "0 \<notin> set p" "seg_path s = p" "seg_segments s = o'" "drop o' p = A @ x @ B" "A = [] \<or> last A = 47"
    "B = [] \<or> hd B = 47" "pre = segments_of A" "post = segments_of B" "x \<noteq> []" "47 \<notin> set x"
    "seg_begin s = o' + length A" "seg_size s = length x"
    using assms by (auto simp: stands_def)
  obtain D y z where a: "A = D @ y @ z" "set z \<subseteq> {47}" "47 \<notin> set y" "D = [] \<or> last D = 47" "y = [] \<longrightarrow> D = []"
    "y \<noteq> [] \<longrightarrow> z \<noteq> []"
    by (rule text_then_separators [OF s(5)])
  have z: "z = [] \<or> hd z = 47"
    using a(2) by (cases z) auto
  have l: "D @ y = [] \<or> last (D @ y) \<noteq> 47"
    using a(3,5) by (cases y rule: rev_cases) auto
  have b: "back_over_separators p o' (o' + length A) = (if D @ y = [] then None else Some (o' + length (D @ y) - 1))"
    by (rule back_over_separators_value [OF _ _ a(2) l]) (simp_all add: a(1) s(4) add.assoc)
  show ?thesis
  proof (cases "y = []")
    case True
    then have "pre = []" "D @ y = []"
      using a(5) segments_of_separators [OF a(2)] by (simp_all add: s(7) a(1))
    then show ?thesis
      using b s(2,3,11) by (auto simp: cwk_path_get_previous_segment_def Let_def)
  next
    case False
    have t: "take (length (D @ y)) (drop o' p) = D @ y"
      by (simp add: s(4) a(1))
    let ?s = "s\<lparr>seg_end := o' + length (D @ y), seg_begin := o' + length D, seg_size := length y\<rparr>"
    have "o' < o' + length A" "o' + length (D @ y) - 1 + 1 = o' + length (D @ y)"
      using False by (cases y; simp add: a(1))+
    then have "cwk_path_get_previous_segment s = (True, ?s)"
      using False b find_previous_stop_value [OF t a(3) False a(4)] s(2,3,11)
      by (simp add: cwk_path_get_previous_segment_def Let_def)
    moreover have p: "pre = segments_of D @ [y]"
      using segments_of_ends [OF a(4), of "y @ z"] segments_of_text [OF False a(3) z] segments_of_separators [OF a(2)]
      by (simp add: s(7) a(1))
    moreover have "stands p o' ?s (segments_of D) y (x # post)"
    proof (rule standsI [where A = D and B = "z @ x @ B"])
      show "z @ x @ B = [] \<or> hd (z @ x @ B) = 47"
        using a(6) False z by (cases z) auto
      show "x # post = segments_of (z @ x @ B)"
        using segments_of_skip [OF a(2)] segments_of_text [OF s(9,10,6)] s(8) by simp
    qed (use s a False in simp_all)
    ultimately show ?thesis
      by auto
  qed
qed

lemma first_stands:
  assumes "0 \<notin> set p"
  shows "case segments_of (drop o' p) of [] \<Rightarrow> \<not> fst (cwk_path_get_first_segment_without_root p o')
    | y # ys \<Rightarrow> \<exists>s. cwk_path_get_first_segment_without_root p o' = (True, s) \<and> stands p o' s [] y ys"
proof -
  obtain z y C where a: "drop o' p = z @ y @ C" "set z \<subseteq> {47}" "47 \<notin> set y" "C = [] \<or> hd C = 47" "y = [] \<longrightarrow> C = []"
    by (rule separators_then_text [of "drop o' p"])
  have h: "y @ C = [] \<or> hd (y @ C) \<noteq> 47"
    using a(3,5) by (cases y) simp_all
  have seg: "segments_of (drop o' p) = segments_of (y @ C)"
    by (simp add: a(1) segments_of_skip [OF a(2)])
  show ?thesis
  proof (cases "z @ y @ C = []")
    case True
    then show ?thesis
      using seg ch_drop [OF a(1)] by (simp add: cwk_path_get_first_segment_without_root_def Let_def)
  next
    case False
    have "hd (z @ y @ C) \<in> set p"
      using False a(1) by (metis hd_in_set in_set_dropD)
    then have nz: "ch p o' \<noteq> 0"
      using False ch_drop [OF a(1)] assms by auto
    have sk: "skip_separators p o' = (if y @ C = [] then None else Some (o' + length z))"
      by (rule skip_separators_value [OF a(1) a(2) h assms False])
    show ?thesis
    proof (cases "y = []")
      case True
      then show ?thesis
        using seg nz sk a(5) by (simp add: cwk_path_get_first_segment_without_root_def Let_def)
    next
      case y: False
      have e: "cwk_path_find_next_stop p (o' + length z) = o' + length z + length y"
        by (rule next_stop_value [OF assms drop_split [OF a(1)] a(3,4)])
      let ?s = "\<lparr>seg_path = p, seg_segments = o', seg_begin = o' + length z, seg_end = o' + length z + length y,
        seg_size = length y\<rparr>"
      have "cwk_path_get_first_segment_without_root p o' = (True, ?s)"
        using nz sk e y by (simp add: cwk_path_get_first_segment_without_root_def Let_def)
      moreover have "stands p o' ?s [] y (segments_of C)"
      proof (rule standsI [where A = z and B = C])
        show "z = [] \<or> last z = 47"
          using a(2) by (cases z rule: rev_cases) auto
      qed (use assms a y segments_of_separators in simp_all)
      ultimately show ?thesis
        using seg segments_of_text [OF y a(3,4)] by simp
    qed
  qed
qed

lemma last_stands:
  "stands p o' s pre x post \<Longrightarrow>
     stands p o' (last_segment_loop s) (butlast (pre @ x # post)) (last (x # post)) []"
proof (induction post arbitrary: s pre x)
  case Nil
  then show ?case
    using next_stands [OF Nil] by (simp add: last_segment_loop.simps [of s])
next
  case (Cons y ys)
  obtain s' where s': "cwk_path_get_next_segment s = (True, s')" "stands p o' s' (pre @ [x]) y ys"
    using next_stands [OF Cons.prems] by auto
  show ?case
    using Cons.IH [OF s'(2)] s'(1) by (simp add: last_segment_loop.simps [of s])
qed

lemma segments_of_root: "segments_of (drop (cwk_path_get_root p) p) = segments_of p"
  by (cases p) (auto simp: cwk_path_get_root_def cwk_path_is_separator_def ch_def)

section \<open>Walking over joined paths\<close>

definition start :: "path list \<Rightarrow> nat \<Rightarrow> nat" where
  "start paths i = (if i = 0 then cwk_path_get_root (paths ! 0) else 0)"

abbreviation all_segments :: "path list \<Rightarrow> path list" where
  "all_segments paths \<equiv> concat (map segments_of paths)"

definition jstands :: "path list \<Rightarrow> cwk_segment_joined \<Rightarrow> path list \<Rightarrow> path \<Rightarrow> path list \<Rightarrow> bool" where
  "jstands paths sj pre x post \<longleftrightarrow> (\<forall>p \<in> set paths. 0 \<notin> set p) \<and> sj_paths sj = paths \<and>
     sj_path_index sj < length paths \<and>
     (\<exists>o' a b. stands (paths ! sj_path_index sj) o' (sj_segment sj) a x b \<and>
        segments_of (drop o' (paths ! sj_path_index sj)) = segments_of (paths ! sj_path_index sj) \<and>
        pre = all_segments (take (sj_path_index sj) paths) @ a \<and>
        post = b @ all_segments (drop (Suc (sj_path_index sj)) paths))"

lemma stands_all: "stands p o' s a x b \<Longrightarrow> segments_of (drop o' p) = a @ x # b"
proof -
  assume "stands p o' s a x b"
  then obtain A B where s: "drop o' p = A @ x @ B" "A = [] \<or> last A = 47" "B = [] \<or> hd B = 47"
    "a = segments_of A" "b = segments_of B" "x \<noteq> []" "47 \<notin> set x"
    by (auto simp: stands_def)
  then show ?thesis
    using segments_of_ends [OF s(2), of "x @ B"] segments_of_text [OF s(6,7,3)] by simp
qed

lemma segments_of_start: "i < length paths \<Longrightarrow> segments_of (drop (start paths i) (paths ! i)) = segments_of (paths ! i)"
  by (simp add: start_def segments_of_root)

lemma jstands_all: "jstands paths sj pre x post \<Longrightarrow> all_segments paths = pre @ x # post"
proof -
  let ?i = "sj_path_index sj"
  assume "jstands paths sj pre x post"
  then obtain o' a b where s: "stands (paths ! ?i) o' (sj_segment sj) a x b" "?i < length paths"
    "pre = all_segments (take ?i paths) @ a" "post = b @ all_segments (drop (Suc ?i) paths)"
    and o': "segments_of (drop o' (paths ! ?i)) = segments_of (paths ! ?i)"
    by (auto simp: jstands_def)
  have "all_segments paths = all_segments (take ?i paths @ paths ! ?i # drop (Suc ?i) paths)"
    using s(2) by (simp add: id_take_nth_drop [symmetric])
  then show ?thesis
    using stands_all [OF s(1)] o' s(3,4) by simp
qed

lemma next_path_value:
  assumes "\<forall>p \<in> set paths. 0 \<notin> set p" "sj_paths sj = paths" "sj_path_index sj < length paths"
  shows "case all_segments (drop (Suc (sj_path_index sj)) paths) of
      [] \<Rightarrow> \<not> fst (next_path_loop sj)
    | y # ys \<Rightarrow> \<exists>sj'. next_path_loop sj = (True, sj') \<and>
        jstands paths sj' (all_segments (take (Suc (sj_path_index sj)) paths)) y ys"
  using assms
proof (induction "length paths - sj_path_index sj" arbitrary: sj rule: less_induct)
  case less
  let ?i = "Suc (sj_path_index sj)"
  show ?case
  proof (cases "?i < length paths")
    case False
    then show ?thesis
      using less.prems(2) by (simp add: next_path_loop.simps [of sj] Let_def)
  next
    case True
    let ?p = "paths ! ?i"
    have d: "drop ?i paths = ?p # drop (Suc ?i) paths"
      using True by (simp add: Cons_nth_drop_Suc)
    have p0: "0 \<notin> set ?p"
      using less.prems(1) True by simp
    note f = first_stands [OF p0, of 0]
    show ?thesis
    proof (cases "segments_of ?p")
      case Nil
      then obtain seg where n: "cwk_path_get_first_segment_without_root ?p 0 = (False, seg)"
        using f by (cases "cwk_path_get_first_segment_without_root ?p 0") auto
      let ?sj = "sj\<lparr>sj_path_index := ?i, sj_segment := seg\<rparr>"
      have "next_path_loop sj = next_path_loop ?sj"
        using n True less.prems(2) by (simp add: next_path_loop.simps [of sj] Let_def)
      moreover have "all_segments (take (Suc ?i) paths) = all_segments (take ?i paths)"
        using True Nil by (simp add: take_Suc_conv_app_nth)
      ultimately show ?thesis
        using less.hyps [of ?sj] less.prems True Nil d
        by (simp add: diff_less_mono2 cong: list.case_cong)
    next
      case (Cons y b)
      then obtain seg where n: "cwk_path_get_first_segment_without_root ?p 0 = (True, seg)" "stands ?p 0 seg [] y b"
        using f by auto
      let ?sj = "sj\<lparr>sj_path_index := ?i, sj_segment := seg\<rparr>"
      have "next_path_loop sj = (True, ?sj)"
        using n True less.prems(2) by (simp add: next_path_loop.simps [of sj] Let_def)
      moreover have "jstands paths ?sj (all_segments (take ?i paths)) y (b @ all_segments (drop (Suc ?i) paths))"
        using n(2) less.prems True by (auto simp: jstands_def start_def)
      ultimately show ?thesis
        using Cons d by simp
    qed
  qed
qed

lemma next_joined_stands:
  assumes "jstands paths sj pre x post"
  shows "case post of [] \<Rightarrow> \<not> fst (cwk_path_get_next_segment_joined sj)
    | y # ys \<Rightarrow> \<exists>sj'. cwk_path_get_next_segment_joined sj = (True, sj') \<and> jstands paths sj' (pre @ [x]) y ys"
proof -
  let ?i = "sj_path_index sj"
  obtain o' a b where s: "stands (paths ! ?i) o' (sj_segment sj) a x b" "?i < length paths"
    "pre = all_segments (take ?i paths) @ a" "post = b @ all_segments (drop (Suc ?i) paths)"
    "\<forall>p \<in> set paths. 0 \<notin> set p" "sj_paths sj = paths"
    and o': "segments_of (drop o' (paths ! ?i)) = segments_of (paths ! ?i)"
    using assms by (auto simp: jstands_def)
  show ?thesis
  proof (cases b)
    case Nil
    have "all_segments (take (Suc ?i) paths) = pre @ [x]"
      using stands_all [OF s(1)] o' s(2,3) Nil by (simp add: take_Suc_conv_app_nth)
    moreover have "cwk_path_get_next_segment_joined sj = next_path_loop sj"
      using next_stands [OF s(1)] Nil s(2,6) by (simp add: cwk_path_get_next_segment_joined_def)
    ultimately show ?thesis
      using next_path_value [OF s(5,6,2)] s(4) Nil by (simp cong: list.case_cong)
  next
    case (Cons y ys)
    then obtain seg where n: "cwk_path_get_next_segment (sj_segment sj) = (True, seg)"
      "stands (paths ! ?i) o' seg (a @ [x]) y ys"
      using next_stands [OF s(1)] by auto
    have "jstands paths (sj\<lparr>sj_segment := seg\<rparr>) (pre @ [x]) y (ys @ all_segments (drop (Suc ?i) paths))"
      using n(2) s o' by (auto simp: jstands_def)
    then show ?thesis
      using n(1) s(2,4,6) Cons by (auto simp: cwk_path_get_next_segment_joined_def)
  qed
qed

lemma last_of_path:
  assumes "i < length paths" "0 \<notin> set (paths ! i)"
  defines "f \<equiv> (if i = 0 then cwk_path_get_last_segment (paths ! i) else cwk_path_get_last_segment_without_root (paths ! i))"
  shows "(segments_of (paths ! i) = [] \<longrightarrow> \<not> fst f) \<and>
    (\<forall>ys y. segments_of (paths ! i) = ys @ [y] \<longrightarrow> (\<exists>s. f = (True, s) \<and> stands (paths ! i) (start paths i) s ys y []))"
proof -
  let ?f = "cwk_path_get_first_segment_without_root (paths ! i) (start paths i)"
  have f: "f = (case ?f of (False, segment) \<Rightarrow> (False, segment) | (True, segment) \<Rightarrow> (True, last_segment_loop segment))"
    by (simp add: f_def start_def cwk_path_get_last_segment_def cwk_path_get_first_segment_def
        cwk_path_get_last_segment_without_root_def)
  note fs = first_stands [OF assms(2), of "start paths i", unfolded segments_of_start [OF assms(1)]]
  show ?thesis
  proof (cases "segments_of (paths ! i)")
    case Nil
    then show ?thesis
      using fs f by (cases ?f) (auto split: bool.splits)
  next
    case (Cons y ys)
    then obtain s where s: "?f = (True, s)" "stands (paths ! i) (start paths i) s [] y ys"
      using fs by auto
    have "stands (paths ! i) (start paths i) (last_segment_loop s) zs z []" if "y # ys = zs @ [z]" for zs z
      using last_stands [OF s(2)] that by (simp only: append_Nil butlast_snoc last_snoc)
    then show ?thesis
      using Cons s(1) f by auto
  qed
qed

lemma previous_path_value:
  assumes "\<forall>p \<in> set paths. 0 \<notin> set p" "sj_paths sj = paths" "i < length paths"
  shows "(all_segments (take i paths) = [] \<longrightarrow> \<not> fst (previous_path_loop i sj)) \<and>
    (\<forall>ys y. all_segments (take i paths) = ys @ [y] \<longrightarrow>
      (\<exists>sj'. previous_path_loop i sj = (True, sj') \<and> jstands paths sj' ys y (all_segments (drop i paths))))"
  using assms(2,3)
proof (induction i arbitrary: sj)
  case (Suc i)
  let ?f = "if i = 0 then cwk_path_get_last_segment (paths ! i) else cwk_path_get_last_segment_without_root (paths ! i)"
  have t: "take (Suc i) paths = take i paths @ [paths ! i]" "drop i paths = paths ! i # drop (Suc i) paths"
    using Suc.prems(2) by (simp_all add: take_Suc_conv_app_nth Cons_nth_drop_Suc)
  have "0 \<notin> set (paths ! i)" "i < length paths"
    using assms(1) Suc.prems(2) by simp_all
  note l = last_of_path [OF this(2,1)]
  show ?case
  proof (cases "segments_of (paths ! i)" rule: rev_cases)
    case Nil
    then obtain s where "?f = (False, s)"
      using l by (cases ?f) auto
    then have "previous_path_loop (Suc i) sj = previous_path_loop i (sj\<lparr>sj_path_index := i, sj_segment := s\<rparr>)"
      using Suc.prems(1) by (cases "i = 0") (simp_all add: Let_def)
    then show ?thesis
      using Suc.IH [of "sj\<lparr>sj_path_index := i, sj_segment := s\<rparr>"] Suc.prems Nil t by simp
  next
    case (snoc ys y)
    then obtain s where s: "?f = (True, s)" "stands (paths ! i) (start paths i) s ys y []"
      using l by auto
    let ?sj = "sj\<lparr>sj_path_index := i, sj_segment := s\<rparr>"
    have "previous_path_loop (Suc i) sj = (True, ?sj)"
      using s(1) Suc.prems(1) by (cases "i = 0") (simp_all add: Let_def)
    moreover have "jstands paths ?sj (all_segments (take i paths) @ ys) y (all_segments (drop (Suc i) paths))"
      using s(2) Suc.prems assms(1) segments_of_start [of i paths] by (auto simp: jstands_def)
    ultimately show ?thesis
      using snoc t by auto
  qed
qed simp

lemma previous_joined_stands:
  assumes "jstands paths sj pre x post"
  shows "(pre = [] \<longrightarrow> \<not> fst (cwk_path_get_previous_segment_joined sj)) \<and>
    (\<forall>ys y. pre = ys @ [y] \<longrightarrow>
      (\<exists>sj'. cwk_path_get_previous_segment_joined sj = (True, sj') \<and> jstands paths sj' ys y (x # post)))"
proof -
  let ?i = "sj_path_index sj"
  obtain o' a b where s: "stands (paths ! ?i) o' (sj_segment sj) a x b" "?i < length paths"
    "pre = all_segments (take ?i paths) @ a" "post = b @ all_segments (drop (Suc ?i) paths)"
    "\<forall>p \<in> set paths. 0 \<notin> set p" "sj_paths sj = paths"
    and o': "segments_of (drop o' (paths ! ?i)) = segments_of (paths ! ?i)"
    using assms by (auto simp: jstands_def)
  have ne: "sj_paths sj \<noteq> []"
    using s(2,6) by auto
  have d: "drop ?i paths = paths ! ?i # drop (Suc ?i) paths"
    using s(2) by (simp add: Cons_nth_drop_Suc)
  show ?thesis
  proof (cases a rule: rev_cases)
    case Nil
    have "all_segments (drop ?i paths) = x # post"
      using stands_all [OF s(1)] o' d s(4) Nil by simp
    moreover have "cwk_path_get_previous_segment_joined sj = previous_path_loop ?i sj"
      using previous_stands [OF s(1)] Nil ne by (simp add: cwk_path_get_previous_segment_joined_def)
    ultimately show ?thesis
      using previous_path_value [OF s(5,6,2)] s(3) Nil by simp
  next
    case (snoc ys y)
    then obtain seg where n: "cwk_path_get_previous_segment (sj_segment sj) = (True, seg)"
      "stands (paths ! ?i) o' seg ys y (x # b)"
      using previous_stands [OF s(1)] by auto
    have "jstands paths (sj\<lparr>sj_segment := seg\<rparr>) (all_segments (take ?i paths) @ ys) y (x # post)"
      using n(2) s o' by (auto simp: jstands_def)
    then show ?thesis
      using n(1) s(3) ne snoc by (auto simp: cwk_path_get_previous_segment_joined_def)
  qed
qed

section \<open>What normalisation keeps\<close>

definition kind :: "path \<Rightarrow> cwk_segment_type" where
  "kind x = (if x = [46] then CWK_CURRENT else if x = [46, 46] then CWK_BACK else CWK_NORMAL)"

lemma equal_upto_text:
  "take n (drop i p) = x \<Longrightarrow> length x = n \<Longrightarrow> 0 \<notin> set x \<Longrightarrow> 0 \<notin> set l \<Longrightarrow>
     equal_upto n p i l j \<longleftrightarrow> x = take n (drop j l)"
proof (induction n arbitrary: i x j)
  case (Suc n)
  obtain a y where x: "x = a # y"
    using Suc.prems(2) by (cases x) auto
  have i: "i < length p"
    using Suc.prems(1) x by (cases "i < length p") simp_all
  then have p: "ch p i = a" "take n (drop (i + 1) p) = y" "a \<noteq> 0"
    using Suc.prems(1,3) x by (auto simp: ch_def Cons_nth_drop_Suc [symmetric])
  show ?case
  proof (cases "j < length l")
    case True
    then have "take (Suc n) (drop j l) = l ! j # take n (drop (j + 1) l)"
      by (simp add: Cons_nth_drop_Suc [symmetric])
    then show ?thesis
      using Suc.IH [OF p(2), of "j + 1"] Suc.prems x p True by (auto simp: ch_def)
  next
    case False
    then show ?thesis
      using p x by (simp add: ch_def)
  qed
qed simp

lemma stands_kind: "stands p o' s pre x post \<Longrightarrow> cwk_path_get_segment_type s = kind x"
proof -
  assume st: "stands p o' s pre x post"
  then have t: "take (seg_size s) (drop (seg_begin s) (seg_path s)) = x"
    using stands_text [OF st] by (simp add: segment_text_def)
  have "set x \<subseteq> set (seg_path s)"
    unfolding t [symmetric] by (auto dest: in_set_takeD in_set_dropD)
  then have x: "0 \<notin> set x" "length x = seg_size s" "x \<noteq> []"
    using st by (auto simp: stands_def)
  have "x = take (seg_size s) [46] \<longleftrightarrow> x = [46]" "x \<noteq> [46] \<Longrightarrow> x = take (seg_size s) [46, 46] \<longleftrightarrow> x = [46, 46]"
    using x(2,3) by (cases "seg_size s"; cases "seg_size s - 1"; auto)+
  then show ?thesis
    using equal_upto_text [OF t x(2,1), of "[46]" 0] equal_upto_text [OF t x(2,1), of "[46, 46]" 0]
    by (auto simp: cwk_path_get_segment_type_def kind_def)
qed

text \<open>The two counting loops on lists of segments.\<close>

fun back_spec :: "path list \<Rightarrow> int \<Rightarrow> bool" where
  "back_spec [] k = False"
| "back_spec (x # xs) k =
     (case kind x of
        CWK_NORMAL \<Rightarrow> k + 1 > 0 \<or> back_spec xs (k + 1)
      | CWK_BACK \<Rightarrow> back_spec xs (k - 1)
      | CWK_CURRENT \<Rightarrow> back_spec xs k)"

fun normal_spec :: "path list \<Rightarrow> int \<Rightarrow> bool" where
  "normal_spec [] k = False"
| "normal_spec (x # xs) k =
     (case kind x of
        CWK_NORMAL \<Rightarrow> normal_spec xs (k + 1)
      | CWK_BACK \<Rightarrow> k - 1 < 0 \<or> normal_spec xs (k - 1)
      | CWK_CURRENT \<Rightarrow> normal_spec xs k)"

lemma jstands_kind: "jstands paths sj pre x post \<Longrightarrow> cwk_path_get_segment_type (sj_segment sj) = kind x"
  by (auto simp: jstands_def stands_kind)

lemma jstands_segment_text: "jstands paths sj pre x post \<Longrightarrow> segment_text (sj_segment sj) = x"
  by (auto simp: jstands_def stands_text)

lemma back_loop_spec: "jstands paths sj pre x post \<Longrightarrow> back_loop sj k = back_spec (rev pre) k"
proof (induction pre arbitrary: sj x post k rule: rev_induct)
  case Nil
  then show ?case
    using previous_joined_stands [OF Nil] by (cases "cwk_path_get_previous_segment_joined sj")
      (auto simp: back_loop.simps [of sj])
next
  case (snoc y ys)
  then obtain sj' where s: "cwk_path_get_previous_segment_joined sj = (True, sj')" "jstands paths sj' ys y (x # post)"
    using previous_joined_stands [OF snoc.prems] by blast
  show ?case
    using snoc.IH [OF s(2)] jstands_kind [OF s(2)] s(1)
    by (simp add: back_loop.simps [of sj] split: cwk_segment_type.split)
qed

lemma normal_loop_spec: "jstands paths sj pre x post \<Longrightarrow> normal_loop sj k = normal_spec post k"
proof (induction post arbitrary: sj x pre k)
  case Nil
  then show ?case
    using next_joined_stands [OF Nil] by (cases "cwk_path_get_next_segment_joined sj")
      (auto simp: normal_loop.simps [of sj])
next
  case (Cons y ys)
  then obtain sj' where s: "cwk_path_get_next_segment_joined sj = (True, sj')" "jstands paths sj' (pre @ [x]) y ys"
    using next_joined_stands [OF Cons.prems] by auto
  show ?case
    using Cons.IH [OF s(2)] jstands_kind [OF s(2)] s(1)
    by (simp add: normal_loop.simps [of sj] split: cwk_segment_type.split)
qed

text \<open>
  The specification of normalisation: a stack of segments. A normal segment is pushed, \<^verbatim>\<open>..\<close> pops one; when
  there is none to pop it is kept in a relative path and dropped in an absolute one.
\<close>

definition push_segment :: "bool \<Rightarrow> path list \<Rightarrow> path \<Rightarrow> path list" where
  "push_segment absolute st x =
     (case kind x of
        CWK_CURRENT \<Rightarrow> st
      | CWK_NORMAL \<Rightarrow> x # st
      | CWK_BACK \<Rightarrow>
          (case st of
             y # st' \<Rightarrow> if kind y = CWK_NORMAL then st' else if absolute then st else x # st
           | [] \<Rightarrow> if absolute then st else x # st))"

definition normal_form :: "bool \<Rightarrow> path list \<Rightarrow> path list" where
  "normal_form absolute xs = rev (foldl (push_segment absolute) [] xs)"

text \<open>How many normal segments lie on top of the stack, and how many of them the rest will pop.\<close>

definition rise :: "nat \<Rightarrow> path \<Rightarrow> nat" where
  "rise h x = (case kind x of CWK_CURRENT \<Rightarrow> h | CWK_NORMAL \<Rightarrow> h + 1 | CWK_BACK \<Rightarrow> h - 1)"

fun deficit :: "path list \<Rightarrow> nat" where
  "deficit [] = 0"
| "deficit (x # xs) =
     (case kind x of CWK_CURRENT \<Rightarrow> deficit xs | CWK_NORMAL \<Rightarrow> deficit xs - 1 | CWK_BACK \<Rightarrow> deficit xs + 1)"

lemma normal_spec_deficit: "0 \<le> k \<Longrightarrow> normal_spec xs k \<longleftrightarrow> int (deficit xs) > k"
proof (induction xs arbitrary: k)
  case (Cons x xs)
  show ?case
  proof (cases "kind x = CWK_BACK \<and> k = 0")
    case False
    then have "kind x = CWK_BACK \<Longrightarrow> 0 \<le> k - 1"
      using Cons.prems by simp
    then show ?thesis
      using Cons.IH [of k] Cons.IH [of "k + 1"] Cons.IH [of "k - 1"] Cons.prems by (cases "kind x") auto
  qed simp
qed simp

lemma back_spec_height: "k \<le> 0 \<Longrightarrow> back_spec (rev pre) k \<longleftrightarrow> int (foldl rise 0 pre) + k > 0"
proof (induction pre arbitrary: k rule: rev_induct)
  case (snoc x xs)
  show ?case
  proof (cases "kind x = CWK_NORMAL \<and> k = 0")
    case False
    then have "kind x = CWK_NORMAL \<Longrightarrow> k + 1 \<le> 0"
      using snoc.prems by simp
    then show ?thesis
      using snoc.IH [of k] snoc.IH [of "k + 1"] snoc.IH [of "k - 1"] snoc.prems
      by (cases "kind x") (auto simp: rise_def)
  qed (simp add: rise_def)
qed simp

definition removed :: "bool \<Rightarrow> nat \<Rightarrow> path \<Rightarrow> path list \<Rightarrow> bool" where
  "removed absolute h x post \<longleftrightarrow>
     (case kind x of CWK_CURRENT \<Rightarrow> True | CWK_BACK \<Rightarrow> absolute \<or> h > 0 | CWK_NORMAL \<Rightarrow> deficit post > 0)"

lemma will_be_removed:
  assumes "jstands paths sj pre x post"
  shows "cwk_path_segment_will_be_removed sj absolute = removed absolute (foldl rise 0 pre) x post"
  using jstands_kind [OF assms] back_loop_spec [OF assms, of 0] normal_loop_spec [OF assms, of 0]
    back_spec_height [of 0 pre] normal_spec_deficit [of 0 post]
  by (auto simp: cwk_path_segment_will_be_removed_def Let_def removed_def
      cwk_path_segment_back_will_be_removed_def cwk_path_segment_normal_will_be_removed_def
      split: cwk_segment_type.split)

fun kept :: "bool \<Rightarrow> nat \<Rightarrow> path list \<Rightarrow> path list" where
  "kept absolute h [] = []"
| "kept absolute h (x # xs) = (if removed absolute h x xs then [] else [x]) @ kept absolute (rise h x) xs"

text \<open>Looking ahead and back keeps exactly what the stack leaves.\<close>

lemma stack_kept:
  "list_all (\<lambda>x. kind x = CWK_NORMAL) ns \<Longrightarrow> bs = [] \<or> kind (hd bs) = CWK_BACK \<Longrightarrow>
     rev (foldl (push_segment absolute) (ns @ bs) xs) =
       rev (drop (deficit xs) ns @ bs) @ kept absolute (length ns) xs"
proof (induction xs arbitrary: ns bs)
  case (Cons x xs)
  show ?case
  proof (cases "kind x")
    case CWK_NORMAL
    then show ?thesis
      using Cons.IH [of "x # ns" bs] Cons.prems by (cases "deficit xs") (auto simp: removed_def rise_def push_segment_def)
  next
    case CWK_CURRENT
    then show ?thesis
      using Cons.IH [of ns bs] Cons.prems by (simp add: removed_def rise_def push_segment_def)
  next
    case CWK_BACK
    show ?thesis
    proof (cases ns)
      case (Cons y ys)
      then show ?thesis
        using Cons.IH [of ys bs] Cons.prems CWK_BACK by (simp add: removed_def rise_def push_segment_def)
    next
      case Nil
      have "push_segment absolute bs x = (if absolute then bs else x # bs)"
        using CWK_BACK Cons.prems(2) by (cases bs) (auto simp: push_segment_def)
      then show ?thesis
        using Cons.IH [of "[]" bs] Cons.IH [of "[]" "x # bs"] Cons.prems CWK_BACK Nil
        by (cases absolute) (simp_all add: removed_def rise_def)
    qed
  qed
qed simp

lemma kept_normal_form: "kept absolute 0 xs = normal_form absolute xs"
  using stack_kept [of "[]" "[]" absolute xs] by (simp add: normal_form_def)

section \<open>Normalisation\<close>

lemma first_joined_value:
  assumes "\<forall>p \<in> set paths. 0 \<notin> set p" "sj_paths sj = paths"
  shows "case all_segments (drop (sj_path_index sj) paths) of
      [] \<Rightarrow> \<not> fst (first_joined_loop sj)
    | y # ys \<Rightarrow> \<exists>sj'. first_joined_loop sj = (True, sj') \<and> jstands paths sj' (all_segments (take (sj_path_index sj) paths)) y ys"
  using assms
proof (induction "length paths - sj_path_index sj" arbitrary: sj rule: less_induct)
  case less
  let ?i = "sj_path_index sj"
  show ?case
  proof (cases "?i < length paths")
    case False
    then show ?thesis
      using less.prems(2) by (simp add: first_joined_loop.simps [of sj])
  next
    case True
    let ?p = "paths ! ?i"
    have d: "drop ?i paths = ?p # drop (Suc ?i) paths"
      using True by (simp add: Cons_nth_drop_Suc)
    have p0: "0 \<notin> set ?p"
      using less.prems(1) True by simp
    note f = first_stands [OF p0, of "cwk_path_get_root ?p", unfolded segments_of_root]
    show ?thesis
    proof (cases "segments_of ?p")
      case Nil
      then obtain seg where n: "cwk_path_get_first_segment ?p = (False, seg)"
        using f by (cases "cwk_path_get_first_segment ?p") (auto simp: cwk_path_get_first_segment_def)
      let ?sj = "sj\<lparr>sj_segment := seg, sj_path_index := ?i + 1\<rparr>"
      have "first_joined_loop sj = first_joined_loop ?sj"
        using n True less.prems(2) by (simp add: first_joined_loop.simps [of sj])
      moreover have "all_segments (take (Suc ?i) paths) = all_segments (take ?i paths)"
        using True Nil by (simp add: take_Suc_conv_app_nth)
      ultimately show ?thesis
        using less.hyps [of ?sj] less.prems True Nil d by (simp add: diff_less_mono2 cong: list.case_cong)
    next
      case (Cons y b)
      then obtain seg where n: "cwk_path_get_first_segment ?p = (True, seg)" "stands ?p (cwk_path_get_root ?p) seg [] y b"
        using f by (auto simp: cwk_path_get_first_segment_def)
      have "first_joined_loop sj = (True, sj\<lparr>sj_segment := seg\<rparr>)"
        using n True less.prems(2) by (simp add: first_joined_loop.simps [of sj])
      moreover have "jstands paths (sj\<lparr>sj_segment := seg\<rparr>) (all_segments (take ?i paths)) y (b @ all_segments (drop (Suc ?i) paths))"
        using n(2) less.prems True segments_of_root [of ?p] by (auto simp: jstands_def)
      ultimately show ?thesis
        using Cons d by simp
    qed
  qed
qed

text \<open>The buffer starts with the text \<open>w\<close>.\<close>

definition reads :: "(nat \<Rightarrow> u8) \<Rightarrow> path \<Rightarrow> bool" where
  "reads buffer w \<longleftrightarrow> (\<forall>i < length w. buffer i = w ! i)"

lemma output_sized_reads:
  assumes "reads buffer w" "buffer_size > length w + length str"
  shows "\<exists>b. cwk_path_output_sized buffer buffer_size (length w) str = (length str, b) \<and> reads b (w @ str)"
  using assms by (auto simp: cwk_path_output_sized_def Let_def reads_def nth_append)

fun emit :: "bool \<Rightarrow> path list \<Rightarrow> path" where
  "emit has [] = []"
| "emit has (x # xs) = (if has then [47] else []) @ x @ emit True xs"

lemma output_segment_reads:
  assumes "reads buffer w" "buffer_size > length w + length (emit has [segment_text s])"
  shows "\<exists>b. output_segment buffer buffer_size (length w) has s = (length (w @ emit has [segment_text s]), b) \<and>
    reads b (w @ emit has [segment_text s])"
proof (cases has)
  case True
  obtain b where b: "cwk_path_output_sized buffer buffer_size (length w) [47] = (1, b)" "reads b (w @ [47])"
    using output_sized_reads [OF assms(1), of "[47]" buffer_size] assms(2) True by auto
  then show ?thesis
    using output_sized_reads [OF b(2), of "segment_text s" buffer_size] assms(2) True
    by (auto simp: output_segment_def)
next
  case False
  then show ?thesis
    using output_sized_reads [OF assms(1), of "segment_text s" buffer_size] assms(2)
    by (auto simp: output_segment_def)
qed

lemma normalize_loop_reads:
  assumes "jstands paths sj pre x post" "reads buffer w"
    and "buffer_size > length w + length (emit has (kept absolute (foldl rise 0 pre) (x # post)))"
  shows "\<exists>b. normalize_loop absolute sj buffer buffer_size (length w) has =
      (length (w @ emit has (kept absolute (foldl rise 0 pre) (x # post))), b,
       has \<or> kept absolute (foldl rise 0 pre) (x # post) \<noteq> []) \<and>
    reads b (w @ emit has (kept absolute (foldl rise 0 pre) (x # post)))"
  using assms
proof (induction post arbitrary: sj pre x buffer w has)
  case Nil
  let ?r = "removed absolute (foldl rise 0 pre) x []"
  obtain sj' where n: "cwk_path_get_next_segment_joined sj = (False, sj')"
    using next_joined_stands [OF Nil.prems(1)] by (cases "cwk_path_get_next_segment_joined sj") auto
  show ?case
  proof (cases ?r)
    case True
    then show ?thesis
      using Nil.prems(2) n will_be_removed [OF Nil.prems(1)] by (simp add: normalize_loop.simps [of _ sj])
  next
    case False
    then obtain b where b: "output_segment buffer buffer_size (length w) has (sj_segment sj) = (length (w @ emit has [x]), b)"
      "reads b (w @ emit has [x])"
      using output_segment_reads [OF Nil.prems(2), of has "sj_segment sj" buffer_size] Nil.prems(3)
        jstands_segment_text [OF Nil.prems(1)] by auto
    then show ?thesis
      using False n will_be_removed [OF Nil.prems(1)] by (simp add: normalize_loop.simps [of _ sj])
  qed
next
  case (Cons y ys)
  let ?h = "foldl rise 0 pre"
  obtain sj' where n: "cwk_path_get_next_segment_joined sj = (True, sj')" "jstands paths sj' (pre @ [x]) y ys"
    using next_joined_stands [OF Cons.prems(1)] by auto
  have h: "foldl rise 0 (pre @ [x]) = rise ?h x"
    by simp
  show ?case
  proof (cases "removed absolute ?h x (y # ys)")
    case True
    then have k: "kept absolute ?h (x # y # ys) = kept absolute (rise ?h x) (y # ys)"
      by simp
    have "normalize_loop absolute sj buffer buffer_size (length w) has =
        normalize_loop absolute sj' buffer buffer_size (length w) has"
      using True n(1) will_be_removed [OF Cons.prems(1)] by (simp add: normalize_loop.simps [of _ sj])
    then show ?thesis
      using Cons.IH [OF n(2) Cons.prems(2), of has] Cons.prems(3) unfolding h k by simp
  next
    case False
    then have k: "kept absolute ?h (x # y # ys) = x # kept absolute (rise ?h x) (y # ys)"
      by simp
    have l: "buffer_size > length w + length (emit has [x]) + length (emit True (kept absolute (rise ?h x) (y # ys)))"
      using Cons.prems(3) unfolding k by simp
    obtain b where b: "output_segment buffer buffer_size (length w) has (sj_segment sj) = (length (w @ emit has [x]), b)"
      "reads b (w @ emit has [x])"
      using output_segment_reads [OF Cons.prems(2), of has "sj_segment sj" buffer_size] l
        jstands_segment_text [OF Cons.prems(1)] by auto
    have "normalize_loop absolute sj buffer buffer_size (length w) has =
        normalize_loop absolute sj' b buffer_size (length (w @ emit has [x])) True"
      using False n(1) b(1) will_be_removed [OF Cons.prems(1)] by (simp add: normalize_loop.simps [of _ sj])
    then show ?thesis
      using Cons.IH [OF n(2) b(2), of True] l unfolding h k by simp
  qed
qed

text \<open>The normalised path as text.\<close>

definition root_of :: "path \<Rightarrow> path" where
  "root_of p = (if p \<noteq> [] \<and> hd p = 47 then [47] else [])"

definition normal_path :: "path list \<Rightarrow> path" where
  "normal_path paths =
     (let root = root_of (hd paths); segs = all_segments paths; ks = normal_form (root \<noteq> []) segs in
      if segs \<noteq> [] \<and> ks = [] \<and> root = [] then [46] else root @ emit False ks)"

lemma take_root: "take (length (root_of p)) p = root_of p"
  by (cases p) (auto simp: root_of_def)

lemma root_absolute: "cwk_path_is_root_absolute p (length (root_of p)) \<longleftrightarrow> root_of p \<noteq> []"
  by (cases p) (auto simp: cwk_path_is_root_absolute_def cwk_path_is_separator_def ch_def root_of_def)

lemma length_root: "cwk_path_get_root p = length (root_of p)"
  by (cases p) (auto simp: cwk_path_get_root_def cwk_path_is_separator_def ch_def root_of_def)

lemma terminate_reads:
  "reads b w \<Longrightarrow> length w < buffer_size \<Longrightarrow> reads (cwk_path_terminate_output b buffer_size (length w)) (w @ [0])"
  by (auto simp: cwk_path_terminate_output_def reads_def nth_append less_Suc_eq)

lemma join_and_normalize_reads:
  assumes "\<forall>p \<in> set paths. 0 \<notin> set p" "paths \<noteq> []" "buffer_size > length (normal_path paths)"
  shows "\<exists>b. cwk_path_join_and_normalize_multiple segment paths buffer buffer_size = (length (normal_path paths), b) \<and>
    reads b (normal_path paths @ [0])"
proof -
  let ?p = "hd paths" and ?abs = "root_of (hd paths) \<noteq> []"
  let ?ks = "normal_form ?abs (all_segments paths)"
  let ?sj = "\<lparr>sj_segment = segment, sj_paths = paths, sj_path_index = 0\<rparr>"
  have size: "buffer_size > length (root_of ?p)"
    using assms(3) by (auto simp: normal_path_def Let_def split: if_splits)
  have "reads buffer []"
    by (simp add: reads_def)
  then obtain b0 where b0: "cwk_path_output_sized buffer buffer_size 0 (root_of ?p) = (length (root_of ?p), b0)"
    "reads b0 (root_of ?p)"
    using output_sized_reads [of buffer "[]" "root_of ?p" buffer_size] size by auto
  note f = first_joined_value [of paths ?sj, OF assms(1)]
  note d = cwk_path_join_and_normalize_multiple_def [of segment paths buffer buffer_size, unfolded Let_def length_root take_root
      root_absolute b0(1) snd_conv cwk_path_get_first_segment_joined_def]
  show ?thesis
  proof (cases "all_segments paths")
    case Nil
    then have n: "normal_path paths = root_of ?p"
      unfolding normal_path_def Let_def by (simp only: Nil normal_form_def foldl.simps rev.simps emit.simps simp_thms if_False append_Nil2)
    obtain sj where "first_joined_loop ?sj = (False, sj)"
      using f Nil by (cases "first_joined_loop ?sj") simp
    then show ?thesis
      using terminate_reads [OF b0(2) size] unfolding d n by simp
  next
    case (Cons y ys)
    then obtain sj where sj: "first_joined_loop ?sj = (True, sj)" "jstands paths sj [] y ys"
      using f by auto
    have k: "kept ?abs (foldl rise 0 []) (y # ys) = ?ks"
      using kept_normal_form [of ?abs "y # ys"] Cons by simp
    have "length (root_of ?p) + length (emit False ?ks) \<le> length (normal_path paths)"
      by (auto simp: normal_path_def Let_def)
    then obtain b where b: "normalize_loop ?abs sj b0 buffer_size (length (root_of ?p)) False =
        (length (root_of ?p @ emit False ?ks), b, ?ks \<noteq> [])" "reads b (root_of ?p @ emit False ?ks)"
      using normalize_loop_reads [OF sj(2) b0(2), of False ?abs buffer_size] assms(3) unfolding k by auto
    show ?thesis
    proof (cases "?ks = [] \<and> root_of ?p = []")
      case True
      then have n: "normal_path paths = [46]"
        using Cons by (auto simp: normal_path_def Let_def)
      obtain c where "cwk_path_output_sized b buffer_size 0 [46] = (1, c)" "reads c [46]"
        using output_sized_reads [OF b(2), of "[46]" buffer_size] True n assms(3) by auto
      then show ?thesis
        using d sj(1) b(1) True n terminate_reads [of c "[46]" buffer_size] assms(3) by auto
    next
      case False
      then have n: "normal_path paths = root_of ?p @ emit False ?ks"
        by (auto simp: normal_path_def Let_def)
      have "\<not> (?ks = [] \<and> length (root_of ?p @ emit False ?ks) = 0)"
        using False by auto
      then show ?thesis
        using d sj(1) b n terminate_reads [OF b(2), of buffer_size] assms(3) by auto
    qed
  qed
qed

text \<open>The length does not depend on the buffer, and nothing behind the buffer is written.\<close>

lemma output_sized_fst [simp]: "fst (cwk_path_output_sized buffer buffer_size pos str) = length str"
  by (simp add: cwk_path_output_sized_def Let_def)

lemma output_sized_frame: "buffer_size \<le> i \<Longrightarrow> snd (cwk_path_output_sized buffer buffer_size pos str) i = buffer i"
  by (auto simp: cwk_path_output_sized_def Let_def)

lemma terminate_frame: "buffer_size \<le> i \<Longrightarrow> cwk_path_terminate_output buffer buffer_size pos i = buffer i"
  by (auto simp: cwk_path_terminate_output_def)

lemma output_segment_fst:
  "fst (output_segment buffer buffer_size pos has segment) = pos + (if has then 1 else 0) + length (segment_text segment)"
  by (simp add: output_segment_def Let_def case_prod_beta)

lemma output_segment_frame: "buffer_size \<le> i \<Longrightarrow> snd (output_segment buffer buffer_size pos has segment) i = buffer i"
  by (simp add: output_segment_def Let_def case_prod_beta output_sized_frame)

lemma normalize_loop_size:
  "fst (normalize_loop absolute sj buffer n pos has) = fst (normalize_loop absolute sj buffer' n' pos has) \<and>
   snd (snd (normalize_loop absolute sj buffer n pos has)) = snd (snd (normalize_loop absolute sj buffer' n' pos has))"
proof (induction absolute sj buffer n pos has arbitrary: buffer' rule: normalize_loop.induct)
  case (1 absolute sj buffer n pos has)
  obtain more sj' where m: "cwk_path_get_next_segment_joined sj = (more, sj')"
    by fastforce
  have f: "fst (output_segment buffer n pos has (sj_segment sj)) = fst (output_segment buffer' n' pos has (sj_segment sj))"
    by (simp add: output_segment_fst)
  show ?case
    unfolding normalize_loop.simps [of absolute sj buffer n] normalize_loop.simps [of absolute sj buffer' n']
    using 1 f m by (cases more) (simp_all add: Let_def case_prod_beta)
qed

lemma normalize_loop_frame:
  "n \<le> i \<Longrightarrow> fst (snd (normalize_loop absolute sj buffer n pos has)) i = buffer i"
proof (induction absolute sj buffer n pos has rule: normalize_loop.induct)
  case (1 absolute sj buffer n pos has)
  obtain more sj' where m: "cwk_path_get_next_segment_joined sj = (more, sj')"
    by fastforce
  show ?case
    unfolding normalize_loop.simps [of absolute sj buffer n]
    using 1 m by (cases more) (simp_all add: Let_def case_prod_beta output_segment_frame)
qed

text \<open>Normalising a second time changes nothing.\<close>

lemma push_segment_text:
  "(\<forall>y \<in> set st. Q y) \<Longrightarrow> Q x \<Longrightarrow> \<forall>y \<in> set (push_segment a st x). Q y"
  by (cases st; cases "kind x") (auto simp: push_segment_def)

lemma fold_text:
  "\<forall>x \<in> set xs. Q x \<Longrightarrow> \<forall>y \<in> set st. Q y \<Longrightarrow> \<forall>y \<in> set (foldl (push_segment a) st xs). Q y"
proof (induction xs arbitrary: st)
  case (Cons x xs)
  have "\<forall>y \<in> set (push_segment a st x). Q y"
    using Cons.prems by (intro push_segment_text) simp_all
  moreover have "\<forall>y \<in> set xs. Q y"
    using Cons.prems(1) by simp
  ultimately show ?case
    unfolding foldl_Cons by (intro Cons.IH)
qed simp

lemma normal_form_text: "\<forall>x \<in> set xs. Q x \<Longrightarrow> \<forall>y \<in> set (normal_form a xs). Q y"
  using fold_text [of xs Q "[]" a] by (simp add: normal_form_def)

lemma segments_of_set: "x \<in> set (segments_of p) \<Longrightarrow> x \<noteq> [] \<and> 47 \<notin> set x"
proof (induction p rule: segments_of.induct)
  case (1 p)
  let ?q = "dropWhile (\<lambda>x. x = 47) p"
  show ?case
  proof (cases "?q = []")
    case False
    then have "hd ?q \<noteq> 47"
      using hd_dropWhile [of "\<lambda>x. x = 47" p] by simp
    then have "takeWhile (\<lambda>x. x \<noteq> 47) ?q \<noteq> []"
      using False by (cases ?q) auto
    moreover have "47 \<notin> set (takeWhile (\<lambda>x. x \<noteq> 47) ?q)"
      by (auto dest: set_takeWhileD)
    moreover have "x = takeWhile (\<lambda>x. x \<noteq> 47) ?q \<or> x \<in> set (segments_of (dropWhile (\<lambda>x. x \<noteq> 47) ?q))"
      using 1(2) False by (subst (asm) segments_of.simps) (auto simp: Let_def split: if_splits)
    ultimately show ?thesis
      using 1(1) [OF refl False] by (elim disjE) simp_all
  qed (use 1(2) in \<open>simp add: segments_of.simps [of p]\<close>)
qed

lemma segments_of_emit: "(\<forall>x \<in> set ks. x \<noteq> [] \<and> 47 \<notin> set x) \<Longrightarrow> segments_of (emit has ks) = ks"
proof (induction ks arbitrary: has)
  case (Cons x ks)
  have "emit True ks = [] \<or> hd (emit True ks) = 47"
    by (cases ks) simp_all
  then have "segments_of (x @ emit True ks) = x # ks"
    using Cons segments_of_text [of x "emit True ks"] by simp
  then show ?case
    by simp
qed simp

text \<open>The stack: normal segments above segments \<^verbatim>\<open>..\<close>, of which an absolute path has none.\<close>

fun stacked :: "bool \<Rightarrow> path list \<Rightarrow> bool" where
  "stacked a [] = True"
| "stacked a (x # st) =
     ((kind x = CWK_NORMAL \<and> stacked a st) \<or>
      (kind x = CWK_BACK \<and> \<not> a \<and> list_all (\<lambda>y. kind y = CWK_BACK) st))"

lemma all_back_stacked: "list_all (\<lambda>y. kind y = CWK_BACK) st \<Longrightarrow> \<not> a \<Longrightarrow> stacked a st"
  by (induction st) simp_all

lemma stacked_push: "stacked a st \<Longrightarrow> stacked a (push_segment a st x)"
  by (cases st) (auto simp: all_back_stacked push_segment_def split: cwk_segment_type.split)

lemma stacked_fold: "stacked a st \<Longrightarrow> stacked a (foldl (push_segment a) st xs)"
  by (induction xs arbitrary: st) (simp_all add: stacked_push)

lemma stacked_refold: "stacked a st \<Longrightarrow> foldl (push_segment a) [] (rev st) = st"
proof (induction st)
  case (Cons x st)
  have "foldl (push_segment a) [] (rev st) = st"
    using Cons all_back_stacked by auto
  moreover have "push_segment a st x = x # st"
    using Cons.prems by (cases st) (auto simp: push_segment_def)
  ultimately show ?case
    by simp
qed simp

lemma normal_form_idem: "normal_form a (normal_form a xs) = normal_form a xs"
  using stacked_refold [OF stacked_fold [of a "[]" xs]] by (simp add: normal_form_def)

lemma root_of_append: "q = [] \<or> hd q \<noteq> 47 \<Longrightarrow> root_of (root_of p @ q) = root_of p"
  by (auto simp: root_of_def)

lemma normal_path_idem: "normal_path [normal_path paths] = normal_path paths"
proof -
  let ?r = "root_of (hd paths)" and ?segs = "all_segments paths"
  let ?ks = "normal_form (?r \<noteq> []) ?segs"
  have "\<forall>x \<in> set ?segs. x \<noteq> [] \<and> 47 \<notin> set x"
    using segments_of_set by auto
  then have k: "\<forall>x \<in> set ?ks. x \<noteq> [] \<and> 47 \<notin> set x"
    by (rule normal_form_text)
  show ?thesis
  proof (cases "?segs \<noteq> [] \<and> ?ks = [] \<and> ?r = []")
    case True
    then have "normal_path paths = [46]"
      unfolding normal_path_def Let_def by (rule if_P)
    moreover have "segments_of [46] = [[46]]"
      using segments_of_text [of "[46]" "[]"] by simp
    ultimately show ?thesis
      by (simp add: normal_path_def root_of_def normal_form_def push_segment_def kind_def)
  next
    case False
    then have n: "normal_path paths = ?r @ emit False ?ks"
      unfolding normal_path_def Let_def by (rule if_not_P)
    have "segments_of (?r @ q) = segments_of q" for q
      by (simp add: root_of_def)
    then have s: "segments_of (?r @ emit False ?ks) = ?ks"
      using segments_of_emit [OF k, of False] by (rule trans)
    have "hd (emit False ?ks) \<noteq> 47" if "?ks \<noteq> []"
      using k that by (cases ?ks) (auto simp: hd_append dest: hd_in_set)
    then have r: "root_of (?r @ emit False ?ks) = ?r"
      by (intro root_of_append) (cases "?ks = []"; simp)
    have t: "all_segments [?r @ emit False ?ks] = ?ks"
      using s by simp
    show ?thesis
      unfolding n normal_path_def [of "[_]"] Let_def list.sel(1) r t normal_form_idem by (rule if_not_P) blast
  qed
qed

text \<open>An absolute path is left without \<^verbatim>\<open>.\<close> and \<^verbatim>\<open>..\<close>.\<close>

lemma stacked_absolute: "stacked True st \<Longrightarrow> list_all (\<lambda>x. kind x = CWK_NORMAL) st"
  by (induction st) auto

lemma normal_form_absolute: "\<forall>x \<in> set (normal_form True xs). kind x = CWK_NORMAL"
  using stacked_absolute [OF stacked_fold [of True "[]" xs]] by (simp add: normal_form_def list_all_iff)

lemma normal_path_absolute:
  assumes "root_of (hd paths) \<noteq> []"
  shows "hd (normal_path paths) = 47 \<and> (\<forall>x \<in> set (segments_of (normal_path paths)). kind x = CWK_NORMAL)"
proof -
  let ?ks = "normal_form True (all_segments paths)"
  have r: "root_of (hd paths) = [47]"
    using assms by (simp add: root_of_def split: if_splits)
  have k: "\<forall>x \<in> set ?ks. x \<noteq> [] \<and> 47 \<notin> set x"
    by (rule normal_form_text) (auto dest: segments_of_set)
  have n: "normal_path paths = 47 # emit False ?ks"
    by (simp add: normal_path_def Let_def r)
  have "segments_of (47 # emit False ?ks) = ?ks"
    using segments_of_emit [OF k, of False] by simp
  then show ?thesis
    using normal_form_absolute unfolding n by simp
qed

lemma join_and_normalize_length:
  assumes "\<forall>p \<in> set paths. 0 \<notin> set p" "paths \<noteq> []"
  shows "fst (cwk_path_join_and_normalize_multiple segment paths buffer buffer_size) = length (normal_path paths)"
proof -
  let ?n = "length (normal_path paths) + 1"
  let ?r = "cwk_path_get_root (hd paths)"
  let ?b = "\<lambda>n. snd (cwk_path_output_sized buffer n 0 (take ?r (hd paths)))"
  let ?l = "\<lambda>n. normalize_loop (cwk_path_is_root_absolute (hd paths) ?r)
    (snd (cwk_path_get_first_segment_joined segment paths)) (?b n) n ?r False"
  have l: "fst (?l buffer_size) = fst (?l ?n)" "snd (snd (?l buffer_size)) = snd (snd (?l ?n))"
    using normalize_loop_size by blast+
  have "fst (cwk_path_join_and_normalize_multiple segment paths buffer buffer_size) =
      fst (cwk_path_join_and_normalize_multiple segment paths buffer ?n)"
    unfolding cwk_path_join_and_normalize_multiple_def Let_def case_prod_beta
    by (cases "fst (cwk_path_get_first_segment_joined segment paths)") (simp_all add: l [simplified])
  then show ?thesis
    using join_and_normalize_reads [OF assms, of ?n segment buffer] by auto
qed

lemma join_and_normalize_frame:
  "buffer_size \<le> i \<Longrightarrow> snd (cwk_path_join_and_normalize_multiple segment paths buffer buffer_size) i = buffer i"
  by (auto simp: cwk_path_join_and_normalize_multiple_def Let_def case_prod_beta terminate_frame
      output_sized_frame normalize_loop_frame split: bool.split)

lemma join_and_normalize_terminated:
  assumes "buffer_size > 0"
  shows "\<exists>i < buffer_size. snd (cwk_path_join_and_normalize_multiple segment paths buffer buffer_size) i = 0"
proof -
  have "\<exists>i < buffer_size. cwk_path_terminate_output b buffer_size pos i = 0" for b pos
    using assms by (cases "pos \<ge> buffer_size")
      (auto simp: cwk_path_terminate_output_def intro: exI [of _ "buffer_size - 1"] exI [of _ pos])
  then show ?thesis
    by (auto simp: cwk_path_join_and_normalize_multiple_def Let_def case_prod_beta split: bool.split)
qed

section \<open>Base name and extension\<close>

lemma last_segment_stands:
  assumes "0 \<notin> set p" "segments_of p \<noteq> []"
  shows "\<exists>s. cwk_path_get_last_segment p = (True, s) \<and>
    stands p (cwk_path_get_root p) s (butlast (segments_of p)) (last (segments_of p)) []"
proof -
  obtain y ys where y: "segments_of p = y # ys"
    using assms(2) by (cases "segments_of p") auto
  then obtain s where s: "cwk_path_get_first_segment_without_root p (cwk_path_get_root p) = (True, s)"
      "stands p (cwk_path_get_root p) s [] y ys"
    using first_stands [OF assms(1), of "cwk_path_get_root p"] by (auto simp: segments_of_root)
  show ?thesis
    using last_stands [OF s(2)] s(1) y by (auto simp: cwk_path_get_last_segment_def cwk_path_get_first_segment_def)
qed

lemma basename_none: "0 \<notin> set p \<Longrightarrow> segments_of p = [] \<Longrightarrow> cwk_path_get_basename p = None"
  using first_stands [of p "cwk_path_get_root p"]
  by (auto simp: segments_of_root cwk_path_get_basename_def cwk_path_get_last_segment_def
      cwk_path_get_first_segment_def split: prod.split bool.split)

lemma basename_last:
  assumes "0 \<notin> set p" "segments_of p \<noteq> []"
  shows "\<exists>b n. cwk_path_get_basename p = Some (b, n) \<and> take n (drop b p) = last (segments_of p)"
proof -
  obtain s where s: "cwk_path_get_last_segment p = (True, s)"
      "stands p (cwk_path_get_root p) s (butlast (segments_of p)) (last (segments_of p)) []"
    using last_segment_stands [OF assms] by blast
  then show ?thesis
    using stands_text [OF s(2)] by (simp add: cwk_path_get_basename_def segment_text_def stands_def)
qed

text \<open>
  C24. Paths are normalised as by a stack. \<^verbatim>\<open>cwk_path_join_and_normalize_multiple\<close>, which decides for every
  segment by counting back or ahead whether it is dropped, writes the root followed by what a stack
  of segments leaves (\<^verbatim>\<open>.\<close> is skipped, \<^verbatim>\<open>..\<close> pops, or stays when a relative path has nothing to pop), in
  any buffer with room for it, and returns its length; the empty result of a relative path is \<^verbatim>\<open>.\<close>.
  Normalising the result again does not change it, and an absolute result has no \<^verbatim>\<open>.\<close> or \<^verbatim>\<open>..\<close> left
  with which it could leave the directory it names.
\<close>

theorem paths_normalize:
  assumes "\<forall>p \<in> set paths. 0 \<notin> set p" "paths \<noteq> []" "buffer_size > length (normal_path paths)"
  shows "(\<exists>b. cwk_path_join_and_normalize_multiple segment paths buffer buffer_size = (length (normal_path paths), b) \<and>
      reads b (normal_path paths @ [0])) \<and>
    normal_path [normal_path paths] = normal_path paths \<and>
    (cwk_path_is_absolute (hd paths) \<longrightarrow>
       hd (normal_path paths) = 47 \<and> (\<forall>x \<in> set (segments_of (normal_path paths)). kind x = CWK_NORMAL))"
proof -
  have "cwk_path_is_absolute (hd paths) \<Longrightarrow> root_of (hd paths) \<noteq> []"
    unfolding cwk_path_is_absolute_def length_root root_absolute by simp
  then show ?thesis
    using join_and_normalize_reads [OF assms] normal_path_idem normal_path_absolute by blast
qed

text \<open>
  C37. Normalisation stays inside its buffer. Whatever size is given, also 0 with a null buffer as the
  virtual file system does to measure a path, the length returned is that of the whole result, no byte
  at or behind the size is changed, and a buffer that is not empty holds a terminated string, cut
  where it has no room.
\<close>

theorem paths_bounded:
  assumes "\<forall>p \<in> set paths. 0 \<notin> set p" "paths \<noteq> []"
  shows "fst (cwk_path_join_and_normalize_multiple segment paths buffer buffer_size) = length (normal_path paths) \<and>
    (\<forall>i \<ge> buffer_size. snd (cwk_path_join_and_normalize_multiple segment paths buffer buffer_size) i = buffer i) \<and>
    (buffer_size > 0 \<longrightarrow>
       (\<exists>i < buffer_size. snd (cwk_path_join_and_normalize_multiple segment paths buffer buffer_size) i = 0))"
  using join_and_normalize_length [OF assms] join_and_normalize_frame join_and_normalize_terminated by blast

text \<open>The working directory \<^verbatim>\<open>/system/dev\<close> joined with \<^verbatim>\<open>.././../home\<close>.\<close>

definition example_paths :: "path list" where
  "example_paths = [[47, 115, 121, 115, 116, 101, 109, 47, 100, 101, 118],
     [46, 46, 47, 46, 47, 46, 46, 47, 104, 111, 109, 101]]"

lemma example_normal: "normal_path example_paths = [47, 104, 111, 109, 101]"
  by (simp add: example_paths_def normal_path_def root_of_def normal_form_def push_segment_def kind_def segments_of.simps)

definition example_segment :: cwk_segment where
  "example_segment = \<lparr>seg_path = [], seg_segments = 0, seg_begin = 0, seg_end = 0, seg_size = 0\<rparr>"

theorem paths_normalize_witness:
  "(\<exists>b. cwk_path_join_and_normalize_multiple example_segment example_paths (\<lambda>_. 0) 6 = (5, b) \<and>
     reads b [47, 104, 111, 109, 101, 0]) \<and>
   kind [104, 111, 109, 101] = CWK_NORMAL"
proof -
  have p: "\<forall>p \<in> set example_paths. 0 \<notin> set p" "example_paths \<noteq> []"
    by (simp_all add: example_paths_def)
  have s: "6 > length (normal_path example_paths)"
    by (simp add: example_normal)
  have a: "cwk_path_is_absolute (hd example_paths)"
    by (simp add: example_paths_def cwk_path_is_absolute_def cwk_path_is_root_absolute_def cwk_path_get_root_def
        cwk_path_is_separator_def ch_def)
  have t: "segments_of [104, 111, 109, 101] = [[104, 111, 109, 101]]"
    using segments_of_text [of "[104, 111, 109, 101]" "[]"] by simp
  show ?thesis
    using paths_normalize [OF p s, of example_segment "\<lambda>_. 0"] a by (simp add: example_normal t eval_nat_numeral)
qed

theorem paths_bounded_witness:
  "fst (cwk_path_join_and_normalize_multiple example_segment example_paths (\<lambda>_. 0) 0) = 5 \<and>
   snd (cwk_path_join_and_normalize_multiple example_segment example_paths (\<lambda>_. 255) 3) 7 = 255"
proof -
  have p: "\<forall>p \<in> set example_paths. 0 \<notin> set p" "example_paths \<noteq> []"
    by (simp_all add: example_paths_def)
  show ?thesis
    using paths_bounded [OF p, of example_segment "\<lambda>_. 0" 0] paths_bounded [OF p, of example_segment "\<lambda>_. 255" 3]
    by (simp add: example_normal)
qed

end
