(* ===== verification/Virtual_FS.thy ===== *)
theory Virtual_FS
  imports Path_Walk C_String "HOL-Library.Monad_Syntax"
begin

text \<open>
  The virtual file system, \<^verbatim>\<open>src/kernel/filesystem/FileSystem.cpp\<close>: a tree of nodes, the translation between
  nodes and paths, creation and opening. Nodes are a store indexed by address; \<^verbatim>\<open>new\<close> hands out
  addresses in increasing order, of which only their being new matters, and clears what it hands out
  (\<^verbatim>\<open>HeapMalloc\<close>). A \<^verbatim>\<open>Vector\<close> is the list of its contents, as the theory Containers shows it to be.
  Strings are lists of characters without the terminator, a null pointer is \<open>None\<close>.
  An outer \<open>None\<close> is a call without result: a null pointer is followed, a name does not fit its
  array, or a loop does not end. The argument \<open>u\<close> is what the path library finds in an uninitialised
  segment.
\<close>

section \<open>Nodes\<close>

datatype FILESTATUS = OK | NOT_FOUND | ACCESS_DENIED | INVALID_NAME | INVALID_PARAMETER | INVALID_HANDLE | INVALID_PATH
  | INVALID_FILE | INVALID_DEVICE | NOT_EMPTY | NOT_SUPPORTED | INVALID_DRIVE | VOLUME_IN_USE | TIMEOUT | NO_MORE_FILES
  | END_OF_FILE | FILE_EXISTS | PIPE_BUSY | PIPE_DISCONNECTED | MORE_DATA | NO_DATA | PIPE_NOT_CONNECTED | MORE_ENTRIES
  | DIRECTORY_NOT_EMPTY | NOT_A_DIRECTORY | FILE_IS_A_DIRECTORY | DIRECTORY_NOT_ROOT | DIRECTORY_NOT_EMPTY_2
  | END_OF_MEDIA | NO_MEDIA | UNRECOGNIZED_MEDIA | SECTOR_NOT_FOUND

text \<open>\<open>fs_Operator\<close> is the address of a table of operations.\<close>

record FileSystemNode =
  fs_Name :: path
  fs_IndexNode :: u64
  fs_Mask :: u64
  fs_Mode :: u64
  fs_Flags :: u64
  fs_UserIdentifier :: u64
  fs_GroupIdentifier :: u64
  fs_Address :: u64
  fs_Length :: u64
  fs_Parent :: "nat option"
  fs_Operator :: "nat option"
  fs_Children :: "nat list"

record Virtual =
  v_nodes :: "nat \<Rightarrow> FileSystemNode option"
  FileSystemRoot :: nat
  v_next :: nat

record FILE =
  f_Name :: "path option"
  f_Status :: FILESTATUS
  f_Node :: "nat option"

definition new_FileSystemNode :: FileSystemNode where
  "new_FileSystemNode = \<lparr>fs_Name = [], fs_IndexNode = 0, fs_Mask = 0, fs_Mode = 0, fs_Flags = 0, fs_UserIdentifier = 0,
     fs_GroupIdentifier = 0, fs_Address = 0, fs_Length = 0, fs_Parent = None, fs_Operator = None, fs_Children = []\<rparr>"

definition set_node :: "Virtual \<Rightarrow> nat \<Rightarrow> FileSystemNode \<Rightarrow> Virtual" where
  "set_node v p n = v\<lparr>v_nodes := (v_nodes v)(p \<mapsto> n)\<rparr>"

definition allocate :: "Virtual \<Rightarrow> FileSystemNode \<Rightarrow> nat \<times> Virtual" where
  "allocate v n = (v_next v, (set_node v (v_next v) n)\<lparr>v_next := v_next v + 1\<rparr>)"

text \<open>\<^verbatim>\<open>strcpy\<close> into a name, an array of \<^verbatim>\<open>FILENAME_LENGTH\<close> characters.\<close>

definition copy_name :: "path \<Rightarrow> FileSystemNode \<Rightarrow> FileSystemNode option" where
  "copy_name Name n = (if length Name < 256 then Some (n\<lparr>fs_Name := Name\<rparr>) else None)"

definition push_child :: "Virtual \<Rightarrow> nat \<Rightarrow> nat \<Rightarrow> Virtual option" where
  "push_child v Parent c = do { n \<leftarrow> v_nodes v Parent; Some (set_node v Parent (n\<lparr>fs_Children := fs_Children n @ [c]\<rparr>)) }"

section \<open>Children\<close>

fun child_loop :: "Virtual \<Rightarrow> path \<Rightarrow> nat list \<Rightarrow> nat option option" where
  "child_loop v Name [] = Some None"
| "child_loop v Name (c # cs) =
     do { n \<leftarrow> v_nodes v c; if fs_Name n = Name then Some (Some c) else child_loop v Name cs }"

definition AddNewChild :: "Virtual \<Rightarrow> nat \<Rightarrow> path \<Rightarrow> (nat \<times> Virtual) option" where
  "AddNewChild v Parent Name =
     do { p \<leftarrow> v_nodes v Parent;
          n \<leftarrow> copy_name Name (new_FileSystemNode\<lparr>fs_Parent := Some Parent\<rparr>);
          let (newNode, v) = allocate v (n\<lparr>fs_Operator := fs_Operator p\<rparr>);
          v \<leftarrow> push_child v Parent newNode;
          Some (newNode, v) }"

definition GetChild :: "Virtual \<Rightarrow> nat \<Rightarrow> path \<Rightarrow> nat option option" where
  "GetChild v Parent Name = do { p \<leftarrow> v_nodes v Parent; child_loop v Name (fs_Children p) }"

fun remove_loop :: "Virtual \<Rightarrow> path \<Rightarrow> nat list \<Rightarrow> nat list option option" where
  "remove_loop v Name [] = Some None"
| "remove_loop v Name (c # cs) =
     do { n \<leftarrow> v_nodes v c;
          if fs_Name n = Name then Some (Some cs)
          else do { r \<leftarrow> remove_loop v Name cs; Some (map_option (Cons c) r) } }"

definition RemoveChild :: "Virtual \<Rightarrow> nat \<Rightarrow> path \<Rightarrow> (FILESTATUS \<times> Virtual) option" where
  "RemoveChild v Parent Name =
     do { p \<leftarrow> v_nodes v Parent;
          r \<leftarrow> remove_loop v Name (fs_Children p);
          Some (case r of
              None \<Rightarrow> (NOT_FOUND, v)
            | Some cs \<Rightarrow> (OK, set_node v Parent (p\<lparr>fs_Children := cs\<rparr>))) }"

section \<open>Nodes and paths\<close>

partial_function (option) path_loop :: "Virtual \<Rightarrow> nat option \<Rightarrow> path list \<Rightarrow> path list option" where
  "path_loop v Parent Path =
     (case Parent of
        None \<Rightarrow> Some Path
      | Some p \<Rightarrow>
          if p = FileSystemRoot v then Some Path
          else do { r \<leftarrow> v_nodes v (FileSystemRoot v);
                    if p \<in> set (fs_Children r) then Some Path
                    else do { n \<leftarrow> v_nodes v p; path_loop v (fs_Parent n) (Path @ [fs_Name n, [47]]) } })"

definition GetPathFromNode :: "Virtual \<Rightarrow> nat option \<Rightarrow> path option" where
  "GetPathFromNode v Node = do { Path \<leftarrow> path_loop v Node []; Some (concat (rev Path)) }"

text \<open>The characters from \<^verbatim>\<open>segment.begin\<close> to \<^verbatim>\<open>segment.end\<close>.\<close>

definition segment_name :: "cwk_segment \<Rightarrow> path" where
  "segment_name segment = take (seg_end segment - seg_begin segment) (drop (seg_begin segment) (seg_path segment))"

text \<open>The search jumps back to its start whenever it has gone down to a child.\<close>

partial_function (option) next_parent :: "Virtual \<Rightarrow> path \<Rightarrow> nat \<Rightarrow> nat option" where
  "next_parent v SegmentName Parent =
     do { r \<leftarrow> GetChild v Parent SegmentName;
          case r of None \<Rightarrow> Some Parent | Some c \<Rightarrow> next_parent v SegmentName c }"

partial_function (option) node_loop :: "Virtual \<Rightarrow> cwk_segment \<Rightarrow> nat \<Rightarrow> nat option" where
  "node_loop v segment Parent =
     do { Parent \<leftarrow> next_parent v (segment_name segment) Parent;
          let (more, segment) = cwk_path_get_next_segment segment;
          if more then node_loop v segment Parent else Some Parent }"

definition GetNodeFromPath :: "Virtual \<Rightarrow> nat \<Rightarrow> path \<Rightarrow> nat option option" where
  "GetNodeFromPath v Parent Path =
     do { p \<leftarrow> v_nodes v Parent;
          if fs_Name p \<noteq> Path then
            case cwk_path_get_first_segment Path of
              (False, segment) \<Rightarrow> Some None
            | (True, segment) \<Rightarrow>
                do { Parent \<leftarrow> node_loop v segment Parent;
                     (b, _) \<leftarrow> cwk_path_get_basename Path;
                     p \<leftarrow> v_nodes v Parent;
                     Some (if drop b Path = fs_Name p then Some Parent else None) }
          else Some (Some Parent) }"

text \<open>The string at the start of a cleared buffer of \<open>n\<close> characters.\<close>

definition cstr :: "(nat \<Rightarrow> u8) \<Rightarrow> nat \<Rightarrow> path" where
  "cstr b n = takeWhile (\<lambda>c. c \<noteq> 0) (map b [0..<n])"

definition NormalizePath :: "cwk_segment \<Rightarrow> Virtual \<Rightarrow> nat option \<Rightarrow> path \<Rightarrow> path option" where
  "NormalizePath u v Parent Path =
     (let size = length Path + 1;
          NormalizedPath = cstr (snd (cwk_path_normalize u Path (\<lambda>_. 0) size)) size
      in if cwk_path_is_relative NormalizedPath then
           do { ParentPath \<leftarrow> GetPathFromNode v Parent;
                let PathSize = fst (cwk_path_get_absolute u ParentPath NormalizedPath (\<lambda>_. 0) 0);
                Some (cstr (snd (cwk_path_get_absolute u ParentPath NormalizedPath (\<lambda>_. 0) (PathSize + 1))) (PathSize + 1)) }
         else Some NormalizedPath)"

text \<open>\<^verbatim>\<open>isempty\<close>: only white space.\<close>

definition isempty_text :: "path \<Rightarrow> bool" where
  "isempty_text Path = list_all isspace Path"

definition FileExists :: "cwk_segment \<Rightarrow> Virtual \<Rightarrow> nat option \<Rightarrow> path \<Rightarrow> FILESTATUS option" where
  "FileExists u v Parent Path =
     (if isempty_text Path then Some INVALID_PATH
      else
        let Parent = (case Parent of None \<Rightarrow> FileSystemRoot v | Some p \<Rightarrow> p) in
        do { NormalizedPath \<leftarrow> NormalizePath u v (Some Parent) Path;
             Node \<leftarrow> GetNodeFromPath v Parent NormalizedPath;
             Some (if Node = None then NOT_FOUND else OK) })"

section \<open>Creation\<close>

definition create_child :: "Virtual \<Rightarrow> nat \<Rightarrow> path \<Rightarrow> (nat \<times> Virtual) option" where
  "create_child v CurrentParent SegmentName =
     do { r \<leftarrow> GetChild v CurrentParent SegmentName;
          case r of None \<Rightarrow> AddNewChild v CurrentParent SegmentName | Some c \<Rightarrow> Some (c, v) }"

partial_function (option) create_loop :: "Virtual \<Rightarrow> cwk_segment \<Rightarrow> nat \<Rightarrow> (nat \<times> Virtual) option" where
  "create_loop v segment CurrentParent =
     do { (CurrentParent, v) \<leftarrow> create_child v CurrentParent (segment_name segment);
          let (more, segment) = cwk_path_get_next_segment segment;
          if more then create_loop v segment CurrentParent else Some (CurrentParent, v) }"

text \<open>Without a parent the first file system is taken; a search among no children finds nothing.\<close>

definition default_parent :: "Virtual \<Rightarrow> nat option \<Rightarrow> nat option option" where
  "default_parent v Parent =
     (case Parent of
        Some p \<Rightarrow> Some (Some p)
      | None \<Rightarrow>
          do { r \<leftarrow> v_nodes v (FileSystemRoot v);
               Some (case fs_Children r of [] \<Rightarrow> None | c # _ \<Rightarrow> Some c) })"

definition Create :: "cwk_segment \<Rightarrow> Virtual \<Rightarrow> nat option \<Rightarrow> path \<Rightarrow> (nat option \<times> Virtual) option" where
  "Create u v Parent Path =
     (if isempty_text Path then Some (None, v)
      else
        do { CurrentParent \<leftarrow> default_parent v Parent;
             CleanPath \<leftarrow> NormalizePath u v CurrentParent Path;
             status \<leftarrow> FileExists u v CurrentParent CleanPath;
             if status \<noteq> NOT_FOUND then Some (None, v)
             else
               case cwk_path_get_first_segment CleanPath of
                 (False, segment) \<Rightarrow> Some (None, v)
               | (True, segment) \<Rightarrow>
                   do { p \<leftarrow> CurrentParent;
                        (c, v) \<leftarrow> create_loop v segment p;
                        Some (Some c, v) } })"

definition CreateRoot :: "Virtual \<Rightarrow> nat option \<Rightarrow> path \<Rightarrow> (nat option \<times> Virtual) option" where
  "CreateRoot v Operator RootName =
     (if Operator = None then Some (None, v)
      else
        do { n \<leftarrow> copy_name RootName new_FileSystemNode;
             let (newNode, v) = allocate v (n\<lparr>fs_Flags := 0x02, fs_Operator := Operator\<rparr>);
             v \<leftarrow> push_child v (FileSystemRoot v) newNode;
             Some (Some newNode, v) })"

text \<open>The constructor; the root lies at the address \<open>a\<close>.\<close>

definition new_Virtual :: "nat \<Rightarrow> Virtual" where
  "new_Virtual a = \<lparr>v_nodes = [a \<mapsto> new_FileSystemNode\<lparr>fs_Flags := 0x08, fs_Name := [114, 111, 111, 116]\<rparr>],
     FileSystemRoot = a, v_next = a + 1\<rparr>"

section \<open>Files\<close>

definition basename_of :: "path \<Rightarrow> path option" where
  "basename_of Path = map_option (\<lambda>(b, _). drop b Path) (cwk_path_get_basename Path)"

definition open_node :: "Virtual \<Rightarrow> nat option \<Rightarrow> FILE option" where
  "open_node v Node =
     do { Path \<leftarrow> GetPathFromNode v Node;
          Some \<lparr>f_Name = basename_of Path, f_Status = (if Node = None then NOT_FOUND else OK), f_Node = Node\<rparr> }"

text \<open>When the file was not found below the parent.\<close>

definition open_elsewhere :: "Virtual \<Rightarrow> path \<Rightarrow> FILESTATUS \<Rightarrow> FILE option" where
  "open_elsewhere v CleanPath filestatus =
     do { r \<leftarrow> v_nodes v (FileSystemRoot v);
          c \<leftarrow> child_loop v CleanPath (fs_Children r);
          case c of
            Some var \<Rightarrow> open_node v (Some var)
          | None \<Rightarrow>
              do { first \<leftarrow> (case fs_Children r of [] \<Rightarrow> None | c # _ \<Rightarrow> Some c);
                   Node \<leftarrow> GetNodeFromPath v first CleanPath;
                   case Node of
                     Some p \<Rightarrow> open_node v (Some p)
                   | None \<Rightarrow> Some \<lparr>f_Name = None, f_Status = filestatus, f_Node = None\<rparr> } }"

definition Open :: "cwk_segment \<Rightarrow> Virtual \<Rightarrow> path \<Rightarrow> nat option \<Rightarrow> FILE option" where
  "Open u v Path Parent =
     (if Path = [46] then open_node v Parent
      else if Path = [46, 46] then
        do { p \<leftarrow> Parent; n \<leftarrow> v_nodes v p; open_node v (if fs_Parent n \<noteq> None then fs_Parent n else Some p) }
      else
        do { Parent \<leftarrow> default_parent v Parent;
             CleanPath \<leftarrow> NormalizePath u v Parent Path;
             filestatus \<leftarrow> FileExists u v Parent CleanPath;
             if filestatus \<noteq> OK then open_elsewhere v CleanPath filestatus
             else
               do { p \<leftarrow> Parent;
                    Node \<leftarrow> GetNodeFromPath v p CleanPath;
                    Some \<lparr>f_Name = basename_of CleanPath, f_Status = (if Node = None then NOT_FOUND else OK), f_Node = Node\<rparr> } })"

definition ConvertNodeToFILE :: "Virtual \<Rightarrow> nat \<Rightarrow> FILE option" where
  "ConvertNodeToFILE v Node = do { n \<leftarrow> v_nodes v Node; Some \<lparr>f_Name = Some (fs_Name n), f_Status = OK, f_Node = Some Node\<rparr> }"

text \<open>
  Reading and writing call the operation of the node's table; \<open>ops a\<close> is the operation in the table at
  \<open>a\<close>, or \<open>None\<close> when the table has a null pointer there. The call changes a state of its own.
\<close>

definition transfer ::
  "(nat \<Rightarrow> (nat \<Rightarrow> u64 \<Rightarrow> u64 \<Rightarrow> 's \<Rightarrow> u64 \<times> 's) option) \<Rightarrow> Virtual \<Rightarrow> FILE option \<Rightarrow> u64 \<Rightarrow> u64 \<Rightarrow> 's \<Rightarrow> (u64 \<times> FILE option \<times> 's) option" where
  "transfer ops v File Offset Size s =
     (case File of
        None \<Rightarrow> Some (0, None, s)
      | Some f \<Rightarrow>
          let f = f\<lparr>f_Status := OK\<rparr> in
          case f_Node f of
            None \<Rightarrow> Some (0, Some (f\<lparr>f_Status := INVALID_PARAMETER\<rparr>), s)
          | Some p \<Rightarrow>
              do { n \<leftarrow> v_nodes v p;
                   case fs_Operator n of
                     None \<Rightarrow> Some (0, Some (f\<lparr>f_Status := INVALID_PARAMETER\<rparr>), s)
                   | Some a \<Rightarrow> do { op \<leftarrow> ops a; let (ret, s) = op p Offset Size s; Some (ret, Some f, s) } })"

definition Close :: "FILE option \<Rightarrow> FILESTATUS" where
  "Close File = (if File = None then INVALID_HANDLE else OK)"

definition Unmount :: "FILE option \<Rightarrow> FILESTATUS" where
  "Unmount File = (if File = None then INVALID_PARAMETER else OK)"

section \<open>Clean paths\<close>

lemma segments_of_chars: "x \<in> set (segments_of p) \<Longrightarrow> set x \<subseteq> set p"
proof (induction p rule: segments_of.induct)
  case (1 p)
  let ?q = "dropWhile (\<lambda>c. c = 47) p"
  show ?case
  proof (cases "?q = []")
    case False
    have s: "x = takeWhile (\<lambda>c. c \<noteq> 47) ?q \<or> x \<in> set (segments_of (dropWhile (\<lambda>c. c \<noteq> 47) ?q))"
      using 1(2) False by (subst (asm) segments_of.simps) (auto simp: Let_def split: if_splits)
    have "set ?q \<subseteq> set p" "set (dropWhile (\<lambda>c. c \<noteq> 47) ?q) \<subseteq> set p" "set (takeWhile (\<lambda>c. c \<noteq> 47) ?q) \<subseteq> set p"
      by (auto dest: set_dropWhileD set_takeWhileD)
    then show ?thesis
      using s 1(1) [OF refl False] by blast
  qed (use 1(2) in \<open>simp add: segments_of.simps [of p]\<close>)
qed

definition text_size :: "path list \<Rightarrow> nat" where
  "text_size ks = sum_list (map (\<lambda>k. length k + 1) ks)"

lemma text_size_simps [simp]:
  "text_size [] = 0" "text_size (k # ks) = length k + 1 + text_size ks" "text_size (xs @ ys) = text_size xs + text_size ys"
  by (simp_all add: text_size_def)

lemma text_size_rev [simp]: "text_size (rev ks) = text_size ks"
  by (induction ks) simp_all

lemma emit_length: "length (emit True ks) = text_size ks"
  by (induction ks) simp_all

lemma emit_length_first: "length (emit False ks) = text_size ks - 1"
  by (cases ks) (simp_all add: emit_length)

lemma segments_cases:
  obtains "segments_of p = []"
  | x r where "segments_of p = x # segments_of r" "length x + length r \<le> length p" "r = [] \<or> hd r = 47"
proof (cases "dropWhile (\<lambda>c. c = 47) p = []")
  case True
  then have "segments_of p = []"
    by (subst segments_of.simps) simp
  then show ?thesis
    by (rule that(1))
next
  case False
  let ?q = "dropWhile (\<lambda>c. c = 47) p"
  have l: "length (takeWhile (\<lambda>c. c \<noteq> 47) ?q) + length (dropWhile (\<lambda>c. c \<noteq> 47) ?q) \<le> length p"
    using length_dropWhile_le [of "\<lambda>c. c = 47" p] by (simp flip: length_append)
  have h: "dropWhile (\<lambda>c. c \<noteq> 47) ?q = [] \<or> hd (dropWhile (\<lambda>c. c \<noteq> 47) ?q) = 47"
    using hd_dropWhile [of "\<lambda>c. c \<noteq> 47" ?q] by blast
  have "segments_of p = takeWhile (\<lambda>c. c \<noteq> 47) ?q # segments_of (dropWhile (\<lambda>c. c \<noteq> 47) ?q)"
    using False by (subst segments_of.simps) (auto simp: Let_def)
  from that(2) [OF this l h] show ?thesis .
qed

lemma segments_size: "text_size (segments_of p) \<le> length p + 1"
proof (induction "length p" arbitrary: p rule: less_induct)
  case less
  show ?case
  proof (cases rule: segments_cases [of p])
    case (2 x r)
    show ?thesis
    proof (cases r)
      case Nil
      then show ?thesis
        using 2 by simp
    next
      case (Cons c r')
      then have "text_size (segments_of r') \<le> length r' + 1"
        using 2(2) by (intro less) simp
      then show ?thesis
        using 2 Cons by simp
    qed
  qed simp
qed

lemma push_segment_size: "text_size (push_segment a st x) \<le> text_size st + (length x + 1)"
  by (auto simp: push_segment_def split: cwk_segment_type.split list.split)

lemma normal_form_size: "text_size (normal_form a xs) \<le> text_size xs"
proof -
  have "text_size (foldl (push_segment a) st xs) \<le> text_size st + text_size xs" for st
  proof (induction xs arbitrary: st)
    case (Cons x xs)
    have "text_size (foldl (push_segment a) (push_segment a st x) xs) \<le> text_size (push_segment a st x) + text_size xs"
      by (rule Cons.IH)
    then show ?case
      using push_segment_size [of a st x] by simp
  qed simp
  from this [of "[]"] show ?thesis
    by (simp add: normal_form_def)
qed

lemma normal_path_length: "length (normal_path [p]) \<le> length p"
proof (cases "p = []")
  case True
  then show ?thesis
    by (simp add: normal_path_def root_of_def normal_form_def)
next
  case p: False
  show ?thesis
  proof (cases "hd p = 47")
    case True
    then obtain q where q: "p = 47 # q"
      using p by (cases p) auto
    have "text_size (normal_form True (segments_of q)) \<le> length q + 1"
      using normal_form_size [of True "segments_of q"] segments_size [of q] by linarith
    then show ?thesis
      by (simp add: normal_path_def root_of_def q emit_length_first Let_def)
  next
    case False
    have "text_size (normal_form False (segments_of p)) \<le> length p + 1"
      using normal_form_size [of False "segments_of p"] segments_size [of p] by linarith
    then show ?thesis
      using p False by (auto simp: normal_path_def root_of_def emit_length_first Let_def Suc_le_eq normal_form_def)
  qed
qed

lemma emit_chars: "\<forall>x \<in> set ks. 0 \<notin> set x \<Longrightarrow> 0 \<notin> set (emit has ks)"
  by (induction ks arbitrary: has) auto

lemma normal_path_no_zero:
  assumes "\<forall>p \<in> set paths. 0 \<notin> set p"
  shows "0 \<notin> set (normal_path paths)"
proof -
  have "\<forall>x \<in> set (all_segments paths). 0 \<notin> set x"
    using assms segments_of_chars by fastforce
  then have "\<forall>x \<in> set (normal_form a (all_segments paths)). 0 \<notin> set x" for a
    by (rule normal_form_text)
  then show ?thesis
    using emit_chars by (auto simp: normal_path_def Let_def root_of_def)
qed

lemma cstr_reads: "reads b (w @ [0]) \<Longrightarrow> 0 \<notin> set w \<Longrightarrow> length w < n \<Longrightarrow> cstr b n = w"
proof -
  assume a: "reads b (w @ [0])" "0 \<notin> set w" "length w < n"
  have "map b [0..<n] = w @ 0 # map b [length w + 1..<n]"
  proof -
    have "[0..<n] = [0..<length w] @ length w # [length w + 1..<n]"
      using a(3) by (metis Suc_eq_plus1 le_add1 less_imp_le_nat plus_nat.add_0 upt_add_eq_append upt_conv_Cons le_add_diff_inverse)
    moreover have "map b [0..<length w] = w" "b (length w) = 0"
      using a(1) by (auto simp: reads_def nth_append intro!: nth_equalityI)
    ultimately show ?thesis
      by simp
  qed
  then show ?thesis
    using a(2) by (simp add: cstr_def takeWhile_append)
qed

lemma is_absolute_iff: "cwk_path_is_absolute p \<longleftrightarrow> root_of p \<noteq> []"
  unfolding cwk_path_is_absolute_def length_root root_absolute by simp

lemma normal_form_segments: "\<forall>x \<in> set (normal_form a (all_segments paths)). x \<noteq> [] \<and> 47 \<notin> set x"
  by (rule normal_form_text) (auto dest: segments_of_set)

lemma root_of_normal: "root_of (normal_path paths) = root_of (hd paths)"
proof -
  let ?r = "root_of (hd paths)"
  let ?ks = "normal_form (?r \<noteq> []) (all_segments paths)"
  have h: "emit False ?ks = [] \<or> hd (emit False ?ks) \<noteq> 47"
    using normal_form_segments [of "?r \<noteq> []" paths] by (cases ?ks) (auto simp: hd_append dest: hd_in_set)
  have "normal_path paths = [46] \<and> ?r = [] \<or> normal_path paths = ?r @ emit False ?ks"
  proof (cases "all_segments paths \<noteq> [] \<and> ?ks = [] \<and> ?r = []")
    case True
    then have "normal_path paths = [46]"
      unfolding normal_path_def Let_def by (rule if_P)
    then show ?thesis
      using True by blast
  next
    case False
    then have "normal_path paths = ?r @ emit False ?ks"
      unfolding normal_path_def Let_def by (rule if_not_P)
    then show ?thesis
      by blast
  qed
  moreover have "root_of [46] = []"
    by (simp add: root_of_def)
  ultimately show ?thesis
    using root_of_append [OF h, of "hd paths"] by metis
qed

text \<open>A clean path: a separator and the segments, none of which is \<^verbatim>\<open>.\<close> or \<^verbatim>\<open>..\<close>.\<close>

definition clean :: "path \<Rightarrow> path list \<Rightarrow> bool" where
  "clean p ks \<longleftrightarrow> p = 47 # emit False ks \<and> (\<forall>k \<in> set ks. k \<noteq> [] \<and> 47 \<notin> set k \<and> 0 \<notin> set k) \<and> normal_path [p] = p"

lemma clean_segments: "clean p ks \<Longrightarrow> segments_of p = ks"
  using segments_of_emit [of ks False] by (simp add: clean_def)

lemma clean_no_zero: "clean p ks \<Longrightarrow> 0 \<notin> set p"
  using emit_chars [of ks False] by (auto simp: clean_def)

lemma normal_path_clean:
  assumes "root_of (hd paths) \<noteq> []" "\<forall>p \<in> set paths. 0 \<notin> set p"
  shows "\<exists>ks. clean (normal_path paths) ks"
proof -
  let ?ks = "normal_form True (all_segments paths)"
  have r: "root_of (hd paths) = [47]"
    using assms(1) by (simp add: root_of_def split: if_splits)
  have "\<forall>x \<in> set (all_segments paths). 0 \<notin> set x"
    using assms(2) segments_of_chars by fastforce
  then have "\<forall>x \<in> set ?ks. 0 \<notin> set x"
    by (rule normal_form_text)
  moreover have "normal_path paths = 47 # emit False ?ks"
    by (simp add: normal_path_def Let_def r)
  ultimately show ?thesis
    unfolding clean_def using normal_form_segments [of True paths] normal_path_idem [of paths] by metis
qed

text \<open>What \<^verbatim>\<open>NormalizePath\<close> computes, with the path of the parent.\<close>

definition clean_path :: "path \<Rightarrow> path \<Rightarrow> path" where
  "clean_path pp Path =
     (let N = normal_path [Path] in
      if root_of Path = [] then normal_path (if root_of pp \<noteq> [] then [pp, N] else [[47], pp, N]) else N)"

lemma cstr_normalized:
  assumes "\<forall>p \<in> set paths. 0 \<notin> set p" "paths \<noteq> []" "n > length (normal_path paths)"
  shows "cstr (snd (cwk_path_join_and_normalize_multiple u paths b n)) n = normal_path paths"
proof -
  obtain c where "cwk_path_join_and_normalize_multiple u paths b n = (length (normal_path paths), c)"
      "reads c (normal_path paths @ [0])"
    using join_and_normalize_reads [OF assms] by blast
  then show ?thesis
    using cstr_reads [of c "normal_path paths" n] normal_path_no_zero [OF assms(1)] assms(3) by simp
qed

lemma NormalizePath_clean:
  assumes "GetPathFromNode v Parent = Some pp" "0 \<notin> set pp" "0 \<notin> set Path"
  shows "NormalizePath u v Parent Path = Some (clean_path pp Path)"
proof -
  let ?N = "normal_path [Path]"
  let ?ps = "if root_of pp \<noteq> [] then [pp, ?N] else [[47], pp, ?N]"
  have z: "0 \<notin> set ?N"
    using assms(3) by (intro normal_path_no_zero) simp
  have n: "cstr (snd (cwk_path_normalize u Path (\<lambda>_. 0) (length Path + 1))) (length Path + 1) = ?N"
    unfolding cwk_path_normalize_def using normal_path_length [of Path] assms(3) by (intro cstr_normalized) (simp_all add: less_Suc_eq_le)
  have r: "cwk_path_is_relative ?N \<longleftrightarrow> root_of Path = []"
    by (simp add: cwk_path_is_relative_def is_absolute_iff root_of_normal)
  have a: "cwk_path_get_absolute u pp ?N = cwk_path_join_and_normalize_multiple u ?ps" if "root_of Path = []"
    using that by (auto simp: cwk_path_get_absolute_def is_absolute_iff root_of_normal Let_def)
  have ps: "\<forall>p \<in> set ?ps. 0 \<notin> set p" "?ps \<noteq> []"
    using z assms(2) by auto
  have l: "fst (cwk_path_join_and_normalize_multiple u ?ps (\<lambda>_. 0) 0) = length (normal_path ?ps)"
    by (rule join_and_normalize_length [OF ps])
  have c: "cstr (snd (cwk_path_join_and_normalize_multiple u ?ps (\<lambda>_. 0) (length (normal_path ?ps) + 1)))
      (length (normal_path ?ps) + 1) = normal_path ?ps"
    by (rule cstr_normalized [OF ps]) simp
  show ?thesis
  proof (cases "root_of Path = []")
    case True
    show ?thesis
      unfolding NormalizePath_def Let_def n using True r
      by (simp only: if_True simp_thms a l c assms(1) bind.bind_lunit clean_path_def Let_def)
  next
    case False
    then show ?thesis
      unfolding NormalizePath_def Let_def n r clean_path_def by simp
  qed
qed

lemma clean_path_clean:
  assumes "0 \<notin> set pp" "0 \<notin> set Path"
  shows "\<exists>ks. clean (clean_path pp Path) ks"
proof -
  have "0 \<notin> set (normal_path [Path])"
    using assms(2) by (intro normal_path_no_zero) simp
  then show ?thesis
    using assms normal_path_clean [of "[Path]"] normal_path_clean [of "[pp, normal_path [Path]]"]
      normal_path_clean [of "[[47], pp, normal_path [Path]]"]
    by (auto simp: clean_path_def Let_def) (simp_all add: root_of_def)
qed

lemma clean_path_again: "clean p ks \<Longrightarrow> clean_path pp p = p"
  by (auto simp: clean_path_def Let_def clean_def root_of_def)

section \<open>Walking along a path\<close>

text \<open>The loops over the segments of a path are folds over their names.\<close>

fun node_fold :: "Virtual \<Rightarrow> path list \<Rightarrow> nat \<Rightarrow> nat option" where
  "node_fold v [] p = Some p"
| "node_fold v (k # ks) p = do { q \<leftarrow> next_parent v k p; node_fold v ks q }"

fun create_fold :: "Virtual \<Rightarrow> path list \<Rightarrow> nat \<Rightarrow> (nat \<times> Virtual) option" where
  "create_fold v [] p = Some (p, v)"
| "create_fold v (k # ks) p = do { (q, v) \<leftarrow> create_child v p k; create_fold v ks q }"

lemma segment_name_text: "seg_size s = seg_end s - seg_begin s \<Longrightarrow> segment_name s = segment_text s"
  by (simp add: segment_name_def segment_text_def)

lemma next_size: "cwk_path_get_next_segment s = (True, s') \<Longrightarrow> seg_size s' = seg_end s' - seg_begin s'"
  by (auto simp: cwk_path_get_next_segment_def Let_def split: if_splits)

lemma node_loop_fold:
  "stands p o' s pre x post \<Longrightarrow> seg_size s = seg_end s - seg_begin s \<Longrightarrow> node_loop v s q = node_fold v (x # post) q"
proof (induction post arbitrary: s pre x q)
  case Nil
  have "cwk_path_get_next_segment s = (False, s)"
    using next_stands [OF Nil(1)] by simp
  then show ?case
    using stands_text [OF Nil(1)] segment_name_text [OF Nil(2)] by (subst node_loop.simps) (cases "next_parent v x q"; simp)
next
  case (Cons y ys)
  obtain s' where s': "cwk_path_get_next_segment s = (True, s')" "stands p o' s' (pre @ [x]) y ys"
    using next_stands [OF Cons.prems(1)] by auto
  have "node_loop v s' q = node_fold v (y # ys) q" for q
    using Cons.IH [OF s'(2) next_size [OF s'(1)]] .
  then show ?case
    using stands_text [OF Cons.prems(1)] segment_name_text [OF Cons.prems(2)] s'(1)
    by (subst node_loop.simps) (cases "next_parent v x q"; simp)
qed

lemma create_loop_fold:
  "stands p o' s pre x post \<Longrightarrow> seg_size s = seg_end s - seg_begin s \<Longrightarrow> create_loop v s q = create_fold v (x # post) q"
proof (induction post arbitrary: v s pre x q)
  case Nil
  have "cwk_path_get_next_segment s = (False, s)"
    using next_stands [OF Nil(1)] by simp
  then show ?case
    using stands_text [OF Nil(1)] segment_name_text [OF Nil(2)] by (subst create_loop.simps) simp
next
  case (Cons y ys)
  obtain s' where s': "cwk_path_get_next_segment s = (True, s')" "stands p o' s' (pre @ [x]) y ys"
    using next_stands [OF Cons.prems(1)] by auto
  have "create_loop v s' q = create_fold v (y # ys) q" for v q
    using Cons.IH [OF s'(2) next_size [OF s'(1)]] .
  then show ?case
    using stands_text [OF Cons.prems(1)] segment_name_text [OF Cons.prems(2)] s'(1) by (subst create_loop.simps) simp
qed

lemma first_segment_cases:
  assumes "0 \<notin> set p"
  obtains s where "segments_of p = []" "cwk_path_get_first_segment p = (False, s)"
  | s where "segments_of p \<noteq> []" "cwk_path_get_first_segment p = (True, s)"
      "\<And>v q. node_loop v s q = node_fold v (segments_of p) q" "\<And>v q. create_loop v s q = create_fold v (segments_of p) q"
proof (cases "segments_of p")
  case Nil
  then have "\<not> fst (cwk_path_get_first_segment p)"
    using first_stands [OF assms, of "cwk_path_get_root p"] by (simp add: segments_of_root cwk_path_get_first_segment_def)
  then show ?thesis
    using that(1) Nil by (cases "cwk_path_get_first_segment p") auto
next
  case (Cons y ys)
  then obtain s where s: "cwk_path_get_first_segment p = (True, s)" "stands p (cwk_path_get_root p) s [] y ys"
    using first_stands [OF assms, of "cwk_path_get_root p"] by (auto simp: segments_of_root cwk_path_get_first_segment_def)
  then have "seg_size s = seg_end s - seg_begin s"
    by (auto simp: cwk_path_get_first_segment_def cwk_path_get_first_segment_without_root_def Let_def
        split: if_splits option.splits)
  then show ?thesis
    using that(2) Cons s node_loop_fold [OF s(2)] create_loop_fold [OF s(2)] by simp
qed

lemma emit_last:
  "ks \<noteq> [] \<Longrightarrow> \<forall>k \<in> set ks. k \<noteq> [] \<Longrightarrow> emit has ks \<noteq> [] \<and> last (emit has ks) = last (last ks)"
proof (induction ks arbitrary: has)
  case (Cons k ks)
  then show ?case
    by (cases "ks = []") auto
qed simp

lemma clean_basename:
  assumes "clean p ks" "ks \<noteq> []"
  shows "\<exists>b n. cwk_path_get_basename p = Some (b, n) \<and> drop b p = last ks"
proof -
  have z: "0 \<notin> set p" and s: "segments_of p = ks"
    using assms(1) clean_no_zero clean_segments by auto
  obtain sg where sg: "cwk_path_get_last_segment p = (True, sg)"
      "stands p (cwk_path_get_root p) sg (butlast ks) (last ks) []"
    using last_segment_stands [OF z] assms(2) by (auto simp: s)
  then obtain A B where ab: "drop (cwk_path_get_root p) p = A @ last ks @ B" "segments_of B = []"
      "seg_begin sg = cwk_path_get_root p + length A"
    by (auto simp: stands_def)
  have l: "last ks \<noteq> []" "47 \<notin> set (last ks)" "p \<noteq> []" "last p = last (last ks)"
    using assms emit_last [of ks False] by (auto simp: clean_def)
  have "B = []"
  proof (rule ccontr)
    assume "B \<noteq> []"
    moreover have "drop (cwk_path_get_root p) p \<noteq> []"
      using ab(1) l(1) by simp
    then have "cwk_path_get_root p < length p"
      by (metis drop_all not_less)
    ultimately have "last B = last p" "last B \<in> set B"
      using arg_cong [OF ab(1), of last] by (simp_all add: last_drop)
    then have "last (last ks) = 47"
      using ab(2) l(4) by (auto simp: segments_of_Nil_iff)
    then show False
      using l(1,2) last_in_set by metis
  qed
  then have "drop (seg_begin sg) p = last ks"
    using drop_split [OF ab(1)] ab(3) by simp
  then show ?thesis
    using sg(1) by (simp add: cwk_path_get_basename_def)
qed

section \<open>The tree\<close>

text \<open>
  Links lead to nodes; a child is newer than the node that lists it and than the node it names as its
  parent, so that no way down or up is endless.
\<close>

definition node_ok :: "Virtual \<Rightarrow> nat \<Rightarrow> FileSystemNode \<Rightarrow> bool" where
  "node_ok v p n \<longleftrightarrow> FileSystemRoot v \<le> p \<and> p < v_next v \<and> 0 \<notin> set (fs_Name n) \<and>
     (\<forall>c \<in> set (fs_Children n). v_nodes v c \<noteq> None \<and> p < c) \<and>
     (\<forall>q. fs_Parent n = Some q \<longrightarrow> v_nodes v q \<noteq> None \<and> q < p)"

definition vfs_ok :: "Virtual \<Rightarrow> bool" where
  "vfs_ok v \<longleftrightarrow> v_nodes v (FileSystemRoot v) \<noteq> None \<and> (\<forall>p n. v_nodes v p = Some n \<longrightarrow> node_ok v p n)"

text \<open>The children of every node but the root name it as their parent; file systems have none.\<close>

definition linked :: "Virtual \<Rightarrow> bool" where
  "linked v \<longleftrightarrow>
     (\<forall>p n c m. v_nodes v p = Some n \<longrightarrow> c \<in> set (fs_Children n) \<longrightarrow> v_nodes v c = Some m \<longrightarrow>
        fs_Parent m = (if p = FileSystemRoot v then None else Some p)) \<and>
     (\<forall>r. v_nodes v (FileSystemRoot v) = Some r \<longrightarrow> fs_Parent r = None)"

lemma vfs_okD: "vfs_ok v \<Longrightarrow> v_nodes v p = Some n \<Longrightarrow> node_ok v p n"
  by (simp add: vfs_ok_def)

lemma child_loop_returns:
  assumes "\<forall>c \<in> set cs. v_nodes v c \<noteq> None"
  shows "(child_loop v k cs = Some None \<and> (\<forall>c \<in> set cs. \<forall>n. v_nodes v c = Some n \<longrightarrow> fs_Name n \<noteq> k)) \<or>
    (\<exists>c n. child_loop v k cs = Some (Some c) \<and> c \<in> set cs \<and> v_nodes v c = Some n \<and> fs_Name n = k)"
  using assms
proof (induction cs)
  case (Cons a cs)
  then obtain n where n: "v_nodes v a = Some n"
    by auto
  show ?case
  proof (cases "fs_Name n = k")
    case True
    then show ?thesis
      using n by auto
  next
    case False
    have "child_loop v k (a # cs) = child_loop v k cs"
      using n False by simp
    then show ?thesis
      using Cons n False by auto
  qed
qed simp

lemma GetChild_returns:
  assumes "vfs_ok v" "v_nodes v p = Some pn"
  shows "(GetChild v p k = Some None \<and> (\<forall>c \<in> set (fs_Children pn). \<forall>n. v_nodes v c = Some n \<longrightarrow> fs_Name n \<noteq> k)) \<or>
    (\<exists>c n. GetChild v p k = Some (Some c) \<and> c \<in> set (fs_Children pn) \<and> v_nodes v c = Some n \<and> fs_Name n = k \<and> p < c)"
proof -
  have "\<forall>c \<in> set (fs_Children pn). v_nodes v c \<noteq> None \<and> p < c"
    using vfs_okD [OF assms] by (simp add: node_ok_def)
  then show ?thesis
    using child_loop_returns [of "fs_Children pn" v k] assms(2) by (auto simp: GetChild_def)
qed

lemma next_parent_returns:
  assumes "vfs_ok v" "v_nodes v p \<noteq> None"
  shows "\<exists>q. next_parent v k p = Some q \<and> v_nodes v q \<noteq> None"
  using assms
proof (induction "v_next v - p" arbitrary: p rule: less_induct)
  case less
  obtain pn where pn: "v_nodes v p = Some pn"
    using less.prems(2) by auto
  then have lt: "p < v_next v"
    using vfs_okD [OF less.prems(1)] by (simp add: node_ok_def)
  from GetChild_returns [OF less.prems(1) pn, of k] show ?case
  proof
    assume "GetChild v p k = Some None \<and> (\<forall>c \<in> set (fs_Children pn). \<forall>n. v_nodes v c = Some n \<longrightarrow> fs_Name n \<noteq> k)"
    then show ?thesis
      using pn by (subst next_parent.simps) simp
  next
    assume "\<exists>c n. GetChild v p k = Some (Some c) \<and> c \<in> set (fs_Children pn) \<and> v_nodes v c = Some n \<and> fs_Name n = k \<and> p < c"
    then obtain c where c: "GetChild v p k = Some (Some c)" "v_nodes v c \<noteq> None" "p < c"
      by auto
    then have "\<exists>q. next_parent v k c = Some q \<and> v_nodes v q \<noteq> None"
      using lt less.prems(1) by (intro less.hyps) simp_all
    then show ?thesis
      using c(1) by (subst next_parent.simps) simp
  qed
qed

lemma node_fold_returns:
  "vfs_ok v \<Longrightarrow> v_nodes v p \<noteq> None \<Longrightarrow> \<exists>q. node_fold v ks p = Some q \<and> v_nodes v q \<noteq> None"
proof (induction ks arbitrary: p)
  case (Cons k ks)
  then show ?case
    using next_parent_returns [OF Cons.prems, of k] by fastforce
qed simp

lemma GetNodeFromPath_returns:
  assumes "vfs_ok v" "v_nodes v p \<noteq> None" "0 \<notin> set Path"
  shows "\<exists>r. GetNodeFromPath v p Path = Some r"
proof -
  obtain pn where pn: "v_nodes v p = Some pn"
    using assms(2) by auto
  show ?thesis
  proof (cases rule: first_segment_cases [OF assms(3)])
    case (1 s)
    then show ?thesis
      using pn by (simp add: GetNodeFromPath_def)
  next
    case (2 s)
    obtain q n where "node_fold v (segments_of Path) p = Some q" "v_nodes v q = Some n"
      using node_fold_returns [OF assms(1,2), of "segments_of Path"] by auto
    moreover obtain b l where "cwk_path_get_basename Path = Some (b, l)"
      using basename_last [OF assms(3) 2(1)] by auto
    ultimately show ?thesis
      using pn 2 by (simp add: GetNodeFromPath_def)
  qed
qed

lemma path_loop_returns:
  assumes "vfs_ok v" "\<And>p. Parent = Some p \<Longrightarrow> v_nodes v p \<noteq> None"
  shows "\<exists>l. path_loop v Parent acc = Some (acc @ l) \<and> (\<forall>x \<in> set l. 0 \<notin> set x)"
proof (cases Parent)
  case None
  then show ?thesis
    by (subst path_loop.simps) simp
next
  case (Some p)
  have "v_nodes v p \<noteq> None \<Longrightarrow> \<exists>l. path_loop v (Some p) acc = Some (acc @ l) \<and> (\<forall>x \<in> set l. 0 \<notin> set x)" for acc
  proof (induction p arbitrary: acc rule: less_induct)
    case (less p)
    obtain n r where n: "v_nodes v p = Some n" "v_nodes v (FileSystemRoot v) = Some r"
      using less.prems assms(1) by (auto simp: vfs_ok_def)
    have ok: "node_ok v p n"
      using vfs_okD [OF assms(1) n(1)] .
    let ?acc = "acc @ [fs_Name n, [47]]"
    have "\<exists>l. path_loop v (fs_Parent n) ?acc = Some (?acc @ l) \<and> (\<forall>x \<in> set l. 0 \<notin> set x)"
    proof (cases "fs_Parent n")
      case None
      then show ?thesis
        by (subst path_loop.simps) simp
    next
      case (Some q)
      then show ?thesis
        using less.IH [of q ?acc] ok by (simp add: node_ok_def)
    qed
    then obtain l where "path_loop v (fs_Parent n) ?acc = Some (?acc @ l)" "\<forall>x \<in> set l. 0 \<notin> set x"
      by blast
    then show ?case
      using n ok by (subst path_loop.simps) (auto simp: node_ok_def)
  qed
  then show ?thesis
    using Some assms(2) by simp
qed

lemma GetPathFromNode_returns:
  assumes "vfs_ok v" "\<And>p. Node = Some p \<Longrightarrow> v_nodes v p \<noteq> None"
  shows "\<exists>pp. GetPathFromNode v Node = Some pp \<and> 0 \<notin> set pp"
proof -
  obtain l where "path_loop v Node [] = Some ([] @ l)" "\<forall>x \<in> set l. 0 \<notin> set x"
    using path_loop_returns [of v Node "[]"] assms by blast
  then show ?thesis
    by (simp add: GetPathFromNode_def)
qed

lemma NormalizePath_returns:
  assumes "vfs_ok v" "\<And>p. Parent = Some p \<Longrightarrow> v_nodes v p \<noteq> None" "0 \<notin> set Path"
  shows "\<exists>p ks. NormalizePath u v Parent Path = Some p \<and> clean p ks"
proof -
  obtain pp where pp: "GetPathFromNode v Parent = Some pp" "0 \<notin> set pp"
    using GetPathFromNode_returns [of v Parent] assms(1,2) by blast
  show ?thesis
    using NormalizePath_clean [OF pp assms(3)] clean_path_clean [OF pp(2) assms(3)] by auto
qed

lemma clean_not_empty: "clean p ks \<Longrightarrow> \<not> isempty_text p \<and> p \<noteq> []"
  by (auto simp: clean_def isempty_text_def isspace_def)

text \<open>A clean path is looked up as it is.\<close>

lemma FileExists_clean:
  assumes "vfs_ok v" "v_nodes v p \<noteq> None" "clean Path ks"
  shows "\<exists>r. GetNodeFromPath v p Path = Some r \<and> FileExists u v (Some p) Path = Some (if r = None then NOT_FOUND else OK)"
proof -
  obtain pp where pp: "GetPathFromNode v (Some p) = Some pp" "0 \<notin> set pp"
    using GetPathFromNode_returns [of v "Some p"] assms(1,2) by auto
  have "NormalizePath u v (Some p) Path = Some Path"
    using NormalizePath_clean [OF pp clean_no_zero [OF assms(3)]] clean_path_again [OF assms(3)] by simp
  moreover obtain r where "GetNodeFromPath v p Path = Some r"
    using GetNodeFromPath_returns [OF assms(1,2) clean_no_zero [OF assms(3)]] by blast
  ultimately show ?thesis
    using clean_not_empty [OF assms(3)] by (simp add: FileExists_def)
qed

section \<open>New nodes\<close>

definition insert_child :: "Virtual \<Rightarrow> nat \<Rightarrow> FileSystemNode \<Rightarrow> FileSystemNode \<Rightarrow> Virtual" where
  "insert_child v p pn n =
     v\<lparr>v_nodes := (v_nodes v)(v_next v \<mapsto> n, p \<mapsto> pn\<lparr>fs_Children := fs_Children pn @ [v_next v]\<rparr>), v_next := v_next v + 1\<rparr>"

lemma allocate_push:
  assumes "v_nodes v p = Some pn" "p < v_next v"
  shows "(let (c, v) = allocate v n in do { v \<leftarrow> push_child v p c; Some (c, v) }) = Some (v_next v, insert_child v p pn n)"
  using assms by (simp add: allocate_def push_child_def set_node_def insert_child_def Let_def)

lemma insert_child_nodes:
  "p < v_next v \<Longrightarrow> v_nodes (insert_child v p pn n) q =
     (if q = v_next v then Some n else if q = p then Some (pn\<lparr>fs_Children := fs_Children pn @ [v_next v]\<rparr>) else v_nodes v q)"
  by (auto simp: insert_child_def)

lemma insert_child_root [simp]:
  "FileSystemRoot (insert_child v p pn n) = FileSystemRoot v" "v_next (insert_child v p pn n) = v_next v + 1"
  by (simp_all add: insert_child_def)

lemma fresh: "vfs_ok v \<Longrightarrow> v_nodes v (v_next v) = None"
  by (cases "v_nodes v (v_next v)") (auto dest: vfs_okD simp: node_ok_def)

lemma insert_child_ok:
  assumes ok: "vfs_ok v" and p: "v_nodes v p = Some pn"
    and n: "0 \<notin> set (fs_Name n)" "fs_Children n = []" "fs_Parent n = None \<or> fs_Parent n = Some p"
  shows "vfs_ok (insert_child v p pn n)"
proof -
  have lt: "p < v_next v"
    using vfs_okD [OF ok p] by (simp add: node_ok_def)
  let ?v = "insert_child v p pn n"
  have some: "v_nodes v q \<noteq> None \<Longrightarrow> v_nodes ?v q \<noteq> None" for q
    by (simp add: insert_child_nodes [OF lt])
  have "node_ok ?v q m" if m: "v_nodes ?v q = Some m" for q m
  proof -
    note nodes = insert_child_nodes [OF lt, of pn n q]
    have c: "v_nodes ?v (v_next v) \<noteq> None"
      by (simp add: insert_child_nodes [OF lt])
    show ?thesis
    proof (cases "q = v_next v")
      case True
      then have "m = n"
        using m nodes by simp
      then show ?thesis
        using n lt some [of p] p True vfs_okD [OF ok p] by (auto simp: node_ok_def)
    next
      case False
      show ?thesis
      proof (cases "q = p")
        case True
        then have "m = pn\<lparr>fs_Children := fs_Children pn @ [v_next v]\<rparr>"
          using m nodes False by simp
        then show ?thesis
          using True vfs_okD [OF ok p] some lt c by (auto simp: node_ok_def)
      next
        case qp: False
        then have "v_nodes v q = Some m"
          using m nodes False by simp
        from vfs_okD [OF ok this] show ?thesis
          using some by (auto simp: node_ok_def)
      qed
    qed
  qed
  moreover have "v_nodes ?v (FileSystemRoot v) \<noteq> None"
    using ok some by (simp add: vfs_ok_def)
  ultimately show ?thesis
    by (simp add: vfs_ok_def)
qed

lemma insert_child_linked:
  assumes ok: "vfs_ok v" and l: "linked v" and p: "v_nodes v p = Some pn"
    and n: "fs_Children n = []" "fs_Parent n = (if p = FileSystemRoot v then None else Some p)"
  shows "linked (insert_child v p pn n)"
proof -
  have lt: "p < v_next v"
    using vfs_okD [OF ok p] by (simp add: node_ok_def)
  let ?v = "insert_child v p pn n"
  have par: "\<exists>m. v_nodes v c = Some m \<and> fs_Parent m = fs_Parent m'" if "v_nodes ?v c = Some m'" "c \<noteq> v_next v" for c m'
    using that p by (auto simp: insert_child_nodes [OF lt] split: if_splits)
  have root: "FileSystemRoot v \<noteq> v_next v"
    using ok fresh [OF ok] by (auto simp: vfs_ok_def)
  have "fs_Parent m = (if q = FileSystemRoot v then None else Some q)"
    if a: "v_nodes ?v q = Some qn" "c \<in> set (fs_Children qn)" "v_nodes ?v c = Some m" for q qn c m
  proof (cases "c = v_next v")
    case True
    have "q = p"
    proof (rule ccontr)
      assume "q \<noteq> p"
      then have "v_nodes v q = Some qn"
        using a(1,2) n(1) by (auto simp: insert_child_nodes [OF lt] split: if_splits)
      from vfs_okD [OF ok this] show False
        using a(2) True fresh [OF ok] by (auto simp: node_ok_def)
    qed
    then show ?thesis
      using a(3) True n(2) by (simp add: insert_child_nodes [OF lt])
  next
    case False
    then obtain m0 where m0: "v_nodes v c = Some m0" "fs_Parent m0 = fs_Parent m"
      using par a(3) by blast
    have "\<exists>q0. v_nodes v q = Some q0 \<and> c \<in> set (fs_Children q0)"
      using a(1,2) n(1) False p by (auto simp: insert_child_nodes [OF lt] split: if_splits)
    then show ?thesis
      using l m0 by (auto simp: linked_def)
  qed
  moreover have "fs_Parent r = None" if "v_nodes ?v (FileSystemRoot v) = Some r" for r
    using par [OF that root] l by (auto simp: linked_def)
  ultimately show ?thesis
    by (simp add: linked_def)
qed

definition child_node :: "nat \<Rightarrow> FileSystemNode \<Rightarrow> path \<Rightarrow> FileSystemNode" where
  "child_node p pn Name = new_FileSystemNode\<lparr>fs_Parent := Some p, fs_Name := Name, fs_Operator := fs_Operator pn\<rparr>"

lemma AddNewChild_eq:
  assumes "v_nodes v p = Some pn" "p < v_next v"
  shows "AddNewChild v p k = (if length k < 256 then Some (v_next v, insert_child v p pn (child_node p pn k)) else None)"
  using allocate_push [OF assms, of "child_node p pn k"] assms(1)
  by (simp add: AddNewChild_def copy_name_def child_node_def Let_def case_prod_beta)

text \<open>What creation keeps: names, parents and the order of the children there were.\<close>

definition grows :: "Virtual \<Rightarrow> Virtual \<Rightarrow> bool" where
  "grows v v' \<longleftrightarrow> FileSystemRoot v' = FileSystemRoot v \<and>
     (\<forall>p n. v_nodes v p = Some n \<longrightarrow>
        (\<exists>n' ext. v_nodes v' p = Some n' \<and> fs_Name n' = fs_Name n \<and> fs_Parent n' = fs_Parent n \<and>
           fs_Children n' = fs_Children n @ ext \<and> (p = FileSystemRoot v \<longrightarrow> ext = [])))"

lemma grows_refl: "grows v v"
  by (simp add: grows_def)

lemma growsD:
  assumes "grows v v'" "v_nodes v p = Some n"
  obtains n' ext where "v_nodes v' p = Some n'" "fs_Name n' = fs_Name n" "fs_Parent n' = fs_Parent n"
    "fs_Children n' = fs_Children n @ ext" "p = FileSystemRoot v \<Longrightarrow> ext = []"
  using assms unfolding grows_def by blast

lemma grows_trans:
  assumes "grows v v'" "grows v' v''"
  shows "grows v v''"
proof -
  have "\<exists>n' ext. v_nodes v'' p = Some n' \<and> fs_Name n' = fs_Name n \<and> fs_Parent n' = fs_Parent n \<and>
      fs_Children n' = fs_Children n @ ext \<and> (p = FileSystemRoot v \<longrightarrow> ext = [])" if n: "v_nodes v p = Some n" for p n
  proof -
    obtain n1 e1 where 1: "v_nodes v' p = Some n1" "fs_Name n1 = fs_Name n" "fs_Parent n1 = fs_Parent n"
        "fs_Children n1 = fs_Children n @ e1" "p = FileSystemRoot v \<Longrightarrow> e1 = []"
      using growsD [OF assms(1) n] by metis
    obtain n2 e2 where 2: "v_nodes v'' p = Some n2" "fs_Name n2 = fs_Name n1" "fs_Parent n2 = fs_Parent n1"
        "fs_Children n2 = fs_Children n1 @ e2" "p = FileSystemRoot v' \<Longrightarrow> e2 = []"
      using growsD [OF assms(2) 1(1)] by metis
    show ?thesis
      using 1 2 assms(1) by (auto simp: grows_def)
  qed
  then show ?thesis
    using assms by (simp add: grows_def)
qed

lemma insert_child_grows:
  assumes "vfs_ok v" "v_nodes v p = Some pn" "p \<noteq> FileSystemRoot v"
  shows "grows v (insert_child v p pn n)"
proof -
  have lt: "p < v_next v"
    using vfs_okD [OF assms(1,2)] by (simp add: node_ok_def)
  show ?thesis
    using fresh [OF assms(1)] assms(2,3) by (auto simp: grows_def insert_child_nodes [OF lt])
qed

lemma child_loop_append:
  "child_loop v k cs = Some (Some c) \<Longrightarrow> grows v v' \<Longrightarrow> child_loop v' k (cs @ ext) = Some (Some c)"
proof (induction cs)
  case (Cons a cs)
  obtain n where n: "v_nodes v a = Some n"
    using Cons.prems(1) by (cases "v_nodes v a") auto
  then obtain n' where n': "v_nodes v' a = Some n'" "fs_Name n' = fs_Name n"
    using growsD [OF Cons.prems(2) n] by metis
  show ?case
    using Cons n n' by (auto split: if_splits)
qed simp

lemma GetChild_grows:
  assumes "GetChild v p k = Some (Some c)" "grows v v'"
  shows "GetChild v' p k = Some (Some c)"
proof -
  obtain n where n: "v_nodes v p = Some n" "child_loop v k (fs_Children n) = Some (Some c)"
    using assms(1) by (auto simp: GetChild_def Option.bind_eq_Some_conv)
  obtain n' ext where "v_nodes v' p = Some n'" "fs_Children n' = fs_Children n @ ext"
    using growsD [OF assms(2) n(1)] by metis
  then show ?thesis
    using child_loop_append [OF n(2) assms(2)] by (simp add: GetChild_def)
qed

section \<open>Creating along a path\<close>

fun chain :: "Virtual \<Rightarrow> path list \<Rightarrow> nat \<Rightarrow> nat \<Rightarrow> bool" where
  "chain v [] p c \<longleftrightarrow> p = c"
| "chain v (k # ks) p c \<longleftrightarrow> (\<exists>q. GetChild v p k = Some (Some q) \<and> chain v ks q c)"

lemma chain_grows: "chain v ks p c \<Longrightarrow> grows v v' \<Longrightarrow> chain v' ks p c"
  by (induction ks arbitrary: p) (auto dest: GetChild_grows)

lemma create_child_spec:
  assumes ok: "vfs_ok v" and p: "v_nodes v p = Some pn" "p \<noteq> FileSystemRoot v" "FileSystemRoot v < p" and k: "0 \<notin> set k"
    and c: "create_child v p k = Some (q, v')"
  shows "vfs_ok v' \<and> grows v v' \<and> (linked v \<longrightarrow> linked v') \<and> GetChild v' p k = Some (Some q) \<and>
    v_nodes v' q \<noteq> None \<and> p < q"
proof -
  have lt: "p < v_next v"
    using vfs_okD [OF ok p(1)] by (simp add: node_ok_def)
  from GetChild_returns [OF ok p(1), of k] show ?thesis
  proof
    assume g: "GetChild v p k = Some None \<and> (\<forall>c \<in> set (fs_Children pn). \<forall>n. v_nodes v c = Some n \<longrightarrow> fs_Name n \<noteq> k)"
    let ?n = "child_node p pn k"
    have q: "q = v_next v" "v' = insert_child v p pn ?n"
      using c g AddNewChild_eq [OF p(1) lt, of k] by (auto simp: create_child_def split: if_splits)
    have n: "0 \<notin> set (fs_Name ?n)" "fs_Children ?n = []" "fs_Parent ?n = Some p" "fs_Name ?n = k"
      using k by (simp_all add: child_node_def new_FileSystemNode_def)
    have ok': "vfs_ok v'"
      unfolding q(2) using n by (intro insert_child_ok [OF ok p(1)]) simp_all
    have ex: "grows v v'"
      unfolding q(2) by (rule insert_child_grows [OF ok p(1,2)])
    have "linked v \<Longrightarrow> linked v'"
      unfolding q(2) using n p(2) by (intro insert_child_linked [OF ok _ p(1)]) simp_all
    moreover have nodes: "v_nodes v' q = Some ?n" "v_nodes v' p = Some (pn\<lparr>fs_Children := fs_Children pn @ [q]\<rparr>)"
      using lt by (simp_all add: q insert_child_nodes)
    moreover have "GetChild v' p k = Some (Some q)"
    proof -
      have "\<forall>d \<in> set (fs_Children pn). \<forall>m. v_nodes v' d = Some m \<longrightarrow> fs_Name m \<noteq> k"
      proof (intro ballI allI impI)
        fix d m
        assume d: "d \<in> set (fs_Children pn)" "v_nodes v' d = Some m"
        then obtain m0 where m0: "v_nodes v d = Some m0"
          using vfs_okD [OF ok p(1)] by (auto simp: node_ok_def)
        then have "fs_Name m = fs_Name m0"
          using growsD [OF ex m0] d(2) by (metis option.inject)
        then show "fs_Name m \<noteq> k"
          using g d(1) m0 by auto
      qed
      then show ?thesis
        using GetChild_returns [OF ok' nodes(2), of k] nodes n(4) by auto
    qed
    ultimately show ?thesis
      using ok' ex lt q(1) by simp
  next
    assume "\<exists>c n. GetChild v p k = Some (Some c) \<and> c \<in> set (fs_Children pn) \<and> v_nodes v c = Some n \<and> fs_Name n = k \<and> p < c"
    then show ?thesis
      using c ok grows_refl by (auto simp: create_child_def)
  qed
qed

lemma create_fold_spec:
  assumes "vfs_ok v" "v_nodes v p \<noteq> None" "FileSystemRoot v < p" "\<forall>k \<in> set ks. 0 \<notin> set k"
    "create_fold v ks p = Some (c, v')"
  shows "vfs_ok v' \<and> grows v v' \<and> (linked v \<longrightarrow> linked v') \<and> chain v' ks p c \<and> v_nodes v' c \<noteq> None \<and> FileSystemRoot v < c"
  using assms
proof (induction ks arbitrary: v p)
  case Nil
  then show ?case
    using grows_refl by simp
next
  case (Cons k ks)
  obtain q w where q: "create_child v p k = Some (q, w)" "create_fold w ks q = Some (c, v')"
    using Cons.prems(5) by (auto simp: Option.bind_eq_Some_conv)
  obtain pn where pn: "v_nodes v p = Some pn"
    using Cons.prems(2) by auto
  have s: "vfs_ok w" "grows v w" "linked v \<longrightarrow> linked w" "GetChild w p k = Some (Some q)" "v_nodes w q \<noteq> None" "p < q"
    using create_child_spec [OF Cons.prems(1) pn _ Cons.prems(3) _ q(1)] Cons.prems(3,4) by auto
  have r: "FileSystemRoot w = FileSystemRoot v"
    using s(2) by (simp add: grows_def)
  have ih: "vfs_ok v'" "grows w v'" "linked w \<longrightarrow> linked v'" "chain v' ks q c" "v_nodes v' c \<noteq> None" "FileSystemRoot w < c"
    using Cons.IH [of w q] s q(2) Cons.prems(3,4) r by auto
  show ?case
    using ih s GetChild_grows [OF s(4) ih(2)] grows_trans [OF s(2) ih(2)] r by auto
qed

text \<open>Up from the end of a chain of children.\<close>

lemma path_loop_chain:
  assumes "vfs_ok v" "linked v" "chain v ks p c" "v_nodes v p \<noteq> None" "FileSystemRoot v < p"
  shows "path_loop v (Some c) acc = path_loop v (Some p) (acc @ concat (map (\<lambda>k. [k, [47]]) (rev ks)))"
  using assms(3-)
proof (induction ks arbitrary: p)
  case (Cons k ks)
  obtain q where q: "GetChild v p k = Some (Some q)" "chain v ks q c"
    using Cons.prems(1) by auto
  obtain pn where pn: "v_nodes v p = Some pn"
    using Cons.prems(2) by auto
  obtain n where n: "q \<in> set (fs_Children pn)" "v_nodes v q = Some n" "fs_Name n = k" "p < q"
    using GetChild_returns [OF assms(1) pn, of k] q(1) by auto
  have par: "fs_Parent n = Some p"
    using assms(2) pn n Cons.prems(3) unfolding linked_def by fastforce
  obtain r where r: "v_nodes v (FileSystemRoot v) = Some r"
    using assms(1) by (auto simp: vfs_ok_def)
  have "q \<notin> set (fs_Children r)"
  proof
    assume "q \<in> set (fs_Children r)"
    then have "fs_Parent n = None"
      using assms(2) r n(2) unfolding linked_def by fastforce
    then show False
      using par by simp
  qed
  then have step: "path_loop v (Some q) b = path_loop v (Some p) (b @ [k, [47]])" for b
    using r n(2,3,4) par Cons.prems(3) by (subst path_loop.simps) simp
  have "path_loop v (Some c) acc = path_loop v (Some q) (acc @ concat (map (\<lambda>k. [k, [47]]) (rev ks)))"
    using Cons.IH [OF q(2)] n(2,4) Cons.prems(3) by simp
  then show ?case
    by (simp add: step)
qed simp

lemma emit_True: "emit True ks = concat (map (\<lambda>k. 47 # k) ks)"
  by (induction ks) simp_all

lemma clean_text: "clean p ks \<Longrightarrow> ks \<noteq> [] \<Longrightarrow> p = concat (map (\<lambda>k. 47 # k) ks)"
  by (cases ks) (auto simp: clean_def emit_True)

lemma rev_names: "concat (rev (concat (map (\<lambda>k. [k, [47]]) (rev ks)))) = concat (map (\<lambda>k. 47 # k) ks)"
  by (induction ks) simp_all

lemma next_parent_chain:
  assumes "vfs_ok v" "v_nodes v p = Some pn" "GetChild v p k = Some (Some q)"
    "\<And>p n c m. v_nodes v p = Some n \<Longrightarrow> c \<in> set (fs_Children n) \<Longrightarrow> v_nodes v c = Some m \<Longrightarrow> fs_Name m \<noteq> fs_Name n"
  shows "next_parent v k p = Some q"
proof -
  obtain n where n: "v_nodes v q = Some n" "fs_Name n = k"
    using GetChild_returns [OF assms(1,2), of k] assms(3) by auto
  have "GetChild v q k = Some None"
    using GetChild_returns [OF assms(1) n(1), of k] assms(4) [OF n(1)] n(2) by auto
  then have "next_parent v k q = Some q"
    by (subst next_parent.simps) simp
  then show ?thesis
    using assms(3) by (subst next_parent.simps) simp
qed

lemma node_fold_chain:
  assumes "vfs_ok v"
    "\<And>p n c m. v_nodes v p = Some n \<Longrightarrow> c \<in> set (fs_Children n) \<Longrightarrow> v_nodes v c = Some m \<Longrightarrow> fs_Name m \<noteq> fs_Name n"
  shows "chain v ks p c \<Longrightarrow> v_nodes v p \<noteq> None \<Longrightarrow> node_fold v ks p = Some c"
proof (induction ks arbitrary: p)
  case (Cons k ks)
  obtain pn q where q: "v_nodes v p = Some pn" "GetChild v p k = Some (Some q)" "chain v ks q c"
    using Cons.prems by auto
  have "v_nodes v q \<noteq> None"
    using GetChild_returns [OF assms(1) q(1), of k] q(2) by auto
  then show ?case
    using Cons.IH [OF q(3)] next_parent_chain [OF assms(1) q(1,2) assms(2)] by simp
qed simp

lemma chain_name:
  assumes "vfs_ok v"
  shows "chain v ks p c \<Longrightarrow> ks \<noteq> [] \<Longrightarrow> v_nodes v p \<noteq> None \<Longrightarrow> \<exists>n. v_nodes v c = Some n \<and> fs_Name n = last ks"
proof (induction ks arbitrary: p)
  case (Cons k ks)
  obtain pn q where q: "v_nodes v p = Some pn" "GetChild v p k = Some (Some q)" "chain v ks q c"
    using Cons.prems by auto
  obtain n where n: "v_nodes v q = Some n" "fs_Name n = k"
    using GetChild_returns [OF assms q(1), of k] q(2) by auto
  show ?case
    using Cons.IH [OF q(3)] n q(3) by (cases "ks = []") auto
qed simp

lemma default_parent_node:
  assumes "vfs_ok v" "\<And>p. Parent = Some p \<Longrightarrow> v_nodes v p \<noteq> None \<and> p \<noteq> FileSystemRoot v" "default_parent v Parent = Some (Some p)"
  shows "v_nodes v p \<noteq> None \<and> FileSystemRoot v < p"
proof (cases Parent)
  case None
  obtain r where r: "v_nodes v (FileSystemRoot v) = Some r"
    using assms(1) by (auto simp: vfs_ok_def)
  then have "p \<in> set (fs_Children r)"
    using assms(3) None by (auto simp: default_parent_def split: list.splits)
  then show ?thesis
    using vfs_okD [OF assms(1) r] by (simp add: node_ok_def)
next
  case (Some q)
  then obtain n where n: "v_nodes v p = Some n" "p \<noteq> FileSystemRoot v"
    using assms(2,3) by (auto simp: default_parent_def)
  then show ?thesis
    using vfs_okD [OF assms(1) n(1)] by (simp add: node_ok_def)
qed

lemma default_parent_valid:
  assumes "vfs_ok v" "\<And>p. Parent = Some p \<Longrightarrow> v_nodes v p \<noteq> None" "default_parent v Parent = Some P"
  shows "\<And>p. P = Some p \<Longrightarrow> v_nodes v p \<noteq> None"
proof -
  fix p
  assume P: "P = Some p"
  show "v_nodes v p \<noteq> None"
  proof (cases Parent)
    case None
    then show ?thesis
      using default_parent_node [of v None p] assms(1,3) P by simp
  next
    case (Some q)
    then show ?thesis
      using assms(2,3) P by (simp add: default_parent_def)
  qed
qed

lemma Create_cases:
  assumes ok: "vfs_ok v" and P': "\<forall>p. Parent = Some p \<longrightarrow> v_nodes v p \<noteq> None" and z: "0 \<notin> set Path"
    and c: "Create u v Parent Path = Some (r, v')"
  obtains "r = None" "v' = v"
  | p q cp ks where "default_parent v Parent = Some (Some p)" "r = Some q" "NormalizePath u v (Some p) Path = Some cp"
      "clean cp ks" "ks \<noteq> []" "GetNodeFromPath v p cp = Some None" "create_fold v ks p = Some (q, v')"
proof (cases "isempty_text Path")
  case True
  then show ?thesis
    using c that(1) by (simp add: Create_def)
next
  case False
  obtain Q where Q: "default_parent v Parent = Some Q"
    using c False by (auto simp: Create_def Option.bind_eq_Some_conv)
  have P: "v_nodes v p \<noteq> None" if "Parent = Some p" for p
    using P' that by blast
  obtain cp ks where cp: "NormalizePath u v Q Path = Some cp" "clean cp ks"
    using NormalizePath_returns [OF ok _ z] default_parent_valid [OF ok P Q] by blast
  obtain st where st: "FileExists u v Q cp = Some st"
    using c False Q cp(1) by (auto simp: Create_def Option.bind_eq_Some_conv)
  show ?thesis
  proof (cases "st = NOT_FOUND \<and> ks \<noteq> []")
    case True
    obtain s where s: "cwk_path_get_first_segment cp = (True, s)" "\<And>v q. create_loop v s q = create_fold v ks q"
      using True clean_segments [OF cp(2)] by (cases rule: first_segment_cases [OF clean_no_zero [OF cp(2)]]) auto
    obtain p q where p: "Q = Some p" "create_fold v ks p = Some (q, v')" "r = Some q"
      using c False Q cp(1) st s True by (auto simp: Create_def Option.bind_eq_Some_conv)
    have "v_nodes v p \<noteq> None"
      using default_parent_valid [OF ok P Q] p(1) by simp
    then obtain g where "GetNodeFromPath v p cp = Some g" "FileExists u v (Some p) cp = Some (if g = None then NOT_FOUND else OK)"
      using FileExists_clean [OF ok _ cp(2)] by blast
    then have "GetNodeFromPath v p cp = Some None"
      using st p(1) True by (auto split: if_splits)
    then show ?thesis
      using that(2) [of p q cp ks] Q p cp True by simp
  next
    case False
    have "r = None \<and> v' = v"
    proof (cases "st = NOT_FOUND")
      case True
      then obtain s where "cwk_path_get_first_segment cp = (False, s)"
        using False clean_segments [OF cp(2)] by (cases rule: first_segment_cases [OF clean_no_zero [OF cp(2)]]) auto
      then show ?thesis
        using c \<open>\<not> isempty_text Path\<close> Q cp(1) st True by (auto simp: Create_def)
    next
      case False
      then show ?thesis
        using c \<open>\<not> isempty_text Path\<close> Q cp(1) st by (simp add: Create_def)
    qed
    then show ?thesis
      using that(1) by simp
  qed
qed

section \<open>Reachable file systems\<close>

lemma new_Virtual_ok: "vfs_ok (new_Virtual a) \<and> linked (new_Virtual a)"
  by (simp add: new_Virtual_def vfs_ok_def node_ok_def linked_def new_FileSystemNode_def)

lemma CreateRoot_cases:
  assumes ok: "vfs_ok v" and c: "CreateRoot v Operator RootName = Some (x, v')"
  obtains "x = None" "v' = v"
  | r where "x = Some (v_next v)" "v_nodes v (FileSystemRoot v) = Some r" "length RootName < 256"
      "v' = insert_child v (FileSystemRoot v) r (new_FileSystemNode\<lparr>fs_Name := RootName, fs_Flags := 0x02, fs_Operator := Operator\<rparr>)"
proof (cases "Operator = None")
  case True
  then show ?thesis
    using c that(1) by (simp add: CreateRoot_def)
next
  case False
  obtain r where r: "v_nodes v (FileSystemRoot v) = Some r"
    using ok by (auto simp: vfs_ok_def)
  then have lt: "FileSystemRoot v < v_next v"
    using vfs_okD [OF ok r] by (simp add: node_ok_def)
  show ?thesis
    using c False that(2) r lt
    by (auto simp: CreateRoot_def copy_name_def allocate_def push_child_def set_node_def insert_child_def split: if_splits)
qed

lemma CreateRoot_ok:
  assumes "vfs_ok v" "linked v" "0 \<notin> set RootName" "CreateRoot v Operator RootName = Some (x, v')"
  shows "vfs_ok v' \<and> linked v'"
proof (cases rule: CreateRoot_cases [OF assms(1,4)])
  case 1
  then show ?thesis
    using assms by simp
next
  case (2 r)
  let ?n = "new_FileSystemNode\<lparr>fs_Name := RootName, fs_Flags := 0x02, fs_Operator := Operator\<rparr>"
  have n: "0 \<notin> set (fs_Name ?n)" "fs_Children ?n = []" "fs_Parent ?n = None"
    using assms(3) by (simp_all add: new_FileSystemNode_def)
  show ?thesis
    using insert_child_ok [OF assms(1) 2(2) n(1,2)] insert_child_linked [OF assms(1,2) 2(2) n(2)] n(3) 2(4) by simp
qed

text \<open>A node may be given other children among its own, and other attributes.\<close>

lemma set_node_ok:
  assumes ok: "vfs_ok v" "linked v" and n: "v_nodes v p = Some n"
    and n': "fs_Name n' = fs_Name n" "fs_Parent n' = fs_Parent n" "set (fs_Children n') \<subseteq> set (fs_Children n)"
  shows "vfs_ok (set_node v p n') \<and> linked (set_node v p n')"
proof
  have some: "v_nodes (set_node v p n') q = None \<longleftrightarrow> v_nodes v q = None" for q
    using n by (simp add: set_node_def)
  have old: "\<exists>m0. v_nodes v q = Some m0 \<and> fs_Name m = fs_Name m0 \<and> fs_Parent m = fs_Parent m0 \<and>
      set (fs_Children m) \<subseteq> set (fs_Children m0)" if "v_nodes (set_node v p n') q = Some m" for q m
    using that n n' by (auto simp: set_node_def split: if_splits)
  have root: "FileSystemRoot (set_node v p n') = FileSystemRoot v" "v_next (set_node v p n') = v_next v"
    by (simp_all add: set_node_def)
  have "node_ok (set_node v p n') q m" if m: "v_nodes (set_node v p n') q = Some m" for q m
  proof -
    obtain m0 where m0: "v_nodes v q = Some m0" "fs_Name m = fs_Name m0" "fs_Parent m = fs_Parent m0"
        "set (fs_Children m) \<subseteq> set (fs_Children m0)"
      using old [OF m] by blast
    show ?thesis
      using vfs_okD [OF ok(1) m0(1)] m0 by (auto simp: node_ok_def root some)
  qed
  then show "vfs_ok (set_node v p n')"
    using ok(1) by (simp add: vfs_ok_def root some)
  show "linked (set_node v p n')"
    unfolding linked_def root
  proof (intro conjI allI impI)
    fix q m c d
    assume a: "v_nodes (set_node v p n') q = Some m" "c \<in> set (fs_Children m)" "v_nodes (set_node v p n') c = Some d"
    obtain m0 d0 where "v_nodes v q = Some m0" "set (fs_Children m) \<subseteq> set (fs_Children m0)"
        "v_nodes v c = Some d0" "fs_Parent d = fs_Parent d0"
      using old [OF a(1)] old [OF a(3)] by blast
    then show "fs_Parent d = (if q = FileSystemRoot v then None else Some q)"
      using ok(2) a(2) unfolding linked_def by auto
  next
    fix r
    assume "v_nodes (set_node v p n') (FileSystemRoot v) = Some r"
    from old [OF this] show "fs_Parent r = None"
      using ok(2) unfolding linked_def by auto
  qed
qed

lemma remove_loop_subset: "remove_loop v Name cs = Some (Some ds) \<Longrightarrow> set ds \<subseteq> set cs"
proof (induction cs arbitrary: ds)
  case (Cons c cs)
  obtain n where n: "v_nodes v c = Some n"
    using Cons.prems by (auto simp: Option.bind_eq_Some_conv)
  show ?case
  proof (cases "fs_Name n = Name")
    case True
    then show ?thesis
      using Cons.prems n by auto
  next
    case False
    then obtain es where "remove_loop v Name cs = Some (Some es)" "ds = c # es"
      using Cons.prems n by (auto simp: Option.bind_eq_Some_conv)
    then show ?thesis
      using Cons.IH by auto
  qed
qed simp

lemma RemoveChild_ok:
  assumes "vfs_ok v" "linked v" "RemoveChild v p Name = Some (s, v')"
  shows "vfs_ok v' \<and> linked v'"
proof -
  obtain n r where n: "v_nodes v p = Some n" "remove_loop v Name (fs_Children n) = Some r"
    using assms(3) by (auto simp: RemoveChild_def Option.bind_eq_Some_conv)
  show ?thesis
  proof (cases r)
    case None
    then show ?thesis
      using assms n by (simp add: RemoveChild_def)
  next
    case (Some cs)
    then show ?thesis
      using assms(3) n set_node_ok [OF assms(1,2) n(1), of "n\<lparr>fs_Children := cs\<rparr>"] remove_loop_subset [of v Name]
      by (simp add: RemoveChild_def)
  qed
qed

lemma Create_ok:
  assumes "vfs_ok v" "linked v" "\<And>p. Parent = Some p \<Longrightarrow> v_nodes v p \<noteq> None \<and> p \<noteq> FileSystemRoot v" "0 \<notin> set Path"
    "Create u v Parent Path = Some (r, v')"
  shows "vfs_ok v' \<and> linked v'"
proof -
  have "\<forall>p. Parent = Some p \<longrightarrow> v_nodes v p \<noteq> None"
    using assms(3) by simp
  from Create_cases [OF assms(1) this assms(4,5)] show ?thesis
  proof cases
    case 1
    then show ?thesis
      using assms by simp
  next
    case (2 p q cp ks)
    have p: "v_nodes v p \<noteq> None" "FileSystemRoot v < p"
      using default_parent_node [OF assms(1,3) 2(1)] by auto
    have "\<forall>k \<in> set ks. 0 \<notin> set k"
      using 2(4) by (simp add: clean_def)
    then show ?thesis
      using create_fold_spec [OF assms(1) p _ 2(7)] assms(2) by blast
  qed
qed

text \<open>
  The trees the operations of \<^verbatim>\<open>FileSystem.cpp\<close> lead to: file systems are registered, paths created,
  children removed, attributes of a node set. Names are strings, so they hold no terminator; nothing is
  created directly below the root of all file systems, which only \<^verbatim>\<open>CreateRoot\<close> extends. The mount points
  also hang nodes into the tree by hand, without a parent; those trees are not among these.
\<close>

inductive vfs_reach :: "Virtual \<Rightarrow> bool" where
  init: "vfs_reach (new_Virtual a)"
| root: "vfs_reach v \<Longrightarrow> 0 \<notin> set RootName \<Longrightarrow> CreateRoot v Operator RootName = Some (r, v') \<Longrightarrow> vfs_reach v'"
| create: "vfs_reach v \<Longrightarrow> 0 \<notin> set Path \<Longrightarrow> (\<forall>p. Parent = Some p \<longrightarrow> v_nodes v p \<noteq> None \<and> p \<noteq> FileSystemRoot v) \<Longrightarrow>
    Create u v Parent Path = Some (r, v') \<Longrightarrow> vfs_reach v'"
| remove: "vfs_reach v \<Longrightarrow> RemoveChild v p Name = Some (s, v') \<Longrightarrow> vfs_reach v'"
| attributes: "vfs_reach v \<Longrightarrow> v_nodes v p = Some n \<Longrightarrow> fs_Name n' = fs_Name n \<Longrightarrow> fs_Parent n' = fs_Parent n \<Longrightarrow>
    fs_Children n' = fs_Children n \<Longrightarrow> vfs_reach (set_node v p n')"

lemma vfs_reach_ok: "vfs_reach v \<Longrightarrow> vfs_ok v \<and> linked v"
proof (induction rule: vfs_reach.induct)
  case (create v Path Parent u r v')
  then show ?case
    using Create_ok [of v Parent Path u r v'] by blast
next
  case (attributes v p n n')
  then show ?case
    using set_node_ok [of v p n n'] by simp
qed (auto dest: CreateRoot_ok RemoveChild_ok simp: new_Virtual_ok)

section \<open>Creating and opening\<close>

text \<open>
  No node has a child of its own name: below such a node the search would go on down with the segment it
  has just found.
\<close>

definition no_echo :: "Virtual \<Rightarrow> bool" where
  "no_echo v \<longleftrightarrow>
     (\<forall>p n c m. v_nodes v p = Some n \<longrightarrow> c \<in> set (fs_Children n) \<longrightarrow> v_nodes v c = Some m \<longrightarrow> fs_Name m \<noteq> fs_Name n)"

lemma insert_child_no_echo:
  assumes ok: "vfs_ok v" and e: "no_echo v" and p: "v_nodes v p = Some pn"
    and n: "fs_Children n = []" "fs_Name n \<noteq> fs_Name pn"
  shows "no_echo (insert_child v p pn n)"
  unfolding no_echo_def
proof (intro allI impI)
  have lt: "p < v_next v"
    using vfs_okD [OF ok p] by (simp add: node_ok_def)
  let ?v = "insert_child v p pn n"
  have name: "\<exists>m. v_nodes v c = Some m \<and> fs_Name m = fs_Name m'" if "v_nodes ?v c = Some m'" "c \<noteq> v_next v" for c m'
    using that p by (auto simp: insert_child_nodes [OF lt] split: if_splits)
  fix q qn c m
  assume a: "v_nodes ?v q = Some qn" "c \<in> set (fs_Children qn)" "v_nodes ?v c = Some m"
  then have q: "q \<noteq> v_next v"
    using n(1) by (auto simp: insert_child_nodes [OF lt])
  show "fs_Name m \<noteq> fs_Name qn"
  proof (cases "c = v_next v")
    case True
    have "q = p"
    proof (rule ccontr)
      assume "q \<noteq> p"
      then have "v_nodes v q = Some qn"
        using a(1) q by (simp add: insert_child_nodes [OF lt])
      from vfs_okD [OF ok this] show False
        using a(2) True fresh [OF ok] by (auto simp: node_ok_def)
    qed
    then show ?thesis
      using a(1,3) True q n(2) by (auto simp: insert_child_nodes [OF lt])
  next
    case False
    obtain m0 where m0: "v_nodes v c = Some m0" "fs_Name m0 = fs_Name m"
      using name [OF a(3) False] by blast
    have "\<exists>q0. v_nodes v q = Some q0 \<and> c \<in> set (fs_Children q0) \<and> fs_Name q0 = fs_Name qn"
      using a(1,2) q False p by (auto simp: insert_child_nodes [OF lt] split: if_splits)
    then show ?thesis
      using e m0 unfolding no_echo_def by metis
  qed
qed

lemma create_child_no_echo:
  assumes "vfs_ok v" "no_echo v" "v_nodes v p = Some pn" "k \<noteq> fs_Name pn" "create_child v p k = Some (q, v')"
  shows "no_echo v'"
proof -
  have lt: "p < v_next v"
    using vfs_okD [OF assms(1,3)] by (simp add: node_ok_def)
  have "no_echo (insert_child v p pn (child_node p pn k))"
    using assms(4) by (intro insert_child_no_echo [OF assms(1-3)]) (simp_all add: child_node_def new_FileSystemNode_def)
  then show ?thesis
    using assms(2,5) AddNewChild_eq [OF assms(3) lt, of k]
    by (auto simp: create_child_def Option.bind_eq_Some_conv split: option.splits if_splits)
qed

lemma create_child_returns:
  assumes "vfs_ok v" "v_nodes v p = Some pn" "length k < 256"
  shows "\<exists>q v'. create_child v p k = Some (q, v')"
proof -
  have lt: "p < v_next v"
    using vfs_okD [OF assms(1,2)] by (simp add: node_ok_def)
  show ?thesis
    using GetChild_returns [OF assms(1,2), of k] AddNewChild_eq [OF assms(2) lt, of k] assms(3)
    by (auto simp: create_child_def)
qed

lemma create_child_name:
  assumes "vfs_ok v" "v_nodes v p = Some pn" "FileSystemRoot v < p" "0 \<notin> set k" "create_child v p k = Some (q, w)"
  shows "\<exists>n. v_nodes w q = Some n \<and> fs_Name n = k"
proof -
  have s: "vfs_ok w" "GetChild w p k = Some (Some q)"
    using create_child_spec [OF assms(1,2) _ assms(3-5)] assms(3) by auto
  then obtain wn where "v_nodes w p = Some wn"
    by (auto simp: GetChild_def Option.bind_eq_Some_conv)
  from GetChild_returns [OF s(1) this, of k] show ?thesis
    using s(2) by auto
qed

lemma create_fold_returns:
  assumes "vfs_ok v" "v_nodes v p = Some pn" "FileSystemRoot v < p" "\<forall>k \<in> set ks. 0 \<notin> set k \<and> length k < 256"
  shows "\<exists>c v'. create_fold v ks p = Some (c, v') \<and> (no_echo v \<longrightarrow> distinct_adj (fs_Name pn # ks) \<longrightarrow> no_echo v')"
  using assms
proof (induction ks arbitrary: v p pn)
  case (Cons k ks)
  have k: "0 \<notin> set k" "length k < 256"
    using Cons.prems(4) by auto
  obtain q w where q: "create_child v p k = Some (q, w)"
    using create_child_returns [OF Cons.prems(1,2) k(2)] by blast
  obtain n where n: "v_nodes w q = Some n" "fs_Name n = k"
    using create_child_name [OF Cons.prems(1-3) k(1) q] by blast
  have s: "vfs_ok w" "FileSystemRoot w < q"
    using create_child_spec [OF Cons.prems(1,2) _ Cons.prems(3) k(1) q] Cons.prems(3) by (auto simp: grows_def)
  obtain c v' where c: "create_fold w ks q = Some (c, v')" "no_echo w \<longrightarrow> distinct_adj (k # ks) \<longrightarrow> no_echo v'"
    using Cons.IH [OF s(1) n(1) s(2)] Cons.prems(4) n(2) by auto
  then show ?case
    using q create_child_no_echo [OF Cons.prems(1) _ Cons.prems(2) _ q] by auto
qed simp

lemma grows_default_parent:
  assumes "grows v v'" "v_nodes v (FileSystemRoot v) = Some r" "fs_Children r = p # ps"
  shows "default_parent v' None = Some (Some p) \<and> (\<exists>r'. v_nodes v' (FileSystemRoot v') = Some r' \<and> fs_Children r' = p # ps)"
proof -
  obtain r' where "v_nodes v' (FileSystemRoot v) = Some r'" "fs_Children r' = fs_Children r"
    using growsD [OF assms(1,2)] by (metis append_Nil2)
  moreover have "FileSystemRoot v' = FileSystemRoot v"
    using assms(1) by (simp add: grows_def)
  ultimately show ?thesis
    using assms(3) by (simp add: default_parent_def)
qed

lemma GetPathFromNode_first:
  assumes "v_nodes v (FileSystemRoot v) = Some r" "p \<in> set (fs_Children r)"
  shows "path_loop v (Some p) acc = Some acc \<and> GetPathFromNode v (Some p) = Some []"
  using assms path_loop.simps [of v "Some p"] by (simp add: GetPathFromNode_def)

lemma clean_path_dots: "clean_path [] [46] = [47]" "clean_path [] [46, 46] = [47]"
  by (simp_all add: clean_path_def normal_path_def root_of_def normal_form_def push_segment_def kind_def segments_of.simps)

lemma chain_lookup:
  assumes "vfs_ok v" "no_echo v" "chain v ks p c" "v_nodes v p = Some pn" "clean cp ks" "ks \<noteq> []" "fs_Name pn \<noteq> cp"
  shows "GetNodeFromPath v p cp = Some (Some c)"
proof -
  obtain n where n: "v_nodes v c = Some n" "fs_Name n = last ks"
    using chain_name [OF assms(1,3,6)] assms(4) by auto
  have f: "node_fold v ks p = Some c"
    using assms(2,4) by (intro node_fold_chain [OF assms(1) _ assms(3)]) (auto simp: no_echo_def)
  obtain b l where b: "cwk_path_get_basename cp = Some (b, l)" "drop b cp = last ks"
    using clean_basename [OF assms(5,6)] by blast
  obtain s where s: "cwk_path_get_first_segment cp = (True, s)" "node_loop v s p = node_fold v ks p"
    using assms(6) clean_segments [OF assms(5)] by (cases rule: first_segment_cases [OF clean_no_zero [OF assms(5)]]) auto
  show ?thesis
    using assms(4,7) s f b n by (simp add: GetNodeFromPath_def)
qed

lemma open_node_returns:
  assumes "vfs_ok v" "\<And>p. Node = Some p \<Longrightarrow> v_nodes v p \<noteq> None"
  shows "\<exists>f. open_node v Node = Some f"
  using GetPathFromNode_returns [of v Node] assms by (auto simp: open_node_def)

lemma GetNodeFromPath_node:
  assumes "vfs_ok v" "v_nodes v p \<noteq> None" "0 \<notin> set Path" "GetNodeFromPath v p Path = Some (Some q)"
  shows "v_nodes v q \<noteq> None"
proof (cases rule: first_segment_cases [OF assms(3)])
  case (1 s)
  then show ?thesis
    using assms(2,4) by (auto simp: GetNodeFromPath_def split: if_splits)
next
  case (2 s)
  then show ?thesis
    using assms(2,4) by (auto simp: GetNodeFromPath_def Option.bind_eq_Some_conv split: if_splits)
qed

lemma open_elsewhere_returns:
  assumes ok: "vfs_ok v" and r: "v_nodes v (FileSystemRoot v) = Some r" "fs_Children r \<noteq> []" and z: "0 \<notin> set Path"
  shows "\<exists>f. open_elsewhere v Path s = Some f"
proof -
  obtain first ps where c: "fs_Children r = first # ps"
    using r(2) by (cases "fs_Children r") auto
  have n: "\<forall>c \<in> set (fs_Children r). v_nodes v c \<noteq> None"
    using vfs_okD [OF ok r(1)] by (simp add: node_ok_def)
  obtain x where x: "child_loop v Path (fs_Children r) = Some x" "\<And>q. x = Some q \<Longrightarrow> v_nodes v q \<noteq> None"
    using child_loop_returns [OF n, of Path] n by auto
  obtain N where N: "GetNodeFromPath v first Path = Some N"
    using GetNodeFromPath_returns [OF ok _ z, of first] n c by auto
  have "v_nodes v q \<noteq> None" if "N = Some q" for q
    using GetNodeFromPath_node [OF ok _ z, of first q] n c N that by auto
  then show ?thesis
    using r(1) x N c open_node_returns [OF ok, of x] open_node_returns [OF ok, of N]
    by (auto simp: open_elsewhere_def split: option.splits)
qed

lemma Open_returns:
  assumes ok: "vfs_ok v" and r: "v_nodes v (FileSystemRoot v) = Some r" "fs_Children r \<noteq> []"
    and p: "v_nodes v p = Some n" and z: "0 \<notin> set Path"
  shows "\<exists>f. Open u v Path (Some p) = Some f"
proof -
  have up: "v_nodes v q \<noteq> None" if "fs_Parent n = Some q" for q
    using vfs_okD [OF ok p] that by (simp add: node_ok_def)
  obtain cp ks where cp: "NormalizePath u v (Some p) Path = Some cp" "clean cp ks"
    using NormalizePath_returns [OF ok _ z, of "Some p" u] p by auto
  obtain N where N: "GetNodeFromPath v p cp = Some N" "FileExists u v (Some p) cp = Some (if N = None then NOT_FOUND else OK)"
    using FileExists_clean [OF ok _ cp(2), of p] p by blast
  have "\<exists>f. open_node v (Some p) = Some f" "\<exists>f. open_node v (if fs_Parent n \<noteq> None then fs_Parent n else Some p) = Some f"
    using p up by (auto intro!: open_node_returns [OF ok] split: if_splits)
  moreover have "\<exists>f. open_elsewhere v cp s = Some f" for s
    by (rule open_elsewhere_returns [OF ok r clean_no_zero [OF cp(2)]])
  ultimately show ?thesis
    using p cp(1) N by (simp add: Open_def default_parent_def)
qed

lemma FileExists_returns:
  assumes ok: "vfs_ok v" and p: "v_nodes v p \<noteq> None" and z: "0 \<notin> set Path"
  shows "\<exists>s. FileExists u v (Some p) Path = Some s"
proof -
  obtain cp ks where cp: "NormalizePath u v (Some p) Path = Some cp" "clean cp ks"
    using NormalizePath_returns [OF ok _ z, of "Some p" u] p by auto
  show ?thesis
    using GetNodeFromPath_returns [OF ok p clean_no_zero [OF cp(2)]] cp(1) by (auto simp: FileExists_def)
qed

lemma Create_new:
  assumes ok: "vfs_ok v" and r: "v_nodes v (FileSystemRoot v) = Some r" "fs_Children r = p # ps"
    and P: "0 \<notin> set Path" "\<not> isempty_text Path" "clean (clean_path [] Path) ks" "ks \<noteq> []"
    and ex: "FileExists u v (Some p) Path = Some NOT_FOUND" and c: "create_fold v ks p = Some (c, v')"
  shows "Create u v None Path = Some (Some c, v') \<and> GetNodeFromPath v p (clean_path [] Path) = Some None"
proof -
  have "GetPathFromNode v (Some p) = Some []"
    using GetPathFromNode_first [OF r(1), of p] r(2) by simp
  then have n: "NormalizePath u v (Some p) Path = Some (clean_path [] Path)"
    using NormalizePath_clean [of v "Some p" "[]" Path u] P(1) by simp
  have p: "v_nodes v p \<noteq> None"
    using vfs_okD [OF ok r(1)] r(2) by (simp add: node_ok_def)
  obtain N where N: "GetNodeFromPath v p (clean_path [] Path) = Some N"
      "FileExists u v (Some p) (clean_path [] Path) = Some (if N = None then NOT_FOUND else OK)"
    using FileExists_clean [OF ok p P(3)] by blast
  then have "N = None"
    using ex P(2) n by (auto simp: FileExists_def split: if_splits)
  moreover obtain s where "cwk_path_get_first_segment (clean_path [] Path) = (True, s)" "create_loop v s p = create_fold v ks p"
    using P(4) clean_segments [OF P(3)] by (cases rule: first_segment_cases [OF clean_no_zero [OF P(3)]]) auto
  ultimately show ?thesis
    using P(2) r n N c by (simp add: Create_def default_parent_def)
qed

lemma Open_chain:
  assumes ok: "vfs_ok v" and e: "no_echo v" and r: "v_nodes v (FileSystemRoot v) = Some r" "fs_Children r = p # ps"
    and P: "0 \<notin> set Path" "clean (clean_path [] Path) ks" "ks \<noteq> []"
    and c: "chain v ks p c" "v_nodes v p = Some pn" "fs_Name pn \<noteq> clean_path [] Path"
  shows "Open u v Path None = Some \<lparr>f_Name = Some (last ks), f_Status = OK, f_Node = Some c\<rparr>"
proof -
  have "GetPathFromNode v (Some p) = Some []"
    using GetPathFromNode_first [OF r(1), of p] r(2) by simp
  then have n: "NormalizePath u v (Some p) Path = Some (clean_path [] Path)"
    using NormalizePath_clean [of v "Some p" "[]" Path u] P(1) by simp
  have N: "GetNodeFromPath v p (clean_path [] Path) = Some (Some c)"
    by (rule chain_lookup [OF ok e c(1,2) P(2,3) c(3)])
  then have x: "FileExists u v (Some p) (clean_path [] Path) = Some OK"
    using FileExists_clean [OF ok _ P(2), of p u] c(2) by auto
  have "Path \<noteq> [46]" "Path \<noteq> [46, 46]"
    using P(2,3) clean_segments [OF P(2)] clean_path_dots by (auto simp: segments_of.simps)
  moreover have "basename_of (clean_path [] Path) = Some (last ks)"
    using clean_basename [OF P(2,3)] by (auto simp: basename_of_def)
  ultimately show ?thesis
    using n N x r by (simp add: Open_def default_parent_def)
qed

section \<open>Properties\<close>

text \<open>
  C31. In every tree that the operations of the virtual file system lead to, registering file systems,
  creating paths, removing children and setting attributes, every link leads to a node, a child is newer than its
  parent, names are terminated strings, the children of a node name it as their parent and the file
  systems below the root have no parent.
\<close>

theorem tree_kept:
  assumes "vfs_reach v"
  shows "vfs_ok v \<and> linked v"
  using vfs_reach_ok [OF assms] .

text \<open>
  C19. A path that names no file yet is created: \<^verbatim>\<open>Create\<close> without a parent returns a node, the tree stays
  reachable, and \<^verbatim>\<open>GetPathFromNode\<close> of that node is the normalised path that was given. When no node has
  a child of its own name, and the path does not repeat a name either, \<^verbatim>\<open>Open\<close> of the same path returns
  that node with the last segment as its name.
\<close>

theorem create_open:
  assumes "vfs_reach v" "v_nodes v (FileSystemRoot v) = Some r" "fs_Children r = p # ps" "v_nodes v p = Some pn"
    "0 \<notin> set Path" "\<not> isempty_text Path" "segments_of (clean_path [] Path) = ks" "ks \<noteq> []"
    "\<forall>k \<in> set ks. length k < 256" "FileExists u v (Some p) Path = Some NOT_FOUND"
  shows "\<exists>c v'. Create u v None Path = Some (Some c, v') \<and> vfs_reach v' \<and>
    GetPathFromNode v' (Some c) = Some (clean_path [] Path) \<and>
    (no_echo v \<longrightarrow> distinct_adj (fs_Name pn # ks) \<longrightarrow>
       Open u' v' Path None = Some \<lparr>f_Name = Some (last ks), f_Status = OK, f_Node = Some c\<rparr>)"
proof -
  have ok: "vfs_ok v" "linked v"
    using vfs_reach_ok [OF assms(1)] by auto
  obtain cs where "clean (clean_path [] Path) cs"
    using clean_path_clean [of "[]" Path] assms(5) by auto
  then have cl: "clean (clean_path [] Path) ks"
    using clean_segments assms(7) by blast
  have k: "\<forall>k \<in> set ks. 0 \<notin> set k \<and> length k < 256"
    using cl assms(9) by (simp add: clean_def)
  have p: "v_nodes v p \<noteq> None" "FileSystemRoot v < p"
    using vfs_okD [OF ok(1) assms(2)] assms(3) by (simp_all add: node_ok_def)
  obtain c v' where c: "create_fold v ks p = Some (c, v')" "no_echo v \<longrightarrow> distinct_adj (fs_Name pn # ks) \<longrightarrow> no_echo v'"
    using create_fold_returns [OF ok(1) assms(4) p(2) k] by blast
  have s: "vfs_ok v'" "grows v v'" "linked v'" "chain v' ks p c"
    using create_fold_spec [OF ok(1) p _ c(1)] k ok(2) by auto
  have C: "Create u v None Path = Some (Some c, v')" "GetNodeFromPath v p (clean_path [] Path) = Some None"
    using Create_new [OF ok(1) assms(2,3,5,6) cl assms(8,10) c(1)] by auto
  have reach: "vfs_reach v'"
    using vfs_reach.create [OF assms(1,5) _ C(1)] by simp
  obtain r' where r': "v_nodes v' (FileSystemRoot v') = Some r'" "fs_Children r' = p # ps"
    using grows_default_parent [OF s(2) assms(2,3)] by blast
  obtain pn' where pn': "v_nodes v' p = Some pn'" "fs_Name pn' = fs_Name pn"
    using growsD [OF s(2) assms(4)] by metis
  have "path_loop v' (Some c) [] = path_loop v' (Some p) ([] @ concat (map (\<lambda>k. [k, [47]]) (rev ks)))"
    using pn'(1) p(2) s(2) by (intro path_loop_chain [OF s(1,3,4)]) (simp_all add: grows_def)
  then have "GetPathFromNode v' (Some c) = Some (clean_path [] Path)"
    using GetPathFromNode_first [OF r'(1), of p] r'(2) rev_names [of ks] clean_text [OF cl assms(8)]
    by (simp add: GetPathFromNode_def)
  moreover have "fs_Name pn' \<noteq> clean_path [] Path"
    using C(2) assms(4) pn'(2) by (auto simp: GetNodeFromPath_def)
  then have "no_echo v' \<Longrightarrow> Open u' v' Path None = Some \<lparr>f_Name = Some (last ks), f_Status = OK, f_Node = Some c\<rparr>"
    using Open_chain [OF s(1) _ r' assms(5) cl assms(8) s(4) pn'(1)] by blast
  ultimately show ?thesis
    using C(1) reach c(2) by blast
qed

text \<open>
  C38. Looking up ends: in a reachable tree, for every node and every path, the walk to the root of
  \<^verbatim>\<open>GetPathFromNode\<close>, the search of \<^verbatim>\<open>GetNodeFromPath\<close> that starts over after every step down,
  \<^verbatim>\<open>FileExists\<close> and, once a file system is registered, \<^verbatim>\<open>Open\<close> return, and they follow no null pointer.
\<close>

theorem lookups_return:
  assumes "vfs_reach v" "v_nodes v p = Some n" "0 \<notin> set Path"
    "v_nodes v (FileSystemRoot v) = Some r" "fs_Children r \<noteq> []"
  shows "(\<exists>pp. GetPathFromNode v (Some p) = Some pp) \<and> (\<exists>N. GetNodeFromPath v p Path = Some N) \<and>
    (\<exists>s. FileExists u v (Some p) Path = Some s) \<and> (\<exists>f. Open u v Path (Some p) = Some f)"
proof -
  have ok: "vfs_ok v" and p: "v_nodes v p \<noteq> None"
    using vfs_reach_ok [OF assms(1)] assms(2) by auto
  have "\<exists>pp. GetPathFromNode v (Some p) = Some pp"
    using GetPathFromNode_returns [OF ok, of "Some p"] p by auto
  then show ?thesis
    using GetNodeFromPath_returns [OF ok p assms(3)] FileExists_returns [OF ok p assms(3)] Open_returns [OF ok assms(4,5,2,3)]
    by blast
qed

definition example_vfs :: Virtual where
  "example_vfs = snd (the (CreateRoot (new_Virtual 0) (Some 9) [102]))"

definition example_path :: path where
  "example_path = [47, 97, 47, 98]"

lemma example_vfs_created: "CreateRoot (new_Virtual 0) (Some 9) [102] = Some (Some 1, example_vfs)"
  by (simp add: example_vfs_def CreateRoot_def copy_name_def allocate_def push_child_def set_node_def new_Virtual_def)

lemma example_vfs_reach: "vfs_reach example_vfs"
  by (rule vfs_reach.root [OF vfs_reach.init _ example_vfs_created]) simp

lemma example_vfs_eq:
  "v_nodes example_vfs = [0 \<mapsto> new_FileSystemNode\<lparr>fs_Flags := 0x08, fs_Name := [114, 111, 111, 116], fs_Children := [1]\<rparr>,
     1 \<mapsto> new_FileSystemNode\<lparr>fs_Name := [102], fs_Flags := 0x02, fs_Operator := Some 9\<rparr>]"
  "FileSystemRoot example_vfs = 0"
  by (auto simp: example_vfs_def CreateRoot_def copy_name_def allocate_def push_child_def set_node_def new_Virtual_def
      new_FileSystemNode_def fun_eq_iff)

theorem tree_kept_witness: "vfs_ok example_vfs \<and> linked example_vfs"
  using tree_kept [OF example_vfs_reach] .

lemma example_clean: "clean_path [] example_path = example_path" "segments_of example_path = [[97], [98]]"
  by (simp_all add: example_path_def clean_path_def normal_path_def root_of_def normal_form_def push_segment_def kind_def
      segments_of.simps)

lemma example_not_found: "FileExists u example_vfs (Some 1) example_path = Some NOT_FOUND"
proof -
  have ok: "vfs_ok example_vfs"
    using vfs_reach_ok [OF example_vfs_reach] by simp
  have z: "0 \<notin> set example_path"
    by (simp add: example_path_def)
  then have c: "clean example_path [[97], [98]]"
    using clean_path_clean [of "[]" example_path] clean_segments [of example_path] by (auto simp: example_clean)
  obtain b n where b: "cwk_path_get_basename example_path = Some (b, n)" "drop b example_path = [98]"
    using clean_basename [OF c] by auto
  have "next_parent example_vfs k 1 = Some 1" for k
    by (subst next_parent.simps) (simp add: GetChild_def example_vfs_eq new_FileSystemNode_def)
  then have f: "node_fold example_vfs [[97], [98]] 1 = Some 1"
    by simp
  obtain s where "cwk_path_get_first_segment example_path = (True, s)" "node_loop example_vfs s 1 = Some 1"
    using f by (cases rule: first_segment_cases [OF z]) (auto simp: example_clean)
  then have "GetNodeFromPath example_vfs 1 example_path = Some None"
    using b by (simp add: GetNodeFromPath_def example_vfs_eq new_FileSystemNode_def) (simp add: example_path_def)
  then show ?thesis
    using FileExists_clean [OF ok _ c, of 1 u] by (simp add: example_vfs_eq)
qed

theorem create_open_witness:
  "\<exists>c v'. Create example_segment example_vfs None example_path = Some (Some c, v') \<and> vfs_reach v' \<and>
     GetPathFromNode v' (Some c) = Some example_path \<and>
     Open example_segment v' example_path None = Some \<lparr>f_Name = Some [98], f_Status = OK, f_Node = Some c\<rparr>"
proof -
  have r: "v_nodes example_vfs (FileSystemRoot example_vfs) =
      Some (new_FileSystemNode\<lparr>fs_Flags := 0x08, fs_Name := [114, 111, 111, 116], fs_Children := [1]\<rparr>)"
    by (simp add: example_vfs_eq)
  have p: "v_nodes example_vfs 1 = Some (new_FileSystemNode\<lparr>fs_Name := [102], fs_Flags := 0x02, fs_Operator := Some 9\<rparr>)"
    by (simp add: example_vfs_eq)
  have e: "no_echo example_vfs"
    by (auto simp: no_echo_def example_vfs_eq new_FileSystemNode_def split: if_splits)
  have P: "0 \<notin> set example_path" "\<not> isempty_text example_path"
    by (simp_all add: example_path_def isempty_text_def isspace_def)
  show ?thesis
    using create_open [OF example_vfs_reach r _ p P, of "[]" "[[97], [98]]" example_segment example_segment]
      example_not_found [of example_segment] e
    by (simp add: example_clean)
qed

theorem lookups_return_witness:
  "(\<exists>pp. GetPathFromNode example_vfs (Some 1) = Some pp) \<and> (\<exists>N. GetNodeFromPath example_vfs 1 [46, 46] = Some N) \<and>
   (\<exists>s. FileExists example_segment example_vfs (Some 1) [46, 46] = Some s) \<and>
   (\<exists>f. Open example_segment example_vfs [46, 46] (Some 1) = Some f)"
proof -
  have r: "v_nodes example_vfs (FileSystemRoot example_vfs) =
      Some (new_FileSystemNode\<lparr>fs_Flags := 0x08, fs_Name := [114, 111, 111, 116], fs_Children := [1]\<rparr>)"
    by (simp add: example_vfs_eq)
  have p: "v_nodes example_vfs 1 = Some (new_FileSystemNode\<lparr>fs_Name := [102], fs_Flags := 0x02, fs_Operator := Some 9\<rparr>)"
    by (simp add: example_vfs_eq)
  show ?thesis
    by (rule lookups_return [OF example_vfs_reach p _ r]) simp_all
qed

end
