(* ===== verification/Format_Output.thy ===== *)
theory Format_Output
  imports Kernel_Prelude "HOL-Library.Monad_Syntax"
begin

text \<open>
  Formatted output, \<^verbatim>\<open>src/kernel/libs/printf.c\<close>, for the 64-bit kernel. A format is the list of its
  characters without the terminator. The variable arguments are a list of 64-bit slots, of which a
  narrower type reads the low bits. Strings and the targets of \<^verbatim>\<open>%n\<close> lie in a memory indexed by address;
  the output buffer is memory of its own. \<open>None\<close> means that the call has no result: an argument is
  missing, the format ends inside a conversion, or a string has no end.
\<close>

section \<open>Output gadgets\<close>

text \<open>\<open>g_function\<close>: the pointer \<^verbatim>\<open>function\<close> is not null; \<open>g_called\<close>: the characters it was called with.\<close>

record output_gadget_t =
  g_function :: bool
  g_called :: "u8 list"
  g_buffer :: "(nat \<Rightarrow> u8) option"
  g_pos :: u32
  g_max_chars :: u32

definition putchar_via_gadget :: "output_gadget_t \<Rightarrow> u8 \<Rightarrow> output_gadget_t" where
  "putchar_via_gadget gadget c =
     (let write_pos = g_pos gadget; gadget = gadget\<lparr>g_pos := write_pos + 1\<rparr> in
      if write_pos \<ge> g_max_chars gadget then gadget
      else if g_function gadget then gadget\<lparr>g_called := g_called gadget @ [c]\<rparr>
      else gadget\<lparr>g_buffer := map_option (\<lambda>b. b(unat write_pos := c)) (g_buffer gadget)\<rparr>)"

definition append_termination_with_gadget :: "output_gadget_t \<Rightarrow> output_gadget_t" where
  "append_termination_with_gadget gadget =
     (if g_function gadget \<or> g_max_chars gadget = 0 then gadget
      else case g_buffer gadget of
        None \<Rightarrow> gadget
      | Some b \<Rightarrow>
          let null_char_pos = (if g_pos gadget < g_max_chars gadget then g_pos gadget else g_max_chars gadget - 1)
          in gadget\<lparr>g_buffer := Some (b(unat null_char_pos := 0))\<rparr>)"

definition discarding_gadget :: output_gadget_t where
  "discarding_gadget = \<lparr>g_function = False, g_called = [], g_buffer = None, g_pos = 0, g_max_chars = 0\<rparr>"

definition buffer_gadget :: "(nat \<Rightarrow> u8) option \<Rightarrow> u64 \<Rightarrow> output_gadget_t" where
  "buffer_gadget buffer buffer_size =
     (let usable_buffer_size = (if buffer_size > 0x7FFFFFFF then 0x7FFFFFFF else ucast buffer_size :: u32) in
      if buffer \<noteq> None then discarding_gadget\<lparr>g_buffer := buffer, g_max_chars := usable_buffer_size\<rparr>
      else discarding_gadget)"

definition function_gadget :: output_gadget_t where
  "function_gadget = discarding_gadget\<lparr>g_function := True, g_max_chars := 0x7FFFFFFF\<rparr>"

section \<open>Strings and digits\<close>

type_synonym memory = "u64 \<Rightarrow> u8"

text \<open>\<^verbatim>\<open>for (s = str; *s && maxsize--; ++s);\<close>\<close>

function strnlen_loop :: "memory \<Rightarrow> u64 \<Rightarrow> u32 \<Rightarrow> u64" where
  "strnlen_loop mem s maxsize = (if mem s \<noteq> 0 \<and> maxsize \<noteq> 0 then strnlen_loop mem (s + 1) (maxsize - 1) else s)"
  by pat_completeness auto
termination
  by (relation "measure (\<lambda>(_, _, n). unat n)") (auto simp: unat_minus_one unat_gt_0)

definition strnlen_s :: "memory \<Rightarrow> u64 \<Rightarrow> u32 \<Rightarrow> u32" where
  "strnlen_s mem str maxsize = ucast (strnlen_loop mem str maxsize - str)"

definition is_digit :: "u8 \<Rightarrow> bool" where
  "is_digit ch \<longleftrightarrow> ch \<ge> 48 \<and> ch \<le> 57"

fun atou_loop :: "u32 \<Rightarrow> u8 list \<Rightarrow> u32 \<times> u8 list" where
  "atou_loop i [] = (i, [])"
| "atou_loop i (c # str) = (if is_digit c then atou_loop (i * 10 + (ucast c - 48)) str else (i, c # str))"

definition atou :: "u8 list \<Rightarrow> u32 \<times> u8 list" where
  "atou str = atou_loop 0 str"

section \<open>Integers\<close>

text \<open>The flags are the bits of a word; the names are the numbers of the bits.\<close>

type_synonym printf_flags_t = u32

abbreviation (input) FLAGS_ZEROPAD :: nat where "FLAGS_ZEROPAD \<equiv> 0"
abbreviation (input) FLAGS_LEFT :: nat where "FLAGS_LEFT \<equiv> 1"
abbreviation (input) FLAGS_PLUS :: nat where "FLAGS_PLUS \<equiv> 2"
abbreviation (input) FLAGS_SPACE :: nat where "FLAGS_SPACE \<equiv> 3"
abbreviation (input) FLAGS_HASH :: nat where "FLAGS_HASH \<equiv> 4"
abbreviation (input) FLAGS_UPPERCASE :: nat where "FLAGS_UPPERCASE \<equiv> 5"
abbreviation (input) FLAGS_CHAR :: nat where "FLAGS_CHAR \<equiv> 6"
abbreviation (input) FLAGS_SHORT :: nat where "FLAGS_SHORT \<equiv> 7"
abbreviation (input) FLAGS_LONG :: nat where "FLAGS_LONG \<equiv> 9"
abbreviation (input) FLAGS_LONG_LONG :: nat where "FLAGS_LONG_LONG \<equiv> 10"
abbreviation (input) FLAGS_PRECISION :: nat where "FLAGS_PRECISION \<equiv> 11"
abbreviation (input) FLAGS_ADAPT_EXP :: nat where "FLAGS_ADAPT_EXP \<equiv> 12"
abbreviation (input) FLAGS_POINTER :: nat where "FLAGS_POINTER \<equiv> 13"
abbreviation (input) FLAGS_SIGNED :: nat where "FLAGS_SIGNED \<equiv> 14"

lemma u32_less_Suc: "(x :: u32) < y \<Longrightarrow> unat (x + 1) = Suc (unat x)"
  by unat_arith

text \<open>\<^verbatim>\<open>while (l++ < width)\<close> or \<^verbatim>\<open>for (i = len; i < width; i++)\<close>, printing a space each time.\<close>

function pad_loop :: "u32 \<Rightarrow> u32 \<Rightarrow> output_gadget_t \<Rightarrow> output_gadget_t" where
  "pad_loop l width output =
     (if l < width then pad_loop (l + 1) width (putchar_via_gadget output 32) else output)"
  by pat_completeness auto
termination
  by (relation "measure (\<lambda>(l, width, _). unat width - unat l)")
    (auto simp: u32_less_Suc word_less_nat_alt intro!: diff_less_mono2)

text \<open>\<^verbatim>\<open>while (output->pos - start_pos < width)\<close>\<close>

function pad_right :: "u32 \<Rightarrow> u32 \<Rightarrow> output_gadget_t \<Rightarrow> output_gadget_t" where
  "pad_right start_pos width output =
     (if g_pos output - start_pos < width then pad_right start_pos width (putchar_via_gadget output 32) else output)"
  by pat_completeness auto
termination
proof (relation "measure (\<lambda>(start_pos, width, output). unat width - unat (g_pos output - start_pos))", simp)
  fix start_pos width :: u32 and g :: output_gadget_t
  assume a: "g_pos g - start_pos < width"
  have e: "g_pos (putchar_via_gadget g 32) - start_pos = g_pos g - start_pos + 1"
    by (simp add: putchar_via_gadget_def Let_def)
  show "((start_pos, width, putchar_via_gadget g 32), start_pos, width, g)
      \<in> measure (\<lambda>(start_pos, width, output). unat width - unat (g_pos output - start_pos))"
    using a unfolding in_measure case_prod_conv e u32_less_Suc [OF a] by (simp add: word_less_nat_alt diff_less_mono2)
qed

declare strnlen_loop.simps [simp del] pad_loop.simps [simp del] pad_right.simps [simp del]

text \<open>\<open>buf\<close> is the part of the character array that has been written, its length is \<^verbatim>\<open>len\<close>.\<close>

definition out_rev :: "output_gadget_t \<Rightarrow> u8 list \<Rightarrow> u32 \<Rightarrow> printf_flags_t \<Rightarrow> output_gadget_t" where
  "out_rev output buf width flags =
     (let start_pos = g_pos output;
          output = (if \<not> bit flags FLAGS_LEFT \<and> \<not> bit flags FLAGS_ZEROPAD
                    then pad_loop (of_nat (length buf)) width output else output);
          output = foldl putchar_via_gadget output (rev buf)
      in if bit flags FLAGS_LEFT then pad_right start_pos width output else output)"

text \<open>\<^verbatim>\<open>PRINTF_INTEGER_BUFFER_SIZE\<close> is 32; \<open>push_char\<close> is the guarded \<^verbatim>\<open>buf[len++] = c\<close>.\<close>

definition push_char :: "u8 \<Rightarrow> u8 list \<Rightarrow> u8 list" where
  "push_char c buf = (if length buf < 32 then buf @ [c] else buf)"

function zero_loop :: "u32 \<Rightarrow> u8 list \<Rightarrow> u8 list" where
  "zero_loop n buf = (if length buf < unat n \<and> length buf < 32 then zero_loop n (buf @ [48]) else buf)"
  by pat_completeness auto
termination
  by (relation "measure (\<lambda>(_, buf). 32 - length buf)") auto

definition zero_padding ::
  "u8 list \<Rightarrow> bool \<Rightarrow> u32 \<Rightarrow> u32 \<Rightarrow> printf_flags_t \<Rightarrow> u8 list \<times> u32" where
  "zero_padding buf negative precision width flags =
     (let (buf, width) =
            (if \<not> bit flags FLAGS_LEFT then
               let width = (if width \<noteq> 0 \<and> bit flags FLAGS_ZEROPAD \<and>
                               (negative \<or> bit flags FLAGS_PLUS \<or> bit flags FLAGS_SPACE) then width - 1 else width)
               in (if bit flags FLAGS_ZEROPAD then zero_loop width buf else buf, width)
             else (buf, width))
      in (zero_loop precision buf, width))"

text \<open>The prefix \<^verbatim>\<open>0x\<close>, \<^verbatim>\<open>0b\<close> or \<^verbatim>\<open>0\<close>, for which padding zeros are taken back.\<close>

definition hash_prefix :: "u8 list \<Rightarrow> nat \<Rightarrow> u8 \<Rightarrow> u32 \<Rightarrow> u32 \<Rightarrow> printf_flags_t \<Rightarrow> u8 list" where
  "hash_prefix buf unpadded_len base precision width flags =
     (let buf =
            (if \<not> bit flags FLAGS_PRECISION \<and> buf \<noteq> [] \<and> (length buf = unat precision \<or> length buf = unat width) then
               let buf = (if unpadded_len < length buf then butlast buf else buf)
               in if buf \<noteq> [] \<and> (base = 16 \<or> base = 2) \<and> unpadded_len < length buf then butlast buf else buf
             else buf);
          buf = (if base = 16 \<and> \<not> bit flags FLAGS_UPPERCASE \<and> length buf < 32 then buf @ [120]
                 else if base = 16 \<and> bit flags FLAGS_UPPERCASE \<and> length buf < 32 then buf @ [88]
                 else if base = 2 \<and> length buf < 32 then buf @ [98]
                 else buf)
      in push_char 48 buf)"

definition print_integer_finalization ::
  "output_gadget_t \<Rightarrow> u8 list \<Rightarrow> bool \<Rightarrow> u8 \<Rightarrow> u32 \<Rightarrow> u32 \<Rightarrow> printf_flags_t \<Rightarrow> output_gadget_t" where
  "print_integer_finalization output buf negative base precision width flags =
     (let unpadded_len = length buf;
          (buf, width) = zero_padding buf negative precision width flags;
          flags = (if base = 8 \<and> length buf > unpadded_len then unset_bit FLAGS_HASH flags else flags);
          buf = (if bit flags FLAGS_HASH \<or> bit flags FLAGS_POINTER
                 then hash_prefix buf unpadded_len base precision width flags else buf);
          buf = (if negative then push_char 45 buf
                 else if bit flags FLAGS_PLUS then push_char 43 buf
                 else if bit flags FLAGS_SPACE then push_char 32 buf
                 else buf)
      in out_rev output buf width flags)"

definition digit_char :: "printf_flags_t \<Rightarrow> u64 \<Rightarrow> u8" where
  "digit_char flags digit =
     (if digit < 10 then 48 + ucast digit else (if bit flags FLAGS_UPPERCASE then 65 else 97) + ucast digit - 10)"

function integer_loop :: "printf_flags_t \<Rightarrow> u8 \<Rightarrow> u64 \<Rightarrow> u8 list \<Rightarrow> u8 list" where
  "integer_loop flags base value buf =
     (let buf = buf @ [digit_char flags (value mod ucast base)]; value = value div ucast base in
      if value \<noteq> 0 \<and> length buf < 32 then integer_loop flags base value buf else buf)"
  by pat_completeness auto
termination
  by (relation "measure (\<lambda>(_, _, _, buf). 32 - length buf)") auto

declare zero_loop.simps [simp del] integer_loop.simps [simp del]

definition print_integer ::
  "output_gadget_t \<Rightarrow> u64 \<Rightarrow> bool \<Rightarrow> u8 \<Rightarrow> u32 \<Rightarrow> u32 \<Rightarrow> printf_flags_t \<Rightarrow> output_gadget_t" where
  "print_integer output value negative base precision width flags =
     (let (buf, flags) =
            (if value = 0 then
               if \<not> bit flags FLAGS_PRECISION then ([48], unset_bit FLAGS_HASH flags)
               else if base = 16 then ([], unset_bit FLAGS_HASH flags)
               else ([], flags)
             else (integer_loop flags base value [], flags))
      in print_integer_finalization output buf negative base precision width flags)"

text \<open>\<^verbatim>\<open>ABS_FOR_PRINTING\<close> on a value widened to \<^verbatim>\<open>long long\<close>; the negation wraps.\<close>

definition ABS_FOR_PRINTING :: "u64 \<Rightarrow> u64" where
  "ABS_FOR_PRINTING x = (if sint x > 0 then x else - x)"

text \<open>
  The floating-point conversions of the kernel take an \<^verbatim>\<open>unsigned long\<close>. The tests for infinities
  compare it with \<^verbatim>\<open>-10000\<close>, which is converted to the same type, and with \<^verbatim>\<open>10000\<close>. Every value passes
  one of them, so nothing behind the tests is reached.
\<close>

lemma float_tests: "(value :: u64) < - 10000 \<or> value > 10000"
  by (simp add: word_less_nat_alt) unat_arith

definition print_floating_point :: "output_gadget_t \<Rightarrow> u64 \<Rightarrow> u32 \<Rightarrow> printf_flags_t \<Rightarrow> output_gadget_t" where
  "print_floating_point output value width flags =
     (if value < - 10000 then out_rev output [102, 110, 105, 45] width flags
      else out_rev output (if bit flags FLAGS_PLUS then [102, 110, 105, 43] else [102, 110, 105]) width flags)"

section \<open>Formats\<close>

fun parse_flags :: "printf_flags_t \<Rightarrow> u8 list \<Rightarrow> printf_flags_t \<times> u8 list" where
  "parse_flags flags [] = (flags, [])"
| "parse_flags flags (c # format) =
     (if c = 48 then parse_flags (set_bit FLAGS_ZEROPAD flags) format
      else if c = 45 then parse_flags (set_bit FLAGS_LEFT flags) format
      else if c = 43 then parse_flags (set_bit FLAGS_PLUS flags) format
      else if c = 32 then parse_flags (set_bit FLAGS_SPACE flags) format
      else if c = 35 then parse_flags (set_bit FLAGS_HASH flags) format
      else (flags, c # format))"

text \<open>The current character, which is 0 at the end; \<^verbatim>\<open>va_arg\<close>.\<close>

definition at :: "u8 list \<Rightarrow> u8" where
  "at format = (case format of [] \<Rightarrow> 0 | c # _ \<Rightarrow> c)"

definition va_arg :: "u64 list \<Rightarrow> (u64 \<times> u64 list) option" where
  "va_arg args = (case args of [] \<Rightarrow> None | a # as \<Rightarrow> Some (a, as))"

definition parse_width ::
  "printf_flags_t \<Rightarrow> u8 list \<Rightarrow> u64 list \<Rightarrow> (printf_flags_t \<times> u32 \<times> u8 list \<times> u64 list) option" where
  "parse_width flags format args =
     (if is_digit (at format) then let (width, format) = atou format in Some (flags, width, format, args)
      else if at format = 42 then
        do { (a, args) \<leftarrow> va_arg args;
             let w = (ucast a :: u32);
             Some (if sint w < 0 then (set_bit FLAGS_LEFT flags, - w, tl format, args) else (flags, w, tl format, args)) }
      else Some (flags, 0, format, args))"

definition parse_precision ::
  "printf_flags_t \<Rightarrow> u8 list \<Rightarrow> u64 list \<Rightarrow> (printf_flags_t \<times> u32 \<times> u8 list \<times> u64 list) option" where
  "parse_precision flags format args =
     (if at format = 46 then
        let flags = set_bit FLAGS_PRECISION flags; format = tl format in
        if is_digit (at format) then let (precision, format) = atou format in Some (flags, precision, format, args)
        else if at format = 42 then
          do { (a, args) \<leftarrow> va_arg args;
               let precision = (ucast a :: u32);
               Some (flags, if sint precision > 0 then precision else 0, tl format, args) }
        else Some (flags, 0, format, args)
      else Some (flags, 0, format, args))"

definition parse_length :: "printf_flags_t \<Rightarrow> u8 list \<Rightarrow> printf_flags_t \<times> u8 list" where
  "parse_length flags format =
     (if at format = 108 then
        if at (tl format) = 108 then (set_bit FLAGS_LONG_LONG (set_bit FLAGS_LONG flags), tl (tl format))
        else (set_bit FLAGS_LONG flags, tl format)
      else if at format = 104 then
        if at (tl format) = 104 then (set_bit FLAGS_CHAR (set_bit FLAGS_SHORT flags), tl (tl format))
        else (set_bit FLAGS_SHORT flags, tl format)
      else if at format = 116 \<or> at format = 106 \<or> at format = 122 then (set_bit FLAGS_LONG flags, tl format)
      else (flags, format))"

text \<open>The specifiers \<^verbatim>\<open>d i u x X o b\<close>.\<close>

definition integer_base :: "u8 \<Rightarrow> u8" where
  "integer_base c = (if c = 120 \<or> c = 88 then 16 else if c = 111 then 8 else if c = 98 then 2 else 10)"

definition integer_flags :: "u8 \<Rightarrow> printf_flags_t \<Rightarrow> printf_flags_t" where
  "integer_flags c flags =
     (let flags = (if c = 100 \<or> c = 105 then set_bit FLAGS_SIGNED flags else flags);
          flags = (if integer_base c = 10 then unset_bit FLAGS_HASH flags else flags);
          flags = (if c = 88 then set_bit FLAGS_UPPERCASE flags else flags)
      in if bit flags FLAGS_PRECISION then unset_bit FLAGS_ZEROPAD flags else flags)"

definition signed_value :: "printf_flags_t \<Rightarrow> u64 \<Rightarrow> u64" where
  "signed_value flags a =
     (if bit flags FLAGS_LONG_LONG \<or> bit flags FLAGS_LONG then a
      else if bit flags FLAGS_CHAR then scast (ucast a :: u8)
      else if bit flags FLAGS_SHORT then scast (ucast a :: u16)
      else scast (ucast a :: u32))"

definition unsigned_value :: "printf_flags_t \<Rightarrow> u64 \<Rightarrow> u64" where
  "unsigned_value flags a =
     (if bit flags FLAGS_LONG_LONG \<or> bit flags FLAGS_LONG then a
      else if bit flags FLAGS_CHAR then ucast (ucast a :: u8)
      else if bit flags FLAGS_SHORT then ucast (ucast a :: u16)
      else ucast (ucast a :: u32))"

definition format_integer :: "output_gadget_t \<Rightarrow> u8 \<Rightarrow> u64 \<Rightarrow> u32 \<Rightarrow> u32 \<Rightarrow> printf_flags_t \<Rightarrow> output_gadget_t" where
  "format_integer output c a precision width flags =
     (let flags = integer_flags c flags in
      if bit flags FLAGS_SIGNED then
        let value = signed_value flags a
        in print_integer output (ABS_FOR_PRINTING value) (sint value < 0) (integer_base c) precision width flags
      else
        print_integer output (unsigned_value flags a) False (integer_base c) precision width
          (unset_bit FLAGS_PLUS (unset_bit FLAGS_SPACE flags)))"

definition format_char :: "output_gadget_t \<Rightarrow> u64 \<Rightarrow> u32 \<Rightarrow> printf_flags_t \<Rightarrow> output_gadget_t" where
  "format_char output a width flags =
     (let output = (if \<not> bit flags FLAGS_LEFT then pad_loop 1 width output else output);
          output = putchar_via_gadget output (ucast a)
      in if bit flags FLAGS_LEFT then pad_loop 1 width output else output)"

text \<open>\<^verbatim>\<open>while ((*p != 0) && (!(flags & FLAGS_PRECISION) || precision))\<close>\<close>

partial_function (option) string_loop ::
  "memory \<Rightarrow> u64 \<Rightarrow> bool \<Rightarrow> u32 \<Rightarrow> output_gadget_t \<Rightarrow> output_gadget_t option" where
  "string_loop mem p limited precision output =
     (if mem p \<noteq> 0 \<and> (\<not> limited \<or> precision \<noteq> 0)
      then string_loop mem (p + 1) limited (precision - 1) (putchar_via_gadget output (mem p))
      else Some output)"

definition format_string ::
  "memory \<Rightarrow> output_gadget_t \<Rightarrow> u64 \<Rightarrow> u32 \<Rightarrow> u32 \<Rightarrow> printf_flags_t \<Rightarrow> output_gadget_t option" where
  "format_string mem output p precision width flags =
     (if p = 0 then Some (out_rev output [41, 108, 108, 117, 110, 40] width flags)
      else
        let l = strnlen_s mem p (if precision \<noteq> 0 then precision else 0x7FFFFFFF);
            l = (if bit flags FLAGS_PRECISION then (if l < precision then l else precision) else l);
            output = (if \<not> bit flags FLAGS_LEFT then pad_loop l width output else output)
        in do { output \<leftarrow> string_loop mem p (bit flags FLAGS_PRECISION) precision output;
                Some (if bit flags FLAGS_LEFT then pad_loop l width output else output) })"

definition format_pointer :: "output_gadget_t \<Rightarrow> u64 \<Rightarrow> u32 \<Rightarrow> printf_flags_t \<Rightarrow> output_gadget_t" where
  "format_pointer output a precision flags =
     (let width = 18; flags = set_bit FLAGS_POINTER (set_bit FLAGS_ZEROPAD flags) in
      if a = 0 then out_rev output [41, 108, 105, 110, 40] width flags
      else print_integer output a False 16 precision width flags)"

text \<open>The stores of \<^verbatim>\<open>%n\<close>, little-endian; \<^verbatim>\<open>(long) output->pos\<close> widens an unsigned number.\<close>

fun store_bytes :: "nat \<Rightarrow> memory \<Rightarrow> u64 \<Rightarrow> u64 \<Rightarrow> memory" where
  "store_bytes 0 mem p v = mem"
| "store_bytes (Suc n) mem p v = store_bytes n (mem(p := ucast v)) (p + 1) (drop_bit 8 v)"

definition write_back :: "memory \<Rightarrow> u64 \<Rightarrow> u32 \<Rightarrow> printf_flags_t \<Rightarrow> memory" where
  "write_back mem p pos flags =
     store_bytes (if bit flags FLAGS_CHAR then 1
                  else if bit flags FLAGS_SHORT then 2
                  else if bit flags FLAGS_LONG then 8
                  else if bit flags FLAGS_LONG_LONG then 8
                  else 4) mem p (ucast pos)"

definition specifier ::
  "memory \<Rightarrow> output_gadget_t \<Rightarrow> u8 \<Rightarrow> u32 \<Rightarrow> u32 \<Rightarrow> printf_flags_t \<Rightarrow> u64 list \<Rightarrow>
     (output_gadget_t \<times> memory \<times> u64 list) option" where
  "specifier mem output c precision width flags args =
     (if c \<in> {100, 105, 117, 120, 88, 111, 98} then
        do { (a, args) \<leftarrow> va_arg args; Some (format_integer output c a precision width flags, mem, args) }
      else if c \<in> {102, 70, 101, 69, 103, 71} then
        do { (a, args) \<leftarrow> va_arg args; Some (print_floating_point output a width flags, mem, args) }
      else if c = 99 then
        do { (a, args) \<leftarrow> va_arg args; Some (format_char output a width flags, mem, args) }
      else if c = 115 then
        do { (a, args) \<leftarrow> va_arg args; output \<leftarrow> format_string mem output a precision width flags; Some (output, mem, args) }
      else if c = 112 then
        do { (a, args) \<leftarrow> va_arg args; Some (format_pointer output a precision flags, mem, args) }
      else if c = 110 then
        do { (a, args) \<leftarrow> va_arg args; Some (output, write_back mem a (g_pos output) flags, args) }
      else Some (putchar_via_gadget output c, mem, args))"

text \<open>
  What follows a \<^verbatim>\<open>%\<close>. At the end of the format the code would print the terminator and go on reading
  behind it.
\<close>

definition conversion ::
  "memory \<Rightarrow> output_gadget_t \<Rightarrow> u8 list \<Rightarrow> u64 list \<Rightarrow> (output_gadget_t \<times> memory \<times> u8 list \<times> u64 list) option" where
  "conversion mem output format args =
     (let (flags, format) = parse_flags 0 format in
      do { (flags, width, format, args) \<leftarrow> parse_width flags format args;
           (flags, precision, format, args) \<leftarrow> parse_precision flags format args;
           let (flags, format) = parse_length flags format;
           case format of
             [] \<Rightarrow> None
           | c # format \<Rightarrow>
               do { (output, mem, args) \<leftarrow> specifier mem output c precision width flags args;
                    Some (output, mem, format, args) } })"

lemma parse_flags_length: "length (snd (parse_flags flags format)) \<le> length format"
  by (induction flags format rule: parse_flags.induct) auto

lemma atou_length: "length (snd (atou format)) \<le> length format"
proof -
  have "length (snd (atou_loop i format)) \<le> length format" for i
    by (induction i format rule: atou_loop.induct) auto
  then show ?thesis
    by (simp add: atou_def)
qed

lemma parse_width_length:
  "parse_width flags format args = Some (flags', w, format', args') \<Longrightarrow> length format' \<le> length format"
  using atou_length [of format]
  by (auto simp: parse_width_def Let_def case_prod_beta split: if_splits bind_splits)

lemma parse_precision_length:
  "parse_precision flags format args = Some (flags', p, format', args') \<Longrightarrow> length format' \<le> length format"
  using atou_length [of "tl format"]
  by (auto simp: parse_precision_def Let_def case_prod_beta split: if_splits bind_splits)

lemma parse_length_length: "length (snd (parse_length flags format)) \<le> length format"
  by (simp add: parse_length_def)

lemma conversion_length:
  assumes "conversion mem g format args = Some (g', mem', format', args')"
  shows "length format' < length format"
proof -
  obtain fl f1 where 1: "parse_flags 0 format = (fl, f1)"
    by fastforce
  from assms obtain fl2 w f2 a2 where 2: "parse_width fl f1 args = Some (fl2, w, f2, a2)"
    unfolding conversion_def Let_def 1 by (auto split: bind_splits)
  from assms obtain fl3 p f3 a3 where 3: "parse_precision fl2 f2 a2 = Some (fl3, p, f3, a3)"
    unfolding conversion_def Let_def 1 by (auto simp: 2 split: bind_splits)
  obtain fl4 f4 where 4: "parse_length fl3 f3 = (fl4, f4)"
    by fastforce
  have "f4 = hd f4 # format'"
    using assms unfolding conversion_def Let_def 1 by (auto simp: 2 3 4 split: bind_splits list.splits)
  then have "length format' < length f4"
    by (metis length_Cons lessI)
  then show ?thesis
    using parse_flags_length [of 0 format] parse_width_length [OF 2] parse_precision_length [OF 3]
      parse_length_length [of fl3 f3] by (simp add: 1 4)
qed

text \<open>The loop of \<^verbatim>\<open>_vsnprintf\<close>.\<close>

function print_loop ::
  "memory \<Rightarrow> output_gadget_t \<Rightarrow> u8 list \<Rightarrow> u64 list \<Rightarrow> (output_gadget_t \<times> memory) option" where
  "print_loop mem output [] args = Some (output, mem)"
| "print_loop mem output (c # format) args =
     (if c \<noteq> 37 then print_loop mem (putchar_via_gadget output c) format args
      else case conversion mem output format args of
        None \<Rightarrow> None
      | Some (output, mem, format, args) \<Rightarrow> print_loop mem output format args)"
  by pat_completeness auto
termination
  by (relation "measure (\<lambda>(_, _, format, _). length format)") (auto dest: conversion_length)

definition vsnprintf_gadget ::
  "memory \<Rightarrow> output_gadget_t \<Rightarrow> u8 list \<Rightarrow> u64 list \<Rightarrow> (u32 \<times> output_gadget_t \<times> memory) option" where
  "vsnprintf_gadget mem output format args =
     do { (output, mem) \<leftarrow> print_loop mem output format args;
          let output = append_termination_with_gadget output;
          Some (g_pos output, output, mem) }"

definition vsnprintf ::
  "memory \<Rightarrow> (nat \<Rightarrow> u8) option \<Rightarrow> u64 \<Rightarrow> u8 list \<Rightarrow> u64 list \<Rightarrow> (u32 \<times> (nat \<Rightarrow> u8) option \<times> memory) option" where
  "vsnprintf mem s n format args =
     do { (ret, gadget, mem) \<leftarrow> vsnprintf_gadget mem (buffer_gadget s n) format args;
          Some (ret, g_buffer gadget, mem) }"

definition vsprintf ::
  "memory \<Rightarrow> (nat \<Rightarrow> u8) option \<Rightarrow> u8 list \<Rightarrow> u64 list \<Rightarrow> (u32 \<times> (nat \<Rightarrow> u8) option \<times> memory) option" where
  "vsprintf mem s format args = vsnprintf mem s 0x7FFFFFFF format args"

text \<open>The characters handed to the function, or to \<^verbatim>\<open>putchar_\<close>, in their order.\<close>

definition vfctprintf :: "memory \<Rightarrow> u8 list \<Rightarrow> u64 list \<Rightarrow> (u32 \<times> u8 list \<times> memory) option" where
  "vfctprintf mem format args =
     do { (ret, gadget, mem) \<leftarrow> vsnprintf_gadget mem function_gadget format args;
          Some (ret, g_called gadget, mem) }"

definition vprintf :: "memory \<Rightarrow> u8 list \<Rightarrow> u64 list \<Rightarrow> (u32 \<times> u8 list \<times> memory) option" where
  "vprintf mem format args =
     do { (ret, gadget, mem) \<leftarrow> vsnprintf_gadget mem function_gadget format args;
          Some (ret, g_called gadget, mem) }"

section \<open>The text of an output\<close>

text \<open>Every operation appends a text to its gadget that does not depend on what the gadget is.\<close>

definition put_text :: "output_gadget_t \<Rightarrow> u8 list \<Rightarrow> output_gadget_t" where
  "put_text = foldl putchar_via_gadget"

lemma put_text_Nil [simp]: "put_text g [] = g"
  by (simp add: put_text_def)

lemma put_text_Cons: "put_text g (c # cs) = put_text (putchar_via_gadget g c) cs"
  by (simp add: put_text_def)

lemma put_text_append: "put_text g (xs @ ys) = put_text (put_text g xs) ys"
  by (simp add: put_text_def)

lemma put_text_one: "putchar_via_gadget g c = put_text g [c]"
  by (simp add: put_text_def)

lemma putchar_pos [simp]: "g_pos (putchar_via_gadget g c) = g_pos g + 1"
  by (simp add: putchar_via_gadget_def Let_def)

lemma put_text_pos [simp]: "g_pos (put_text g cs) = g_pos g + of_nat (length cs)"
  by (induction cs arbitrary: g) (simp_all add: put_text_Cons add.commute)

lemma pad_loop_text: "pad_loop l width g = put_text g (replicate (unat width - unat l) 32)"
proof (induction l width g rule: pad_loop.induct)
  case (1 l width g)
  show ?case
  proof (cases "l < width")
    case True
    then have "unat width - unat l = Suc (unat width - unat (l + 1))"
      using u32_less_Suc [OF True] by (simp add: word_less_nat_alt)
    then show ?thesis
      using 1 True by (simp add: pad_loop.simps [of l] put_text_Cons)
  next
    case False
    then show ?thesis
      by (simp add: pad_loop.simps [of l] word_less_nat_alt)
  qed
qed

lemma pad_right_text:
  "pad_right start width g = put_text g (replicate (unat width - unat (g_pos g - start)) 32)"
proof (induction start width g rule: pad_right.induct)
  case (1 start width g)
  show ?case
  proof (cases "g_pos g - start < width")
    case True
    have e: "g_pos g + 1 - start = g_pos g - start + 1"
      by simp
    have n: "unat width - unat (g_pos g - start) = Suc (unat width - unat (g_pos g + 1 - start))"
      using True unfolding e u32_less_Suc [OF True] word_less_nat_alt by (rule Suc_diff_Suc [symmetric])
    have "pad_right start width g = pad_right start width (putchar_via_gadget g 32)"
      using True by (subst pad_right.simps) (rule if_P)
    then show ?thesis
      unfolding n replicate_Suc put_text_Cons 1 [OF True] putchar_pos .
  next
    case False
    then have "pad_right start width g = g"
      by (subst pad_right.simps) (rule if_not_P)
    moreover have "unat width - unat (g_pos g - start) = 0"
      using False unfolding word_less_nat_alt by linarith
    ultimately show ?thesis
      by (simp only: replicate_0 put_text_Nil)
  qed
qed

definition field_text :: "u8 list \<Rightarrow> u32 \<Rightarrow> printf_flags_t \<Rightarrow> u8 list" where
  "field_text buf width flags =
     (let spaces = replicate (unat width - length buf) 32 in
      if bit flags FLAGS_LEFT then rev buf @ spaces
      else if bit flags FLAGS_ZEROPAD then rev buf
      else spaces @ rev buf)"

lemma out_rev_text:
  assumes "length buf \<le> 32"
  shows "out_rev g buf width flags = put_text g (field_text buf width flags)"
proof -
  have n: "unat (of_nat (length buf) :: u32) = length buf"
    using assms by (simp add: unat_of_nat)
  have "g_pos (put_text g (rev buf)) - g_pos g = of_nat (length buf)"
    by simp
  then have "pad_right (g_pos g) width (put_text g (rev buf)) =
      put_text (put_text g (rev buf)) (replicate (unat width - length buf) 32)"
    unfolding pad_right_text by (simp only: n)
  then show ?thesis
    unfolding out_rev_def field_text_def Let_def put_text_def [symmetric] pad_loop_text n
    by (auto simp: put_text_append)
qed

text \<open>The array for the digits never overflows.\<close>

lemma zero_loop_closed: "zero_loop n buf = buf @ replicate (min (unat n) 32 - length buf) 48"
proof (induction n buf rule: zero_loop.induct)
  case (1 n buf)
  show ?case
  proof (cases "length buf < unat n \<and> length buf < 32")
    case True
    then have "min (unat n) 32 - length buf = Suc (min (unat n) 32 - length (buf @ [48]))"
      by auto
    then show ?thesis
      using 1 [OF True] True by (simp add: zero_loop.simps [of n buf])
  next
    case False
    then show ?thesis
      by (auto simp: zero_loop.simps [of n buf])
  qed
qed

lemma integer_loop_bound: "length buf < 32 \<Longrightarrow> length (integer_loop flags base v buf) \<le> 32"
proof (induction flags base v buf rule: integer_loop.induct)
  case (1 flags base v buf)
  then show ?case
    by (subst integer_loop.simps) (simp add: Let_def)
qed

lemma push_char_bound: "length buf \<le> 32 \<Longrightarrow> length (push_char c buf) \<le> 32"
  by (simp add: push_char_def)

lemma zero_padding_bound: "length buf \<le> 32 \<Longrightarrow> length (fst (zero_padding buf negative precision width flags)) \<le> 32"
  by (auto simp: zero_padding_def Let_def zero_loop_closed)

lemma hash_prefix_bound: "length buf \<le> 32 \<Longrightarrow> length (hash_prefix buf u base precision width flags) \<le> 32"
  unfolding hash_prefix_def Let_def by (intro push_char_bound) auto

definition appends :: "(output_gadget_t \<Rightarrow> output_gadget_t) \<Rightarrow> bool" where
  "appends f \<longleftrightarrow> (\<exists>cs. \<forall>g. f g = put_text g cs)"

lemma appendsI: "(\<And>g. f g = put_text g cs) \<Longrightarrow> appends f"
  by (auto simp: appends_def)

lemma appends_id: "appends (\<lambda>g. g)"
  by (rule appendsI [of _ "[]"]) simp

lemma appends_comp: "appends f \<Longrightarrow> appends h \<Longrightarrow> appends (\<lambda>g. f (h g))"
  unfolding appends_def by (metis put_text_append)

lemma appends_if: "(b \<Longrightarrow> appends f) \<Longrightarrow> (\<not> b \<Longrightarrow> appends h) \<Longrightarrow> appends (\<lambda>g. if b then f g else h g)"
  by (cases b) auto

lemma appends_putchar: "appends (\<lambda>g. putchar_via_gadget g c)"
  by (rule appendsI [of _ "[c]"]) (rule put_text_one)

lemma appends_pad: "appends (\<lambda>g. pad_loop l width g)"
  by (rule appendsI) (rule pad_loop_text)

lemma appends_out_rev: "length buf \<le> 32 \<Longrightarrow> appends (\<lambda>g. out_rev g buf width flags)"
  by (rule appendsI) (rule out_rev_text)

lemma finalization_bound:
  assumes "length buf \<le> 32"
  shows "\<exists>B W F. length B \<le> 32 \<and>
    (\<forall>g. print_integer_finalization g buf negative base precision width flags = out_rev g B W F)"
  unfolding print_integer_finalization_def Let_def case_prod_beta
  using zero_padding_bound [OF assms] hash_prefix_bound push_char_bound
  by (intro exI conjI allI) (auto intro!: refl)

lemma appends_finalization:
  "length buf \<le> 32 \<Longrightarrow> appends (\<lambda>g. print_integer_finalization g buf negative base precision width flags)"
proof -
  assume "length buf \<le> 32"
  from finalization_bound [OF this] obtain B W F where "length B \<le> 32"
    "\<forall>g. print_integer_finalization g buf negative base precision width flags = out_rev g B W F"
    by blast
  then show ?thesis
    using appends_out_rev [of B W F] by simp
qed

lemma appends_print_integer: "appends (\<lambda>g. print_integer g value negative base precision width flags)"
proof -
  have "length (integer_loop flags base value []) \<le> 32"
    by (rule integer_loop_bound) simp
  then show ?thesis
    by (simp add: print_integer_def appends_finalization)
qed

lemma appends_integer: "appends (\<lambda>g. format_integer g c a precision width flags)"
  unfolding format_integer_def Let_def by (intro appends_if appends_print_integer)

lemma appends_float: "appends (\<lambda>g. print_floating_point g a width flags)"
  unfolding print_floating_point_def by (intro appends_if appends_out_rev) simp_all

lemma appends_char: "appends (\<lambda>g. format_char g a width flags)"
  by (cases "bit flags FLAGS_LEFT")
    (simp_all add: format_char_def Let_def appends_comp [OF appends_pad appends_putchar] appends_comp [OF appends_putchar appends_pad])

lemma appends_pointer: "appends (\<lambda>g. format_pointer g a precision flags)"
  unfolding format_pointer_def Let_def by (intro appends_if appends_print_integer appends_out_rev) simp

lemma string_loop_appends:
  "string_loop mem p limited precision g0 = Some g1 \<Longrightarrow>
     \<exists>cs. \<forall>g. string_loop mem p limited precision g = Some (put_text g cs)"
proof (induction rule: string_loop.raw_induct [rotated, consumes 1, case_names step])
  case (step f mem p limited precision g0 g1)
  show ?case
  proof (cases "mem p \<noteq> 0 \<and> (\<not> limited \<or> precision \<noteq> 0)")
    case True
    then have "f mem (p + 1) limited (precision - 1) (putchar_via_gadget g0 (mem p)) = Some g1"
      using step(2) by simp
    then obtain cs where "string_loop mem (p + 1) limited (precision - 1) g = Some (put_text g cs)" for g
      using step(1) by blast
    then have "string_loop mem p limited precision g = Some (put_text g (mem p # cs))" for g
      using True by (subst string_loop.simps) (simp add: put_text_Cons)
    then show ?thesis
      by blast
  next
    case False
    have "string_loop mem p limited precision g = Some (put_text g [])" for g
      by (subst string_loop.simps) (use False in auto)
    then show ?thesis
      by blast
  qed
qed

text \<open>
  An operation that may have no result does the same to all gadgets at the same position: the text
  it appends, and whatever else it returns, is determined.
\<close>

definition uniform :: "u32 \<Rightarrow> (output_gadget_t \<Rightarrow> (output_gadget_t \<times> 'a) option) \<Rightarrow> bool" where
  "uniform pos f \<longleftrightarrow>
     (\<forall>g. g_pos g = pos \<longrightarrow> f g = None) \<or> (\<exists>cs r. \<forall>g. g_pos g = pos \<longrightarrow> f g = Some (put_text g cs, r))"

lemma uniform_None: "uniform pos (\<lambda>g. None)"
  by (simp add: uniform_def)

lemma uniform_Some: "appends f \<Longrightarrow> uniform pos (\<lambda>g. Some (f g, r))"
  by (auto simp: uniform_def appends_def)

lemma uniform_cong: "(\<And>g. g_pos g = pos \<Longrightarrow> f g = h g) \<Longrightarrow> uniform pos h \<Longrightarrow> uniform pos f"
  by (simp add: uniform_def)

lemma uniform_then:
  assumes "uniform pos f" "\<And>cs r g. g_pos g = pos \<Longrightarrow> f g = Some (put_text g cs, r) \<Longrightarrow> uniform (pos + of_nat (length cs)) (\<lambda>g. h g r)"
  shows "uniform pos (\<lambda>g. case f g of None \<Rightarrow> None | Some (g, r) \<Rightarrow> h g r)"
proof (cases "\<forall>g. g_pos g = pos \<longrightarrow> f g = None")
  case True
  then show ?thesis
    by (simp add: uniform_def)
next
  case False
  then obtain cs r where f: "\<And>g. g_pos g = pos \<Longrightarrow> f g = Some (put_text g cs, r)"
    using assms(1) unfolding uniform_def by blast
  have "g_pos (discarding_gadget\<lparr>g_pos := pos\<rparr>) = pos"
    by simp
  from assms(2) [OF this f [OF this]] consider
      "\<forall>g. g_pos g = pos + of_nat (length cs) \<longrightarrow> h g r = None"
    | ds q where "\<forall>g. g_pos g = pos + of_nat (length cs) \<longrightarrow> h g r = Some (put_text g ds, q)"
    unfolding uniform_def by blast
  then show ?thesis
  proof cases
    case 1
    then show ?thesis
      by (simp add: uniform_def f)
  next
    case 2
    then have "g_pos g = pos \<Longrightarrow> h (put_text g cs) r = Some (put_text g (cs @ ds), q)" for g
      by (simp add: put_text_append)
    then show ?thesis
      unfolding uniform_def by (metis (mono_tags, lifting) f case_prod_conv option.case(2))
  qed
qed

lemma uniform_string: "uniform pos (\<lambda>g. map_option (\<lambda>g. (g, r)) (format_string mem g p precision width flags))"
proof (cases "p = 0")
  case True
  then show ?thesis
    by (simp add: format_string_def uniform_Some appends_out_rev)
next
  case False
  let ?n = "strnlen_s mem p (if precision \<noteq> 0 then precision else 0x7FFFFFFF)"
  let ?l = "if bit flags FLAGS_PRECISION then (if ?n < precision then ?n else precision) else ?n"
  let ?L = "bit flags FLAGS_LEFT" and ?s = "string_loop mem p (bit flags FLAGS_PRECISION) precision"
  have d: "format_string mem g p precision width flags =
      ?s (if \<not> ?L then pad_loop ?l width g else g) \<bind> (\<lambda>g. Some (if ?L then pad_loop ?l width g else g))" for g
    using False by (simp add: format_string_def Let_def)
  show ?thesis
  proof (cases "\<exists>g0 g1. ?s g0 = Some g1")
    case True
    then obtain cs where s: "?s g = Some (put_text g cs)" for g
      using string_loop_appends by blast
    have "appends (\<lambda>g. if ?L then pad_loop ?l width (put_text g cs) else put_text (pad_loop ?l width g) cs)"
      unfolding pad_loop_text put_text_append [symmetric] by (intro appends_if) (rule appendsI, rule refl)+
    then have "uniform pos (\<lambda>g. Some (if ?L then pad_loop ?l width (put_text g cs) else put_text (pad_loop ?l width g) cs, r))"
      by (rule uniform_Some)
    then show ?thesis
      by (rule uniform_cong [rotated]) (simp add: d s)
  next
    case False
    then have "?s g = None" for g
      by simp
    then show ?thesis
      by (simp add: d uniform_None)
  qed
qed

lemma uniform_if: "(b \<Longrightarrow> uniform pos f) \<Longrightarrow> (\<not> b \<Longrightarrow> uniform pos h) \<Longrightarrow> uniform pos (\<lambda>g. if b then f g else h g)"
  by (cases b) auto

lemma uniform_va_arg:
  "(\<And>a as. args = a # as \<Longrightarrow> uniform pos (\<lambda>g. k g a as)) \<Longrightarrow> uniform pos (\<lambda>g. va_arg args \<bind> (\<lambda>(a, as). k g a as))"
  by (cases args) (simp_all add: va_arg_def uniform_None)

lemma uniform_write_back: "uniform pos (\<lambda>g. Some (g, write_back mem a (g_pos g) flags, args))"
  by (rule uniform_cong [of _ _ "\<lambda>g. Some (g, write_back mem a pos flags, args)"])
    (simp_all add: uniform_Some appends_id)

lemma uniform_specifier: "uniform pos (\<lambda>g. specifier mem g c precision width flags args)"
proof -
  have s: "format_string mem g a precision width flags \<bind> (\<lambda>g. Some (g, mem, as)) =
      map_option (\<lambda>g. (g, mem, as)) (format_string mem g a precision width flags)" for g a as
    by (cases "format_string mem g a precision width flags") simp_all
  show ?thesis
    unfolding specifier_def s
    by (intro uniform_if uniform_va_arg uniform_write_back uniform_string uniform_Some appends_integer appends_float
        appends_char appends_pointer appends_putchar)
qed

lemma uniform_conversion: "uniform pos (\<lambda>g. conversion mem g format args)"
proof -
  have s: "specifier mem g c p w fl as \<bind> (\<lambda>(g, mem, args). Some (g, mem, f, args)) =
      (case specifier mem g c p w fl as of None \<Rightarrow> None | Some (g, mem, args) \<Rightarrow> Some (g, mem, f, args))" for g c p w fl as f
    by (cases "specifier mem g c p w fl as") auto
  have u: "uniform pos (\<lambda>g. specifier mem g c p w fl as \<bind> (\<lambda>(g, mem, args). Some (g, mem, f, args)))" for c p w fl as f
    unfolding s by (rule uniform_then [OF uniform_specifier]) (simp add: case_prod_beta uniform_Some appends_id)
  obtain fl f1 where 1: "parse_flags 0 format = (fl, f1)"
    by fastforce
  show ?thesis
  proof (cases "parse_width fl f1 args")
    case None
    then show ?thesis
      by (simp add: conversion_def 1 uniform_None)
  next
    case (Some r)
    obtain fl2 w f2 a2 where 2: "parse_width fl f1 args = Some (fl2, w, f2, a2)"
      using Some by (cases r) auto
    show ?thesis
    proof (cases "parse_precision fl2 f2 a2")
      case None
      then show ?thesis
        by (simp add: conversion_def 1 2 uniform_None)
    next
      case (Some q)
      then obtain fl3 p f3 a3 where 3: "parse_precision fl2 f2 a2 = Some (fl3, p, f3, a3)"
        by (cases q) auto
      obtain fl4 f4 where "parse_length fl3 f3 = (fl4, f4)"
        by fastforce
      then show ?thesis
        by (cases f4) (simp_all add: conversion_def 1 2 3 uniform_None u)
    qed
  qed
qed

lemma uniform_print_loop: "uniform pos (\<lambda>g. print_loop mem g format args)"
proof (induction "length format" arbitrary: pos mem format args rule: less_induct)
  case less
  show ?case
  proof (cases format)
    case Nil
    then show ?thesis
      by (simp add: uniform_Some appends_id)
  next
    case (Cons c rest)
    show ?thesis
    proof (cases "c = 37")
      case True
      have "uniform pos (\<lambda>g. case conversion mem g rest args of None \<Rightarrow> None
          | Some (g, mem, format, args) \<Rightarrow> print_loop mem g format args)"
      proof (rule uniform_then [OF uniform_conversion])
        fix cs g and r :: "memory \<times> u8 list \<times> u64 list"
        assume a: "conversion mem g rest args = Some (put_text g cs, r)"
        obtain m f as where r: "r = (m, f, as)"
          by (cases r) auto
        have "length f < length format"
          using conversion_length [of mem g rest args] a Cons by (simp add: r)
        then show "uniform (pos + of_nat (length cs)) (\<lambda>g. case r of (mem, format, args) \<Rightarrow> print_loop mem g format args)"
          using less by (simp add: r)
      qed
      then show ?thesis
        using Cons True by simp
    next
      case False
      have "uniform (pos + 1) (\<lambda>g. print_loop mem g rest args)"
        using less Cons by simp
      then have "uniform pos (\<lambda>g. case Some (putchar_via_gadget g c, ()) of None \<Rightarrow> None
          | Some (g, _) \<Rightarrow> print_loop mem g rest args)"
        by (intro uniform_then uniform_Some appends_putchar) (auto simp: put_text_one [symmetric] dest!: arg_cong [of _ _ g_pos])
      then show ?thesis
        using Cons False by simp
    qed
  qed
qed

section \<open>Buffers and functions as targets\<close>

lemma putchar_max [simp]:
  "g_max_chars (putchar_via_gadget g c) = g_max_chars g" "g_function (putchar_via_gadget g c) = g_function g"
  by (simp_all add: putchar_via_gadget_def Let_def)

lemma put_text_max [simp]: "g_max_chars (put_text g cs) = g_max_chars g" "g_function (put_text g cs) = g_function g"
  by (induction cs arbitrary: g) (simp_all add: put_text_Cons)

lemma put_text_buffer:
  assumes "\<not> g_function g" "g_buffer g = Some b" "unat (g_pos g) + length cs < 2 ^ 32"
  shows "g_buffer (put_text g cs) =
    Some (\<lambda>i. if unat (g_pos g) \<le> i \<and> i < unat (g_pos g) + length cs \<and> i < unat (g_max_chars g)
                then cs ! (i - unat (g_pos g)) else b i)"
  using assms
proof (induction cs arbitrary: g b)
  case (Cons c cs)
  let ?p = "unat (g_pos g)" and ?m = "unat (g_max_chars g)"
  have p: "unat (g_pos g + 1) = ?p + 1"
    using Cons.prems(3) by (simp add: unat_word_ariths)
  have b: "g_buffer (putchar_via_gadget g c) = Some (if ?p < ?m then b(?p := c) else b)"
    using Cons.prems(1,2) by (simp add: putchar_via_gadget_def Let_def word_le_nat_alt)
  have "g_buffer (put_text g (c # cs)) = Some (\<lambda>i. if ?p + 1 \<le> i \<and> i < ?p + 1 + length cs \<and> i < ?m
      then cs ! (i - (?p + 1)) else (if ?p < ?m then b(?p := c) else b) i)"
    unfolding put_text_Cons by (rule Cons.IH [of "putchar_via_gadget g c", OF _ b, unfolded putchar_pos putchar_max p])
      (use Cons.prems in simp_all)
  also have "\<dots> = Some (\<lambda>i. if ?p \<le> i \<and> i < ?p + length (c # cs) \<and> i < ?m then (c # cs) ! (i - ?p) else b i)"
    by (auto simp: fun_eq_iff nth_Cons')
  finally show ?case .
qed (auto simp: fun_eq_iff)

lemma put_text_null: "g_buffer g = None \<Longrightarrow> g_buffer (put_text g cs) = None"
proof (induction cs arbitrary: g)
  case (Cons c cs)
  have "g_buffer (putchar_via_gadget g c) = None"
    using Cons.prems by (simp add: putchar_via_gadget_def Let_def)
  then show ?case
    using Cons.IH by (simp add: put_text_Cons)
qed simp

lemma putchar_frame:
  assumes "g_buffer g = Some b"
  shows "\<exists>b'. g_buffer (putchar_via_gadget g c) = Some b' \<and> (\<forall>i \<ge> unat (g_max_chars g). b' i = b i)"
proof (cases "g_max_chars g \<le> g_pos g \<or> g_function g")
  case False
  then have "g_buffer (putchar_via_gadget g c) = Some (b(unat (g_pos g) := c))" "unat (g_pos g) < unat (g_max_chars g)"
    using assms by (simp_all add: putchar_via_gadget_def Let_def word_less_nat_alt word_le_nat_alt)
  then show ?thesis
    by simp
qed (use assms in \<open>auto simp: putchar_via_gadget_def Let_def\<close>)

lemma put_text_frame:
  "g_buffer g = Some b \<Longrightarrow> \<exists>b'. g_buffer (put_text g cs) = Some b' \<and> (\<forall>i \<ge> unat (g_max_chars g). b' i = b i)"
proof (induction cs arbitrary: g b)
  case (Cons c cs)
  obtain b1 where b1: "g_buffer (putchar_via_gadget g c) = Some b1" "\<forall>i \<ge> unat (g_max_chars g). b1 i = b i"
    using putchar_frame [OF Cons.prems, of c] by blast
  show ?case
    using Cons.IH [OF b1(1)] b1(2) by (auto simp: put_text_Cons)
qed simp

lemma put_text_called:
  assumes "g_function g" "unat (g_pos g) + length cs < 2 ^ 32"
  shows "g_called (put_text g cs) = g_called g @ take (unat (g_max_chars g) - unat (g_pos g)) cs"
  using assms
proof (induction cs arbitrary: g)
  case (Cons c cs)
  have p: "unat (g_pos g + 1) = unat (g_pos g) + 1"
    using Cons.prems(2) by (simp add: unat_word_ariths)
  have c: "g_called (putchar_via_gadget g c) = g_called g @ (if g_pos g < g_max_chars g then [c] else [])"
    using Cons.prems(1) by (auto simp: putchar_via_gadget_def Let_def)
  show ?case
    using Cons.IH [of "putchar_via_gadget g c"] Cons.prems
    by (auto simp: put_text_Cons p c word_less_nat_alt take_Cons')
qed simp

lemma put_text_called_grows: "length (g_called g) \<le> length (g_called (put_text g cs))"
proof (induction cs arbitrary: g)
  case (Cons c cs)
  have "length (g_called g) \<le> length (g_called (putchar_via_gadget g c))"
    by (simp add: putchar_via_gadget_def Let_def)
  then show ?case
    using Cons.IH [of "putchar_via_gadget g c"] by (simp add: put_text_Cons)
qed simp

lemma function_gadget_text:
  assumes "length (g_called (put_text function_gadget cs)) < 0x7FFFFFFF"
  shows "g_called (put_text function_gadget cs) = cs"
proof -
  have g: "g_function function_gadget" "g_pos function_gadget = 0" "g_max_chars function_gadget = 0x7FFFFFFF"
      "g_called function_gadget = []"
    by (simp_all add: function_gadget_def discarding_gadget_def)
  have t: "g_called (put_text function_gadget (take 0x7FFFFFFF cs)) = take 0x7FFFFFFF cs"
    using put_text_called [of function_gadget "take 0x7FFFFFFF cs"] by (simp add: g)
  have "length cs < 0x7FFFFFFF"
  proof (rule ccontr)
    assume "\<not> length cs < 0x7FFFFFFF"
    then have "length (take 0x7FFFFFFF cs) = 0x7FFFFFFF"
      by simp
    moreover have "put_text function_gadget cs =
        put_text (put_text function_gadget (take 0x7FFFFFFF cs)) (drop 0x7FFFFFFF cs)"
      by (simp only: put_text_append [symmetric] append_take_drop_id)
    ultimately show False
      using put_text_called_grows [of "put_text function_gadget (take 0x7FFFFFFF cs)" "drop 0x7FFFFFFF cs"] assms
      unfolding t by simp
  qed
  then show ?thesis
    using t by simp
qed

text \<open>A buffer of \<open>n\<close> bytes that holds as much of a text as fits, and a terminator.\<close>

definition stored :: "(nat \<Rightarrow> u8) \<Rightarrow> nat \<Rightarrow> u8 list \<Rightarrow> nat \<Rightarrow> u8" where
  "stored b n cs =
     (if n = 0 then b
      else let k = min (n - 1) (length cs) in (\<lambda>i. if i < k then cs ! i else if i = k then 0 else b i))"

lemma usable_size:
  "unat (if (n :: u64) > 0x7FFFFFFF then 0x7FFFFFFF else ucast n :: u32) = min (unat n) 0x7FFFFFFF"
proof (cases "n > 0x7FFFFFFF")
  case False
  then have "unat n \<le> 0x7FFFFFFF"
    by (simp add: word_less_nat_alt)
  then show ?thesis
    using False by (simp add: unsigned_ucast_eq take_bit_nat_eq_self)
qed (simp add: word_less_nat_alt)

lemma terminated_text:
  assumes "length cs < 0x7FFFFFFF"
  shows "g_buffer (append_termination_with_gadget (put_text (buffer_gadget (Some b) n) cs)) = Some (stored b (unat n) cs)"
proof -
  let ?g = "buffer_gadget (Some b) n"
  have g: "\<not> g_function ?g" "g_buffer ?g = Some b" "g_pos ?g = 0" "unat (g_max_chars ?g) = min (unat n) 0x7FFFFFFF"
    by (simp_all add: buffer_gadget_def discarding_gadget_def usable_size)
  have t: "g_buffer (put_text ?g cs) = Some (\<lambda>i. if i < length cs \<and> i < unat n then cs ! i else b i)"
    using put_text_buffer [OF g(1,2), of cs] assms by (auto simp: g(3,4) fun_eq_iff)
  have l: "unat (of_nat (length cs) :: u32) = length cs"
    using assms by (simp add: unat_of_nat)
  have z: "g_max_chars ?g = 0 \<longleftrightarrow> n = 0"
    using g(4) by (auto simp: unat_eq_zero min_def split: if_splits)
  have m: "unat (g_max_chars ?g - 1) = min (unat n) 0x7FFFFFFF - 1" if "n \<noteq> 0"
    using that z g(4) by (simp add: unat_minus_one)
  show ?thesis
    using assms t z
    by (auto simp: append_termination_with_gadget_def stored_def Let_def g(1,3,4) l m word_less_nat_alt fun_eq_iff min_def
        unat_eq_zero)
qed

lemma print_loop_text:
  assumes "print_loop mem g0 format args = Some (g1, mem')" "g_pos g0 = 0"
  obtains cs where "\<And>g. g_pos g = 0 \<Longrightarrow> print_loop mem g format args = Some (put_text g cs, mem')"
  using uniform_print_loop [of 0 mem format args] assms unfolding uniform_def by fastforce

lemma gadget_pos [simp]: "g_pos (buffer_gadget b n) = 0" "g_pos function_gadget = 0"
  by (simp_all add: buffer_gadget_def function_gadget_def discarding_gadget_def)

lemma termination_pos [simp]: "g_pos (append_termination_with_gadget g) = g_pos g"
  by (simp add: append_termination_with_gadget_def Let_def split: option.split)

lemma termination_function [simp]: "g_function g \<Longrightarrow> append_termination_with_gadget g = g"
  by (simp add: append_termination_with_gadget_def)

lemma termination_null [simp]: "g_buffer g = None \<Longrightarrow> append_termination_with_gadget g = g"
  by (simp add: append_termination_with_gadget_def)

lemma vfctprintf_text:
  assumes "vfctprintf mem format args = Some (ret, cs, mem')" "length cs < 0x7FFFFFFF"
  shows "ret = of_nat (length cs)" "\<And>g. g_pos g = 0 \<Longrightarrow> print_loop mem g format args = Some (put_text g cs, mem')"
proof -
  obtain g1 where g1: "print_loop mem function_gadget format args = Some (g1, mem')"
    using assms(1) by (auto simp: vfctprintf_def vsnprintf_gadget_def Let_def split: bind_splits)
  obtain ds where ds: "\<And>g. g_pos g = 0 \<Longrightarrow> print_loop mem g format args = Some (put_text g ds, mem')"
    using print_loop_text [OF g1] by auto
  have "g_function function_gadget"
    by (simp add: function_gadget_def)
  then have e: "ret = of_nat (length ds)" "g_called (put_text function_gadget ds) = cs"
    using assms(1) by (simp_all add: vfctprintf_def vsnprintf_gadget_def ds)
  then have "ds = cs"
    using function_gadget_text [of ds] assms(2) by simp
  then show "ret = of_nat (length cs)" "\<And>g. g_pos g = 0 \<Longrightarrow> print_loop mem g format args = Some (put_text g cs, mem')"
    using e(1) ds by simp_all
qed

lemma vsnprintf_stores:
  assumes "vfctprintf mem format args = Some (ret, cs, mem')" "length cs < 0x7FFFFFFF"
  shows "vsnprintf mem (Some b) n format args = Some (ret, Some (stored b (unat n) cs), mem')"
    "vsnprintf mem None n format args = Some (ret, None, mem')"
proof -
  note t = vfctprintf_text [OF assms]
  show "vsnprintf mem (Some b) n format args = Some (ret, Some (stored b (unat n) cs), mem')"
    using terminated_text [OF assms(2), of b n] by (simp add: vsnprintf_def vsnprintf_gadget_def t)
  have "g_buffer (put_text (buffer_gadget None n) cs) = None"
    by (rule put_text_null) (simp add: buffer_gadget_def discarding_gadget_def)
  then show "vsnprintf mem None n format args = Some (ret, None, mem')"
    by (simp add: vsnprintf_def vsnprintf_gadget_def t)
qed

text \<open>Whatever is printed, nothing at or behind the given size changes.\<close>

lemma vsnprintf_frame:
  assumes "vsnprintf mem (Some b) n format args = Some (ret, s, mem')"
  shows "\<exists>b'. s = Some b' \<and> (\<forall>i \<ge> unat n. b' i = b i)"
proof -
  let ?g = "buffer_gadget (Some b) n"
  obtain g1 where g1: "print_loop mem ?g format args = Some (g1, mem')" "s = g_buffer (append_termination_with_gadget g1)"
    using assms by (auto simp: vsnprintf_def vsnprintf_gadget_def Let_def split: bind_splits)
  obtain cs where "\<And>g. g_pos g = 0 \<Longrightarrow> print_loop mem g format args = Some (put_text g cs, mem')"
    using print_loop_text [OF g1(1)] by auto
  then have cs: "g1 = put_text ?g cs"
    using g1(1) by simp
  have m: "unat (g_max_chars ?g) = min (unat n) 0x7FFFFFFF"
    by (simp add: buffer_gadget_def usable_size)
  obtain b1 where b1: "g_buffer g1 = Some b1" "\<forall>i \<ge> min (unat n) 0x7FFFFFFF. b1 i = b i"
    using put_text_frame [of ?g b cs] unfolding cs m by (auto simp: buffer_gadget_def)
  show ?thesis
  proof (cases "g_max_chars g1 = 0 \<or> g_function g1")
    case True
    then show ?thesis
      using b1 g1(2) by (auto simp: append_termination_with_gadget_def)
  next
    case False
    let ?k = "if g_pos g1 < g_max_chars g1 then g_pos g1 else g_max_chars g1 - 1"
    have "?k < g_max_chars g1"
      using False by (auto simp: word_less_nat_alt unat_minus_one unat_gt_0)
    then have k: "unat ?k < min (unat n) 0x7FFFFFFF"
      unfolding word_less_nat_alt by (simp add: cs m)
    then have "\<forall>i \<ge> unat n. (b1(unat ?k := 0)) i = b i"
      using b1(2) by auto
    moreover have "s = Some (b1(unat ?k := 0))"
      using False b1(1) g1(2) by (simp add: append_termination_with_gadget_def Let_def)
    ultimately show ?thesis
      by blast
  qed
qed

section \<open>The text of a number\<close>

function digits_of :: "nat \<Rightarrow> nat \<Rightarrow> nat list" where
  "digits_of base n = (if n < base \<or> base < 2 then [n] else digits_of base (n div base) @ [n mod base])"
  by pat_completeness auto
termination
  by (relation "measure snd") (auto intro!: div_less_dividend)

declare digits_of.simps [simp del]

lemma digits_of_length_pos: "0 < length (digits_of base n)"
  by (subst digits_of.simps) simp

lemma digits_of_length: "2 \<le> base \<Longrightarrow> n < base ^ k \<Longrightarrow> 0 < k \<Longrightarrow> length (digits_of base n) \<le> k"
proof (induction k arbitrary: n)
  case (Suc k)
  show ?case
  proof (cases "n < base")
    case True
    then show ?thesis
      by (subst digits_of.simps) simp
  next
    case False
    then have "0 < k"
      using Suc.prems by (cases k) auto
    moreover have "n div base < base ^ k"
      using Suc.prems(2) by (simp add: less_mult_imp_div_less mult.commute)
    ultimately show ?thesis
      using Suc.IH [of "n div base"] Suc.prems(1) False by (subst digits_of.simps) simp
  qed
qed simp

lemma integer_loop_digits:
  assumes "length buf < 32" "2 \<le> unat base"
  shows "integer_loop flags base v buf =
    buf @ take (32 - length buf) (rev (map (\<lambda>d. digit_char flags (of_nat d)) (digits_of (unat base) (unat v))))"
  using assms
proof (induction flags base v buf rule: integer_loop.induct)
  case (1 flags base v buf)
  let ?b = "ucast base :: u64" and ?d = "\<lambda>d. digit_char flags (of_nat d)"
  have b: "unat ?b = unat base"
    by (simp add: unsigned_ucast_eq take_bit_nat_eq_self unsigned_less [of base, where ?'a = nat, THEN less_trans])
  have q: "unat (v div ?b) = unat v div unat base" "of_nat (unat v mod unat base) = v mod ?b"
    by (simp_all add: unat_div b) (simp flip: b unat_mod)
  have z: "v div ?b = 0 \<longleftrightarrow> unat v < unat base"
    using 1(3) by (simp add: word_unat_eq_iff q(1) div_eq_0_iff)
  show ?case
  proof (cases "v div ?b \<noteq> 0 \<and> length (buf @ [digit_char flags (v mod ?b)]) < 32")
    case True
    then show ?thesis
      using 1(1) [OF refl refl True] 1(3) z q
      by (subst integer_loop.simps, subst digits_of.simps) (simp add: Let_def take_Cons' Suc_diff_Suc)
  next
    case False
    then show ?thesis
      using 1(2,3) z q
      by (subst integer_loop.simps, subst digits_of.simps) (auto simp: Let_def take_Cons')
  qed
qed

lemma pad_digits:
  "2 \<le> base \<Longrightarrow> n < base ^ k \<Longrightarrow> 0 < k \<Longrightarrow>
     replicate (k - length (digits_of base n)) 0 @ digits_of base n = map (\<lambda>i. n div base ^ (k - 1 - i) mod base) [0..<k]"
proof (induction k arbitrary: n)
  case (Suc k)
  show ?case
  proof (cases "k = 0")
    case True
    then have "digits_of base n = [n]"
      using Suc.prems by (subst digits_of.simps) simp
    then show ?thesis
      using True Suc.prems by simp
  next
    case False
    have "n div base < base ^ k"
      using Suc.prems(2) by (simp add: less_mult_imp_div_less mult.commute)
    then have ih: "replicate (k - length (digits_of base (n div base))) 0 @ digits_of base (n div base) =
        map (\<lambda>i. n div base div base ^ (k - 1 - i) mod base) [0..<k]"
      using Suc.IH False Suc.prems(1) by simp
    have e: "n div base div base ^ (k - 1 - i) = n div base ^ (k - i)" if "i < k" for i
    proof -
      have "base * base ^ (k - 1 - i) = base ^ (k - i)"
        using that by (simp flip: power_Suc add: Suc_diff_Suc)
      then show ?thesis
        by (simp flip: div_mult2_eq)
    qed
    have "replicate (Suc k - length (digits_of base n)) 0 @ digits_of base n =
        (replicate (k - length (digits_of base (n div base))) 0 @ digits_of base (n div base)) @ [n mod base]"
    proof (cases "n < base")
      case True
      have "digits_of base n = [n]" "digits_of base (n div base) = [0]"
        using True Suc.prems(1) by (subst digits_of.simps, simp)+
      then show ?thesis
        using True False by (cases k) (simp_all add: replicate_append_same)
    next
      case False
      then have "digits_of base n = digits_of base (n div base) @ [n mod base]"
        using Suc.prems(1) by (subst digits_of.simps) simp
      then show ?thesis
        by simp
    qed
    also have "\<dots> = map (\<lambda>i. n div base ^ (Suc k - 1 - i) mod base) [0..<Suc k]"
      unfolding ih using e by simp
    finally show ?thesis .
  qed
qed simp

text \<open>
  The reference for a number without prefix: the digits are extended by zeros to the precision, the
  sign is put in front, and the field is filled with spaces on the right (\<^verbatim>\<open>-\<close>), with zeros behind the
  sign (\<^verbatim>\<open>0\<close>), or with spaces on the left.
\<close>

definition sign_text :: "bool \<Rightarrow> printf_flags_t \<Rightarrow> u8 list" where
  "sign_text negative flags =
     (if negative then [45] else if bit flags FLAGS_PLUS then [43] else if bit flags FLAGS_SPACE then [32] else [])"

definition plain_field :: "u8 list \<Rightarrow> u8 list \<Rightarrow> nat \<Rightarrow> nat \<Rightarrow> printf_flags_t \<Rightarrow> u8 list" where
  "plain_field sign digits precision width flags =
     (let body = replicate (precision - length digits) 48 @ digits; fill = width - length (sign @ body) in
      if bit flags FLAGS_LEFT then sign @ body @ replicate fill 32
      else if bit flags FLAGS_ZEROPAD then sign @ replicate fill 48 @ body
      else replicate fill 32 @ sign @ body)"

lemma sign_push:
  "length buf < 32 \<Longrightarrow>
     (if negative then push_char 45 buf else if bit flags FLAGS_PLUS then push_char 43 buf
      else if bit flags FLAGS_SPACE then push_char 32 buf else buf) = buf @ rev (sign_text negative flags)"
  by (auto simp: push_char_def sign_text_def)

lemma sign_length:
  "length (sign_text negative flags) = (if negative \<or> bit flags FLAGS_PLUS \<or> bit flags FLAGS_SPACE then 1 else 0)"
  by (simp add: sign_text_def)

lemma flag_unset [simp]: "bit (unset_bit m (flags :: printf_flags_t)) n \<longleftrightarrow> bit flags n \<and> m \<noteq> n"
  by (auto simp: bit_simps)

lemma flag_set [simp]: "bit (set_bit m (flags :: printf_flags_t)) n \<longleftrightarrow> bit flags n \<or> m = n \<and> n < 32"
  by (auto simp: bit_simps)

lemma field_text_cong:
  "bit flags FLAGS_LEFT = bit flags' FLAGS_LEFT \<Longrightarrow> bit flags FLAGS_ZEROPAD = bit flags' FLAGS_ZEROPAD \<Longrightarrow>
     field_text buf width flags = field_text buf width flags'"
  unfolding field_text_def by (simp only:)

lemma u32_pred: "unat (w :: u32) \<noteq> 0 \<Longrightarrow> unat (w - 1) = unat w - 1"
  by (simp add: unat_minus_one unat_eq_zero)

text \<open>The zeros: for the precision, and for the field when it is filled with zeros.\<close>

definition zero_width :: "bool \<Rightarrow> nat \<Rightarrow> printf_flags_t \<Rightarrow> nat" where
  "zero_width negative width flags =
     (if \<not> bit flags FLAGS_LEFT \<and> bit flags FLAGS_ZEROPAD then width - length (sign_text negative flags) else 0)"

lemma zero_padding_plain:
  fixes width precision :: u32
  assumes "unat precision < 32" "unat width < 32"
  shows "fst (zero_padding buf negative precision width flags) =
      buf @ replicate (max (zero_width negative (unat width) flags) (unat precision) - length buf) 48"
    "bit flags FLAGS_LEFT \<or> \<not> bit flags FLAGS_ZEROPAD \<Longrightarrow> snd (zero_padding buf negative precision width flags) = width"
proof -
  have p: "min (unat precision) 32 = unat precision" "min (unat width) 32 = unat width" "min (unat (width - 1)) 32 = unat (width - 1)"
      if "unat width \<noteq> 0"
    using assms(1,2) u32_pred [OF that] by auto
  have m: "buf @ replicate (a - length buf) 48 @ replicate (b - (length buf + (a - length buf))) 48 =
      buf @ replicate (max a b - length buf) 48" for a b
  proof -
    have "a - length buf + (b - (length buf + (a - length buf))) = max a b - length buf"
      by linarith
    then show ?thesis
      by (simp flip: replicate_add)
  qed
  show "fst (zero_padding buf negative precision width flags) =
      buf @ replicate (max (zero_width negative (unat width) flags) (unat precision) - length buf) 48"
    using p u32_pred [of width] assms(1,2)
    by (cases "unat width = 0") (auto simp: zero_padding_def Let_def zero_loop_closed zero_width_def sign_length m unat_eq_zero)
  show "bit flags FLAGS_LEFT \<or> \<not> bit flags FLAGS_ZEROPAD \<Longrightarrow> snd (zero_padding buf negative precision width flags) = width"
    by (auto simp: zero_padding_def Let_def)
qed

lemma finalization_plain:
  assumes "\<not> bit flags FLAGS_HASH" "\<not> bit flags FLAGS_POINTER" "length buf < 32" "unat precision < 32" "unat width < 32"
  shows "print_integer_finalization g buf negative base precision width flags =
    put_text g (plain_field (sign_text negative flags) (rev buf) (unat precision) (unat width) flags)"
proof -
  let ?s = "sign_text negative flags"
  obtain B W where z: "zero_padding buf negative precision width flags = (B, W)"
    by fastforce
  note zp = zero_padding_plain [OF assms(4,5), where flags = flags and negative = negative and buf = buf, unfolded z fst_conv snd_conv]
  have B: "length B < 32"
    using zp(1) assms(3-5) by (auto simp: max_def zero_width_def)
  let ?F = "if base = 8 \<and> length buf < length B then unset_bit FLAGS_HASH flags else flags"
  have F: "\<not> bit ?F FLAGS_HASH" "\<not> bit ?F FLAGS_POINTER" "bit ?F FLAGS_PLUS = bit flags FLAGS_PLUS"
      "bit ?F FLAGS_SPACE = bit flags FLAGS_SPACE" "bit ?F FLAGS_LEFT = bit flags FLAGS_LEFT" "bit ?F FLAGS_ZEROPAD = bit flags FLAGS_ZEROPAD"
    using assms(1,2) by simp_all
  have "print_integer_finalization g buf negative base precision width flags = out_rev g (B @ rev ?s) W ?F"
    unfolding print_integer_finalization_def Let_def z case_prod_conv F(3,4)
    by (simp only: F(1,2) simp_thms if_False sign_push [OF B])
  also have "\<dots> = put_text g (field_text (B @ rev ?s) W flags)"
    using B field_text_cong [OF F(5,6)] by (subst out_rev_text) (auto simp: sign_length)
  also have "field_text (B @ rev ?s) W flags = plain_field ?s (rev buf) (unat precision) (unat width) flags"
    using zp by (auto simp: field_text_def plain_field_def Let_def max_def zero_width_def simp flip: replicate_add intro!: arg_cong [of _ _ "\<lambda>n. replicate n _"])
  finally show ?thesis .
qed

definition decimal_text :: "nat \<Rightarrow> u8 list" where
  "decimal_text n = map (\<lambda>d. 48 + of_nat d) (digits_of 10 n)"

definition decimal_field :: "int \<Rightarrow> nat \<Rightarrow> nat \<Rightarrow> printf_flags_t \<Rightarrow> u8 list" where
  "decimal_field x precision width flags =
     plain_field (sign_text (x < 0) flags) (if x = 0 \<and> bit flags FLAGS_PRECISION then [] else decimal_text (nat \<bar>x\<bar>))
       precision width (if bit flags FLAGS_PRECISION then unset_bit FLAGS_ZEROPAD flags else flags)"

lemma digits_of_less: "2 \<le> base \<Longrightarrow> d \<in> set (digits_of base n) \<Longrightarrow> d < base"
proof (induction base n rule: digits_of.induct)
  case (1 base n)
  then show ?case
    by (cases "n < base") (simp_all add: digits_of.simps [of base n], auto)
qed

lemma decimal_digit_cases:
  assumes "d < (10 :: nat)"
  obtains "d = 0" | "d = 1" | "d = 2" | "d = 3" | "d = 4" | "d = 5" | "d = 6" | "d = 7" | "d = 8" | "d = 9"
proof -
  have "d = 0 \<or> d = 1 \<or> d = 2 \<or> d = 3 \<or> d = 4 \<or> d = 5 \<or> d = 6 \<or> d = 7 \<or> d = 8 \<or> d = 9"
    using assms by arith
  then show ?thesis
    using that by blast
qed

lemma digit_char_decimal: "d < 10 \<Longrightarrow> digit_char flags (of_nat d) = 48 + of_nat d"
  by (cases d rule: decimal_digit_cases) (simp_all add: digit_char_def)

lemma decimal_text_length: "length (decimal_text (unat (v :: u64))) \<le> 20"
  unfolding decimal_text_def length_map using unsigned_less [of v, where ?'a = nat] by (intro digits_of_length) simp_all

lemma integer_loop_decimal: "integer_loop flags 10 v [] = rev (decimal_text (unat v))"
proof -
  have "map (\<lambda>d. digit_char flags (of_nat d)) (digits_of 10 (unat v)) = decimal_text (unat v)"
    using digits_of_less [of 10] by (simp add: decimal_text_def digit_char_decimal)
  then show ?thesis
    using integer_loop_digits [of "[]" 10 flags v] decimal_text_length [of v] by simp
qed

lemma decimal_text_0: "decimal_text 0 = [48]"
  by (simp add: decimal_text_def digits_of.simps)

lemma plain_field_cong:
  "bit flags FLAGS_LEFT = bit flags' FLAGS_LEFT \<Longrightarrow> bit flags FLAGS_ZEROPAD = bit flags' FLAGS_ZEROPAD \<Longrightarrow>
     plain_field sign digits p w flags = plain_field sign digits p w flags'"
  unfolding plain_field_def by (simp only:)

lemma sign_text_cong:
  "bit flags FLAGS_PLUS = bit flags' FLAGS_PLUS \<Longrightarrow> bit flags FLAGS_SPACE = bit flags' FLAGS_SPACE \<Longrightarrow>
     sign_text negative flags = sign_text negative flags'"
  by (simp add: sign_text_def)

lemma print_integer_decimal:
  assumes "\<not> bit flags FLAGS_HASH" "\<not> bit flags FLAGS_POINTER" "unat precision < 32" "unat width < 32"
  shows "print_integer g v negative 10 precision width flags =
    put_text g (plain_field (sign_text negative flags) (if v = 0 \<and> bit flags FLAGS_PRECISION then [] else decimal_text (unat v))
      (unat precision) (unat width) flags)"
proof -
  have h: "unset_bit FLAGS_HASH flags = flags"
    by (rule bit_word_eqI) (use assms(1) in auto)
  have "length (decimal_text (unat v)) < 32"
    using decimal_text_length [of v] by simp
  then show ?thesis
    using assms by (auto simp: print_integer_def h integer_loop_decimal decimal_text_0 finalization_plain)
qed

lemma abs_for_printing: "unat (ABS_FOR_PRINTING x) = nat \<bar>sint x\<bar>"
proof (cases "sint x > 0")
  case True
  have "sint x < 2 ^ 63"
    using sint_lt [of x] by simp
  then have "uint (word_of_int (sint x) :: u64) = sint x"
    unfolding uint_word_of_int using True by simp
  then have "uint x = sint x"
    by simp
  then show ?thesis
    using True by (simp add: ABS_FOR_PRINTING_def flip: nat_uint_eq)
next
  case False
  have "- (2 ^ 63) \<le> sint x"
    using sint_ge [of x] by simp
  then have "uint (word_of_int (- sint x) :: u64) = - sint x"
    unfolding uint_word_of_int using False by simp
  moreover have "word_of_int (- sint x) = - x"
    by simp
  ultimately show ?thesis
    using False by (simp add: ABS_FOR_PRINTING_def flip: nat_uint_eq)
qed

lemma atou_decimal: "atou (decimal_text n) = (of_nat n, [])"
proof -
  have d: "is_digit (48 + of_nat d)" "ucast (48 + of_nat d :: u8) - 48 = (of_nat d :: u32)" if "d < 10" for d
    using that by (cases d rule: decimal_digit_cases; simp add: is_digit_def)+
  have l: "\<forall>d \<in> set ds. d < 10 \<Longrightarrow> atou_loop i (map (\<lambda>d. 48 + of_nat d) ds) = (foldl (\<lambda>i d. i * 10 + of_nat d) i ds, [])" for ds i
    by (induction ds arbitrary: i) (simp_all add: d)
  have "foldl (\<lambda>i d. i * 10 + of_nat d) 0 (digits_of 10 n) = (of_nat n :: u32)"
  proof (induction "10 :: nat" n rule: digits_of.induct)
    case (1 n)
    show ?case
    proof (cases "n < 10")
      case False
      have "(of_nat (n div 10) :: u32) * 10 + of_nat (n mod 10) = of_nat (n div 10 * 10 + n mod 10)"
        by (simp only: of_nat_add of_nat_mult of_nat_numeral)
      then have "(of_nat (n div 10) :: u32) * 10 + of_nat (n mod 10) = of_nat n"
        by (simp only: div_mult_mod_eq)
      then show ?thesis
        using 1 False by (simp add: digits_of.simps [of 10 n])
    qed (simp add: digits_of.simps [of 10 n])
  qed
  then show ?thesis
    using l [of "digits_of 10 n" 0] digits_of_less [of 10] by (simp add: atou_def decimal_text_def)
qed

lemma integer_flags_decimal:
  "bit (integer_flags 100 flags) FLAGS_SIGNED" "\<not> bit (integer_flags 100 flags) FLAGS_HASH"
  "n \<noteq> FLAGS_SIGNED \<Longrightarrow> n \<noteq> FLAGS_HASH \<Longrightarrow>
     bit (integer_flags 100 flags) n \<longleftrightarrow> bit flags n \<and> (n = FLAGS_ZEROPAD \<longrightarrow> \<not> bit flags FLAGS_PRECISION)"
  by (auto simp: integer_flags_def integer_base_def Let_def)

lemma signed_value_cong:
  "(\<And>n. n \<in> {FLAGS_LONG_LONG, FLAGS_LONG, FLAGS_CHAR, FLAGS_SHORT} \<Longrightarrow> bit flags n = bit flags' n) \<Longrightarrow>
     signed_value flags a = signed_value flags' a"
  by (simp add: signed_value_def)

lemma format_integer_decimal:
  assumes "\<not> bit flags FLAGS_POINTER" "unat precision < 32" "unat width < 32"
  shows "format_integer g 100 a precision width flags =
    put_text g (decimal_field (sint (signed_value flags a)) (unat precision) (unat width) flags)"
proof -
  let ?f = "integer_flags 100 flags" and ?x = "sint (signed_value flags a)"
  have v: "signed_value ?f a = signed_value flags a"
    by (rule signed_value_cong) (auto simp: integer_flags_decimal(3))
  have z: "ABS_FOR_PRINTING (signed_value flags a) = 0 \<longleftrightarrow> ?x = 0"
    using abs_for_printing [of "signed_value flags a"] by (simp add: unat_eq_zero [symmetric])
  have s: "sign_text n ?f = sign_text n flags" for n
    by (rule sign_text_cong) (simp_all add: integer_flags_decimal(3))
  have p: "plain_field sg ds p w ?f =
      plain_field sg ds p w (if bit flags FLAGS_PRECISION then unset_bit FLAGS_ZEROPAD flags else flags)" for sg ds p w
    by (rule plain_field_cong) (auto simp: integer_flags_decimal(3) simp del: bit_0)
  have "format_integer g 100 a precision width flags =
      print_integer g (ABS_FOR_PRINTING (signed_value flags a)) (?x < 0) 10 precision width ?f"
    by (simp add: format_integer_def Let_def integer_flags_decimal(1) v) (simp add: integer_base_def)
  also have "\<dots> = put_text g (decimal_field ?x (unat precision) (unat width) flags)"
    using assms by (subst print_integer_decimal)
      (simp_all add: integer_flags_decimal s p z abs_for_printing decimal_field_def)
  finally show ?thesis .
qed

section \<open>The text of an address\<close>

definition hex_char :: "nat \<Rightarrow> u8" where
  "hex_char d = (if d < 10 then 48 + of_nat d else 87 + of_nat d)"

text \<open>\<^verbatim>\<open>0x\<close> and the sixteen nibbles from the most significant one.\<close>

definition pointer_text :: "u64 \<Rightarrow> u8 list" where
  "pointer_text a = [48, 120] @ map (\<lambda>i. hex_char (unat a div 16 ^ (15 - i) mod 16)) [0..<16]"

lemma digit_char_hex:
  assumes "d < 16" "\<not> bit flags FLAGS_UPPERCASE"
  shows "digit_char flags (of_nat d) = hex_char d"
proof (cases "d < 10")
  case True
  then show ?thesis
    by (simp add: digit_char_decimal hex_char_def)
next
  case False
  then have "d = 10 \<or> d = 11 \<or> d = 12 \<or> d = 13 \<or> d = 14 \<or> d = 15"
    using assms(1) by arith
  then show ?thesis
    using assms(2) by (elim disjE) (simp_all add: digit_char_def hex_char_def)
qed

lemma format_pointer_text:
  assumes "a \<noteq> 0"
  shows "format_pointer g a 0 0 = put_text g (pointer_text a)"
proof -
  define f :: printf_flags_t where "f = set_bit FLAGS_POINTER (set_bit FLAGS_ZEROPAD 0)"
  have f: "bit f n \<longleftrightarrow> n = FLAGS_ZEROPAD \<or> n = FLAGS_POINTER" for n
    by (auto simp: f_def bit_simps simp del: set_bit_0)
  let ?d = "map hex_char (digits_of 16 (unat a))"
  have a: "unat a < 16 ^ 16"
    using unsigned_less [of a, where ?'a = nat] by simp
  have l: "length ?d \<le> 16"
    using digits_of_length [of 16 "unat a" 16] a by simp
  have "map (\<lambda>d. digit_char f (of_nat d)) (digits_of 16 (unat a)) = ?d"
    using digits_of_less [of 16] by (simp add: digit_char_hex f)
  then have i: "integer_loop f 16 a [] = rev ?d"
    using integer_loop_digits [of "[]" 16 f a] l by simp
  have z: "zero_padding (rev ?d) False 0 18 f = (rev ?d @ replicate (18 - length ?d) 48, 18)"
    by (simp add: zero_padding_def zero_loop_closed f del: bit_0)
  define k where "k = 16 - length ?d"
  have "18 - length ?d = k + 2"
    using l unfolding k_def by linarith
  then have r: "replicate (18 - length ?d) (48 :: u8) = replicate k 48 @ [48, 48]"
    by (simp add: replicate_add [of k 2, simplified] numeral_2_eq_2)
  have h: "hash_prefix (rev ?d @ replicate k 48 @ [48, 48]) (length ?d) 16 0 18 f = rev ?d @ replicate k 48 @ [120, 48]"
    using l by (simp add: hash_prefix_def push_char_def Let_def butlast_append k_def f del: bit_0)
  have "map hex_char (replicate (16 - length (digits_of 16 (unat a))) 0 @ digits_of 16 (unat a)) =
      map (\<lambda>i. hex_char (unat a div 16 ^ (15 - i) mod 16)) [0..<16]"
    using pad_digits [OF _ a] by simp
  then have t: "pointer_text a = [48, 120] @ replicate k 48 @ ?d"
    by (simp add: pointer_text_def hex_char_def k_def)
  have "format_pointer g a 0 0 = print_integer g a False 16 0 18 f"
    using assms by (simp add: format_pointer_def f_def)
  also have "\<dots> = print_integer_finalization g (rev ?d) False 16 0 18 f"
    using assms by (simp add: print_integer_def i)
  also have "\<dots> = out_rev g (rev ?d @ replicate k 48 @ [120, 48]) 18 f"
    using h by (simp add: print_integer_finalization_def Let_def z [unfolded r] f del: rev_map)
  also have "\<dots> = put_text g (pointer_text a)"
    using l by (simp add: out_rev_text field_text_def f t k_def del: bit_0)
  finally show ?thesis .
qed

section \<open>Printing returns\<close>

text \<open>
  The grammar of formats, on its own: after a \<^verbatim>\<open>%\<close> come flags, a width, a precision and a length, each of
  them optional, and the specifier. A \<open>*\<close> for the width or the precision takes an argument, and so do most
  specifiers. \<open>directives\<close> lists the conversions of a format, each with the number of its arguments and
  its specifier; it is \<open>None\<close> when the format ends inside a conversion.
\<close>

definition strip_flags :: "u8 list \<Rightarrow> u8 list" where
  "strip_flags = dropWhile (\<lambda>c. c \<in> {48, 45, 43, 32, 35})"

fun strip_number :: "u8 list \<Rightarrow> nat \<times> u8 list" where
  "strip_number [] = (0, [])"
| "strip_number (c # f) = (if c = 42 then (1, f) else (0, dropWhile is_digit (c # f)))"

fun strip_precision :: "u8 list \<Rightarrow> nat \<times> u8 list" where
  "strip_precision [] = (0, [])"
| "strip_precision (c # f) = (if c = 46 then strip_number f else (0, c # f))"

fun strip_length :: "u8 list \<Rightarrow> u8 list" where
  "strip_length [] = []"
| "strip_length (c # f) =
     (if c \<in> {108, 104} then (if f \<noteq> [] \<and> hd f = c then tl f else f)
      else if c \<in> {116, 106, 122} then f else c # f)"

definition takes_argument :: "u8 \<Rightarrow> bool" where
  "takes_argument c \<longleftrightarrow> c \<in> {100, 105, 117, 120, 88, 111, 98, 102, 70, 101, 69, 103, 71, 99, 115, 112, 110}"

definition directive :: "u8 list \<Rightarrow> (nat \<times> u8 \<times> u8 list) option" where
  "directive f =
     (let (a, f) = strip_number (strip_flags f);
          (b, f) = strip_precision f
      in case strip_length f of
           [] \<Rightarrow> None
         | c # r \<Rightarrow> Some (a + b + of_bool (takes_argument c), c, r))"

lemma strip_shorter:
  "length (strip_flags f) \<le> length f" "length (snd (strip_number f)) \<le> length f"
  "length (snd (strip_precision f)) \<le> length f" "length (strip_length f) \<le> length f"
proof -
  show number: "length (snd (strip_number f)) \<le> length f" for f
    by (cases f) (auto intro: le_SucI simp: length_dropWhile_le)
  show "length (strip_flags f) \<le> length f" "length (strip_length f) \<le> length f"
    by (simp_all add: strip_flags_def length_dropWhile_le) (cases f; auto)
  show "length (snd (strip_precision f)) \<le> length f"
    by (cases f) (auto intro: le_SucI number)
qed

lemma directive_shorter: "directive f = Some (k, c, r) \<Longrightarrow> length r < length f"
  using strip_shorter(1) [of f] strip_shorter(2) [of "strip_flags f"]
    strip_shorter(3) [of "snd (strip_number (strip_flags f))"]
    strip_shorter(4) [of "snd (strip_precision (snd (strip_number (strip_flags f))))"]
  by (auto simp: directive_def case_prod_unfold Let_def split: list.splits)

function directives :: "u8 list \<Rightarrow> (nat \<times> u8) list option" where
  "directives [] = Some []"
| "directives (c # f) =
     (if c \<noteq> 37 then directives f
      else case directive f of
        None \<Rightarrow> None
      | Some (k, c, r) \<Rightarrow> map_option ((#) (k, c)) (directives r))"
  by pat_completeness auto
termination
  by (relation "measure length") (auto dest: directive_shorter)

text \<open>The parsers of the code follow the grammar.\<close>

lemma parse_flags_strip: "snd (parse_flags flags f) = strip_flags f"
  by (induction flags f rule: parse_flags.induct) (simp_all add: strip_flags_def)

lemma atou_strip: "snd (atou f) = dropWhile is_digit f"
proof -
  have "snd (atou_loop i f) = dropWhile is_digit f" for i
    by (induction i f rule: atou_loop.induct) simp_all
  then show ?thesis
    by (simp add: atou_def)
qed

lemma va_arg_drop: "va_arg args = (if args = [] then None else Some (hd args, drop 1 args))"
  by (cases args) (simp_all add: va_arg_def)

lemma parse_width_strip:
  "map_option (\<lambda>(_, _, r). r) (parse_width flags f args) =
     (case strip_number f of (k, r) \<Rightarrow> if k \<le> length args then Some (r, drop k args) else None)"
  using atou_strip [of f]
  by (cases f) (auto simp: parse_width_def at_def va_arg_drop Let_def case_prod_unfold is_digit_def Suc_le_eq)

lemma parse_precision_strip:
  "map_option (\<lambda>(_, _, r). r) (parse_precision flags f args) =
     (case strip_precision f of (k, r) \<Rightarrow> if k \<le> length args then Some (r, drop k args) else None)"
proof (cases f)
  case (Cons c f')
  then show ?thesis
    using atou_strip [of f']
    by (cases f') (auto simp: parse_precision_def at_def va_arg_drop Let_def case_prod_unfold is_digit_def Suc_le_eq)
qed (simp add: parse_precision_def at_def)

lemma parse_length_strip: "snd (parse_length flags f) = strip_length f"
  by (cases f; cases "tl f") (auto simp: parse_length_def at_def)

lemma string_loop_returns:
  assumes "mem z = 0"
  shows "\<exists>g'. string_loop mem p limited precision g = Some g'"
  using assms
proof (induction "unat (z - p)" arbitrary: p precision g rule: less_induct)
  case less
  show ?case
  proof (cases "mem p = 0")
    case False
    then have n: "z - p \<noteq> 0"
      using less.prems by auto
    have e: "z - (p + 1) = z - p - 1"
      by simp
    have "unat (z - (p + 1)) < unat (z - p)"
      unfolding e unat_minus_one [OF n] using n unat_gt_0 [of "z - p"] by linarith
    then show ?thesis
      using less by (subst string_loop.simps) simp
  qed (subst string_loop.simps, simp)
qed

text \<open>A specifier takes its argument, if there is one; unless it is \<^verbatim>\<open>n\<close>, it returns and keeps the memory.\<close>

lemma specifier_cases:
  obtains (int) "c \<in> {100, 105, 117, 120, 88, 111, 98}" | (float) "c \<in> {102, 70, 101, 69, 103, 71}"
  | (char) "c = 99" | (string) "c = 115" | (pointer) "c = 112" | (written) "c = 110" | (other) "\<not> takes_argument c"
  unfolding takes_argument_def by blast

lemma specifier_taken:
  assumes "specifier mem g c precision width flags args = Some (g', mem', args')"
  shows "of_bool (takes_argument c) \<le> length args \<and> args' = drop (of_bool (takes_argument c)) args"
proof (cases "takes_argument c")
  case False
  then show ?thesis
    using assms by (simp add: specifier_def takes_argument_def)
next
  case True
  moreover have "va_arg args \<noteq> None" "args' = drop 1 args"
    by (cases rule: specifier_cases [of c]; use assms True in
        \<open>auto simp: specifier_def va_arg_drop split: bind_splits if_splits\<close>)+
  ultimately show ?thesis
    by (cases args) (simp_all add: va_arg_def)
qed

lemma specifier_returns:
  assumes "mem z = 0" "c \<noteq> 110" "of_bool (takes_argument c) \<le> length args"
  shows "\<exists>g'. specifier mem g c precision width flags args = Some (g', mem, drop (of_bool (takes_argument c)) args)"
proof (cases "takes_argument c")
  case False
  then show ?thesis
    by (simp add: specifier_def takes_argument_def)
next
  case True
  then obtain x as where args: "args = x # as"
    using assms(3) by (cases args) auto
  have "\<exists>g'. string_loop mem p l n h = Some g'" for p l n h
    using assms(1) by (rule string_loop_returns)
  then have "\<exists>g'. format_string mem g x precision width flags = Some g'"
    by (auto simp: format_string_def Let_def Option.bind_eq_Some_conv)
  then show ?thesis
    using True assms(2) by (cases rule: specifier_cases [of c]) (auto simp: specifier_def args va_arg_def)
qed

text \<open>The parsers in front of the specifier take their arguments; only what is left depends on the specifier.\<close>

lemma conversion_cases:
  obtains (fail) "conversion mem g f args = None" "\<And>k c r. directive f = Some (k, c, r) \<Longrightarrow> length args < k"
  | (spec) c r n pr wd fl where "directive f = Some (n + of_bool (takes_argument c), c, r)" "n \<le> length args"
    "conversion mem g f args =
       map_option (\<lambda>(g, mem, args). (g, mem, r, args)) (specifier mem g c pr wd fl (drop n args))"
proof -
  obtain fl f1 where 1: "parse_flags 0 f = (fl, f1)" "strip_flags f = f1"
    using parse_flags_strip [of 0 f] by (cases "parse_flags 0 f") auto
  obtain a f2 where 2: "strip_number f1 = (a, f2)"
    by fastforce
  obtain b f3 where 3: "strip_precision f2 = (b, f3)"
    by fastforce
  note w = parse_width_strip [of fl f1 args, unfolded 2 prod.case]
  note p = parse_precision_strip [of _ f2, unfolded 3 prod.case]
  have d: "directive f = (case strip_length f3 of [] \<Rightarrow> None | c # r \<Rightarrow> Some (a + b + of_bool (takes_argument c), c, r))"
    by (simp add: directive_def 1 2 3)
  show ?thesis
  proof (cases "a + b \<le> length args")
    case False
    have "parse_precision fl2 f2 (drop a args) = None" if "a \<le> length args" for fl2
      using p [of fl2 "drop a args"] False that by (simp add: not_le le_diff_conv2 add.commute)
    then have "conversion mem g f args = None"
      using w by (auto simp: conversion_def 1 Let_def split: bind_splits if_splits)
    then show ?thesis
      using False by (intro fail) (auto simp: d split: list.splits)
  next
    case True
    obtain fl2 wd where 4: "parse_width fl f1 args = Some (fl2, wd, f2, drop a args)"
      using w True by (auto simp: map_option_eq_Some)
    obtain fl3 pr where 5: "parse_precision fl2 f2 (drop a args) = Some (fl3, pr, f3, drop (a + b) args)"
      using p [of fl2 "drop a args"] True by (auto simp: le_diff_conv2 add.commute)
    obtain fl4 where 6: "parse_length fl3 f3 = (fl4, strip_length f3)"
      using parse_length_strip [of fl3 f3] by (cases "parse_length fl3 f3") auto
    show ?thesis
    proof (cases "strip_length f3")
      case Nil
      then show ?thesis
        by (intro fail) (simp_all add: d conversion_def 1 4 5 6 Let_def)
    next
      case (Cons c r)
      then show ?thesis
        using True by (intro spec [of "a + b" c r pr wd fl4]) (auto simp: d conversion_def 1 4 5 6 Let_def split: bind_split)
    qed
  qed
qed

lemma conversion_taken:
  assumes "conversion mem g f args = Some (g', mem', r, args')"
  shows "\<exists>k c. directive f = Some (k, c, r) \<and> k \<le> length args \<and> args' = drop k args"
proof (cases rule: conversion_cases [of mem g f args])
  case (spec c r' n pr wd fl)
  then have s: "specifier mem g c pr wd fl (drop n args) = Some (g', mem', args')" "r' = r"
    using assms by (cases "specifier mem g c pr wd fl (drop n args)"; simp; auto)+
  show ?thesis
    using specifier_taken [OF s(1)] spec(1,2) s(2) by (auto simp: add.commute)
qed (use assms in simp)

lemma conversion_returns:
  assumes "mem z = 0" "directive f = Some (k, c, r)" "c \<noteq> 110" "k \<le> length args"
  shows "\<exists>g'. conversion mem g f args = Some (g', mem, r, drop k args)"
proof (cases rule: conversion_cases [of mem g f args])
  case fail
  then show ?thesis
    using assms(2,4) by fastforce
next
  case (spec c' r' n pr wd fl)
  then have eq: "c' = c" "r' = r" "k = n + of_bool (takes_argument c)"
    using assms(2) by auto
  then have "of_bool (takes_argument c) \<le> length (drop n args)"
    using assms(4) by simp
  from specifier_returns [of mem z c "drop n args" g pr wd fl, OF assms(1,3) this] show ?thesis
    using spec(3) by (auto simp: eq add.commute)
qed

text \<open>The loop: it needs a complete format and its arguments, and apart from \<^verbatim>\<open>%n\<close> that is enough.\<close>

lemma print_loop_taken:
  "print_loop mem g f args = Some r \<Longrightarrow> \<exists>ds. directives f = Some ds \<and> sum_list (map fst ds) \<le> length args"
proof (induction "length f" arbitrary: mem g f args rule: less_induct)
  case less
  show ?case
  proof (cases f)
    case (Cons c f1)
    show ?thesis
    proof (cases "c = 37")
      case True
      then obtain g' mem' f' args' where c: "conversion mem g f1 args = Some (g', mem', f', args')"
        "print_loop mem' g' f' args' = Some r"
        using less.prems Cons by (auto split: option.splits)
      obtain ds where ds: "directives f' = Some ds" "sum_list (map fst ds) \<le> length args'"
        using less.hyps [OF _ c(2)] conversion_length [OF c(1)] Cons by auto
      then show ?thesis
        using conversion_taken [OF c(1)] True Cons by auto
    qed (use less Cons in simp)
  qed simp
qed

lemma print_loop_returns:
  "mem z = 0 \<Longrightarrow> directives f = Some ds \<Longrightarrow> 110 \<notin> snd ` set ds \<Longrightarrow> sum_list (map fst ds) \<le> length args \<Longrightarrow>
     \<exists>g'. print_loop mem g f args = Some (g', mem)"
proof (induction f arbitrary: g ds args rule: directives.induct)
  case (2 c f)
  show ?case
  proof (cases "c = 37")
    case True
    then obtain k d r ds' where d: "directive f = Some (k, d, r)" "directives r = Some ds'" "ds = (k, d) # ds'"
      using 2(4) by (auto split: option.splits)
    then obtain g' where c: "conversion mem g f args = Some (g', mem, r, drop k args)"
      using conversion_returns [of mem z f k d r args g] 2(3,5,6) by auto
    have "\<exists>g''. print_loop mem g' r (drop k args) = Some (g'', mem)"
      using 2(2) [OF _ d(1) refl refl 2(3) d(2), of "drop k args" g'] True 2(5,6) d(3) by simp
    then show ?thesis
      using True c by simp
  qed (use 2 in simp)
qed simp

text \<open>
  C28. Printing into a buffer refines printing to a function. If the function receives the characters \<open>cs\<close>, fewer
  than \<^verbatim>\<open>INT_MAX\<close>, then \<^verbatim>\<open>vsnprintf\<close> with the same format and arguments returns the length of \<open>cs\<close> for every
  size, leaves in the buffer as much of \<open>cs\<close> as fits in front of a terminator and changes no other byte,
  in particular none at or behind the size; with a null buffer it only counts.
\<close>

theorem snprintf_truncates:
  assumes "vfctprintf mem format args = Some (ret, cs, mem')" "length cs < 0x7FFFFFFF"
  shows "ret = of_nat (length cs) \<and>
    vsnprintf mem (Some b) n format args = Some (ret, Some (stored b (unat n) cs), mem') \<and>
    vsnprintf mem None n format args = Some (ret, None, mem') \<and>
    (\<forall>i \<ge> unat n. stored b (unat n) cs i = b i)"
  using vfctprintf_text(1) [OF assms] vsnprintf_stores [OF assms] by (auto simp: stored_def Let_def)

text \<open>
  C40. Printing returns exactly when it has what it needs. For a format without a \<^verbatim>\<open>%n\<close> conversion, which would
  write to the memory, and with a zero somewhere in memory, which ends every string: printing returns
  without reading behind the format or the arguments, with the memory as it was and whatever the gadget
  is, if and only if the format does not end inside a conversion and there is an argument for each
  specifier that takes one and for each \<open>*\<close>.
\<close>

theorem printf_returns:
  assumes "mem z = 0" "\<forall>ds. directives format = Some ds \<longrightarrow> 110 \<notin> snd ` set ds"
  shows "(\<exists>ret gadget'. vsnprintf_gadget mem gadget format args = Some (ret, gadget', mem)) \<longleftrightarrow>
    (\<exists>ds. directives format = Some ds \<and> sum_list (map fst ds) \<le> length args)"
proof
  assume "\<exists>ret gadget'. vsnprintf_gadget mem gadget format args = Some (ret, gadget', mem)"
  then obtain r where "print_loop mem gadget format args = Some r"
    by (auto simp: vsnprintf_gadget_def split: bind_splits)
  then show "\<exists>ds. directives format = Some ds \<and> sum_list (map fst ds) \<le> length args"
    by (rule print_loop_taken)
next
  assume "\<exists>ds. directives format = Some ds \<and> sum_list (map fst ds) \<le> length args"
  then show "\<exists>ret gadget'. vsnprintf_gadget mem gadget format args = Some (ret, gadget', mem)"
    using print_loop_returns [of mem z, OF assms(1), of format _ args gadget] assms(2)
    by (auto simp: vsnprintf_gadget_def Let_def)
qed

text \<open>
  C30. Decimal conversion. For every flags, width and precision below the size of the digit array, \<^verbatim>\<open>%d\<close>
  appends the field that the reference describes: sign, zeros up to the precision, the decimal digits
  of the absolute value, filled to the width; also for the smallest number. The parser of widths
  reads the digits of a number back.
\<close>

theorem decimal_conversion:
  assumes "\<not> bit flags FLAGS_POINTER" "unat precision < 32" "unat width < 32"
  shows "format_integer g 100 a precision width flags =
      put_text g (decimal_field (sint (signed_value flags a)) (unat precision) (unat width) flags) \<and>
    atou (decimal_text n) = (of_nat n, [])"
  using format_integer_decimal [OF assms] atou_decimal by blast

text \<open>
  Addresses. \<^verbatim>\<open>%p\<close> of an address other than null writes \<^verbatim>\<open>0x\<close> and its sixteen nibbles, the most significant
  one first, and nothing else, into a buffer of 19 bytes.
\<close>

lemma pointer_conversion:
  assumes "a \<noteq> 0"
  shows "vsnprintf mem (Some b) 19 [37, 112] [a] = Some (18, Some (stored b 19 (pointer_text a)), mem)"
proof -
  have "conversion mem function_gadget [112] [a] = Some (put_text function_gadget (pointer_text a), mem, [], [])"
    using format_pointer_text [OF assms, of function_gadget]
    by (simp add: conversion_def parse_width_def parse_precision_def parse_length_def at_def is_digit_def specifier_def va_arg_def)
  moreover have l: "length (pointer_text a) = 18"
    by (simp add: pointer_text_def)
  moreover have "g_function function_gadget" "g_max_chars function_gadget = 0x7FFFFFFF" "g_called function_gadget = []"
    by (simp_all add: function_gadget_def discarding_gadget_def)
  ultimately have "vfctprintf mem [37, 112] [a] = Some (18, pointer_text a, mem)"
    using put_text_called [of function_gadget "pointer_text a"] by (simp add: vfctprintf_def vsnprintf_gadget_def)
  from vsnprintf_stores(1) [OF this, of b 19] show ?thesis
    by (simp add: l)
qed

text \<open>\<^verbatim>\<open>printf("Hi%d", 7)\<close>, \<^verbatim>\<open>printf("%s\n", p)\<close>, \<^verbatim>\<open>printf("%06d", -42)\<close>, \<^verbatim>\<open>printf("%p", 0xDEADBEEF)\<close>.\<close>

lemma example_text: "vfctprintf mem [72, 105, 37, 100] [7] = Some (3, [72, 105, 55], mem)"
proof -
  have "decimal_field (sint (signed_value 0 7)) 0 0 0 = [55]"
    by (simp add: decimal_field_def plain_field_def sign_text_def signed_value_def decimal_text_def digits_of.simps)
  then have d: "format_integer g 100 7 0 0 0 = putchar_via_gadget g 55" for g
    using format_integer_decimal [of 0 0 0 g 7] by (simp add: put_text_one)
  have "conversion mem g [100] [7] = Some (putchar_via_gadget g 55, mem, [], [])" for g
    by (simp add: conversion_def parse_width_def parse_precision_def parse_length_def at_def is_digit_def specifier_def va_arg_def d)
  then show ?thesis
    by (simp add: vfctprintf_def vsnprintf_gadget_def function_gadget_def discarding_gadget_def putchar_via_gadget_def Let_def
        word_le_nat_alt)
qed

theorem snprintf_truncates_witness:
  "vsnprintf (\<lambda>_. 0) (Some (\<lambda>_. 255)) 3 [72, 105, 37, 100] [7] = Some (3, Some (stored (\<lambda>_. 255) 3 [72, 105, 55]), \<lambda>_. 0) \<and>
   stored (\<lambda>_. 255) 3 [72, 105, 55] 1 = 105 \<and> stored (\<lambda>_. 255) 3 [72, 105, 55] 2 = 0 \<and>
   stored (\<lambda>_. 255) 3 [72, 105, 55] 3 = 255"
  using snprintf_truncates [OF example_text, of "\<lambda>_. 0" "\<lambda>_. 255" 3] by (simp add: stored_def Let_def)

text \<open>\<^verbatim>\<open>printf("%-*s: 5 %%l", 8, p)\<close> has two arguments; without the second one, and for \<^verbatim>\<open>"%5"\<close>, the code reads behind them.\<close>

theorem printf_returns_witness:
  "(\<exists>ret gadget'. vsnprintf_gadget (\<lambda>_. 0) function_gadget [37, 45, 42, 115, 58, 32, 53, 32, 37, 37, 108] [8, 0x1000] =
     Some (ret, gadget', \<lambda>_. 0)) \<and>
   \<not> (\<exists>ret gadget'. vsnprintf_gadget (\<lambda>_. 0) function_gadget [37, 45, 42, 115, 58, 32, 53, 32, 37, 37, 108] [8] =
     Some (ret, gadget', \<lambda>_. 0)) \<and>
   \<not> (\<exists>ret gadget'. vsnprintf_gadget (\<lambda>_. 0) function_gadget [37, 53] [8] = Some (ret, gadget', \<lambda>_. 0))"
proof -
  have d: "directives [37, 45, 42, 115, 58, 32, 53, 32, 37, 37, 108] = Some [(2, 115), (0, 37)]" "directives [37, 53] = None"
    by (simp_all add: directive_def strip_flags_def takes_argument_def is_digit_def)
  show ?thesis
    using printf_returns [of "\<lambda>_. 0" 0 "[37, 45, 42, 115, 58, 32, 53, 32, 37, 37, 108]" function_gadget "[8, 0x1000]"]
      printf_returns [of "\<lambda>_. 0" 0 "[37, 45, 42, 115, 58, 32, 53, 32, 37, 37, 108]" function_gadget "[8]"]
      printf_returns [of "\<lambda>_. 0" 0 "[37, 53]" function_gadget "[8]"]
    by (simp add: d del: directives.simps)
qed

theorem decimal_conversion_witness:
  "format_integer function_gadget 100 (- 42) 0 6 1 = put_text function_gadget [45, 48, 48, 48, 52, 50] \<and>
   atou [49, 50] = (12, [])"
proof -
  have "sint (signed_value 1 (- 42)) = - 42"
    by (simp add: signed_value_def bit_1_iff)
  moreover have "decimal_text 42 = [52, 50]"
    by (simp add: decimal_text_def digits_of.simps)
  ultimately have "decimal_field (sint (signed_value 1 (- 42))) 0 6 1 = [45, 48, 48, 48, 52, 50]"
    by (simp add: decimal_field_def plain_field_def sign_text_def bit_1_iff numeral_3_eq_3)
  moreover have "decimal_text 12 = [49, 50]"
    by (simp add: decimal_text_def digits_of.simps)
  ultimately show ?thesis
    using decimal_conversion [of 1 0 6 function_gadget "- 42" 12] by (simp add: bit_1_iff)
qed

lemma pointer_conversion_witness:
  "vsnprintf (\<lambda>_. 0) (Some (\<lambda>_. 0)) 19 [37, 112] [0xDEADBEEF] =
     Some (18, Some (stored (\<lambda>_. 0) 19 (pointer_text 0xDEADBEEF)), \<lambda>_. 0) \<and>
   pointer_text 0xDEADBEEF ! 10 = 100"
  using pointer_conversion [of "0xDEADBEEF" "\<lambda>_. 0" "\<lambda>_. 0"]
  by (simp add: pointer_text_def hex_char_def nth_Cons')

end
