(* ===== verification/File_Systems.thy ===== *)
theory File_Systems
  imports Virtual_FS Format_Output
begin

text \<open>
  What hangs files into the tree of \<open>Virtual_FS\<close>: the mount points under \<^verbatim>\<open>src/kernel/filesystem/mountpoints\<close>,
  the device files and file systems under \<^verbatim>\<open>src/kernel/filesystem/fs\<close>, above all the loader of the \<^verbatim>\<open>ustar\<close>
  archive the kernel starts from. Memory is byte-addressed as in \<open>C_String\<close>. A table of operations is
  its address. What a disk holds and the processor's random numbers are arguments.
\<close>

definition chars :: "string \<Rightarrow> path" where
  "chars s = map of_char s"

section \<open>Mount points\<close>

text \<open>The two static variables that each mount point has.\<close>

record mount_point =
  mp_RootNode :: "nat option"
  mp_IndexNodeCount :: u64

definition add_node :: "Virtual \<Rightarrow> mount_point \<Rightarrow> nat option \<Rightarrow> u64 \<Rightarrow> path \<Rightarrow> u64 \<Rightarrow> (nat \<times> Virtual \<times> mount_point) option" where
  "add_node v mp Operator Mode Name Flags =
     do { n \<leftarrow> copy_name Name new_FileSystemNode;
          let (newNode, v) = allocate v (n\<lparr>fs_IndexNode := mp_IndexNodeCount mp, fs_Mode := Mode, fs_Operator := Operator, fs_Flags := Flags\<rparr>);
          p \<leftarrow> mp_RootNode mp;
          v \<leftarrow> push_child v p newNode;
          Some (newNode, v, mp\<lparr>mp_IndexNodeCount := mp_IndexNodeCount mp + 1\<rparr>) }"

definition AddFileSystem :: "Virtual \<Rightarrow> mount_point \<Rightarrow> nat option \<Rightarrow> u64 \<Rightarrow> path \<Rightarrow> u32 \<Rightarrow> (nat \<times> Virtual \<times> mount_point) option" where
  "AddFileSystem v mp Operator Mode Name Flags = add_node v mp Operator Mode Name (scast Flags)"

definition AddDriver :: "Virtual \<Rightarrow> mount_point \<Rightarrow> nat option \<Rightarrow> u64 \<Rightarrow> path \<Rightarrow> u32 \<Rightarrow> (nat \<times> Virtual \<times> mount_point) option" where
  "AddDriver v mp Operator Mode Name Flags = add_node v mp Operator Mode Name (scast Flags)"

definition AddNetworkCard :: "Virtual \<Rightarrow> mount_point \<Rightarrow> nat option \<Rightarrow> u64 \<Rightarrow> path \<Rightarrow> u32 \<Rightarrow> (nat \<times> Virtual \<times> mount_point) option" where
  "AddNetworkCard v mp Operator Mode Name Flags = add_node v mp Operator Mode Name (scast Flags)"

definition AddInfo :: "Virtual \<Rightarrow> mount_point \<Rightarrow> nat option \<Rightarrow> path \<Rightarrow> (nat \<times> Virtual \<times> mount_point) option" where
  "AddInfo v mp Operator Name = add_node v mp Operator 292 Name 0x01"

text \<open>An empty name is replaced in the caller's array by \<^verbatim>\<open>mount%lu\<close>.\<close>

definition mount_name :: "memory \<Rightarrow> u64 \<Rightarrow> path \<Rightarrow> path option" where
  "mount_name mem count Name =
     (if isempty_text Name then
        do { (n, b, _) \<leftarrow> vsprintf mem (Some (\<lambda>i. if i < length Name then Name ! i else 0)) (chars ''mount%lu'') [count];
             b \<leftarrow> b;
             Some (takeWhile (\<lambda>c. c \<noteq> 0) (map b [0..<unat n + 1])) }
      else Some Name)"

definition MountFileSystem :: "memory \<Rightarrow> Virtual \<Rightarrow> mount_point \<Rightarrow> nat option \<Rightarrow> u64 \<Rightarrow> path \<Rightarrow> (nat \<times> Virtual \<times> mount_point) option" where
  "MountFileSystem mem v mp Operator Mode Name =
     do { Name \<leftarrow> mount_name mem (mp_IndexNodeCount mp) Name;
          add_node v mp Operator Mode Name 0x08 }"

text \<open>The constructors: a directory in the first file system.\<close>

definition open_mount_point :: "cwk_segment \<Rightarrow> Virtual \<Rightarrow> mount_point \<Rightarrow> path \<Rightarrow> (Virtual \<times> mount_point) option" where
  "open_mount_point u v mp Path =
     do { (r, v) \<leftarrow> Create u v None Path;
          p \<leftarrow> r;
          n \<leftarrow> v_nodes v p;
          Some (set_node v p (n\<lparr>fs_Flags := 0x02, fs_Mode := 493\<rparr>), mp\<lparr>mp_RootNode := r\<rparr>) }"

definition new_Device :: "cwk_segment \<Rightarrow> Virtual \<Rightarrow> mount_point \<Rightarrow> (Virtual \<times> mount_point) option" where
  "new_Device u v mp = open_mount_point u v mp (chars ''/system/dev'')"

definition new_Mount :: "cwk_segment \<Rightarrow> Virtual \<Rightarrow> mount_point \<Rightarrow> (Virtual \<times> mount_point) option" where
  "new_Mount u v mp = open_mount_point u v mp (chars ''/system/mnt'')"

definition new_Process :: "cwk_segment \<Rightarrow> Virtual \<Rightarrow> mount_point \<Rightarrow> (Virtual \<times> mount_point) option" where
  "new_Process u v mp = open_mount_point u v mp (chars ''/system/prc'')"

definition new_Driver :: "cwk_segment \<Rightarrow> Virtual \<Rightarrow> mount_point \<Rightarrow> (Virtual \<times> mount_point) option" where
  "new_Driver u v mp = open_mount_point u v mp (chars ''/system/drv'')"

definition new_Network :: "cwk_segment \<Rightarrow> Virtual \<Rightarrow> mount_point \<Rightarrow> (Virtual \<times> mount_point) option" where
  "new_Network u v mp = open_mount_point u v mp (chars ''/system/net'')"

fun add_infos :: "(path \<Rightarrow> nat option) \<Rightarrow> path list \<Rightarrow> Virtual \<Rightarrow> mount_point \<Rightarrow> (Virtual \<times> mount_point) option" where
  "add_infos tables [] v mp = Some (v, mp)"
| "add_infos tables (Name # Names) v mp =
     do { (_, v, mp) \<leftarrow> AddInfo v mp (tables Name) Name; add_infos tables Names v mp }"

definition new_SysInfo :: "cwk_segment \<Rightarrow> (path \<Rightarrow> nat option) \<Rightarrow> Virtual \<Rightarrow> mount_point \<Rightarrow> (Virtual \<times> mount_point) option" where
  "new_SysInfo u tables v mp =
     do { (v, mp) \<leftarrow> open_mount_point u v mp (chars ''/system/sys'');
          add_infos tables
            (map chars [''fb0address'', ''fb0width'', ''fb0height'', ''fb0ppsl'', ''fb0size'', ''cpu_vendor'', ''cpu_name'',
               ''cpu_hypervisor'', ''mem_used'', ''mem_free'', ''mem_total'', ''mem_reserved'', ''kernel_version'',
               ''kernel_name'', ''kernel_build_date'']) v mp }"

section \<open>Device files\<close>

definition Null_Read :: "u64 \<Rightarrow> u64 \<Rightarrow> mem \<Rightarrow> u64 \<times> mem" where
  "Null_Read Size Buffer m = (if Size < 1 then (0, m) else (Size, snd (memset Buffer 0 Size m)))"

definition Null_Write :: "u64 \<Rightarrow> u64 \<Rightarrow> mem \<Rightarrow> u64 \<times> mem" where
  "Null_Write Size Buffer m = (Size, m)"

definition new_Null :: "Virtual \<Rightarrow> mount_point \<Rightarrow> nat \<Rightarrow> (nat \<times> Virtual \<times> mount_point) option" where
  "new_Null v devfs null = AddFileSystem v devfs (Some null) 438 (chars ''null'') 3"

definition Zero_Read :: "u64 \<Rightarrow> u64 \<Rightarrow> mem \<Rightarrow> u64 \<times> mem" where
  "Zero_Read Size Buffer m = (0, snd (memset Buffer 0 Size m))"

definition Zero_Write :: "u64 \<Rightarrow> u64 \<Rightarrow> mem \<Rightarrow> u64 \<times> mem" where
  "Zero_Write Size Buffer m = (Size, m)"

definition new_Zero :: "Virtual \<Rightarrow> mount_point \<Rightarrow> nat \<Rightarrow> (nat \<times> Virtual \<times> mount_point) option" where
  "new_Zero v devfs zero = AddFileSystem v devfs (Some zero) 438 (chars ''zero'') 3"

definition Random_Read :: "('r \<Rightarrow> u64 \<times> 'r) \<Rightarrow> u64 \<Rightarrow> u64 \<Rightarrow> 'r \<Rightarrow> mem \<Rightarrow> u64 \<times> 'r \<times> mem" where
  "Random_Read rand64 Size Buffer r m =
     (Size, fold (\<lambda>s (r, m). let (x, r) = rand64 r in (r, m(Buffer + of_nat s := ucast (x mod 0xFF)))) [0..<unat Size] (r, m))"

definition Random_Write :: "u64 \<Rightarrow> u64 \<Rightarrow> mem \<Rightarrow> u64 \<times> mem" where
  "Random_Write Size Buffer m = (Size, m)"

definition new_Random :: "Virtual \<Rightarrow> mount_point \<Rightarrow> nat \<Rightarrow> (nat \<times> Virtual \<times> mount_point) option" where
  "new_Random v devfs random = AddFileSystem v devfs (Some random) 292 (chars ''random'') 3"

text \<open>The frame buffer: the pixel is given by the offset and the size, its colour by the address of the buffer.\<close>

record framebuffer_file =
  fbAddress :: u64
  fbSize :: u64
  fbWidth :: u32
  fbHeight :: u32
  fbPixelsPerScanLine :: u32

definition SetFrameBufferData :: "u64 \<Rightarrow> u64 \<Rightarrow> u32 \<Rightarrow> u32 \<Rightarrow> u32 \<Rightarrow> framebuffer_file" where
  "SetFrameBufferData Address Size Width Height PixelsPerScanLine =
     \<lparr>fbAddress = Address, fbSize = Size, fbWidth = Width, fbHeight = Height, fbPixelsPerScanLine = PixelsPerScanLine\<rparr>"

definition FB_Read :: "framebuffer_file \<Rightarrow> mem \<Rightarrow> u64 \<times> mem" where
  "FB_Read fb m = (fbSize fb, m)"

definition FB_Write :: "framebuffer_file \<Rightarrow> u64 \<Rightarrow> u64 \<Rightarrow> u64 \<Rightarrow> mem \<Rightarrow> u64 \<times> mem" where
  "FB_Write fb Offset Size Buffer m =
     (let X = Offset; Y = Size in
      if X \<ge> ucast (fbWidth fb) \<or> Y \<ge> ucast (fbHeight fb) then (0, m)
      else (fbSize fb, store_bytes 4 m (fbAddress fb + 4 * (X + Y * ucast (fbPixelsPerScanLine fb))) Buffer))"

definition new_FB :: "Virtual \<Rightarrow> mount_point \<Rightarrow> nat \<Rightarrow> (nat \<times> Virtual \<times> mount_point) option" where
  "new_FB v devfs fb = AddFileSystem v devfs (Some fb) 438 (chars ''fb'') 5"

section \<open>Disks\<close>

datatype FatType = Unknown | FAT12 | FAT16 | FAT32

record BIOSParameterBlock =
  JumpBoot :: "u8 list"
  OEM :: "u8 list"
  BytesPerSector :: u16
  SectorsPerCluster :: u8
  ReservedSectors :: u16
  NumberOfFATs :: u8
  RootDirectoryEntries :: u16
  Sectors16 :: u16
  Media :: u8
  SectorsPerFAT :: u16
  SectorsPerTrack :: u16
  NumberOfHeads :: u16
  HiddenSectors :: u32
  Sectors32 :: u32

definition Clusters :: "BIOSParameterBlock \<Rightarrow> u32" where
  "Clusters bpb =
     (let Size = (if Sectors16 bpb \<noteq> 0 then ucast (Sectors16 bpb) else Sectors32 bpb);
          Sectors = (if Sectors16 bpb \<noteq> 0 then ucast (Sectors16 bpb) else Sectors32 bpb) in
      (Sectors - (ucast (ReservedSectors bpb) + ucast (NumberOfFATs bpb) * Size +
         (ucast (RootDirectoryEntries bpb) * 32 + (ucast (BytesPerSector bpb) - 1)) div ucast (BytesPerSector bpb))) div
      ucast (SectorsPerCluster bpb))"

definition GetFATType :: "BIOSParameterBlock option \<Rightarrow> FatType" where
  "GetFATType p =
     (case p of
        None \<Rightarrow> Unknown
      | Some bpb \<Rightarrow>
          if BytesPerSector bpb = 0 then Unknown
          else if SectorsPerCluster bpb = 0 then Unknown
          else if JumpBoot bpb ! 0 = 0xEB \<and> JumpBoot bpb ! 2 \<noteq> 0x90 then Unknown
          else if JumpBoot bpb ! 0 \<noteq> 0xEB \<and> JumpBoot bpb ! 0 \<noteq> 0xE9 then Unknown
          else if Media bpb \<noteq> 0xF0 \<and> Media bpb < 0xF8 then Unknown
          else if BytesPerSector bpb \<noteq> 512 \<and> BytesPerSector bpb \<noteq> 1024 \<and> BytesPerSector bpb \<noteq> 2048 \<and> BytesPerSector bpb \<noteq> 4096
            then Unknown
          else if (ucast (SectorsPerCluster bpb) :: u32) * ucast (BytesPerSector bpb) > 32 * 1024 then Unknown
          else if ReservedSectors bpb = 0 then Unknown
          else if NumberOfFATs bpb < 2 then Unknown
          else if Clusters bpb < 4085 then FAT12
          else if Clusters bpb < 65525 then FAT16
          else if RootDirectoryEntries bpb \<noteq> 0 then Unknown
          else if Sectors16 bpb \<noteq> 0 then Unknown
          else if Sectors32 bpb = 0 then Unknown
          else FAT32)"

text \<open>
  \<^verbatim>\<open>namebuf\<close> has no terminator of its own; \<open>rest\<close> is what the stack holds behind it, up to the first
  null byte.
\<close>

definition new_FAT ::
  "memory \<Rightarrow> Virtual \<Rightarrow> mount_point \<Rightarrow> nat \<Rightarrow> BIOSParameterBlock \<Rightarrow> u8 list \<Rightarrow> (Virtual \<times> mount_point) option" where
  "new_FAT mem v mountfs fat bpb rest =
     (if GetFATType (Some bpb) \<noteq> Unknown then
        do { (_, v, mountfs) \<leftarrow> MountFileSystem mem v mountfs (Some fat) 438 (takeWhile (\<lambda>c. c \<noteq> 0) (OEM bpb @ rest));
             Some (v, mountfs) }
      else Some (v, mountfs))"

text \<open>
  A volume name that fills its array runs on into the next field; \<open>None\<close> when the copy, which has as
  many places, runs over.
\<close>

definition new_EXT2 ::
  "memory \<Rightarrow> Virtual \<Rightarrow> mount_point \<Rightarrow> nat \<Rightarrow> u16 \<Rightarrow> path \<Rightarrow> (Virtual \<times> mount_point) option" where
  "new_EXT2 mem v mountfs ext2 Magic VolumeName =
     (if Magic = 0xEF53 then
        if length VolumeName < 16 then
          do { (_, v, mountfs) \<leftarrow> MountFileSystem mem v mountfs (Some ext2) 438 (map (\<lambda>c. if c = 47 then 95 else c) VolumeName);
               Some (v, mountfs) }
        else None
      else Some (v, mountfs))"

section \<open>The archive\<close>

definition USTAR_Read :: "FileSystemNode \<Rightarrow> u64 \<Rightarrow> u64 \<Rightarrow> u64 \<Rightarrow> mem \<Rightarrow> u64 \<times> mem" where
  "USTAR_Read Node Offset Size Buffer m =
     (let Size = (if Size = 0 then fs_Length Node else Size) in
      if Offset > fs_Length Node then (0, m)
      else
        let Size = (if Offset + Size > fs_Length Node then fs_Length Node - Offset else Size)
        in (Size, snd (memcpy Buffer (fs_Address Node + Offset) Size m)))"

partial_function (option) getsize_loop :: "mem \<Rightarrow> u64 \<Rightarrow> u64 \<Rightarrow> u64 option" where
  "getsize_loop m s ret = (if m s \<noteq> 0 then getsize_loop m (s + 1) (ret * 8 + (scast (m s) - 48)) else Some ret)"

definition getsize :: "mem \<Rightarrow> u64 \<Rightarrow> u32 option" where
  "getsize m s = do { ret \<leftarrow> getsize_loop m s 0; Some (ucast ret) }"

partial_function (option) string2int_loop :: "mem \<Rightarrow> u64 \<Rightarrow> u32 \<Rightarrow> u32 option" where
  "string2int_loop m str res =
     (if m str \<noteq> 0 then string2int_loop m (str + 1) (res * 10 + scast (m str) - 48) else Some res)"

definition string2int :: "mem \<Rightarrow> u64 \<Rightarrow> u32 option" where
  "string2int m str = string2int_loop m str 0"

definition signature_valid :: "mem \<Rightarrow> u64 \<Rightarrow> bool" where
  "signature_valid m Address = (map (\<lambda>i. m (Address + 257 + of_nat i)) [0..<5] = chars ''ustar'')"

text \<open>The leading character of the name is dropped, and a separator at its end.\<close>

definition strip_name :: "mem \<Rightarrow> u64 \<Rightarrow> mem option" where
  "strip_name m name =
     do { n \<leftarrow> strlen name m;
          let m = snd (memmove name (name + 1) n m);
          n \<leftarrow> strlen name m;
          Some (if m (name + (n - 1)) = 47 then m(name + (n - 1) := 0) else m) }"

partial_function (option) text_at :: "mem \<Rightarrow> u64 \<Rightarrow> path option" where
  "text_at m s = (if m s = 0 then Some [] else do { t \<leftarrow> text_at m (s + 1); Some (m s # t) })"

definition type_flags :: "u8 \<Rightarrow> u64 \<Rightarrow> u64" where
  "type_flags typeflag Flags =
     (if typeflag = 48 then 0x01 else if typeflag = 50 then 0x06 else if typeflag = 53 then 0x02
      else if typeflag = 51 then 0x03 else if typeflag = 52 then 0x04 else Flags)"

definition set_attributes :: "mem \<Rightarrow> u64 \<Rightarrow> u64 \<Rightarrow> u64 \<Rightarrow> FileSystemNode \<Rightarrow> FileSystemNode option" where
  "set_attributes m Address fsize i node =
     do { mode \<leftarrow> string2int m (Address + 100);
          gid \<leftarrow> getsize m (Address + 116);
          uid \<leftarrow> getsize m (Address + 108);
          Some (node\<lparr>fs_Mode := scast mode, fs_Address := Address + 512, fs_Length := fsize, fs_GroupIdentifier := ucast gid,
            fs_UserIdentifier := ucast uid, fs_IndexNode := i, fs_Flags := type_flags (m (Address + 156)) (fs_Flags node)\<rparr>) }"

definition next_address :: "u64 \<Rightarrow> u64 \<Rightarrow> u64" where
  "next_address Address fsize =
     (let Address = Address + (fsize div 512 + 1) * 512 in if fsize mod 512 \<noteq> 0 then Address + 512 else Address)"

partial_function (option) ustar_loop :: "cwk_segment \<Rightarrow> mem \<Rightarrow> Virtual \<Rightarrow> u64 \<Rightarrow> u64 \<Rightarrow> u64 \<Rightarrow> (mem \<times> Virtual) option" where
  "ustar_loop u m v Address i errorsallowed =
     (if \<not> signature_valid m Address then Some (m, v)
      else
        do { m \<leftarrow> strip_name m Address;
             sz \<leftarrow> getsize m (Address + 124);
             let fsize = ucast sz;
             name \<leftarrow> text_at m Address;
             (r, v) \<leftarrow> Create u v None name;
             case r of
               None \<Rightarrow>
                 if errorsallowed > 0 then ustar_loop u m v (next_address Address fsize) (i + 1) (errorsallowed - 1)
                 else Some (m, v)
             | Some c \<Rightarrow>
                 do { n \<leftarrow> v_nodes v c;
                      n \<leftarrow> set_attributes m Address fsize i n;
                      ustar_loop u m (set_node v c n) (next_address Address fsize) (i + 1) errorsallowed } })"

definition new_USTAR :: "cwk_segment \<Rightarrow> nat \<Rightarrow> mem \<Rightarrow> Virtual \<Rightarrow> u64 \<Rightarrow> (mem \<times> Virtual) option" where
  "new_USTAR u ustar m v Address =
     (if \<not> signature_valid m Address then Some (m, v)
      else do { (_, v) \<leftarrow> CreateRoot v (Some ustar) [47]; ustar_loop u m v Address 0 20 })"

section \<open>Archives in memory\<close>

text \<open>
  An entry of an archive as it was packed: the segments of its path, whether a separator follows them, and
  the texts of its fields. The packer writes \<^verbatim>\<open>./\<close> before every path.
\<close>

record ustar_entry =
  e_path :: "path list"
  e_slash :: bool
  e_mode :: path
  e_uid :: path
  e_gid :: path
  e_size :: path
  e_type :: u8

definition path_text :: "path list \<Rightarrow> path" where
  "path_text ks = concat (map ((#) 47) ks)"

definition entry_name :: "ustar_entry \<Rightarrow> path" where
  "entry_name e = 46 # path_text (e_path e) @ (if e_slash e then [47] else [])"

definition octal :: "path \<Rightarrow> u32" where
  "octal s = ucast (foldl (\<lambda>r c. r * 8 + (scast c - 48)) (0 :: u64) s)"

definition decimal :: "path \<Rightarrow> u32" where
  "decimal s = foldl (\<lambda>r c. r * 10 + scast c - 48) 0 s"

definition e_length :: "ustar_entry \<Rightarrow> u64" where
  "e_length e = ucast (octal (e_size e))"

definition entry_at :: "mem \<Rightarrow> u64 \<Rightarrow> ustar_entry \<Rightarrow> bool" where
  "entry_at m A e \<longleftrightarrow> signature_valid m A \<and>
     C_String.cstr m A (entry_name e) \<and> length (entry_name e) < 100 \<and>
     C_String.cstr m (A + 100) (e_mode e) \<and> length (e_mode e) < 8 \<and>
     C_String.cstr m (A + 108) (e_uid e) \<and> length (e_uid e) < 8 \<and>
     C_String.cstr m (A + 116) (e_gid e) \<and> length (e_gid e) < 8 \<and>
     C_String.cstr m (A + 124) (e_size e) \<and> length (e_size e) < 12 \<and> m (A + 156) = e_type e"

fun archive :: "mem \<Rightarrow> u64 \<Rightarrow> ustar_entry list \<Rightarrow> bool" where
  "archive m A [] \<longleftrightarrow> \<not> signature_valid m A"
| "archive m A (e # es) \<longleftrightarrow> entry_at m A e \<and> archive m (next_address A (e_length e)) es"

text \<open>The bytes an entry takes, its header included, and the bytes of an archive with its end.\<close>

definition span :: "ustar_entry \<Rightarrow> nat" where
  "span e = (unat (e_length e) div 512 + 1 + (if unat (e_length e) mod 512 \<noteq> 0 then 1 else 0)) * 512"

definition extent :: "ustar_entry list \<Rightarrow> nat" where
  "extent es = sum_list (map span es) + 512"

lemma extent_simps [simp]: "extent [] = 512" "extent (e # es) = span e + extent es"
  by (simp_all add: extent_def)

lemma extent_min: "512 \<le> extent es"
  by (simp add: extent_def)

lemma span_min: "512 \<le> span e"
  by (simp add: span_def)

lemma offset_unat: "unat (A :: u64) + n < 2 ^ 64 \<Longrightarrow> unat (A + of_nat n) = unat A + n"
  by (simp add: unat_word_ariths unat_of_nat)

lemma next_address_eq: "next_address A (e_length e) = A + of_nat (span e)"
proof -
  have l: "unat (e_length e) div 512 < 2 ^ 64"
    using unsigned_less [of "e_length e", where ?'a = nat] by simp
  have "of_nat (span e) = (of_nat (unat (e_length e) div 512) + 1 + (if unat (e_length e) mod 512 \<noteq> 0 then 1 else 0)) * (512 :: u64)"
    by (simp add: span_def)
  moreover have "of_nat (unat (e_length e) div 512) = e_length e div 512"
    using l by (simp add: word_unat_eq_iff unat_of_nat unat_div)
  moreover have "unat (e_length e) mod 512 = 0 \<longleftrightarrow> e_length e mod 512 = 0"
    by (simp add: word_unat_eq_iff unat_mod)
  ultimately show ?thesis
    by (simp add: next_address_def Let_def algebra_simps)
qed

lemma next_address_unat:
  assumes "unat A + extent (e # es) \<le> 2 ^ 64"
  shows "unat (next_address A (e_length e)) = unat A + span e"
  using assms extent_min [of es] by (simp add: next_address_eq offset_unat)

lemma cstr_intro:
  "0 \<notin> set s \<Longrightarrow> \<forall>i < length s. m (p + of_nat i) = s ! i \<Longrightarrow> m (p + of_nat (length s)) = 0 \<Longrightarrow> C_String.cstr m p s"
proof (induction s arbitrary: p)
  case (Cons c s)
  have "m (p + 1 + of_nat i) = s ! i" if "i < length s" for i
    using Cons.prems(2) that by (auto simp: add.assoc dest: spec [of _ "Suc i"])
  then have "C_String.cstr m (p + 1) s"
    using Cons by (simp add: add.assoc)
  then show ?case
    using Cons.prems by (auto dest: spec [of _ 0])
qed simp

lemma cstr_cong: "(\<And>i. i \<le> length s \<Longrightarrow> m' (p + of_nat i) = m (p + of_nat i)) \<Longrightarrow> C_String.cstr m' p s = C_String.cstr m p s"
proof (induction s arbitrary: p)
  case (Cons c s)
  have "m' (p + 1 + of_nat i) = m (p + 1 + of_nat i)" if "i \<le> length s" for i
    using Cons.prems [of "Suc i"] that by (simp add: add.assoc)
  then show ?case
    using Cons.IH [of "p + 1"] Cons.prems [of 0] by simp
qed simp

lemma text_at_cstr: "C_String.cstr m p s \<Longrightarrow> text_at m p = Some s"
  by (induction s arbitrary: p) (auto simp: text_at.simps)

lemma getsize_loop_cstr: "C_String.cstr m p s \<Longrightarrow> getsize_loop m p r = Some (foldl (\<lambda>r c. r * 8 + (scast c - 48)) r s)"
  by (induction s arbitrary: p r) (subst getsize_loop.simps; simp)+

lemma getsize_cstr: "C_String.cstr m p s \<Longrightarrow> getsize m p = Some (octal s)"
  by (simp add: getsize_def getsize_loop_cstr octal_def)

lemma string2int_cstr: "C_String.cstr m p s \<Longrightarrow> string2int m p = Some (decimal s)"
proof -
  have "C_String.cstr m p s \<Longrightarrow> string2int_loop m p r = Some (foldl (\<lambda>r c. r * 10 + scast c - 48) r s)" for r
    by (induction s arbitrary: p r) (subst string2int_loop.simps; simp)+
  then show "C_String.cstr m p s \<Longrightarrow> string2int m p = Some (decimal s)"
    by (simp add: string2int_def decimal_def)
qed

text \<open>What is read at \<open>A\<close> and behind depends on the bytes from there on only.\<close>

lemma entry_at_cong:
  assumes "unat A + 512 \<le> 2 ^ 64" "\<And>x. unat A \<le> unat x \<Longrightarrow> m' x = m x"
  shows "signature_valid m' A = signature_valid m A" "entry_at m' A e = entry_at m A e"
proof -
  have at: "m' (A + of_nat n) = m (A + of_nat n)" if "n < 512" for n
    using that assms(1) by (intro assms(2)) (simp add: offset_unat)
  have o: "m' (A + of_nat k + of_nat i) = m (A + of_nat k + of_nat i)" if "i \<le> n" "k + n < 512" for i k n
    using at [of "k + i"] that by (simp add: add.assoc)
  have "map (\<lambda>i. m' (A + 257 + of_nat i)) [0..<5] = map (\<lambda>i. m (A + 257 + of_nat i)) [0..<5]"
    using o [of _ 4 257] by (intro map_cong) simp_all
  then show s: "signature_valid m' A = signature_valid m A"
    by (simp only: signature_valid_def)
  show "entry_at m' A e = entry_at m A e"
    unfolding entry_at_def s
    using cstr_cong [of "entry_name e" m' A m] cstr_cong [of "e_mode e" m' "A + 100" m] cstr_cong [of "e_uid e" m' "A + 108" m]
      cstr_cong [of "e_gid e" m' "A + 116" m] cstr_cong [of "e_size e" m' "A + 124" m]
      o [of _ "length (entry_name e)" 0] o [of _ "length (e_mode e)" 100] o [of _ "length (e_uid e)" 108]
      o [of _ "length (e_gid e)" 116] o [of _ "length (e_size e)" 124] at [of 156]
    by auto
qed

lemma archive_cong:
  "unat A + extent es \<le> 2 ^ 64 \<Longrightarrow> (\<And>x. unat A \<le> unat x \<Longrightarrow> m' x = m x) \<Longrightarrow> archive m' A es = archive m A es"
proof (induction es arbitrary: A)
  case Nil
  then show ?case
    using entry_at_cong(1) [of A m' m] by simp
next
  case (Cons e es)
  have n: "unat (next_address A (e_length e)) = unat A + span e"
    by (rule next_address_unat [OF Cons.prems(1)])
  have "archive m' (next_address A (e_length e)) es = archive m (next_address A (e_length e)) es"
    using Cons.prems n by (intro Cons.IH) simp_all
  moreover have "entry_at m' A e = entry_at m A e"
    using Cons.prems span_min [of e] by (intro entry_at_cong) simp_all
  ultimately show ?case
    by simp
qed

lemma path_text_simps [simp]: "path_text [] = []" "path_text (k # ks) = 47 # k @ path_text ks"
  "path_text (xs @ ys) = path_text xs @ path_text ys"
  by (simp_all add: path_text_def)

lemma path_text_last: "ks \<noteq> [] \<Longrightarrow> last ks \<noteq> [] \<Longrightarrow> path_text ks \<noteq> [] \<and> last (path_text ks) = last (last ks)"
  by (induction ks rule: rev_induct) simp_all

lemma not_in_block: "unat A + n \<le> unat x \<Longrightarrow> unat A + n \<le> 2 ^ 64 \<Longrightarrow> x \<notin> block A n"
proof
  assume a: "unat A + n \<le> unat x" "unat A + n \<le> 2 ^ 64" "x \<in> block A n"
  then obtain i where i: "i < n" "x = A + of_nat i"
    by (auto simp: block_def)
  then have "unat x = unat A + i"
    using a(2) by (simp add: offset_unat)
  then show False
    using a(1) i(1) by simp
qed

text \<open>Dropping the first character of a string in place.\<close>

lemma memmove_front:
  assumes c: "C_String.cstr m A (c # t)" and l: "unat A + length t + 2 \<le> 2 ^ 64"
  defines "m' \<equiv> snd (memmove A (A + 1) (of_nat (length (c # t))) m)"
  shows "C_String.cstr m' A t \<and> (\<forall>x. x \<notin> block A (length t + 1) \<longrightarrow> m' x = m x)"
proof -
  have n: "unat (of_nat (length (c # t)) :: u64) = length t + 1"
    using l by (simp only: unat_of_nat) simp
  have a: "unat (A + 1) = unat A + 1"
    using l offset_unat [of A 1] by simp
  have mm: "(\<forall>i < length t + 1. m' (A + of_nat i) = m (A + 1 + of_nat i)) \<and> (\<forall>x. x \<notin> block A (length t + 1) \<longrightarrow> m' x = m x)"
    using memmove_copies [of A "of_nat (length (c # t))" "A + 1" m] l unfolding m'_def n a by simp
  have t: "C_String.cstr m (A + 1) t"
    using c by simp
  have "C_String.cstr m' A t"
    using cstr_nth [OF t] mm by (intro cstr_intro) auto
  then show ?thesis
    using mm by blast
qed

lemma block_mono: "a \<le> b \<Longrightarrow> block p a \<subseteq> block p b"
  by (auto simp: block_def)

lemma strip_name_entry:
  assumes c: "C_String.cstr m A (entry_name e)" and l: "length (entry_name e) < 100" and A: "unat A + 512 \<le> 2 ^ 64"
    and e: "e_path e = [] \<longrightarrow> e_slash e" "\<forall>k \<in> set (e_path e). k \<noteq> [] \<and> 47 \<notin> set k"
  shows "\<exists>m'. strip_name m A = Some m' \<and> C_String.cstr m' A (path_text (e_path e)) \<and> (\<forall>x. x \<notin> block A 100 \<longrightarrow> m' x = m x)"
proof -
  let ?b = "path_text (e_path e)"
  define t where "t = ?b @ (if e_slash e then [47] else [])"
  have name: "entry_name e = 46 # t"
    by (simp add: entry_name_def t_def)
  define m1 where "m1 = snd (memmove A (A + 1) (of_nat (length (46 # t))) m)"
  have m1: "C_String.cstr m1 A t" "\<And>x. x \<notin> block A (length t + 1) \<Longrightarrow> m1 x = m x"
    using memmove_front [of m A 46 t] c l A unfolding name m1_def by auto
  have lt: "length t + 1 < 100"
    using l by (simp add: name)
  have k: "last (e_path e) \<noteq> [] \<and> last (last (e_path e)) \<noteq> 47" if "e_path e \<noteq> []"
    using e(2) that last_in_set [of "e_path e"] last_in_set [of "last (e_path e)"] by metis
  have ne: "t \<noteq> []" and last: "last t = 47 \<longleftrightarrow> e_slash e"
    using e(1) path_text_last [of "e_path e"] k by (auto simp: t_def split: if_splits)
  let ?z = "A + (of_nat (length t) - 1)"
  have z: "?z = A + of_nat (length t - 1)"
    using ne by (cases t) simp_all
  have r: "m1 ?z = last t"
    using cstr_nth [OF m1(1)] ne by (simp add: z last_conv_nth)
  have s: "strip_name m A = Some (if last t = 47 then m1(?z := 0) else m1)"
    using strlen_cstr [OF c] strlen_cstr [OF m1(1)] r m1_def by (simp add: strip_name_def name)
  show ?thesis
  proof (cases "e_slash e")
    case True
    then have t: "t = ?b @ [47]"
      by (simp add: t_def)
    have zb: "?z = A + of_nat (length ?b)"
      by (simp add: t)
    have "C_String.cstr (m1(?z := 0)) A ?b"
      using cstr_cut_front [of m1 A ?b 47 "[]"] m1(1) unfolding zb by (simp add: t)
    moreover have "?z \<in> block A 100"
      using lt unfolding z block_def by auto
    ultimately show ?thesis
      using s True last m1(2) lt block_mono [of "length t + 1" 100 A] by auto
  next
    case False
    then have "t = ?b"
      by (simp add: t_def)
    then show ?thesis
      using s False last m1 lt block_mono [of "length t + 1" 100 A] by auto
  qed
qed

lemma set_attributes_entry:
  assumes e: "entry_at m A e" and A: "unat A + 512 \<le> 2 ^ 64" and m': "\<And>x. x \<notin> block A 100 \<Longrightarrow> m' x = m x"
  shows "getsize m' (A + 124) = Some (octal (e_size e))"
    "set_attributes m' A fsize i n = Some (n\<lparr>fs_Mode := scast (decimal (e_mode e)), fs_Address := A + 512, fs_Length := fsize,
       fs_GroupIdentifier := ucast (octal (e_gid e)), fs_UserIdentifier := ucast (octal (e_uid e)), fs_IndexNode := i,
       fs_Flags := type_flags (e_type e) (fs_Flags n)\<rparr>)"
proof -
  have at: "m' (A + of_nat n) = m (A + of_nat n)" if "100 \<le> n" "n < 512" for n
    using that A by (intro m' not_in_block) (simp_all add: offset_unat)
  have o: "m' (A + of_nat k + of_nat i) = m (A + of_nat k + of_nat i)" if "i \<le> n" "k + n < 512" "100 \<le> k" for i k n
    using at [of "k + i"] that by (simp add: add.assoc)
  have "C_String.cstr m' (A + 100) (e_mode e)" "C_String.cstr m' (A + 108) (e_uid e)" "C_String.cstr m' (A + 116) (e_gid e)"
    and s: "C_String.cstr m' (A + 124) (e_size e)"
    using e cstr_cong [of "e_mode e" m' "A + 100" m] cstr_cong [of "e_uid e" m' "A + 108" m]
      cstr_cong [of "e_gid e" m' "A + 116" m] cstr_cong [of "e_size e" m' "A + 124" m]
      o [of _ "length (e_mode e)" 100] o [of _ "length (e_uid e)" 108]
      o [of _ "length (e_gid e)" 116] o [of _ "length (e_size e)" 124]
    by (auto simp: entry_at_def)
  then show "set_attributes m' A fsize i n = Some (n\<lparr>fs_Mode := scast (decimal (e_mode e)), fs_Address := A + 512, fs_Length := fsize,
       fs_GroupIdentifier := ucast (octal (e_gid e)), fs_UserIdentifier := ucast (octal (e_uid e)), fs_IndexNode := i,
       fs_Flags := type_flags (e_type e) (fs_Flags n)\<rparr>)"
    using at [of 156] e by (simp add: set_attributes_def string2int_cstr getsize_cstr entry_at_def)
  show "getsize m' (A + 124) = Some (octal (e_size e))"
    using s by (rule getsize_cstr)
qed

section \<open>The tree while an archive is loaded\<close>

definition good_path :: "path list \<Rightarrow> bool" where
  "good_path ks \<longleftrightarrow> ks \<noteq> [] \<and> (\<forall>k \<in> set ks. k \<noteq> [] \<and> 47 \<notin> set k \<and> 0 \<notin> set k \<and> kind k = CWK_NORMAL \<and> length k < 256)"

lemma path_text_emit: "ks \<noteq> [] \<Longrightarrow> path_text ks = 47 # emit False ks"
  by (cases ks) (simp_all add: path_text_def emit_True)

lemma good_path_clean:
  assumes "good_path ks"
  shows "clean (path_text ks) ks" "clean_path pp (path_text ks) = path_text ks"
proof -
  have k: "\<forall>k \<in> set ks. k \<noteq> [] \<and> 47 \<notin> set k" "ks \<noteq> []"
    using assms by (auto simp: good_path_def)
  have st: "stacked True st" if "\<forall>k \<in> set st. kind k = CWK_NORMAL" for st
    using that by (induction st) simp_all
  have "stacked True (rev ks)"
    using assms by (intro st) (simp add: good_path_def)
  from stacked_refold [OF this] have "normal_form True ks = ks"
    by (simp add: normal_form_def)
  moreover have "segments_of (47 # emit False ks) = ks"
    using segments_of_emit [OF k(1), of False] by simp
  ultimately have "normal_path [47 # emit False ks] = 47 # emit False ks"
    by (simp add: normal_path_def root_of_def)
  then show c: "clean (path_text ks) ks"
    using assms k by (simp add: clean_def path_text_emit good_path_def)
  show "clean_path pp (path_text ks) = path_text ks"
    by (rule clean_path_again [OF c])
qed

lemma child_loop_names:
  assumes "\<And>c. c \<in> set cs \<Longrightarrow> \<exists>n n'. v_nodes v c = Some n \<and> v_nodes v' c = Some n' \<and> fs_Name n' = fs_Name n"
  shows "child_loop v' k cs = child_loop v k cs"
  using assms
proof (induction cs)
  case (Cons c cs)
  obtain n n' where "v_nodes v c = Some n" "v_nodes v' c = Some n'" "fs_Name n' = fs_Name n"
    using Cons.prems [of c] by auto
  moreover have "child_loop v' k cs = child_loop v k cs"
    using Cons.prems by (intro Cons.IH) simp
  ultimately show ?case
    by simp
qed simp

lemma child_loop_end: "child_loop v k cs = Some None \<Longrightarrow> child_loop v k (cs @ ds) = child_loop v k ds"
  by (induction cs) (auto simp: Option.bind_eq_Some_conv split: if_splits)

lemma child_loop_found: "child_loop v k cs = Some (Some d) \<Longrightarrow> child_loop v k (cs @ ds) = Some (Some d)"
  by (induction cs) (auto simp: Option.bind_eq_Some_conv split: if_splits)

text \<open>Children after one node was added.\<close>

lemma GetChild_insert:
  assumes ok: "vfs_ok v" and q: "v_nodes v q = Some qn" and n: "fs_Children n = []" and x: "v_nodes v x = Some xn"
  shows "GetChild (insert_child v q qn n) x j =
    (if x = q \<and> GetChild v q j = Some None \<and> fs_Name n = j then Some (Some (v_next v)) else GetChild v x j)"
proof -
  let ?v = "insert_child v q qn n"
  have lt: "q < v_next v" "x \<noteq> v_next v"
    using vfs_okD [OF ok q] fresh [OF ok] x by (auto simp: node_ok_def)
  have "\<exists>m m'. v_nodes v c = Some m \<and> v_nodes ?v c = Some m' \<and> fs_Name m' = fs_Name m" if "c \<in> set (fs_Children xn)" for c
    using vfs_okD [OF ok x] that fresh [OF ok] q by (auto simp: node_ok_def insert_child_nodes [OF lt(1)])
  then have old: "child_loop ?v j (fs_Children xn) = child_loop v j (fs_Children xn)"
    by (rule child_loop_names)
  show ?thesis
  proof (cases "x = q")
    case True
    then have xn: "xn = qn"
      using x q by simp
    have g: "GetChild ?v x j = child_loop ?v j (fs_Children qn @ [v_next v])" "GetChild v q j = child_loop v j (fs_Children qn)"
      using True lt q by (simp_all add: GetChild_def insert_child_nodes)
    have l: "child_loop ?v j [v_next v] = (if fs_Name n = j then Some (Some (v_next v)) else Some None)"
      using lt by (simp add: insert_child_nodes)
    show ?thesis
      using GetChild_returns [OF ok q, of j]
    proof
      assume "GetChild v q j = Some None \<and> (\<forall>c \<in> set (fs_Children qn). \<forall>n. v_nodes v c = Some n \<longrightarrow> fs_Name n \<noteq> j)"
      then show ?thesis
        using g l old True xn child_loop_end [of ?v j "fs_Children qn" "[v_next v]"] by auto
    next
      assume "\<exists>c n. GetChild v q j = Some (Some c) \<and> c \<in> set (fs_Children qn) \<and> v_nodes v c = Some n \<and> fs_Name n = j \<and> q < c"
      then show ?thesis
        using g old True xn child_loop_found [of ?v j "fs_Children qn" _ "[v_next v]"] by auto
    qed
  next
    case False
    then show ?thesis
      using old x lt by (simp add: GetChild_def insert_child_nodes)
  qed
qed

lemma chain_insert:
  assumes ok: "vfs_ok v" and q: "v_nodes v q = Some qn" and n: "fs_Children n = []"
  shows "chain (insert_child v q qn n) ks x d \<Longrightarrow> v_nodes v x \<noteq> None \<Longrightarrow>
    chain v ks x d \<or> (d = v_next v \<and> (\<exists>pre. ks = pre @ [fs_Name n] \<and> chain v pre x q))"
proof (induction ks arbitrary: x)
  case (Cons j ks)
  let ?v = "insert_child v q qn n"
  obtain y where y: "GetChild ?v x j = Some (Some y)" "chain ?v ks y d"
    using Cons.prems(1) by auto
  obtain xn where xn: "v_nodes v x = Some xn"
    using Cons.prems(2) by auto
  show ?case
  proof (cases "x = q \<and> GetChild v q j = Some None \<and> fs_Name n = j")
    case True
    then have c: "y = v_next v"
      using y(1) GetChild_insert [OF ok q n xn, of j] by simp
    have lt: "q < v_next v"
      using vfs_okD [OF ok q] by (simp add: node_ok_def)
    have "GetChild ?v y i = Some None" for i
      using c n lt by (simp add: GetChild_def insert_child_nodes)
    then have "ks = []" "d = y"
      using y(2) by (cases ks; simp)+
    then show ?thesis
      using True c by (intro disjI2) auto
  next
    case False
    then have g: "GetChild v x j = Some (Some y)"
      using y(1) GetChild_insert [OF ok q n xn, of j] by auto
    then have "v_nodes v y \<noteq> None"
      using GetChild_returns [OF ok xn, of j] by auto
    from Cons.IH [OF y(2) this] show ?thesis
    proof
      assume "d = v_next v \<and> (\<exists>pre. ks = pre @ [fs_Name n] \<and> chain v pre y q)"
      then obtain pre where "d = v_next v" "ks = pre @ [fs_Name n]" "chain v pre y q"
        by blast
      then show ?thesis
        using g by (intro disjI2) (auto intro!: exI [of _ "j # pre"])
    qed (use g in auto)
  qed
qed simp

lemma concat_pairs_inject: "concat (map (\<lambda>k. [k, x]) as) = concat (map (\<lambda>k. [k, x]) bs) \<Longrightarrow> as = bs"
proof (induction as arbitrary: bs)
  case Nil
  then show ?case
    by (cases bs) simp_all
next
  case (Cons a as)
  then show ?case
    by (cases bs) simp_all
qed

lemma chain_unique:
  assumes "vfs_ok v" "linked v" "v_nodes v (FileSystemRoot v) = Some r" "p \<in> set (fs_Children r)"
    "chain v ks p c" "chain v ks' p c"
  shows "ks = ks'"
proof -
  have p: "v_nodes v p \<noteq> None" "FileSystemRoot v < p"
    using vfs_okD [OF assms(1,3)] assms(4) by (auto simp: node_ok_def)
  have "path_loop v (Some c) [] = Some (concat (map (\<lambda>k. [k, [47]]) (rev ks)))"
      "path_loop v (Some c) [] = Some (concat (map (\<lambda>k. [k, [47]]) (rev ks')))"
    using path_loop_chain [OF assms(1,2,5) p, of "[]"] path_loop_chain [OF assms(1,2,6) p, of "[]"]
      GetPathFromNode_first [OF assms(3,4)] by simp_all
  then show ?thesis
    using concat_pairs_inject [of "[47]" "rev ks" "rev ks'"] by simp
qed

lemma chain_det: "chain v ks p c \<Longrightarrow> chain v ks p d \<Longrightarrow> c = d"
  by (induction ks arbitrary: p) auto

lemma chain_split: "chain v (xs @ ys) p c \<longleftrightarrow> (\<exists>q. chain v xs p q \<and> chain v ys q c)"
  by (induction xs arbitrary: p) auto

text \<open>
  A file whose directory is there and that is not there itself: it is not found, and creating it adds one
  node to its directory.
\<close>

lemma missing_file:
  assumes ok: "vfs_ok v" and e: "no_echo v" and ks: "good_path (ks @ [k])" and c: "chain v ks p q"
    and p: "v_nodes v p = Some pn" "distinct_adj (fs_Name pn # ks @ [k])" "47 \<in> set (fs_Name pn)" "fs_Name pn \<noteq> path_text (ks @ [k])"
    and k: "GetChild v q k = Some None"
  shows "GetNodeFromPath v p (path_text (ks @ [k])) = Some None"
proof -
  let ?P = "path_text (ks @ [k])"
  have cl: "clean ?P (ks @ [k])"
    by (rule good_path_clean [OF ks])
  have f: "node_fold v ks p = Some q"
    using e p(1) by (intro node_fold_chain [OF ok _ c]) (auto simp: no_echo_def)
  have "node_fold v (xs @ ys) x = do { y \<leftarrow> node_fold v xs x; node_fold v ys y }" for xs ys x
  proof (induction xs arbitrary: x)
    case (Cons a xs)
    then show ?case
      by (cases "next_parent v a x") simp_all
  qed simp
  moreover have "next_parent v k q = Some q"
    using k by (subst next_parent.simps) simp
  ultimately have f': "node_fold v (ks @ [k]) p = Some q"
    using f by simp
  obtain qn where qn: "v_nodes v q = Some qn" "fs_Name qn = last (fs_Name pn # ks)"
    using chain_name [OF ok c] c p(1) by (cases "ks = []") auto
  have "fs_Name qn \<noteq> k"
    using p(2) qn(2) by (simp add: distinct_adj_append_iff flip: append_Cons)
  moreover obtain b l where "cwk_path_get_basename ?P = Some (b, l)" "drop b ?P = k"
    using clean_basename [OF cl] by auto
  moreover obtain s where "cwk_path_get_first_segment ?P = (True, s)" "node_loop v s p = node_fold v (ks @ [k]) p"
    using clean_segments [OF cl] by (cases rule: first_segment_cases [OF clean_no_zero [OF cl]]) auto
  ultimately show ?thesis
    using p(1,4) f' qn(1) by (auto simp: GetNodeFromPath_def)
qed

lemma create_fold_existing:
  assumes "vfs_ok v"
  shows "chain v ks p q \<Longrightarrow> v_nodes v p \<noteq> None \<Longrightarrow> create_fold v (ks @ ys) p = create_fold v ys q"
proof (induction ks arbitrary: p)
  case (Cons k ks)
  then obtain x where x: "GetChild v p k = Some (Some x)" "chain v ks x q"
    by auto
  obtain pn where "v_nodes v p = Some pn"
    using Cons.prems(2) by auto
  from GetChild_returns [OF assms this, of k] have "v_nodes v x \<noteq> None"
    using x(1) by auto
  then show ?case
    using Cons.IH [OF x(2)] x(1) by (simp add: create_child_def)
qed simp

lemma Create_file:
  assumes ok: "vfs_ok v" and e: "no_echo v" and ks: "good_path (ks @ [k])" and c: "chain v ks p q" "v_nodes v q = Some qn"
    and r: "v_nodes v (FileSystemRoot v) = Some r" "fs_Children r = p # ps"
    and p: "v_nodes v p = Some pn" "fs_Name pn = [47]" "distinct_adj (ks @ [k])" and k: "GetChild v q k = Some None"
  shows "Create u v None (path_text (ks @ [k])) = Some (Some (v_next v), insert_child v q qn (child_node q qn k))"
proof -
  let ?P = "path_text (ks @ [k])"
  have cl: "clean ?P (ks @ [k])" "clean_path [] ?P = ?P"
    by (rule good_path_clean [OF ks])+
  have q: "q < v_next v"
    using vfs_okD [OF ok c(2)] by (simp add: node_ok_def)
  have "create_fold v (ks @ [k]) p = create_fold v [k] q"
    using c(1) p(1) by (intro create_fold_existing [OF ok]) simp_all
  also have "\<dots> = Some (v_next v, insert_child v q qn (child_node q qn k))"
    using k AddNewChild_eq [OF c(2) q, of k] ks by (simp add: create_child_def good_path_def)
  finally have f: "create_fold v (ks @ [k]) p = Some (v_next v, insert_child v q qn (child_node q qn k))" .
  have a: "distinct_adj (fs_Name pn # ks @ [k])"
    using p(2,3) ks by (cases ks) (auto simp: good_path_def)
  have n: "fs_Name pn \<noteq> ?P"
    using p(2) ks by (auto simp: good_path_def Cons_eq_append_conv)
  have g: "GetNodeFromPath v p ?P = Some None"
    using p(2) by (intro missing_file [OF ok e ks c(1) p(1) a _ n k]) simp
  have "FileExists u v (Some p) ?P = Some NOT_FOUND"
    using FileExists_clean [OF ok _ cl(1), of p u] p(1) g by simp
  then show ?thesis
    using Create_new [OF ok r clean_no_zero [OF cl(1)] _ _ _ _ f] clean_not_empty [OF cl(1)] cl by simp
qed

text \<open>Attributes do not change what is found.\<close>

lemma set_node_lookup:
  assumes "v_nodes v c = Some n" "fs_Name n' = fs_Name n" "fs_Children n' = fs_Children n"
  shows "GetChild (set_node v c n') x j = GetChild v x j" "chain (set_node v c n') ks x d = chain v ks x d"
    "no_echo v \<Longrightarrow> no_echo (set_node v c n')"
proof -
  have loop: "child_loop (set_node v c n') j cs = child_loop v j cs" for cs j
  proof (induction cs)
    case (Cons a cs)
    then show ?case
      using assms by (cases "v_nodes v a") (auto simp: set_node_def)
  qed simp
  then show g: "GetChild (set_node v c n') x j = GetChild v x j" for x j
    using assms by (simp add: GetChild_def set_node_def)
  show "chain (set_node v c n') ks x d = chain v ks x d"
    by (induction ks arbitrary: x) (simp_all add: g)
  have old: "\<exists>m0. v_nodes v x = Some m0 \<and> fs_Name m = fs_Name m0 \<and> fs_Children m = fs_Children m0"
    if "v_nodes (set_node v c n') x = Some m" for x m
    using that assms by (auto simp: set_node_def split: if_splits)
  assume e: "no_echo v"
  show "no_echo (set_node v c n')"
    unfolding no_echo_def
  proof (intro allI impI)
    fix x m d l
    assume a: "v_nodes (set_node v c n') x = Some m" "d \<in> set (fs_Children m)" "v_nodes (set_node v c n') d = Some l"
    obtain m0 l0 where "v_nodes v x = Some m0" "fs_Name m = fs_Name m0" "d \<in> set (fs_Children m0)"
        "v_nodes v d = Some l0" "fs_Name l = fs_Name l0"
      using old [OF a(1)] old [OF a(3)] a(2) by metis
    then show "fs_Name l \<noteq> fs_Name m"
      using e by (simp add: no_echo_def)
  qed
qed

text \<open>What the loader sets in the node of the entry at \<open>A\<close>.\<close>

definition attribute_node :: "u64 \<Rightarrow> u64 \<Rightarrow> ustar_entry \<Rightarrow> FileSystemNode \<Rightarrow> FileSystemNode" where
  "attribute_node i A e n =
     n\<lparr>fs_Mode := scast (decimal (e_mode e)), fs_Address := A + 512, fs_Length := e_length e,
       fs_GroupIdentifier := ucast (octal (e_gid e)), fs_UserIdentifier := ucast (octal (e_uid e)), fs_IndexNode := i,
       fs_Flags := type_flags (e_type e) (fs_Flags n)\<rparr>"

lemma attribute_node_simps [simp]:
  "fs_Name (attribute_node i A e n) = fs_Name n" "fs_Parent (attribute_node i A e n) = fs_Parent n"
  "fs_Children (attribute_node i A e n) = fs_Children n" "fs_Operator (attribute_node i A e n) = fs_Operator n"
  by (simp_all add: attribute_node_def)

definition entry_attributes :: "nat \<Rightarrow> u64 \<Rightarrow> u64 \<Rightarrow> ustar_entry \<Rightarrow> FileSystemNode \<Rightarrow> bool" where
  "entry_attributes ops i A e n \<longleftrightarrow> fs_Address n = A + 512 \<and> fs_Length n = e_length e \<and> fs_Flags n = type_flags (e_type e) 0 \<and>
     fs_Mode n = scast (decimal (e_mode e)) \<and> fs_UserIdentifier n = ucast (octal (e_uid e)) \<and>
     fs_GroupIdentifier n = ucast (octal (e_gid e)) \<and> fs_IndexNode n = i \<and> fs_Operator n = Some ops"

definition paths_of :: "(u64 \<times> u64 \<times> ustar_entry) list \<Rightarrow> path list set" where
  "paths_of ds = (\<lambda>(i, A, e). e_path e) ` set ds"

definition loaded :: "nat \<Rightarrow> Virtual \<Rightarrow> nat \<Rightarrow> (u64 \<times> u64 \<times> ustar_entry) list \<Rightarrow> bool" where
  "loaded ops v p ds \<longleftrightarrow> vfs_reach v \<and> no_echo v \<and>
     (\<exists>r. v_nodes v (FileSystemRoot v) = Some r \<and> fs_Children r = [p]) \<and>
     (\<exists>pn. v_nodes v p = Some pn \<and> fs_Name pn = [47] \<and> fs_Operator pn = Some ops) \<and>
     (\<forall>ks c. chain v ks p c \<longrightarrow> ks \<in> insert [] (paths_of ds)) \<and>
     (\<forall>i A e. (i, A, e) \<in> set ds \<longrightarrow> e_path e \<noteq> [] \<longrightarrow>
        (\<exists>c n. chain v (e_path e) p c \<and> v_nodes v c = Some n \<and> entry_attributes ops i A e n))"

lemma loaded_node:
  assumes "loaded ops v p ds" "ks \<in> insert [] (paths_of ds)"
  shows "\<exists>q qn. chain v ks p q \<and> v_nodes v q = Some qn \<and> fs_Operator qn = Some ops"
proof (cases "ks = []")
  case True
  then show ?thesis
    using assms(1) by (auto simp: loaded_def)
next
  case False
  then obtain i A e where "(i, A, e) \<in> set ds" "e_path e = ks"
    using assms(2) by (auto simp: paths_of_def)
  then show ?thesis
    using assms(1) False unfolding loaded_def entry_attributes_def by blast
qed

lemma loaded_lookup_none:
  assumes "loaded ops v p ds" "chain v ks p q" "v_nodes v q = Some qn" "ks @ [k] \<notin> paths_of ds"
  shows "GetChild v q k = Some None"
proof -
  have ok: "vfs_ok v"
    using assms(1) vfs_reach_ok by (auto simp: loaded_def)
  have "GetChild v q k \<noteq> Some (Some c)" for c
  proof
    assume "GetChild v q k = Some (Some c)"
    then have "chain v (ks @ [k]) p c"
      using assms(2) by (auto simp: chain_split)
    then show False
      using assms(1,4) unfolding loaded_def by blast
  qed
  then show ?thesis
    using GetChild_returns [OF ok assms(3), of k] by auto
qed

text \<open>The nodes that were there keep what the loader set.\<close>

lemma insert_child_keeps:
  assumes "vfs_ok v" "v_nodes v q = Some qn" "v_nodes v x = Some xn"
  shows "\<exists>xn'. v_nodes (insert_child v q qn n) x = Some xn' \<and> fs_Name xn' = fs_Name xn \<and> fs_Operator xn' = fs_Operator xn \<and>
    (entry_attributes ops i A e xn \<longrightarrow> entry_attributes ops i A e xn')"
proof -
  have lt: "q < v_next v" "x \<noteq> v_next v"
    using vfs_okD [OF assms(1,2)] fresh [OF assms(1)] assms(3) by (auto simp: node_ok_def)
  show ?thesis
    using assms(2,3) lt by (auto simp: insert_child_nodes entry_attributes_def)
qed

lemma chain_above:
  assumes "vfs_ok v"
  shows "chain v ks p c \<Longrightarrow> v_nodes v p \<noteq> None \<Longrightarrow> p \<le> c"
proof (induction ks arbitrary: p)
  case (Cons k ks)
  obtain q pn where q: "GetChild v p k = Some (Some q)" "chain v ks q c" "v_nodes v p = Some pn"
    using Cons.prems by auto
  then have "p < q" "v_nodes v q \<noteq> None"
    using GetChild_returns [OF assms q(3), of k] by auto
  then show ?case
    using Cons.IH [OF q(2)] by simp
qed simp

lemma loaded_insert_paths:
  assumes l: "loaded ops v p ds" and q: "chain v ks p q" "v_nodes v q = Some qn" and n: "fs_Children n = []" "fs_Name n = k"
    and e: "e_path e = ks @ [k]" and c: "chain (insert_child v q qn n) js p d"
  shows "js \<in> insert [] (paths_of (ds @ [(i, A, e)]))"
proof -
  have ok: "vfs_ok v" "linked v"
    using l vfs_reach_ok by (auto simp: loaded_def)
  obtain r pn where r: "v_nodes v (FileSystemRoot v) = Some r" "p \<in> set (fs_Children r)" and pn: "v_nodes v p = Some pn"
    using l by (auto simp: loaded_def)
  from chain_insert [OF ok(1) q(2) n(1) c] pn consider "chain v js p d" | pre where "js = pre @ [k]" "chain v pre p q"
    using n(2) by auto
  then show ?thesis
  proof cases
    case 1
    then show ?thesis
      using l by (auto simp: loaded_def paths_of_def)
  next
    case 2
    then have "pre = ks"
      using chain_unique [OF ok r _ q(1)] by blast
    then show ?thesis
      using 2 e by (simp add: paths_of_def)
  qed
qed

lemma loaded_insert:
  assumes l: "loaded ops v p ds" and q: "chain v ks p q" "v_nodes v q = Some qn" "fs_Operator qn = Some ops" and g: "GetChild v q k = Some None"
    and e: "e_path e = ks @ [k]"
  defines "n \<equiv> child_node q qn k" and "v1 \<equiv> insert_child v q qn (child_node q qn k)"
  assumes v2: "vfs_reach (set_node v1 (v_next v) (attribute_node i A e n))" "no_echo v1"
  shows "loaded ops (set_node v1 (v_next v) (attribute_node i A e n)) p (ds @ [(i, A, e)])"
proof -
  let ?c = "v_next v" and ?v2 = "set_node v1 (v_next v) (attribute_node i A e n)"
  have ok: "vfs_ok v"
    using l vfs_reach_ok by (auto simp: loaded_def)
  obtain r pn where r: "v_nodes v (FileSystemRoot v) = Some r" "fs_Children r = [p]"
      and pn: "v_nodes v p = Some pn" "fs_Name pn = [47]" "fs_Operator pn = Some ops"
    using l by (auto simp: loaded_def)
  have n: "fs_Name n = k" "fs_Children n = []" "fs_Operator n = Some ops" "fs_Flags n = 0"
    using q(3) by (simp_all add: n_def child_node_def new_FileSystemNode_def)
  have lt: "q < ?c" "FileSystemRoot v < p" "p \<le> q"
    using vfs_okD [OF ok q(2)] vfs_okD [OF ok r(1)] r(2) chain_above [OF ok q(1)] pn(1) by (auto simp: node_ok_def)
  have nodes: "v_nodes ?v2 x = (if x = ?c then Some (attribute_node i A e n) else v_nodes v1 x)" for x
    by (simp add: set_node_def)
  have c1: "v_nodes v1 ?c = Some n"
    using lt by (simp add: v1_def n_def insert_child_nodes)
  have look: "chain ?v2 js x d = chain v1 js x d" "no_echo ?v2" for js x d
    using set_node_lookup(2,3) [OF c1, of "attribute_node i A e n"] v2(2) by simp_all
  have old: "x \<noteq> ?c" if "v_nodes v x = Some xn" for x xn
    using fresh [OF ok] that by auto
  have "chain v1 ks p q"
    using insert_child_grows [OF ok q(2), of n] lt chain_grows [OF q(1)] by (simp add: v1_def n_def)
  moreover have "GetChild v1 q k = Some (Some ?c)"
    using GetChild_insert [OF ok q(2) n(2) q(2), of k] g n(1) by (simp add: v1_def n_def)
  ultimately have new: "chain v1 (e_path e) p ?c"
    by (auto simp: e chain_split)
  have "entry_attributes ops i A e (attribute_node i A e n)"
    using n by (simp add: entry_attributes_def attribute_node_def)
  moreover have "\<exists>c m. chain v1 (e_path f) p c \<and> v_nodes ?v2 c = Some m \<and> entry_attributes ops j B f m"
    if f: "(j, B, f) \<in> set ds" "e_path f \<noteq> []" for j B f
  proof -
    obtain c m where m: "chain v (e_path f) p c" "v_nodes v c = Some m" "entry_attributes ops j B f m"
      using l f unfolding loaded_def by blast
    have "chain v1 (e_path f) p c"
      using insert_child_grows [OF ok q(2), of n] lt chain_grows [OF m(1)] by (simp add: v1_def n_def)
    then show ?thesis
      using insert_child_keeps [OF ok q(2) m(2), of n ops j B f] m(3) old [OF m(2)] nodes [of c] by (auto simp: v1_def n_def)
  qed
  ultimately have files: "\<exists>c m. chain v1 (e_path f) p c \<and> v_nodes ?v2 c = Some m \<and> entry_attributes ops j B f m"
    if "(j, B, f) \<in> set (ds @ [(i, A, e)])" "e_path f \<noteq> []" for j B f
    using that new nodes [of ?c] by auto
  have "\<exists>r. v_nodes ?v2 (FileSystemRoot ?v2) = Some r \<and> fs_Children r = [p]"
    using r lt old [OF r(1)] nodes by (auto simp: v1_def insert_child_nodes set_node_def)
  moreover have "\<exists>pn. v_nodes ?v2 p = Some pn \<and> fs_Name pn = [47] \<and> fs_Operator pn = Some ops"
    using insert_child_keeps [OF ok q(2) pn(1), of n ops i A e] pn(2,3) old [OF pn(1)] nodes [of p] by (auto simp: v1_def n_def)
  moreover have "js \<in> insert [] (paths_of (ds @ [(i, A, e)]))" if "chain v1 js p d" for js d
    using loaded_insert_paths [OF l q(1,2) n(2,1) e, of js d] that by (simp add: v1_def n_def)
  ultimately show ?thesis
    using v2(1) look files unfolding loaded_def by blast
qed

lemma loaded_step:
  assumes l: "loaded ops v p ds" and e: "e_path e = ks @ [k]" "good_path (ks @ [k])" "distinct_adj (ks @ [k])"
    and d: "ks \<in> insert [] (paths_of ds)" "ks @ [k] \<notin> paths_of ds"
  shows "\<exists>c v1 n. Create u v None (path_text (e_path e)) = Some (Some c, v1) \<and> v_nodes v1 c = Some n \<and>
    loaded ops (set_node v1 c (attribute_node i A e n)) p (ds @ [(i, A, e)])"
proof -
  have ok: "vfs_ok v" "linked v" "no_echo v" "vfs_reach v"
    using l vfs_reach_ok by (auto simp: loaded_def)
  obtain r pn where r: "v_nodes v (FileSystemRoot v) = Some r" "fs_Children r = [p]"
      and pn: "v_nodes v p = Some pn" "fs_Name pn = [47]" "fs_Operator pn = Some ops"
    using l by (auto simp: loaded_def)
  obtain q qn where q: "chain v ks p q" "v_nodes v q = Some qn" "fs_Operator qn = Some ops"
    using loaded_node [OF l d(1)] by blast
  have g: "GetChild v q k = Some None"
    by (rule loaded_lookup_none [OF l q(1,2) d(2)])
  let ?n = "child_node q qn k" and ?c = "v_next v"
  let ?v1 = "insert_child v q qn ?n"
  let ?a = "attribute_node i A e ?n"
  let ?v2 = "set_node ?v1 ?c ?a"
  have C: "Create u v None (path_text (ks @ [k])) = Some (Some ?c, ?v1)"
    by (rule Create_file [OF ok(1,3) e(2) q(1,2) r(1) r(2) pn(1,2) e(3) g])
  have lt: "q < ?c"
    using vfs_okD [OF ok(1) q(2)] by (simp add: node_ok_def)
  have c: "v_nodes ?v1 ?c = Some ?n"
    using lt by (simp add: insert_child_nodes)
  have "0 \<notin> set (path_text (ks @ [k]))"
    using clean_no_zero good_path_clean(1) [OF e(2)] by blast
  then have reach: "vfs_reach ?v2"
    using vfs_reach.attributes [OF vfs_reach.create [OF ok(4) _ _ C] c, of ?a] by simp
  obtain m where "v_nodes v q = Some m" "fs_Name m = last (fs_Name pn # ks)"
    using chain_name [OF ok(1) q(1)] q(1) pn(1) by (cases "ks = []") auto
  then have "fs_Name ?n \<noteq> fs_Name qn"
    using q(2) pn(2) e(2,3) by (cases ks rule: rev_cases) (auto simp: child_node_def good_path_def distinct_adj_append_iff)
  then have "no_echo ?v1"
    by (intro insert_child_no_echo [OF ok(1,3) q(2)]) (simp_all add: child_node_def new_FileSystemNode_def)
  from loaded_insert [OF l q g e(1) reach this] show ?thesis
    using C c e(1) by auto
qed

section \<open>Loading an archive\<close>

text \<open>
  The order of an archive: an entry follows the entry of its directory, none comes twice, and no path has
  the same name twice in a row. \<^verbatim>\<open>./\<close> is the entry of the top directory.
\<close>

fun tar_order :: "path list list \<Rightarrow> ustar_entry list \<Rightarrow> bool" where
  "tar_order seen [] \<longleftrightarrow> True"
| "tar_order seen (e # es) \<longleftrightarrow>
     (if e_path e = [] then e_slash e \<and> tar_order seen es
      else good_path (e_path e) \<and> distinct_adj (e_path e) \<and> butlast (e_path e) \<in> set ([] # seen) \<and> e_path e \<notin> set seen \<and>
        tar_order (e_path e # seen) es)"

definition top_entries :: "ustar_entry list \<Rightarrow> nat" where
  "top_entries es = length (filter (\<lambda>e. e_path e = []) es)"

text \<open>The entries with their number and address.\<close>

fun placed :: "u64 \<Rightarrow> u64 \<Rightarrow> ustar_entry list \<Rightarrow> (u64 \<times> u64 \<times> ustar_entry) list" where
  "placed i A [] = []"
| "placed i A (e # es) = (i, A, e) # placed (i + 1) (next_address A (e_length e)) es"

lemma paths_of_append: "paths_of (ds @ [(i, A, e)]) = insert (e_path e) (paths_of ds)"
  by (simp add: paths_of_def)

lemma loaded_top: "loaded ops v p ds \<Longrightarrow> e_path e = [] \<Longrightarrow> loaded ops v p (ds @ [(i, A, e)])"
  by (auto simp: loaded_def paths_of_def)

lemma archive_rest:
  assumes "archive m A (e # es)" "unat A + extent (e # es) \<le> 2 ^ 64" "\<And>x. x \<notin> block A 100 \<Longrightarrow> m' x = m x"
  shows "archive m' (next_address A (e_length e)) es" "unat (next_address A (e_length e)) + extent es \<le> 2 ^ 64"
proof -
  have n: "unat (next_address A (e_length e)) = unat A + span e"
    by (rule next_address_unat [OF assms(2)])
  then show e: "unat (next_address A (e_length e)) + extent es \<le> 2 ^ 64"
    using assms(2) by simp
  have "archive m' (next_address A (e_length e)) es = archive m (next_address A (e_length e)) es"
    using n span_min [of e] assms(2) extent_min [of es] by (intro archive_cong [OF e] assms(3) not_in_block) simp_all
  then show "archive m' (next_address A (e_length e)) es"
    using assms(1) by simp
qed

lemma ustar_step:
  assumes arch: "archive m A (e # es)" "unat A + extent (e # es) \<le> 2 ^ 64"
    and e: "e_path e = [] \<longrightarrow> e_slash e" "\<forall>k \<in> set (e_path e). k \<noteq> [] \<and> 47 \<notin> set k"
  obtains m' where "archive m' (next_address A (e_length e)) es" "unat (next_address A (e_length e)) + extent es \<le> 2 ^ 64"
    "\<And>v i errs. ustar_loop u m v A i errs =
      (case Create u v None (path_text (e_path e)) of
         None \<Rightarrow> None
       | Some (None, v) \<Rightarrow> if errs > 0 then ustar_loop u m' v (next_address A (e_length e)) (i + 1) (errs - 1) else Some (m', v)
       | Some (Some c, v) \<Rightarrow>
           do { n \<leftarrow> v_nodes v c;
                ustar_loop u m' (set_node v c (attribute_node i A e n)) (next_address A (e_length e)) (i + 1) errs })"
proof -
  have A: "unat A + 512 \<le> 2 ^ 64"
    using arch(2) extent_min [of es] by simp
  have ea: "entry_at m A e"
    using arch(1) by simp
  obtain m' where m': "strip_name m A = Some m'" "C_String.cstr m' A (path_text (e_path e))" "\<And>x. x \<notin> block A 100 \<Longrightarrow> m' x = m x"
    using strip_name_entry [OF _ _ A e, of m] ea unfolding entry_at_def by blast
  show ?thesis
    using ea m'(1) text_at_cstr [OF m'(2)] set_attributes_entry [OF ea A m'(3)]
    by (intro that [OF archive_rest [OF arch m'(3)]]; (subst ustar_loop.simps)?)
      (auto simp: entry_at_def e_length_def attribute_node_def Let_def split: option.splits)
qed

lemma ustar_loop_loads:
  "archive m A es \<Longrightarrow> unat A + extent es \<le> 2 ^ 64 \<Longrightarrow> loaded ops v p ds \<Longrightarrow> insert [] (set seen) = insert [] (paths_of ds) \<Longrightarrow>
   tar_order seen es \<Longrightarrow> top_entries es \<le> unat errs \<Longrightarrow>
     \<exists>m' v'. ustar_loop u m v A i errs = Some (m', v') \<and> loaded ops v' p (ds @ placed i A es)"
proof (induction es arbitrary: m A v ds seen i errs)
  case Nil
  then show ?case
    by (subst ustar_loop.simps) simp
next
  case (Cons e es)
  let ?A = "next_address A (e_length e)"
  have e: "e_path e = [] \<longrightarrow> e_slash e" "\<forall>k \<in> set (e_path e). k \<noteq> [] \<and> 47 \<notin> set k"
    using Cons.prems(5) by (cases "e_path e = []"; simp add: good_path_def)+
  obtain m' where rest: "archive m' ?A es" "unat ?A + extent es \<le> 2 ^ 64"
    and step: "\<And>v i errs. ustar_loop u m v A i errs =
      (case Create u v None (path_text (e_path e)) of
         None \<Rightarrow> None
       | Some (None, v) \<Rightarrow> if errs > 0 then ustar_loop u m' v ?A (i + 1) (errs - 1) else Some (m', v)
       | Some (Some c, v) \<Rightarrow>
           do { n \<leftarrow> v_nodes v c; ustar_loop u m' (set_node v c (attribute_node i A e n)) ?A (i + 1) errs })"
    using ustar_step [OF Cons.prems(1,2) e, of u] by blast
  show ?case
  proof (cases "e_path e = []")
    case True
    then have "errs \<noteq> 0"
      using Cons.prems(6) by (auto simp: top_entries_def)
    then have errs: "errs > 0" "unat (errs - 1) = unat errs - 1"
      by (simp_all add: word_greater_zero_iff unat_minus_one)
    have l: "loaded ops v p (ds @ [(i, A, e)])" and s: "insert [] (set seen) = insert [] (paths_of (ds @ [(i, A, e)]))"
      using loaded_top [OF Cons.prems(3) True] Cons.prems(4) True by (simp_all add: paths_of_append)
    have "ustar_loop u m v A i errs = ustar_loop u m' v ?A (i + 1) (errs - 1)"
      unfolding step using True errs by (simp add: Create_def isempty_text_def)
    then show ?thesis
      using Cons.IH [OF rest l s, of "errs - 1" "i + 1"] Cons.prems(5,6) True errs by (simp add: top_entries_def)
  next
    case False
    then obtain ks k where k: "e_path e = ks @ [k]"
      by (metis rev_exhaust)
    have g: "good_path (ks @ [k])" "distinct_adj (ks @ [k])" "ks \<in> insert [] (set seen)" "ks @ [k] \<notin> set seen" "tar_order (e_path e # seen) es"
      using Cons.prems(5) by (auto simp: k)
    have "ks @ [k] \<notin> insert [] (set seen)"
      using g(4) by simp
    then have d: "ks \<in> insert [] (paths_of ds)" "ks @ [k] \<notin> paths_of ds"
      using g(3) unfolding Cons.prems(4) by simp_all
    obtain c v1 n where c: "Create u v None (path_text (e_path e)) = Some (Some c, v1)" "v_nodes v1 c = Some n"
        "loaded ops (set_node v1 c (attribute_node i A e n)) p (ds @ [(i, A, e)])"
      using loaded_step [OF Cons.prems(3) k g(1,2) d] by blast
    have s: "insert [] (set (e_path e # seen)) = insert [] (paths_of (ds @ [(i, A, e)]))"
      using arg_cong [OF Cons.prems(4), of "insert (e_path e)"] by (simp add: paths_of_append insert_commute)
    have "ustar_loop u m v A i errs = ustar_loop u m' (set_node v1 c (attribute_node i A e n)) ?A (i + 1) errs"
      unfolding step using c by simp
    then show ?thesis
      using Cons.IH [OF rest c(3) s g(5), of errs "i + 1"] Cons.prems(6) False by (simp add: top_entries_def)
  qed
qed

lemma CreateRoot_loaded:
  "\<exists>v. CreateRoot (new_Virtual a) (Some ops) [47] = Some (Some (a + 1), v) \<and> loaded ops v (a + 1) []"
proof -
  obtain v where C: "CreateRoot (new_Virtual a) (Some ops) [47] = Some (Some (a + 1), v)"
    by (simp add: CreateRoot_def copy_name_def allocate_def push_child_def set_node_def new_Virtual_def)
  have v: "v_nodes v = [a \<mapsto> new_FileSystemNode\<lparr>fs_Flags := 0x08, fs_Name := [114, 111, 111, 116], fs_Children := [a + 1]\<rparr>,
      a + 1 \<mapsto> new_FileSystemNode\<lparr>fs_Name := [47], fs_Flags := 0x02, fs_Operator := Some ops\<rparr>]" "FileSystemRoot v = a"
    using C by (auto simp: CreateRoot_def copy_name_def allocate_def push_child_def set_node_def new_Virtual_def
        new_FileSystemNode_def fun_eq_iff)
  have "vfs_reach v"
    by (rule vfs_reach.root [OF vfs_reach.init _ C]) simp
  moreover have "no_echo v"
    by (auto simp: no_echo_def v new_FileSystemNode_def split: if_splits)
  moreover have "chain v ks (a + 1) c \<Longrightarrow> ks = []" for ks c
    by (cases ks) (simp_all add: GetChild_def v new_FileSystemNode_def)
  ultimately show ?thesis
    using C by (auto simp: loaded_def v new_FileSystemNode_def)
qed

lemma loaded_open:
  assumes l: "loaded ops v p ds" and f: "(i, A, e) \<in> set ds" "e_path e \<noteq> []" "good_path (e_path e)"
  shows "\<exists>c n. Open u v (path_text (e_path e)) None = Some \<lparr>f_Name = Some (last (e_path e)), f_Status = OK, f_Node = Some c\<rparr> \<and>
    v_nodes v c = Some n \<and> entry_attributes ops i A e n"
proof -
  have ok: "vfs_ok v" "no_echo v"
    using l vfs_reach_ok by (auto simp: loaded_def)
  obtain r pn where r: "v_nodes v (FileSystemRoot v) = Some r" "fs_Children r = [p]" and pn: "v_nodes v p = Some pn" "fs_Name pn = [47]"
    using l by (auto simp: loaded_def)
  obtain c n where c: "chain v (e_path e) p c" "v_nodes v c = Some n" "entry_attributes ops i A e n"
    using l f(1,2) unfolding loaded_def by blast
  note cl = good_path_clean [OF f(3)]
  have "fs_Name pn \<noteq> path_text (e_path e)"
    using pn(2) f(2,3) by (cases "e_path e") (auto simp: good_path_def)
  then show ?thesis
    using Open_chain [OF ok r clean_no_zero [OF cl(1)] _ f(2) c(1) pn(1), of u] cl c(2,3) by auto
qed

lemma tar_order_good: "tar_order seen es \<Longrightarrow> e \<in> set es \<Longrightarrow> e_path e \<noteq> [] \<Longrightarrow> good_path (e_path e)"
  by (induction es arbitrary: seen) (auto split: if_splits)

lemma placed_entry: "(i, B, e) \<in> set (placed j A es) \<Longrightarrow> e \<in> set es"
  by (induction es arbitrary: j A) auto

section \<open>Reading a file of the archive\<close>

lemma memcpy_copies:
  assumes "block d (unat n) \<inter> block s (unat n) = {}"
  shows "(\<forall>i < unat n. snd (memcpy d s n m) (d + of_nat i) = m (s + of_nat i)) \<and>
    (\<forall>x. x \<notin> block d (unat n) \<longrightarrow> snd (memcpy d s n m) x = m x)"
proof -
  have inj: "inj_on (\<lambda>i. d + of_nat i) (set [0..<unat n])"
    using inj_on_offset [of "unat n" d] unsigned_less [of n, where ?'a = nat] by (simp add: lessThan_atLeast0)
  have "s + of_nat i \<noteq> d + of_nat j" if "[0..<unat n] = xs @ i # ys" "j \<in> set xs" for xs i ys j
  proof -
    have "set (xs @ i # ys) = {..<unat n}"
      by (simp add: lessThan_atLeast0 flip: that(1))
    then have "i < unat n" "j < unat n"
      using that(2) by auto
    then show ?thesis
      using assms by (auto simp: block_def disjoint_iff)
  qed
  then show ?thesis
    using copy_fold [of "[0..<unat n]" d s m] inj by (auto simp: memcpy_def block_def lessThan_atLeast0)
qed

lemma block_within: "i + k \<le> n \<Longrightarrow> block (p + of_nat i) k \<subseteq> block p n"
proof
  fix x
  assume "i + k \<le> n" "x \<in> block (p + of_nat i) k"
  then obtain j where "j < k" "x = p + of_nat (i + j)"
    by (auto simp: block_def add.assoc)
  then show "x \<in> block p n"
    using \<open>i + k \<le> n\<close> unfolding block_def by (intro image_eqI [of _ _ "i + j"]) simp_all
qed

lemma USTAR_Read_eq:
  assumes "unat Offset + max (unat Size) (unat (fs_Length n)) < 2 ^ 64" "Offset \<le> fs_Length n"
  shows "\<exists>r. USTAR_Read n Offset Size Buffer m = (r, snd (memcpy Buffer (fs_Address n + Offset) r m)) \<and>
    unat r = min (if Size = 0 then unat (fs_Length n) else unat Size) (unat (fs_Length n) - unat Offset)"
proof -
  define s where "s = (if Size = 0 then fs_Length n else Size)"
  have s: "unat (Offset + s) = unat Offset + unat s" "unat (fs_Length n - Offset) = unat (fs_Length n) - unat Offset"
    using assms by (simp_all add: s_def unat_word_ariths unat_sub)
  have "unat (if Offset + s > fs_Length n then fs_Length n - Offset else s) = min (unat s) (unat (fs_Length n) - unat Offset)"
    using s assms(2) by (auto simp: word_less_nat_alt word_le_nat_alt)
  then show ?thesis
    using assms(2) unfolding USTAR_Read_def Let_def s_def [symmetric] by (auto simp: s_def not_less)
qed

section \<open>Device files in the tree\<close>

lemma create_fold_fresh:
  assumes "vfs_ok v" "v_nodes v p = Some pn" "FileSystemRoot v < p" "\<forall>k \<in> set ks. 0 \<notin> set k" "create_fold v ks p = Some (c, v')"
  shows "chain v ks p c \<or> (\<exists>n. v_nodes v' c = Some n \<and> fs_Children n = [])"
  using assms
proof (induction ks arbitrary: v p pn)
  case (Cons k ks)
  obtain q w where q: "create_child v p k = Some (q, w)" "create_fold w ks q = Some (c, v')"
    using Cons.prems(5) by (auto simp: Option.bind_eq_Some_conv)
  have s: "vfs_ok w" "FileSystemRoot w < q" "v_nodes w q \<noteq> None"
    using create_child_spec [OF Cons.prems(1,2) _ Cons.prems(3) _ q(1)] Cons.prems(3,4) by (auto simp: grows_def)
  then obtain qn where qn: "v_nodes w q = Some qn"
    by auto
  have ih: "chain w ks q c \<or> (\<exists>n. v_nodes v' c = Some n \<and> fs_Children n = [])"
    using Cons.IH [OF s(1) qn s(2)] q(2) Cons.prems(4) by simp
  have lt: "p < v_next v"
    using vfs_okD [OF Cons.prems(1,2)] by (simp add: node_ok_def)
  from GetChild_returns [OF Cons.prems(1,2), of k] show ?case
  proof
    assume "GetChild v p k = Some None \<and> (\<forall>c \<in> set (fs_Children pn). \<forall>n. v_nodes v c = Some n \<longrightarrow> fs_Name n \<noteq> k)"
    then have w: "q = v_next v" "w = insert_child v p pn (child_node p pn k)"
      using q(1) AddNewChild_eq [OF Cons.prems(2) lt, of k] by (auto simp: create_child_def split: if_splits)
    then have "v_nodes w q = Some (child_node p pn k)"
      using lt by (simp add: insert_child_nodes)
    then have "GetChild w q j = Some None" "fs_Children qn = []" for j
      using qn by (auto simp: GetChild_def child_node_def new_FileSystemNode_def)
    then show ?thesis
      using ih q(2) qn by (cases ks) auto
  next
    assume "\<exists>c n. GetChild v p k = Some (Some c) \<and> c \<in> set (fs_Children pn) \<and> v_nodes v c = Some n \<and> fs_Name n = k \<and> p < c"
    then have "GetChild v p k = Some (Some q)" "w = v"
      using q(1) by (auto simp: create_child_def)
    then show ?thesis
      using ih by auto
  qed
qed simp

definition device_node :: "mount_point \<Rightarrow> nat option \<Rightarrow> u64 \<Rightarrow> path \<Rightarrow> u64 \<Rightarrow> FileSystemNode" where
  "device_node mp Operator Mode Name Flags =
     new_FileSystemNode\<lparr>fs_Name := Name, fs_IndexNode := mp_IndexNodeCount mp, fs_Mode := Mode, fs_Operator := Operator, fs_Flags := Flags\<rparr>"

lemma add_node_eq:
  assumes "v_nodes v p = Some pn" "p < v_next v" "mp_RootNode mp = Some p" "length Name < 256"
  shows "add_node v mp Operator Mode Name Flags =
    Some (v_next v, insert_child v p pn (device_node mp Operator Mode Name Flags), mp\<lparr>mp_IndexNodeCount := mp_IndexNodeCount mp + 1\<rparr>)"
  using assms by (simp add: add_node_def copy_name_def allocate_def push_child_def set_node_def insert_child_def device_node_def)

text \<open>The directory of a mount point: new, empty, and on its path.\<close>

lemma open_mount_point_new:
  assumes ok: "vfs_ok v" "linked v" "no_echo v" and r: "v_nodes v (FileSystemRoot v) = Some r" "fs_Children r = p # ps"
    and pn: "v_nodes v p = Some pn" "fs_Name pn = [47]" and ks: "good_path ks" "distinct_adj ks"
    and x: "FileExists u v (Some p) (path_text ks) = Some NOT_FOUND"
  shows "\<exists>v1 d dn. open_mount_point u v mp (path_text ks) = Some (v1, mp\<lparr>mp_RootNode := Some d\<rparr>) \<and> v_nodes v1 d = Some dn \<and>
    fs_Children dn = [] \<and> chain v1 ks p d \<and> FileSystemRoot v1 < d \<and> vfs_ok v1 \<and> linked v1 \<and> no_echo v1 \<and>
    (\<exists>r. v_nodes v1 (FileSystemRoot v1) = Some r \<and> fs_Children r = p # ps) \<and> (\<exists>pn. v_nodes v1 p = Some pn \<and> fs_Name pn = [47])"
proof -
  note cl = good_path_clean [OF ks(1)]
  have k: "\<forall>k \<in> set ks. 0 \<notin> set k \<and> length k < 256" "ks \<noteq> []" "distinct_adj (fs_Name pn # ks)"
    using ks pn(2) by (auto simp: good_path_def neq_Nil_conv)
  have p: "FileSystemRoot v < p"
    using vfs_okD [OF ok(1) r(1)] r(2) by (simp add: node_ok_def)
  obtain d v0 where d: "create_fold v ks p = Some (d, v0)" "no_echo v0"
    using create_fold_returns [OF ok(1) pn(1) p k(1)] ok(3) k(3) by blast
  have C: "Create u v None (path_text ks) = Some (Some d, v0)" "GetNodeFromPath v p (path_text ks) = Some None"
    using Create_new [OF ok(1) r clean_no_zero [OF cl(1)] _ _ k(2) _ d(1), of u] clean_not_empty [OF cl(1)] cl x by simp_all
  have s: "vfs_ok v0" "grows v v0" "linked v0" "chain v0 ks p d" "v_nodes v0 d \<noteq> None" "FileSystemRoot v < d"
    using create_fold_spec [OF ok(1) _ p _ d(1)] pn(1) k(1) ok(2) by auto
  have "fs_Name pn \<noteq> path_text ks"
    using pn(2) ks(1) by (cases ks) (auto simp: good_path_def)
  then have "\<not> chain v ks p d"
    using chain_lookup [OF ok(1,3) _ pn(1) cl(1) k(2)] C(2) by auto
  then obtain n where n: "v_nodes v0 d = Some n" "fs_Children n = []"
    using create_fold_fresh [OF ok(1) pn(1) p _ d(1)] k(1) by auto
  let ?n = "n\<lparr>fs_Flags := 0x02, fs_Mode := 493\<rparr>"
  let ?v = "set_node v0 d ?n"
  have root: "FileSystemRoot ?v = FileSystemRoot v" "FileSystemRoot v0 = FileSystemRoot v"
    using s(2) by (simp_all add: set_node_def grows_def)
  obtain r' where r': "v_nodes v0 (FileSystemRoot v) = Some r'" "fs_Children r' = p # ps"
    using grows_default_parent [OF s(2) r] root by auto
  obtain pn' where pn': "v_nodes v0 p = Some pn'" "fs_Name pn' = [47]"
    using growsD [OF s(2) pn(1)] pn(2) by metis
  have "open_mount_point u v mp (path_text ks) = Some (?v, mp\<lparr>mp_RootNode := Some d\<rparr>)"
    using C(1) n by (simp add: open_mount_point_def)
  moreover have "v_nodes ?v d = Some ?n" "fs_Children ?n = []"
    using n by (simp_all add: set_node_def)
  moreover have "vfs_ok ?v \<and> linked ?v"
    using n by (intro set_node_ok [OF s(1,3) n(1)]) simp_all
  moreover have "chain ?v ks p d" "no_echo ?v"
    using set_node_lookup [OF n(1), of ?n] s(4) d(2) by simp_all
  moreover have "v_nodes ?v (FileSystemRoot v) = Some r'"
    using r' s(6) by (simp add: set_node_def)
  moreover have "\<exists>pn. v_nodes ?v p = Some pn \<and> fs_Name pn = [47]"
    using pn' n by (auto simp: set_node_def)
  ultimately show ?thesis
    using r'(2) s(6) root by auto
qed

lemma device_opens_new:
  assumes ok: "vfs_ok v" "linked v" "no_echo v" and r: "v_nodes v (FileSystemRoot v) = Some r" "fs_Children r = p # ps"
    and pn: "v_nodes v p = Some pn" "fs_Name pn = [47]" and c: "chain v ks p d" "v_nodes v d = Some dn" "fs_Children dn = []" "FileSystemRoot v < d"
    and k: "good_path (ks @ [k])" "ks \<noteq> []" "k \<noteq> last ks"
    and n: "fs_Name n = k" "fs_Children n = []" "fs_Parent n = None"
  defines "v2 \<equiv> insert_child v d dn n"
  shows "Open u v2 (path_text (ks @ [k])) None = Some \<lparr>f_Name = Some k, f_Status = OK, f_Node = Some (v_next v)\<rparr> \<and>
    GetPathFromNode v2 (Some (v_next v)) = Some (47 # k)"
proof -
  note cl = good_path_clean [OF k(1)]
  have lt: "d < v_next v"
    using vfs_okD [OF ok(1) c(2)] by (simp add: node_ok_def)
  obtain m where m: "v_nodes v d = Some m" "fs_Name m = last ks"
    using chain_name [OF ok(1) c(1) k(2)] pn(1) by auto
  have ok2: "vfs_ok v2"
    unfolding v2_def using n k(1) by (intro insert_child_ok [OF ok(1) c(2)]) (simp_all add: good_path_def)
  have e2: "no_echo v2"
    unfolding v2_def using n k(3) m c(2) by (intro insert_child_no_echo [OF ok(1,3) c(2)]) simp_all
  have g: "grows v v2"
    unfolding v2_def using c(4) by (intro insert_child_grows [OF ok(1) c(2)]) simp
  have "GetChild v d k = Some None"
    using c(2,3) by (simp add: GetChild_def)
  then have "GetChild v2 d k = Some (Some (v_next v))"
    using GetChild_insert [OF ok(1) c(2) n(2) c(2), of k] n(1) by (simp add: v2_def)
  then have ch: "chain v2 (ks @ [k]) p (v_next v)"
    using chain_grows [OF c(1) g] by (auto simp: chain_split)
  obtain r' where r': "v_nodes v2 (FileSystemRoot v2) = Some r'" "fs_Children r' = p # ps"
    using grows_default_parent [OF g r] by blast
  obtain pn' where pn': "v_nodes v2 p = Some pn'" "fs_Name pn' = [47]"
    using growsD [OF g pn(1)] pn(2) by metis
  have "fs_Name pn' \<noteq> path_text (ks @ [k])"
    using pn'(2) k(1) by (auto simp: good_path_def Cons_eq_append_conv)
  then have o: "Open u v2 (path_text (ks @ [k])) None = Some \<lparr>f_Name = Some k, f_Status = OK, f_Node = Some (v_next v)\<rparr>"
    using Open_chain [OF ok2 e2 r' clean_no_zero [OF cl(1)] _ _ ch pn'(1), of u] cl by simp
  have node: "v_nodes v2 (v_next v) = Some n"
    using lt by (simp add: v2_def insert_child_nodes)
  have "v_next v \<noteq> FileSystemRoot v2" "v_next v \<notin> set (p # ps)"
    using vfs_okD [OF ok(1) r(1)] r(2) fresh [OF ok(1)] by (auto simp: node_ok_def v2_def)
  then have "path_loop v2 (Some (v_next v)) [] = path_loop v2 None [k, [47]]"
    using r' node n by (subst path_loop.simps) simp
  also have "\<dots> = Some [k, [47]]"
    by (subst path_loop.simps) simp
  finally show ?thesis
    using o by (simp add: GetPathFromNode_def)
qed

section \<open>The type of a volume\<close>

lemma wrapped_difference:
  fixes s t c :: u32
  assumes "unat s < unat t" "unat t < 2 ^ 25" "unat c < 2 ^ 8"
  shows "c = 0 \<or> 65525 \<le> (s - t) div c"
proof (cases "c = 0")
  case False
  then have c: "0 < unat c"
    by (simp add: unat_gt_0)
  have "unat (s - t) = 2 ^ 32 + unat s - unat t"
    using assms(1,2) by (simp add: unat_sub_if' word_le_nat_alt)
  then have "65525 * unat c \<le> unat (s - t)"
    using assms by simp
  then have "65525 \<le> unat (s - t) div unat c"
    using c by (simp add: less_eq_div_iff_mult_less_eq)
  then show ?thesis
    by (simp add: word_le_nat_alt unat_div)
qed simp

lemma ucast_small: "unat (ucast (x :: u16) :: u32) = unat x" "unat (ucast (y :: u8) :: u32) = unat y"
  using unsigned_less [of x, where ?'a = nat] unsigned_less [of y, where ?'a = nat]
  by (simp_all add: unsigned_ucast_eq take_bit_nat_eq_self_iff)

lemma Clusters_small:
  assumes "Sectors16 bpb \<noteq> 0" "512 \<le> BytesPerSector bpb" "SectorsPerCluster bpb \<noteq> 0" "ReservedSectors bpb \<noteq> 0" "2 \<le> NumberOfFATs bpb"
  shows "65525 \<le> Clusters bpb"
proof -
  define S R N D where "S = (ucast (Sectors16 bpb) :: u32)" and "R = (ucast (ReservedSectors bpb) :: u32)"
    and "N = (ucast (NumberOfFATs bpb) :: u32)"
    and "D = (ucast (RootDirectoryEntries bpb) * 32 + (ucast (BytesPerSector bpb) - 1)) div (ucast (BytesPerSector bpb) :: u32)"
  have b: "unat S < 2 ^ 16" "unat R < 2 ^ 16" "unat N < 2 ^ 8" "2 \<le> unat N" "0 < unat S"
    using unsigned_less [of "Sectors16 bpb", where ?'a = nat] unsigned_less [of "ReservedSectors bpb", where ?'a = nat]
      unsigned_less [of "NumberOfFATs bpb", where ?'a = nat] assms(1,5)
    by (simp_all add: S_def R_def N_def ucast_small word_le_nat_alt unat_gt_0)
  have "unat (ucast (RootDirectoryEntries bpb) * 32 + (ucast (BytesPerSector bpb) - 1) :: u32) < 2 ^ 22"
  proof -
    have "unat (RootDirectoryEntries bpb) < 2 ^ 16" "unat (BytesPerSector bpb) < 2 ^ 16" "0 < unat (BytesPerSector bpb)"
      using unsigned_less [of "RootDirectoryEntries bpb", where ?'a = nat] unsigned_less [of "BytesPerSector bpb", where ?'a = nat] assms(2)
      by (simp_all add: word_le_nat_alt)
    then show ?thesis
      by (simp add: unat_word_ariths ucast_small unat_sub_if' word_le_nat_alt)
  qed
  then have D: "unat D < 2 ^ 22"
    using div_le_dividend le_less_trans unfolding D_def unat_div by blast
  have ns: "unat N * unat S < 2 ^ 24" "2 * unat S \<le> unat N * unat S"
    using mult_strict_mono [OF b(3,1)] mult_le_mono1 [OF b(4)] by simp_all
  have "unat (R + N * S + D) = unat R + unat N * unat S + unat D"
    using b D ns by (simp add: unat_word_ariths)
  then have "unat S < unat (R + N * S + D)" "unat (R + N * S + D) < 2 ^ 25"
    using b(2,5) D ns by (linarith, simp)
  from wrapped_difference [OF this, of "ucast (SectorsPerCluster bpb)"] show ?thesis
    using assms(1,3) unsigned_less [of "SectorsPerCluster bpb", where ?'a = nat] ucast_small(2) [of "SectorsPerCluster bpb"]
    by (simp add: Clusters_def S_def R_def N_def D_def Let_def word_unat_eq_iff)
qed

section \<open>Properties\<close>

text \<open>
  C11. The kernel's file system after start: an archive in memory whose entries follow their directories,
  without a path that comes twice or has the same name twice in a row, and with at most 20 entries for
  the top directory, is loaded completely, the loop ends and the tree stays reachable. Every file of
  the archive opens under its path, and its node holds the address behind the header, the size, the
  type, the owners and the number of the entry, and the operations of the archive. Its mode is the text
  of the mode read as a decimal number, although it is written in octal. A file with the name of its
  directory is excluded because the search stops at the directory: creating it fails.
\<close>

theorem ustar_files:
  assumes "archive m A es" "es \<noteq> []" "unat A + extent es \<le> 2 ^ 64" "tar_order [] es" "top_entries es \<le> 20"
  shows "\<exists>m' v'. new_USTAR u ops m (new_Virtual a) A = Some (m', v') \<and> vfs_reach v' \<and>
    (\<forall>i B e. (i, B, e) \<in> set (placed 0 A es) \<longrightarrow> e_path e \<noteq> [] \<longrightarrow>
       (\<exists>c n. Open u' v' (path_text (e_path e)) None = Some \<lparr>f_Name = Some (last (e_path e)), f_Status = OK, f_Node = Some c\<rparr> \<and>
          v_nodes v' c = Some n \<and> entry_attributes ops i B e n))"
proof -
  obtain v where v: "CreateRoot (new_Virtual a) (Some ops) [47] = Some (Some (a + 1), v)" "loaded ops v (a + 1) []"
    using CreateRoot_loaded by blast
  have "signature_valid m A"
    using assms(1,2) by (cases es) (simp_all add: entry_at_def)
  then have new: "new_USTAR u ops m (new_Virtual a) A = ustar_loop u m v A 0 20"
    using v(1) by (simp add: new_USTAR_def)
  obtain m' v' where l: "ustar_loop u m v A 0 20 = Some (m', v')" "loaded ops v' (a + 1) ([] @ placed 0 A es)"
    using ustar_loop_loads [OF assms(1,3) v(2) _ assms(4), of 20 u 0] assms(5) by (auto simp: paths_of_def)
  have "\<exists>c n. Open u' v' (path_text (e_path e)) None = Some \<lparr>f_Name = Some (last (e_path e)), f_Status = OK, f_Node = Some c\<rparr> \<and>
      v_nodes v' c = Some n \<and> entry_attributes ops i B e n" if "(i, B, e) \<in> set (placed 0 A es)" "e_path e \<noteq> []" for i B e
    using that tar_order_good [OF assms(4) placed_entry [OF that(1)] that(2)] by (intro loaded_open [OF l(2)]) simp_all
  then show ?thesis
    using new l by (auto simp: loaded_def)
qed

text \<open>
  C36. Reading a file of the archive: behind its end nothing is read; before it, the size asked for, all of
  the file for the size 0, cut at the end of the file, is copied from the file to the buffer and
  returned, and no other byte changes. The sum of offset and size must not overflow.
\<close>

theorem ustar_read:
  assumes "unat Offset + max (unat Size) (unat (fs_Length n)) < 2 ^ 64"
    "block Buffer (unat (fs_Length n)) \<inter> block (fs_Address n) (unat (fs_Length n)) = {}"
  shows "\<exists>r m'. USTAR_Read n Offset Size Buffer m = (r, m') \<and>
    unat r = (if Offset > fs_Length n then 0
      else min (if Size = 0 then unat (fs_Length n) else unat Size) (unat (fs_Length n) - unat Offset)) \<and>
    (\<forall>i < unat r. m' (Buffer + of_nat i) = m (fs_Address n + Offset + of_nat i)) \<and> (\<forall>x. x \<notin> block Buffer (unat r) \<longrightarrow> m' x = m x)"
proof (cases "Offset > fs_Length n")
  case True
  then show ?thesis
    by (simp add: USTAR_Read_def)
next
  case False
  then have o: "Offset \<le> fs_Length n"
    by simp
  obtain r where r: "USTAR_Read n Offset Size Buffer m = (r, snd (memcpy Buffer (fs_Address n + Offset) r m))"
      "unat r = min (if Size = 0 then unat (fs_Length n) else unat Size) (unat (fs_Length n) - unat Offset)"
    using USTAR_Read_eq [OF assms(1) o] by blast
  have le: "unat Offset + unat r \<le> unat (fs_Length n)"
    using r(2) o by (simp add: word_le_nat_alt)
  have "block (fs_Address n + Offset) (unat r) \<subseteq> block (fs_Address n) (unat (fs_Length n))"
    using block_within [OF le, of "fs_Address n"] by simp
  moreover have "block Buffer (unat r) \<subseteq> block Buffer (unat (fs_Length n))"
    using le by (intro block_mono) simp
  ultimately have "block Buffer (unat r) \<inter> block (fs_Address n + Offset) (unat r) = {}"
    using assms(2) by blast
  from memcpy_copies [OF this] show ?thesis
    using r False by simp
qed

text \<open>
  C34. Device files: in a tree whose first root is \<^verbatim>\<open>/\<close>, in which no child has the name of its parent and which
  has no \<^verbatim>\<open>/system/dev\<close>, the device mount point creates that. A device added there under a plain name other than \<^verbatim>\<open>dev\<close>
  gets a node with its operations, mode and flags, and \<^verbatim>\<open>Open\<close> of \<^verbatim>\<open>/system/dev/\<close> and its name returns that node.
  The node has no parent, so \<^verbatim>\<open>GetPathFromNode\<close> gives a separator and the name alone.
\<close>

theorem device_opens:
  assumes "vfs_reach v" "no_echo v" "v_nodes v (FileSystemRoot v) = Some r" "fs_Children r = p # ps"
    "v_nodes v p = Some pn" "fs_Name pn = [47]" "FileExists u v (Some p) (chars ''/system/dev'') = Some NOT_FOUND"
    "good_path [k]" "k \<noteq> chars ''dev''"
  shows "\<exists>v1 devfs c v2 devfs' n. new_Device u v mp = Some (v1, devfs) \<and>
    AddFileSystem v1 devfs (Some ops) Mode k Flags = Some (c, v2, devfs') \<and>
    v_nodes v2 c = Some n \<and> fs_Operator n = Some ops \<and> fs_Mode n = Mode \<and> fs_Flags n = scast Flags \<and>
    Open u' v2 (chars ''/system/dev/'' @ k) None = Some \<lparr>f_Name = Some k, f_Status = OK, f_Node = Some c\<rparr> \<and>
    GetPathFromNode v2 (Some c) = Some (47 # k)"
proof -
  let ?ks = "[chars ''system'', chars ''dev'']"
  have ks: "good_path ?ks" "distinct_adj ?ks" "good_path (?ks @ [k])"
    using assms(8) by (simp_all add: good_path_def chars_def kind_def)
  have t: "chars ''/system/dev'' = path_text ?ks" "chars ''/system/dev/'' @ k = path_text (?ks @ [k])"
    by (simp_all add: chars_def)
  have ok: "vfs_ok v" "linked v"
    using vfs_reach_ok [OF assms(1)] by auto
  obtain v1 d dn r1 pn1 where d: "open_mount_point u v mp (path_text ?ks) = Some (v1, mp\<lparr>mp_RootNode := Some d\<rparr>)"
      "v_nodes v1 d = Some dn" "fs_Children dn = []" "chain v1 ?ks p d" "FileSystemRoot v1 < d" "vfs_ok v1" "linked v1" "no_echo v1"
      "v_nodes v1 (FileSystemRoot v1) = Some r1" "fs_Children r1 = p # ps" "v_nodes v1 p = Some pn1" "fs_Name pn1 = [47]"
    using open_mount_point_new [OF ok assms(2-6) ks(1,2), of u mp] assms(7) t(1) by auto
  let ?mp = "mp\<lparr>mp_RootNode := Some d\<rparr>"
  let ?n = "device_node ?mp (Some ops) Mode k (scast Flags)"
  have lt: "d < v_next v1"
    using vfs_okD [OF d(6,2)] by (simp add: node_ok_def)
  have n: "fs_Name ?n = k" "fs_Children ?n = []" "fs_Parent ?n = None"
    by (simp_all add: device_node_def new_FileSystemNode_def)
  have o: "Open u' (insert_child v1 d dn ?n) (path_text (?ks @ [k])) None =
        Some \<lparr>f_Name = Some k, f_Status = OK, f_Node = Some (v_next v1)\<rparr>"
      "GetPathFromNode (insert_child v1 d dn ?n) (Some (v_next v1)) = Some (47 # k)"
    using device_opens_new [OF d(6-12) d(4,2,3,5) ks(3) _ _ n, of u'] assms(9) by simp_all
  have "AddFileSystem v1 ?mp (Some ops) Mode k Flags =
      Some (v_next v1, insert_child v1 d dn ?n, ?mp\<lparr>mp_IndexNodeCount := mp_IndexNodeCount mp + 1\<rparr>)"
    using add_node_eq [OF d(2) lt, of ?mp] assms(8) by (simp add: AddFileSystem_def good_path_def)
  moreover have "v_nodes (insert_child v1 d dn ?n) (v_next v1) = Some ?n"
    using lt by (simp add: insert_child_nodes)
  moreover have "new_Device u v mp = Some (v1, ?mp)"
    using d(1) by (simp add: new_Device_def t(1))
  ultimately show ?thesis
    using o unfolding t(2) by (auto simp: device_node_def new_FileSystemNode_def)
qed

text \<open>
  C39. A volume whose sectors are counted in 16 bits, as every FAT12 volume and the small FAT16 volumes do, is never
  recognised: \<^verbatim>\<open>GetFATType\<close> takes the sectors of the volume for the sectors of one allocation table, and the
  number of clusters wraps around.
\<close>

theorem small_volumes_unknown:
  assumes "Sectors16 bpb \<noteq> 0"
  shows "GetFATType (Some bpb) = Unknown"
proof -
  have "\<not> Clusters bpb < 4085 \<and> \<not> Clusters bpb < 65525" if "BytesPerSector bpb \<in> {512, 1024, 2048, 4096}"
      "SectorsPerCluster bpb \<noteq> 0" "ReservedSectors bpb \<noteq> 0" "\<not> NumberOfFATs bpb < 2"
  proof -
    have "65525 \<le> Clusters bpb"
      using that assms by (intro Clusters_small) (auto simp: not_less)
    then show ?thesis
      by (simp add: word_less_nat_alt word_le_nat_alt)
  qed
  then show ?thesis
    using assms by (auto simp: GetFATType_def)
qed

section \<open>Examples\<close>

definition example_entries :: "ustar_entry list" where
  "example_entries =
     [\<lparr>e_path = [], e_slash = True, e_mode = [55], e_uid = [], e_gid = [], e_size = [48], e_type = 53\<rparr>,
      \<lparr>e_path = [[97]], e_slash = False, e_mode = [54, 52], e_uid = [49], e_gid = [50], e_size = [49, 48], e_type = 48\<rparr>]"

definition example_image :: mem where
  "example_image =
     write_bytes 0x1000 [46, 47] (write_bytes 0x1064 [55] (write_bytes 0x107C [48] (write_bytes 0x109C [53]
       (write_bytes 0x1101 [117, 115, 116, 97, 114]
     (write_bytes 0x1200 [46, 47, 97] (write_bytes 0x1264 [54, 52] (write_bytes 0x126C [49] (write_bytes 0x1274 [50]
       (write_bytes 0x127C [49, 48] (write_bytes 0x129C [48] (write_bytes 0x1301 [117, 115, 116, 97, 114]
     (\<lambda>_. 0))))))))))))"

lemma example_lengths: "e_length (example_entries ! 0) = 0" "e_length (example_entries ! Suc 0) = 8"
  by (simp_all add: example_entries_def e_length_def octal_def)

lemma example_archive: "archive example_image 0x1000 example_entries"
proof -
  let ?e = "example_entries ! 0" and ?f = "example_entries ! 1"
  have es: "example_entries = [?e, ?f]"
    by (simp add: example_entries_def)
  have e: "entry_at example_image 0x1000 ?e"
    by (simp add: entry_at_def signature_valid_def example_image_def example_entries_def entry_name_def chars_def upt_rec)
  have f: "entry_at example_image 0x1200 ?f"
    by (simp add: entry_at_def signature_valid_def example_image_def example_entries_def entry_name_def chars_def upt_rec)
  have "\<not> signature_valid example_image 0x1600"
    by (simp add: signature_valid_def example_image_def chars_def upt_rec)
  then show ?thesis
    using e f by (subst es) (simp add: example_lengths next_address_def)
qed

lemma example_placed: "placed 0 0x1000 example_entries = [(0, 0x1000, example_entries ! 0), (1, 0x1200, example_entries ! 1)]"
proof -
  have es: "example_entries = [example_entries ! 0, example_entries ! 1]"
    by (simp add: example_entries_def)
  show ?thesis
    by (subst es) (simp add: example_lengths next_address_def)
qed

theorem ustar_files_witness:
  "\<exists>m' v' c n. new_USTAR example_segment 9 example_image (new_Virtual 0) 0x1000 = Some (m', v') \<and>
     Open example_segment v' [47, 97] None = Some \<lparr>f_Name = Some [97], f_Status = OK, f_Node = Some c\<rparr> \<and>
     v_nodes v' c = Some n \<and> fs_Address n = 0x1400 \<and> fs_Length n = 8 \<and> fs_Flags n = 1 \<and> fs_Operator n = Some 9"
proof -
  have s: "unat (0x1000 :: u64) + extent example_entries \<le> 2 ^ 64" "example_entries \<noteq> []" "top_entries example_entries \<le> 20"
    using example_lengths by (simp_all add: extent_def span_def example_entries_def top_entries_def)
  have t: "tar_order [] example_entries"
    by (simp add: example_entries_def good_path_def kind_def)
  let ?f = "example_entries ! 1"
  have p: "e_path ?f = [[97]]" "e_type ?f = 48"
    by (simp_all add: example_entries_def)
  obtain m' v' where v: "new_USTAR example_segment 9 example_image (new_Virtual 0) 0x1000 = Some (m', v')"
    and f: "\<And>i B e. (i, B, e) \<in> set (placed 0 0x1000 example_entries) \<Longrightarrow> e_path e \<noteq> [] \<Longrightarrow>
       \<exists>c n. Open example_segment v' (path_text (e_path e)) None =
          Some \<lparr>f_Name = Some (last (e_path e)), f_Status = OK, f_Node = Some c\<rparr> \<and>
          v_nodes v' c = Some n \<and> entry_attributes 9 i B e n"
    using ustar_files [OF example_archive s(2,1) t s(3), of example_segment 9 0 example_segment] by blast
  have "(1, 0x1200, ?f) \<in> set (placed 0 0x1000 example_entries)"
    by (simp add: example_placed)
  from f [OF this] show ?thesis
    using v p example_lengths by (auto simp: entry_attributes_def type_flags_def)
qed

lemma first_root_empty:
  assumes l: "loaded ops v p []" and ks: "good_path ks"
  shows "FileExists u v (Some p) (path_text ks) = Some NOT_FOUND"
proof -
  have ok: "vfs_ok v"
    using l vfs_reach_ok by (auto simp: loaded_def)
  obtain pn where pn: "v_nodes v p = Some pn" "fs_Name pn = [47]"
    using l by (auto simp: loaded_def)
  note cl = good_path_clean(1) [OF ks]
  have "ks \<noteq> []" "47 \<notin> set (last ks)"
    using ks last_in_set [of ks] by (auto simp: good_path_def)
  then have "last ks \<noteq> [47]"
    by auto
  have "path_text ks \<noteq> [47]"
    using ks by (auto simp: good_path_def neq_Nil_conv)
  have "GetChild v p k = Some None" for k
    using loaded_lookup_none [OF l, of "[]" p pn k] pn(1) by (simp add: paths_of_def)
  then have "next_parent v k p = Some p" for k
    by (subst next_parent.simps) simp
  then have f: "node_fold v js p = Some p" for js
    by (induction js) simp_all
  obtain b n where "cwk_path_get_basename (path_text ks) = Some (b, n)" "drop b (path_text ks) = last ks"
    using clean_basename [OF cl \<open>ks \<noteq> []\<close>] by blast
  moreover obtain s where "cwk_path_get_first_segment (path_text ks) = (True, s)" "node_loop v s p = Some p"
    using f \<open>ks \<noteq> []\<close> clean_segments [OF cl] by (cases rule: first_segment_cases [OF clean_no_zero [OF cl]]) auto
  ultimately have "GetNodeFromPath v p (path_text ks) = Some None"
    using pn \<open>last ks \<noteq> [47]\<close> \<open>path_text ks \<noteq> [47]\<close> by (auto simp: GetNodeFromPath_def)
  then show ?thesis
    using FileExists_clean [OF ok _ cl, of p u] pn(1) by auto
qed

theorem device_opens_witness:
  "\<exists>v v1 devfs c v2 devfs'. CreateRoot (new_Virtual 0) (Some 9) [47] = Some (Some 1, v) \<and>
     new_Device example_segment v \<lparr>mp_RootNode = None, mp_IndexNodeCount = 0\<rparr> = Some (v1, devfs) \<and>
     AddFileSystem v1 devfs (Some 7) 438 (chars ''null'') 3 = Some (c, v2, devfs') \<and>
     Open example_segment v2 (chars ''/system/dev/null'') None = Some \<lparr>f_Name = Some (chars ''null''), f_Status = OK, f_Node = Some c\<rparr> \<and>
     GetPathFromNode v2 (Some c) = Some (chars ''/null'')"
proof -
  obtain v where v: "CreateRoot (new_Virtual 0) (Some 9) [47] = Some (Some 1, v)" "loaded 9 v 1 []"
    using CreateRoot_loaded [of 0 9] by auto
  obtain r pn where l: "vfs_reach v" "no_echo v" "v_nodes v (FileSystemRoot v) = Some r" "fs_Children r = [1]"
      "v_nodes v 1 = Some pn" "fs_Name pn = [47]"
    using v(2) by (auto simp: loaded_def)
  have k: "good_path [chars ''null'']" "chars ''null'' \<noteq> chars ''dev''" "good_path [chars ''system'', chars ''dev'']"
    by (simp_all add: good_path_def chars_def kind_def)
  have x: "FileExists example_segment v (Some 1) (chars ''/system/dev'') = Some NOT_FOUND"
    using first_root_empty [OF v(2) k(3), of example_segment] by (simp add: chars_def)
  have t: "chars ''/system/dev/'' @ chars ''null'' = chars ''/system/dev/null''" "47 # chars ''null'' = chars ''/null''"
    by (simp_all add: chars_def)
  show ?thesis
    using device_opens [OF l x k(1,2), of "\<lparr>mp_RootNode = None, mp_IndexNodeCount = 0\<rparr>" 7 438 3 example_segment] v(1)
    unfolding t by blast
qed

theorem ustar_read_witness:
  "\<exists>r m'. USTAR_Read (new_FileSystemNode\<lparr>fs_Address := 0x1400, fs_Length := 8\<rparr>) 6 4 0x3000 example_image = (r, m') \<and>
     unat r = 2 \<and> m' 0x3001 = example_image 0x1407"
proof -
  let ?n = "new_FileSystemNode\<lparr>fs_Address := 0x1400, fs_Length := 8\<rparr>"
  have "block 0x3000 (unat (fs_Length ?n)) \<inter> block (fs_Address ?n) (unat (fs_Length ?n)) = {}"
    by (rule block_disjoint) simp_all
  from ustar_read [OF _ this, of 6 4 example_image] show ?thesis
    by (force dest: spec [of _ 1])
qed

definition example_floppy :: BIOSParameterBlock where
  "example_floppy = \<lparr>JumpBoot = [0xEB, 0x3C, 0x90], OEM = chars ''MSDOS5.0'', BytesPerSector = 512, SectorsPerCluster = 1,
     ReservedSectors = 1, NumberOfFATs = 2, RootDirectoryEntries = 224, Sectors16 = 2880, Media = 0xF0, SectorsPerFAT = 9,
     SectorsPerTrack = 18, NumberOfHeads = 2, HiddenSectors = 0, Sectors32 = 0\<rparr>"

theorem small_volumes_unknown_witness: "Sectors16 example_floppy = 2880 \<and> GetFATType (Some example_floppy) = Unknown"
  using small_volumes_unknown [of example_floppy] by (simp add: example_floppy_def)

end
