(* ===== verification/Spec2Isabelle.thy ===== *)
theory Spec2Isabelle
  imports Heap_Default Arith64 Convert Process_API Network File_Systems
begin

text \<open>
  \<^bold>\<open>Verification of the Fennix kernel.\<close> The repository contains an operating system: a kernel in C and
  C++ (\<^verbatim>\<open>src/kernel\<close>), a C library (\<^verbatim>\<open>src/libc\<close>) and user programs. This development models the parts
  of the kernel that do not consist of talking to hardware, from the physical page allocator up to
  the scheduler and the network stack, and proves what makes them correct.

  \<^bold>\<open>How the parts depend on each other.\<close> The boot protocol hands the kernel a memory map. The page frame
  allocator turns it into a bitmap of frames; the virtual memory manager takes frames from it to build
  page tables; the heap maps frames behind itself when it grows. The arrays and the hash table
  live in a heap. Processes and threads are control blocks kept in arrays; a thread gets a stack
  from the page allocator and a token from the security manager; the scheduler is the timer
  interrupt's handler over these arrays. The network stack is layered over a driver and runs in a
  thread of its own. The theories follow this order.

  \<^item> \<^verbatim>\<open>Kernel_Prelude\<close>: integer types, the outcomes \<open>Panic\<close> and \<open>Halt\<close>, shared lemmas and the
    collections \<open>frame_simps\<close> and \<open>inv_intros\<close>.
  \<^item> \<^verbatim>\<open>Kernel_Bitmap\<close>: \<^verbatim>\<open>libs/Bitmap.cpp\<close>. Locale \<open>bit_array\<close>: reading after writing.
  \<^item> \<^verbatim>\<open>Page_Frame_Allocator\<close>: \<^verbatim>\<open>mem/helpers/PageFrameAllocator.cpp\<close>, \<^verbatim>\<open>mem/PhysicalMemoryManager.cpp\<close>.
    The state is the record of the class; every public operation is a function of it, the two search
    loops with their cursor included. Shown: a request returns a frame that was free and now is not,
    the lowest one there is; what a request for several frames returns and locks, also where the run
    overhangs the bitmap; which frames are taken after the memory map was read;
    the counters add up to the total and agree with the bitmap, as invariants of a step relation
    over all operations; a request panics exactly when no frame is free. Locale \<open>page_op\<close> states what freeing, locking
    and reserving have in common.
  \<^item> \<^verbatim>\<open>Paging\<close>: \<^verbatim>\<open>mem/VirtualMemoryManager.cpp\<close>, \<^verbatim>\<open>mem/helpers/Page*.cpp\<close>,
    \<^verbatim>\<open>mem/PageTableHeapManager.cpp\<close>, \<^verbatim>\<open>mem/StackHeapManager.cpp\<close>. Page tables are 64-bit words in a
    physical memory; \<open>translate\<close> is what the processor does with them. Shown: mapping a page makes it
    translate to the given frame and leaves all other pages alone; the initial kernel tables map all of
    memory at its own address and at \<^verbatim>\<open>NORMAL_VMA_OFFSET\<close>, and building them does not stop when there is a
    free frame for each table and each page of the kernel image. Locale \<open>frame_source\<close> is what paging needs of the
    page allocator.
  \<^item> \<^verbatim>\<open>Heap_Default\<close>: \<^verbatim>\<open>mem/defaultalloc/defaultalloc.cpp\<close>, the allocator that \<^verbatim>\<open>init_heap\<close> calls \<^verbatim>\<open>Default\<close>;
    \<^verbatim>\<open>Kernel.cpp\<close> selects the vendored \<^verbatim>\<open>LibAlloc11\<close> instead. Segment headers are a store indexed by
    address, linked as in the code, beside the store of the bytes of blocks. Shown: allocation ends and
    gives a block that was free and is inside the heap, freeing removes exactly that block and keeps the
    heap well-formed, \<^verbatim>\<open>calloc\<close> zeroes; whatever a client does from \<^verbatim>\<open>InitHeap\<close> on, the blocks it holds are
    aligned, inside the heap and disjoint (relation \<open>heap_run\<close>).
  \<^item> \<^verbatim>\<open>Arith64\<close>: \<^verbatim>\<open>libs/ArithmeticOperations.c\<close>, the 64-bit operations of the 32-bit kernel. Shown: shifts
    and the four divisions agree with the operations on 64-bit words, signs and extremes included.
  \<^item> \<^verbatim>\<open>C_String\<close>, \<^verbatim>\<open>Convert\<close>: \<^verbatim>\<open>libs/String.c\<close>, \<^verbatim>\<open>libs/converter.cpp\<close> and their counterparts of the C
    library, over one byte-addressed memory. Shown: copying, overlapping moves, searching,
    tokenising, and round trips between numbers and text.
  \<^item> \<^verbatim>\<open>Containers\<close>: \<^verbatim>\<open>include/vector.hpp\<close>, \<^verbatim>\<open>include/hashmap.hpp\<close>. Locales \<open>sequence\<close> and \<open>table\<close> with
    interpretations on both classes; the array refines lists, and which cells appending and removing
    write is stated exactly, those behind the buffer included.
  \<^item> \<^verbatim>\<open>Tasking\<close>, \<^verbatim>\<open>Scheduler\<close>: \<^verbatim>\<open>proc/Multitasking.cpp\<close>, \<^verbatim>\<open>security/Security.cpp\<close>, \<^verbatim>\<open>include/task.h\<close>. Creation
    and removal of processes and threads, and the whole interrupt handler. Shown: a user thread
    starts in user mode on a mapped stack; the handler returns; at most one thread runs and it is the
    current one, as an invariant of the steps of the system; a thread that is switched away resumes
    with the registers it had.
  \<^item> \<^verbatim>\<open>Monotasking\<close>: \<^verbatim>\<open>proc/Monotasking.cpp\<close>, the cooperative mode. Shown: the scheduler's jumps end, the
    linked queue refines a list, except that freeing its last task follows a link that may be stale.
  \<^item> \<^verbatim>\<open>Process_API\<close>: \<^verbatim>\<open>proc/ProcessAPI.cpp\<close>, \<^verbatim>\<open>proc/Task.cpp\<close>, \<^verbatim>\<open>proc/InterProcessCommunication.cpp\<close>. Shown:
    a process is found by the identifier it got, a port is registered once, and after the start of
    multitasking the first interrupt runs the kernel thread.
  \<^item> \<^verbatim>\<open>Net_Packet\<close>, \<^verbatim>\<open>Network\<close>: \<^verbatim>\<open>network/*\<close>. Addresses, byte orders, the checksum; Ethernet, ARP, IPv4, UDP,
    the DHCP client and \<^verbatim>\<open>StartNetworkStack\<close>. Shown: the checksum verifies and notices changes, sent
    packets are well-formed, a datagram reaches the handler of the last socket as it was sent when it is
    broadcast, when the receiver has no address yet or when the destination read backwards is its
    address, and is dropped otherwise, the
    ARP table (an interpretation of \<open>table\<close>) learns and answers, waiting is bounded, DHCP options
    are read back as written, and an acknowledgement configures the interface.
  \<^item> \<^verbatim>\<open>Path_Walk\<close>: \<^verbatim>\<open>libs/cwalk.c\<close>, the path library, in the Unix style. Shown: the walk over segments,
    in both directions and across joined paths, visits the segments of the text; normalisation agrees
    with a stack of segments, is idempotent and stays inside its buffer.
  \<^item> \<^verbatim>\<open>Virtual_FS\<close>: \<^verbatim>\<open>filesystem/FileSystem.cpp\<close>, over \<^verbatim>\<open>Path_Walk\<close>. The tree of nodes is a store
    indexed by address. Shown: the invariant of the trees its operations lead to; looking up ends; a path
    that is created is the path of its node and opens it.
  \<^item> \<^verbatim>\<open>File_Systems\<close>: \<^verbatim>\<open>filesystem/mountpoints/*\<close>, \<^verbatim>\<open>filesystem/fs/*\<close>. Mount points, device files, the loader of
    the start archive, recognition of volumes. Shown: every file of an archive in memory opens after
    loading with what its header says (the mode read as decimal), when no file has the name of its
    directory; reading stays inside the file; devices open under their path;
    small FAT volumes are never recognised.
  \<^item> \<^verbatim>\<open>Format_Output\<close>: \<^verbatim>\<open>libs/printf.c\<close>. Shown: every operation appends a text that does not depend on the
    target, so printing into a buffer is printing to a function cut to the size; decimal numbers and
    addresses look as specified; printing returns exactly when the format is complete and has its
    arguments.

  \<^bold>\<open>Conventions.\<close> Integers are words of their width, so that overflows of the code are in the model. The
  exceptions are offsets into strings and buffers, which are natural numbers in \<^verbatim>\<open>Path_Walk\<close>,
  \<^verbatim>\<open>Virtual_FS\<close> and \<^verbatim>\<open>Format_Output\<close>, and the counter of segments in \<^verbatim>\<open>Path_Walk\<close>, which is an unbounded integer.
  Objects with an identity (heap segments, control blocks, queue nodes, sockets) are stores indexed by
  address; where the code allocates one, the address is an argument. Memory that the code reads
  before writing it is an argument as well, never a convenient value. A call that does not come back
  is \<open>Inl Panic\<close> or \<open>Inl Halt\<close>; a loop that may run forever is a partial function with the value
  \<open>None\<close>, and the theorems that say an operation returns prove the value to be \<open>Some\<close>. Loops whose
  bound is in the code are recursive functions with a termination proof. \<^verbatim>\<open>RemoveProcess\<close> recurses over
  child processes; its first argument bounds the depth and must be at least the depth of the tree.
  An operation under a lock or in a critical section is one step. Debug output is left out.

  \<^bold>\<open>Not modelled.\<close> Device drivers, interrupt controllers, timers, descriptor tables, ACPI, SMP and the
  boot code consist of port, register and privileged instructions whose effect the sources do not
  define. The locks need a model of several processors. Of the virtual file system, \<^verbatim>\<open>Mount\<close> is left
  out, which waits for a lock it holds itself; the executable loaders work on
  images and page tables. System calls decode registers and forward. The remaining allocators, among
  them the one \<^verbatim>\<open>Kernel.cpp\<close> selects, and the headers under \<^verbatim>\<open>src/include\<close> are vendored or configuration. ICMP is not connected to the stack,
  TCP and NTP have no code. The manifest lists every part with its reason.
\<close>

end
